(* ===== verification/Prelude.thy ===== *)
theory Prelude
  imports Main "HOL-Library.Word" "HOL-Library.Monad_Syntax"
begin

text \<open>
  Shared vocabulary of the development: the machine integers of the C sources, pointers,
  the errno values the sources return, the reading of a little-endian byte sequence, and the
  generic facts about options, lists and words that the component theories use.

  Pointers are natural numbers with \<open>NULL = 0\<close>. A memory access that C leaves undefined
  (a null or dangling dereference, an access past the end of an array, taking a spin lock that is
  already held) is the value \<open>None\<close> of an operation's option result, so that every lemma
  stating \<open>= Some \<dots>\<close> also states the absence of such a fault.
\<close>

unbundle bit_operations_syntax

section \<open>Types and constants\<close>

type_synonym u8 = "8 word"
type_synonym u16 = "16 word"
type_synonym u32 = "32 word"
type_synonym u64 = "64 word"
type_synonym ptr = nat

abbreviation (input) NULL :: ptr where
  "NULL \<equiv> 0"

text \<open>The errno values used by the driver and the library (\<open>asm-generic/errno.h\<close>).\<close>

abbreviation EIO :: int where "EIO \<equiv> 5"
abbreviation EBADF :: int where "EBADF \<equiv> 9"
abbreviation EAGAIN :: int where "EAGAIN \<equiv> 11"
abbreviation ENOMEM :: int where "ENOMEM \<equiv> 12"
abbreviation EFAULT :: int where "EFAULT \<equiv> 14"
abbreviation EBUSY :: int where "EBUSY \<equiv> 16"
abbreviation EINVAL :: int where "EINVAL \<equiv> 22"
abbreviation ENOTTY :: int where "ENOTTY \<equiv> 25"
abbreviation ENOSPC :: int where "ENOSPC \<equiv> 28"
abbreviation ERANGE :: int where "ERANGE \<equiv> 34"
abbreviation ETIME :: int where "ETIME \<equiv> 62"
abbreviation EOVERFLOW :: int where "EOVERFLOW \<equiv> 75"
abbreviation ENOTSUP :: int where "ENOTSUP \<equiv> 95"

text \<open>An array write with the bounds check that C does not make: out of range is a fault.\<close>

definition arr_set :: "'a list \<Rightarrow> nat \<Rightarrow> 'a \<Rightarrow> 'a list option" where
  "arr_set xs i v = (if i < length xs then Some (xs[i := v]) else None)"

definition arr_get :: "'a list \<Rightarrow> nat \<Rightarrow> 'a option" where
  "arr_get xs i = (if i < length xs then Some (xs ! i) else None)"

text \<open>
  Loops that read, or write, the elements \<open>0 .. n - 1\<close> of an array in order: the prefix, or a
  fault when the array is shorter.
\<close>

definition arr_prefix :: "'a list \<Rightarrow> nat \<Rightarrow> 'a list option" where
  "arr_prefix xs n = (if n \<le> length xs then Some (take n xs) else None)"

definition arr_store :: "'a list \<Rightarrow> 'a list \<Rightarrow> 'a list option" where
  "arr_store xs ys = (if length ys \<le> length xs then Some (ys @ drop (length ys) xs) else None)"

definition arr_fill :: "'a list \<Rightarrow> nat \<Rightarrow> 'a \<Rightarrow> 'a list option" where
  "arr_fill xs n v = (if n \<le> length xs then Some (replicate n v @ drop n xs) else None)"

section \<open>Collections of simplification rules\<close>

named_theorems fault_simps \<open>unfolding the memory primitives of the model\<close>

declare arr_set_def [fault_simps] arr_get_def [fault_simps]

section \<open>Options\<close>

lemma bind_eq_Some [simp]: "(Option.bind x f = Some y) = (\<exists>a. x = Some a \<and> f a = Some y)"
  by (cases x) auto

lemma bind_eq_None: "(Option.bind x f = None) = (x = None \<or> (\<exists>a. x = Some a \<and> f a = None))"
  by (cases x) auto

section \<open>Lists\<close>

lemma arr_set_SomeI: "i < length xs \<Longrightarrow> arr_set xs i v = Some (xs[i := v])"
  by (simp add: arr_set_def)

lemma arr_get_SomeI: "i < length xs \<Longrightarrow> arr_get xs i = Some (xs ! i)"
  by (simp add: arr_get_def)

lemma arr_prefix_Some: "arr_prefix xs n = Some ys \<longleftrightarrow> n \<le> length xs \<and> ys = take n xs"
  by (auto simp: arr_prefix_def)

lemma arr_store_Some: "arr_store xs ys = Some zs \<longleftrightarrow> length ys \<le> length xs \<and> zs = ys @ drop (length ys) xs"
  by (auto simp: arr_store_def)

lemma remove1_middle: "x \<notin> set xs \<Longrightarrow> remove1 x (xs @ x # ys) = xs @ ys"
  by (simp add: remove1_append)

lemma find_Some_set: "List.find P xs = Some x \<Longrightarrow> x \<in> set xs \<and> P x"
  by (auto simp: find_Some_iff)

section \<open>Words\<close>

lemma mask_alignment:
  fixes w :: "'a::len word"
  shows "w AND NOT (mask n) = push_bit n (drop_bit n w)"
  by (rule bit_word_eqI) (auto simp: bit_simps)

lemma unat_align_down:
  fixes w :: "'a::len word"
  shows "unat (w AND NOT (mask n)) = unat w div 2 ^ n * 2 ^ n"
proof -
  have "unat (push_bit n (drop_bit n w)) = take_bit LENGTH('a) (push_bit n (drop_bit n (unat w)))"
    by (simp add: unsigned_push_bit_eq unsigned_drop_bit_eq take_bit_nat_eq_self [OF unsigned_less])
  also have "push_bit n (drop_bit n (unat w)) = unat w div 2 ^ n * 2 ^ n"
    by (simp add: push_bit_eq_mult drop_bit_eq_div)
  also have "take_bit LENGTH('a) (unat w div 2 ^ n * 2 ^ n) = unat w div 2 ^ n * 2 ^ n"
    by (rule take_bit_nat_eq_self) (metis div_times_less_eq_dividend le_less_trans unsigned_less)
  finally show ?thesis
    by (simp add: mask_alignment)
qed

lemma unat_bound: "unat w < 2 ^ LENGTH('a)" for w :: "'a::len word"
  by (rule unsigned_less)

lemma unat_inc:
  fixes i e :: "'a::len word"
  assumes "i < e"
  shows "unat (i + 1) = Suc (unat i)"
proof -
  have "unat i < unat e" using assms by (simp add: word_less_nat_alt)
  moreover have "unat e < 2 ^ LENGTH('a)" by (rule unsigned_less)
  ultimately have "unat i + 1 < 2 ^ LENGTH('a)" by linarith
  then show ?thesis by (simp add: unat_word_ariths)
qed

lemma unat_less_iff: "i < e \<longleftrightarrow> unat i < unat e" for i e :: "'a::len word"
  by (rule word_less_nat_alt)

lemma unat_le_iff: "i \<le> e \<longleftrightarrow> unat i \<le> unat e" for i e :: "'a::len word"
  by (rule word_le_nat_alt)

lemma unat_ucast_32_64 [simp]: "unat (ucast (w :: u32) :: u64) = unat w"
proof -
  have "unat w < 2 ^ 32" using unsigned_less [of w] by simp
  then have "unat w < 2 ^ 64" by (rule less_trans) simp
  then show ?thesis by (simp add: unsigned_ucast_eq take_bit_nat_eq_self)
qed

end
