(* ===== verification/Drv_List.thy ===== *)
theory Drv_List
  imports Prelude
begin

text \<open>
  The intrusive, circular, doubly linked list of the kernel module (\<open>drv/list.h\<close>,
  \<open>drv/list.c\<close>). A list is identified with the address of its head node, since
  \<open>head\<close> is the first member of \<open>struct list\<close>; the nodes of \<open>struct ctrl\<close> and
  \<open>struct map\<close> are the first members of their containers, so \<open>container_of\<close> is the
  identity on addresses. The heap is explicit: \<open>nodes\<close> maps the address of every live node to
  its three fields and \<open>held\<close> says which spin locks are taken.

  The theory shows that the pointer operations refine operations on a HOL list (append on
  insertion, \<open>remove1\<close> on removal), that they never fault on a well-formed list and leave the
  lock free, and that the traversal idiom of the driver is \<^const>\<open>List.find\<close>. The contract that
  the controller and mapping components rely on is the locale \<open>intrusive_list\<close>.
\<close>

section \<open>The list heap\<close>

record list_node =
  node_list :: ptr
  node_next :: ptr
  node_prev :: ptr

record lmem =
  nodes :: "ptr \<rightharpoonup> list_node"
  held :: "ptr \<Rightarrow> bool"

definition node_at :: "lmem \<Rightarrow> ptr \<Rightarrow> list_node option" where
  "node_at m p = (if p = NULL then None else nodes m p)"

definition node_upd :: "ptr \<Rightarrow> (list_node \<Rightarrow> list_node) \<Rightarrow> lmem \<Rightarrow> lmem option" where
  "node_upd p f m = do {
     n \<leftarrow> node_at m p;
     Some (m\<lparr>nodes := (nodes m)(p \<mapsto> f n)\<rparr>) }"

definition spin_lock :: "ptr \<Rightarrow> lmem \<Rightarrow> lmem option" where
  "spin_lock l m =
     (if l = NULL \<or> held m l then None else Some (m\<lparr>held := (held m)(l := True)\<rparr>))"

definition spin_unlock :: "ptr \<Rightarrow> lmem \<Rightarrow> lmem option" where
  "spin_unlock l m = (if l = NULL then None else Some (m\<lparr>held := (held m)(l := False)\<rparr>))"

text \<open>Allocating and freeing the object that contains a node.\<close>

definition node_alloc :: "ptr \<Rightarrow> lmem \<Rightarrow> lmem" where
  "node_alloc p m =
     m\<lparr>nodes := (nodes m)(p \<mapsto> \<lparr>node_list = NULL, node_next = NULL, node_prev = NULL\<rparr>)\<rparr>"

definition node_free :: "ptr \<Rightarrow> lmem \<Rightarrow> lmem" where
  "node_free p m = m\<lparr>nodes := (nodes m)(p := None)\<rparr>"

section \<open>Operations\<close>

definition list_node_init :: "ptr \<Rightarrow> lmem \<Rightarrow> lmem option" where
  "list_node_init element m = do {
     m \<leftarrow> node_upd element (\<lambda>n. n\<lparr>node_list := NULL\<rparr>) m;
     m \<leftarrow> node_upd element (\<lambda>n. n\<lparr>node_next := NULL\<rparr>) m;
     node_upd element (\<lambda>n. n\<lparr>node_prev := NULL\<rparr>) m }"

definition list_next :: "ptr \<Rightarrow> lmem \<Rightarrow> ptr option" where
  "list_next current m = do {
     n \<leftarrow> node_at m current;
     Some (if node_next n \<noteq> node_list n then node_next n else NULL) }"

definition list_init :: "ptr \<Rightarrow> lmem \<Rightarrow> lmem option" where
  "list_init l m = do {
     m \<leftarrow> node_upd l (\<lambda>n. n\<lparr>node_list := l\<rparr>) m;
     m \<leftarrow> node_upd l (\<lambda>n. n\<lparr>node_prev := l\<rparr>) m;
     m \<leftarrow> node_upd l (\<lambda>n. n\<lparr>node_next := l\<rparr>) m;
     Some (m\<lparr>held := (held m)(l := False)\<rparr>) }"

definition list_remove :: "ptr \<Rightarrow> lmem \<Rightarrow> lmem option" where
  "list_remove element m =
     (if element = NULL then Some m
      else do {
        n \<leftarrow> node_at m element;
        if node_list n \<noteq> NULL \<and> element \<noteq> node_list n
        then do {
          m \<leftarrow> spin_lock (node_list n) m;
          m \<leftarrow> node_upd (node_prev n) (\<lambda>p. p\<lparr>node_next := node_next n\<rparr>) m;
          m \<leftarrow> node_upd (node_next n) (\<lambda>s. s\<lparr>node_prev := node_prev n\<rparr>) m;
          m \<leftarrow> spin_unlock (node_list n) m;
          m \<leftarrow> node_upd element (\<lambda>n. n\<lparr>node_list := NULL\<rparr>) m;
          m \<leftarrow> node_upd element (\<lambda>n. n\<lparr>node_next := NULL\<rparr>) m;
          node_upd element (\<lambda>n. n\<lparr>node_prev := NULL\<rparr>) m }
        else Some m })"

definition list_insert :: "ptr \<Rightarrow> ptr \<Rightarrow> lmem \<Rightarrow> lmem option" where
  "list_insert l element m = do {
     m \<leftarrow> spin_lock l m;
     h \<leftarrow> node_at m l;
     let last = node_prev h;
     m \<leftarrow> node_upd last (\<lambda>n. n\<lparr>node_next := element\<rparr>) m;
     m \<leftarrow> node_upd element (\<lambda>n. n\<lparr>node_list := l\<rparr>) m;
     m \<leftarrow> node_upd element (\<lambda>n. n\<lparr>node_prev := last\<rparr>) m;
     m \<leftarrow> node_upd element (\<lambda>n. n\<lparr>node_next := l\<rparr>) m;
     m \<leftarrow> node_upd l (\<lambda>n. n\<lparr>node_prev := element\<rparr>) m;
     spin_unlock l m }"

text \<open>
  The traversal idiom of the driver: starting at a node, follow \<open>list_next\<close> until a test
  holds or the end is reached. The loop is a partial function, since on a corrupted heap it may not
  return; \<open>Some NULL\<close> is \<open>return NULL\<close>.
\<close>

partial_function (option) list_search ::
  "(ptr \<Rightarrow> bool option) \<Rightarrow> (ptr \<Rightarrow> ptr option) \<Rightarrow> ptr \<Rightarrow> ptr option" where
  "list_search test nxt element =
     (if element = NULL then Some NULL
      else do {
        b \<leftarrow> test element;
        if b then Some element
        else do {
          element' \<leftarrow> nxt element;
          list_search test nxt element' } })"

text \<open>
  The second shape: a loop over the whole list that carries a state, with an early exit
  (\<open>Inl\<close>).
\<close>

partial_function (option) list_iter ::
  "(ptr \<Rightarrow> 's \<Rightarrow> ('r + 's) option) \<Rightarrow> (ptr \<Rightarrow> ptr option) \<Rightarrow> ptr \<Rightarrow> 's \<Rightarrow> ('r + 's) option" where
  "list_iter step nxt element st =
     (if element = NULL then Some (Inr st)
      else do {
        r \<leftarrow> step element st;
        case r of
          Inl x \<Rightarrow> Some (Inl x)
        | Inr st' \<Rightarrow> do {
            element' \<leftarrow> nxt element;
            list_iter step nxt element' st' } })"

primrec iter_fold :: "(ptr \<Rightarrow> 's \<Rightarrow> ('r + 's) option) \<Rightarrow> ptr list \<Rightarrow> 's \<Rightarrow> ('r + 's) option" where
  "iter_fold step [] st = Some (Inr st)"
| "iter_fold step (x # xs) st = do {
     r \<leftarrow> step x st;
     case r of Inl y \<Rightarrow> Some (Inl y) | Inr st' \<Rightarrow> iter_fold step xs st' }"

section \<open>The well-formed lists\<close>

text \<open>
  \<open>chain nx pv p xs q\<close>: following \<open>nx\<close> from \<open>p\<close> visits exactly \<open>xs\<close> and arrives
  at \<open>q\<close>, and \<open>pv\<close> walks the same way back.
\<close>

fun chain :: "(ptr \<Rightarrow> ptr) \<Rightarrow> (ptr \<Rightarrow> ptr) \<Rightarrow> ptr \<Rightarrow> ptr list \<Rightarrow> ptr \<Rightarrow> bool" where
  "chain nx pv p [] q \<longleftrightarrow> nx p = q \<and> pv q = p"
| "chain nx pv p (x # xs) q \<longleftrightarrow> nx p = x \<and> pv x = p \<and> chain nx pv x xs q"

definition nx :: "lmem \<Rightarrow> ptr \<Rightarrow> ptr" where
  "nx m p = (case nodes m p of None \<Rightarrow> NULL | Some n \<Rightarrow> node_next n)"

definition pv :: "lmem \<Rightarrow> ptr \<Rightarrow> ptr" where
  "pv m p = (case nodes m p of None \<Rightarrow> NULL | Some n \<Rightarrow> node_prev n)"

definition in_list :: "lmem \<Rightarrow> ptr \<Rightarrow> ptr \<Rightarrow> bool" where
  "in_list m l p \<longleftrightarrow> (case nodes m p of None \<Rightarrow> False | Some n \<Rightarrow> node_list n = l)"

definition dlist :: "lmem \<Rightarrow> ptr \<Rightarrow> ptr list \<Rightarrow> bool" where
  "dlist m l xs \<longleftrightarrow>
     NULL \<notin> set (l # xs) \<and> distinct (l # xs) \<and> list_all (in_list m l) (l # xs) \<and>
     chain (nx m) (pv m) l xs l \<and> \<not> held m l"

section \<open>Facts about chains\<close>

lemma chain_append:
  "chain n p a (xs @ x # ys) b \<longleftrightarrow> chain n p a xs x \<and> chain n p x ys b"
  by (induction xs arbitrary: a) auto

lemma chain_last: "chain n p a xs b \<Longrightarrow> p b = last (a # xs)"
  by (induction xs arbitrary: a) auto

lemma chain_first: "chain n p a xs b \<Longrightarrow> n a = hd (xs @ [b])"
  by (cases xs) auto

lemma chain_cong:
  "(\<And>x. x \<in> set (a # xs) \<Longrightarrow> n x = n' x) \<Longrightarrow> (\<And>x. x \<in> set (xs @ [b]) \<Longrightarrow> p x = p' x) \<Longrightarrow>
   chain n p a xs b = chain n' p' a xs b"
  by (induction xs arbitrary: a) auto

lemma chain_redirect_end:
  assumes "chain n p a xs b"
    and "n' (last (a # xs)) = c" "p' c = last (a # xs)"
    and "\<And>x. x \<in> set (butlast (a # xs)) \<Longrightarrow> n' x = n x" "\<And>x. x \<in> set xs \<Longrightarrow> p' x = p x"
  shows "chain n' p' a xs c"
  using assms by (induction xs arbitrary: a) (auto split: if_splits)

lemma chain_snoc:
  assumes "chain n p a xs b"
    and "n' (last (a # xs)) = e" "p' e = last (a # xs)" "n' e = b" "p' b = e"
    and "\<And>x. x \<in> set (butlast (a # xs)) \<Longrightarrow> n' x = n x" "\<And>x. x \<in> set xs \<Longrightarrow> p' x = p x"
  shows "chain n' p' a (xs @ [e]) b"
  using assms chain_redirect_end [OF assms(1), of n' e p'] by (simp add: chain_append)

lemma last_notin_butlast: "distinct (a # xs) \<Longrightarrow> last (a # xs) \<notin> set (butlast (a # xs))"
  by (metis append_butlast_last_id distinct_append disjoint_iff list.discI list.set_intros(1))

lemma chain_unlink:
  assumes "chain n p l (as @ e # bs) l" "distinct (l # as @ e # bs)"
    and "n' (last (l # as)) = hd (bs @ [l])" "p' (hd (bs @ [l])) = last (l # as)"
    and "\<And>x. x \<in> set (butlast (l # as) @ bs) \<Longrightarrow> n' x = n x"
    and "\<And>x. x \<in> set (as @ tl (bs @ [l])) \<Longrightarrow> p' x = p x"
  shows "chain n' p' l (as @ bs) l"
proof -
  from assms(1) have a: "chain n p l as e" and b: "chain n p e bs l"
    by (auto simp: chain_append)
  have left: "chain n' p' l as (hd (bs @ [l]))"
    using a assms(3-6) by (rule_tac chain_redirect_end) auto
  show ?thesis
  proof (cases bs)
    case Nil
    with left show ?thesis by simp
  next
    case (Cons c cs)
    have "chain n p c cs l = chain n' p' c cs l"
      using assms(5,6) Cons by (intro chain_cong) auto
    with b Cons left show ?thesis by (simp add: chain_append)
  qed
qed

section \<open>Refinement of the pointer operations\<close>

lemmas list_fault_simps = node_at_def node_upd_def spin_lock_def spin_unlock_def

lemma dlistD:
  assumes "dlist m l xs"
  shows "NULL \<notin> set (l # xs)" "distinct (l # xs)" "list_all (in_list m l) (l # xs)"
    "chain (nx m) (pv m) l xs l" "\<not> held m l"
  using assms by (simp_all only: dlist_def not_False_eq_True)

lemma dlistI:
  "NULL \<notin> set (l # xs) \<Longrightarrow> distinct (l # xs) \<Longrightarrow> list_all (in_list m l) (l # xs) \<Longrightarrow>
   chain (nx m) (pv m) l xs l \<Longrightarrow> \<not> held m l \<Longrightarrow> dlist m l xs"
  by (simp only: dlist_def not_False_eq_True)

lemma dlist_node:
  assumes "dlist m l xs" "x \<in> set (l # xs)"
  shows "\<exists>n. nodes m x = Some n \<and> node_list n = l \<and> x \<noteq> NULL"
proof -
  have "in_list m l x" using assms by (auto simp: dlist_def list_all_iff)
  moreover have "x \<noteq> NULL" using assms by (metis dlist_def)
  ultimately show ?thesis by (simp add: in_list_def split: option.splits)
qed

lemma dlist_cong:
  assumes "dlist m l xs" "\<And>x. x \<in> set (l # xs) \<Longrightarrow> nodes m' x = nodes m x" "held m' l = held m l"
  shows "dlist m' l xs"
proof -
  have "chain (nx m) (pv m) l xs l = chain (nx m') (pv m') l xs l"
    by (rule chain_cong) (auto simp: nx_def pv_def assms(2))
  moreover have "\<And>x. x \<in> set (l # xs) \<Longrightarrow> in_list m' l x = in_list m l x"
    by (simp only: in_list_def assms(2))
  then have "list_all (in_list m' l) (l # xs) = list_all (in_list m l) (l # xs)"
    by (simp only: list_all_iff cong: ball_cong)
  ultimately show ?thesis using dlistD [OF assms(1)] assms(3) by (intro dlistI) simp_all
qed

lemma dlist_last: "dlist m l xs \<Longrightarrow> pv m l = last (l # xs)"
  using chain_last [of "nx m" "pv m" l xs l] by (simp add: dlist_def)

lemma dlist_first: "dlist m l xs \<Longrightarrow> nx m l = hd (xs @ [l])"
  using chain_first [of "nx m" "pv m" l xs l] by (simp add: dlist_def)

lemma list_insert_refines:
  assumes d: "dlist m l xs" and e: "e \<notin> set (l # xs)" "e \<noteq> NULL" "nodes m e = Some ne"
  shows "\<exists>m'. list_insert l e m = Some m' \<and> dlist m' l (xs @ [e]) \<and> held m' = held m \<and>
    dom (nodes m') = dom (nodes m) \<and> (\<forall>x. x \<notin> set (l # e # xs) \<longrightarrow> nodes m' x = nodes m x)"
proof -
  obtain z where z: "z = last (l # xs)" by simp
  have zin: "z \<in> set (l # xs)" unfolding z by (rule last_in_set) simp
  obtain nl where nl: "nodes m l = Some nl" "node_list nl = l" "l \<noteq> NULL"
    using dlist_node [OF d, of l] by auto
  obtain nz where nz: "nodes m z = Some nz" "node_list nz = l" "z \<noteq> NULL"
    using dlist_node [OF d zin] by blast
  have prev: "node_prev nl = z" using dlist_last [OF d] nl z by (simp add: pv_def)
  have lock: "\<not> held m l" and dist: "distinct (l # xs)" and null: "NULL \<notin> set (l # xs)"
    and ch: "chain (nx m) (pv m) l xs l" and mem: "list_all (in_list m l) (l # xs)"
    using dlistD [OF d] by simp_all
  have ez: "e \<noteq> z" "e \<noteq> l" using e zin by auto
  have zl: "z = l \<Longrightarrow> nz = nl" using nl nz by simp
  define N where "N = (nodes m)(z \<mapsto> nz\<lparr>node_next := e\<rparr>,
      e \<mapsto> ne\<lparr>node_list := l, node_prev := z, node_next := l\<rparr>,
      l \<mapsto> (if z = l then nz\<lparr>node_next := e\<rparr> else nl)\<lparr>node_prev := e\<rparr>)"
  define m' where "m' = m\<lparr>nodes := N\<rparr>"
  have hl: "(held m)(l := False) = held m" using lock by (simp add: fun_upd_idem)
  have ins: "list_insert l e m = Some m'"
    using nl nz e ez lock prev hl unfolding list_insert_def N_def m'_def
    by (simp add: list_fault_simps)
  have nx: "nx m' x = (if x = e then l else if x = z then e else nx m x)" for x
    using nl nz ez zl by (auto simp: nx_def m'_def N_def)
  have pv: "pv m' x = (if x = l then e else if x = e then z else pv m x)" for x
    using nl nz ez zl by (auto simp: pv_def m'_def N_def)
  have "chain (nx m') (pv m') l (xs @ [e]) l"
  proof (rule chain_snoc [OF ch])
    show "nx m' x = nx m x" if "x \<in> set (butlast (l # xs))" for x
    proof -
      have "x \<noteq> z" using last_notin_butlast [OF dist] that z by metis
      moreover have "x \<noteq> e" using in_set_butlastD [OF that] e(1) by metis
      ultimately show ?thesis by (simp add: nx)
    qed
  qed (use e ez dist in \<open>auto simp: nx pv z\<close>)
  moreover have "list_all (in_list m' l) (l # xs @ [e])"
    using mem nl nz ez e by (auto simp: in_list_def m'_def N_def list_all_iff)
  ultimately have "dlist m' l (xs @ [e])"
    using e dist null lock by (intro dlistI) (simp_all add: m'_def)
  moreover have "dom (nodes m') = dom (nodes m)"
    using nl nz e by (auto simp: m'_def N_def split: if_splits)
  moreover have "nodes m' x = nodes m x" if "x \<notin> set (l # e # xs)" for x
    using that zin by (auto simp: m'_def N_def)
  ultimately show ?thesis using ins by (auto simp: m'_def)
qed

lemma list_remove_refines:
  assumes d: "dlist m l (as @ e # bs)"
  shows "\<exists>m'. list_remove e m = Some m' \<and> dlist m' l (as @ bs) \<and> held m' = held m \<and>
    dom (nodes m') = dom (nodes m) \<and>
    nodes m' e = Some \<lparr>node_list = NULL, node_next = NULL, node_prev = NULL\<rparr> \<and>
    (\<forall>x. x \<notin> set (l # as @ e # bs) \<longrightarrow> nodes m' x = nodes m x)"
proof -
  note D = dlistD [OF d]
  define a where "a = last (l # as)"
  define b where "b = hd (bs @ [l])"
  have ain: "a \<in> set (l # as)" unfolding a_def by (rule last_in_set) simp
  have bin: "b \<in> set (l # bs)" unfolding b_def by (cases bs) auto
  have ab: "a \<noteq> e" "b \<noteq> e" "e \<noteq> l" using D(2) ain bin by auto
  obtain ne where ne: "nodes m e = Some ne" "node_list ne = l" "e \<noteq> NULL"
    using dlist_node [OF d, of e] by auto
  obtain na where na: "nodes m a = Some na" "node_list na = l" "a \<noteq> NULL"
    using dlist_node [OF d, of a] ain by auto
  obtain nb where nb: "nodes m b = Some nb" "node_list nb = l" "b \<noteq> NULL"
    using dlist_node [OF d, of b] bin by auto
  have cl: "chain (nx m) (pv m) l as e" and cr: "chain (nx m) (pv m) e bs l"
    using D(4) by (simp_all add: chain_append)
  have links: "node_prev ne = a" "node_next ne = b"
    using chain_last [OF cl] chain_first [OF cr] ne by (simp_all add: a_def b_def nx_def pv_def)
  have nl: "l \<noteq> NULL" using D(1) by auto
  define N where "N = (nodes m)(a \<mapsto> na\<lparr>node_next := b\<rparr>,
      b \<mapsto> (if a = b then na\<lparr>node_next := b\<rparr> else nb)\<lparr>node_prev := a\<rparr>,
      e \<mapsto> ne\<lparr>node_list := NULL, node_next := NULL, node_prev := NULL\<rparr>)"
  define m' where "m' = m\<lparr>nodes := N\<rparr>"
  have hl: "(held m)(l := False) = held m" using D(5) by (simp add: fun_upd_idem)
  have rem: "list_remove e m = Some m'"
    using ne na nb ab links hl D(5) nl unfolding list_remove_def N_def m'_def
    by (simp add: list_fault_simps)
  have eqab: "a = b \<Longrightarrow> nb = na" using na nb by simp
  have nx: "nx m' x = (if x = e then NULL else if x = a then b else nx m x)" for x
    using ne na nb ab eqab by (auto simp: nx_def m'_def N_def)
  have pv: "pv m' x = (if x = e then NULL else if x = b then a else pv m x)" for x
    using ne na nb ab eqab by (auto simp: pv_def m'_def N_def)
  have "chain (nx m') (pv m') l (as @ bs) l"
  proof (rule chain_unlink [OF D(4,2)])
    show "nx m' x = nx m x" if "x \<in> set (butlast (l # as) @ bs)" for x
    proof -
      have "x \<noteq> a" using last_notin_butlast [of l as] that D(2) ain unfolding a_def by auto
      moreover have "x \<noteq> e" using that D(2) by (auto dest: in_set_butlastD split: if_splits)
      ultimately show ?thesis by (simp add: nx)
    qed
    show "pv m' x = pv m x" if "x \<in> set (as @ tl (bs @ [l]))" for x
      using that D(2) bin unfolding pv b_def by (cases bs) auto
  qed (use ab in \<open>auto simp: nx pv a_def b_def\<close>)
  moreover have "list_all (in_list m' l) (l # as @ bs)"
    using D(2,3) na nb ab eqab by (auto simp: in_list_def m'_def N_def list_all_iff)
  ultimately have "dlist m' l (as @ bs)"
    using D(1,2,5) by (intro dlistI) (simp_all add: m'_def)
  moreover have "dom (nodes m') = dom (nodes m)"
    using ne na nb by (auto simp: m'_def N_def split: if_splits)
  moreover have "nodes m' x = nodes m x" if "x \<notin> set (l # as @ e # bs)" for x
    using that ain bin by (auto simp: m'_def N_def)
  ultimately show ?thesis using rem by (simp add: m'_def N_def)
qed

lemma list_init_refines:
  assumes "nodes m l = Some n" "l \<noteq> NULL"
  shows "\<exists>m'. list_init l m = Some m' \<and> dlist m' l [] \<and>
    dom (nodes m') = dom (nodes m) \<and> (\<forall>x. x \<noteq> l \<longrightarrow> nodes m' x = nodes m x \<and> held m' x = held m x)"
  using assms
  by (auto simp: list_init_def list_fault_simps dlist_def in_list_def nx_def pv_def)

lemma list_next_refines:
  assumes d: "dlist m l (as @ e # bs)"
  shows "list_next e m = Some (case bs of [] \<Rightarrow> NULL | b # _ \<Rightarrow> b)"
proof -
  note D = dlistD [OF d]
  obtain ne where ne: "nodes m e = Some ne" "node_list ne = l" "e \<noteq> NULL"
    using dlist_node [OF d, of e] by auto
  have "chain (nx m) (pv m) e bs l" using D(4) by (simp add: chain_append)
  from chain_first [OF this] have "node_next ne = hd (bs @ [l])" using ne by (simp add: nx_def)
  then show ?thesis using ne D(2) by (cases bs) (auto simp: list_next_def list_fault_simps)
qed

lemma list_next_head:
  assumes d: "dlist m l xs"
  shows "list_next l m = Some (case xs of [] \<Rightarrow> NULL | x # _ \<Rightarrow> x)"
proof -
  note D = dlistD [OF d]
  obtain nl where nl: "nodes m l = Some nl" "node_list nl = l" "l \<noteq> NULL"
    using dlist_node [OF d, of l] by auto
  then have "node_next nl = hd (xs @ [l])" using dlist_first [OF d] by (simp add: nx_def)
  then show ?thesis using nl D(2) by (cases xs) (auto simp: list_next_def list_fault_simps)
qed


section \<open>The contract of the list, for its clients\<close>

text \<open>
  What \<open>ctrl.c\<close>, \<open>map.c\<close> and \<open>pci.c\<close> rely on: the list denotes a sequence of distinct
  non-null addresses of live nodes; insertion appends, removal deletes, both leave every disjoint
  list alone and neither allocates nor frees nodes; \<open>lnext\<close> enumerates the sequence.
\<close>

locale intrusive_list =
  fixes seq :: "'m \<Rightarrow> ptr \<Rightarrow> ptr list \<Rightarrow> bool"
    and cell :: "'m \<Rightarrow> ptr \<Rightarrow> bool"
    and linsert :: "ptr \<Rightarrow> ptr \<Rightarrow> 'm \<Rightarrow> 'm option"
    and lremove :: "ptr \<Rightarrow> 'm \<Rightarrow> 'm option"
    and lnext :: "ptr \<Rightarrow> 'm \<Rightarrow> ptr option"
  assumes seq_distinct: "seq m l xs \<Longrightarrow> distinct (l # xs)"
    and seq_nonnull: "seq m l xs \<Longrightarrow> NULL \<notin> set (l # xs)"
    and seq_cell: "seq m l xs \<Longrightarrow> x \<in> set (l # xs) \<Longrightarrow> cell m x"
    and next_first: "seq m l xs \<Longrightarrow> lnext l m = Some (case xs of [] \<Rightarrow> NULL | x # _ \<Rightarrow> x)"
    and next_elem: "seq m l (as @ e # bs) \<Longrightarrow> lnext e m = Some (case bs of [] \<Rightarrow> NULL | x # _ \<Rightarrow> x)"
    and insert_law: "seq m l xs \<Longrightarrow> cell m e \<Longrightarrow> e \<noteq> NULL \<Longrightarrow> e \<notin> set (l # xs) \<Longrightarrow>
      \<exists>m'. linsert l e m = Some m' \<and> seq m' l (xs @ [e]) \<and> cell m' = cell m \<and>
        (\<forall>k ys. seq m k ys \<longrightarrow> set (k # ys) \<inter> set (l # e # xs) = {} \<longrightarrow> seq m' k ys)"
    and remove_law: "seq m l (as @ e # bs) \<Longrightarrow>
      \<exists>m'. lremove e m = Some m' \<and> seq m' l (as @ bs) \<and> cell m' = cell m \<and>
        (\<forall>k ys. seq m k ys \<longrightarrow> set (k # ys) \<inter> set (l # as @ e # bs) = {} \<longrightarrow> seq m' k ys)"
begin

lemma search_from:
  assumes "seq m l (as @ bs)" "\<And>x. x \<in> set bs \<Longrightarrow> test x = Some (P x)"
  shows "list_search test (\<lambda>x. lnext x m) (case bs of [] \<Rightarrow> NULL | x # _ \<Rightarrow> x) =
    Some (case List.find P bs of None \<Rightarrow> NULL | Some x \<Rightarrow> x)"
  using assms
proof (induction bs arbitrary: as)
  case Nil
  then show ?case by (simp add: list_search.simps)
next
  case (Cons b bs)
  have "b \<noteq> NULL" using seq_nonnull [OF Cons.prems(1)] by auto
  moreover have "lnext b m = Some (case bs of [] \<Rightarrow> NULL | x # _ \<Rightarrow> x)"
    by (rule next_elem [OF Cons.prems(1)])
  moreover have "list_search test (\<lambda>x. lnext x m) (case bs of [] \<Rightarrow> NULL | x # _ \<Rightarrow> x) =
    Some (case List.find P bs of None \<Rightarrow> NULL | Some x \<Rightarrow> x)"
    using Cons.prems by (intro Cons.IH [of "as @ [b]"]) auto
  ultimately show ?case
    using Cons.prems(2) [of b] by (subst list_search.simps) auto
qed

lemma search_is_find:
  assumes "seq m l xs" "\<And>x. x \<in> set xs \<Longrightarrow> test x = Some (P x)"
  shows "Option.bind (lnext l m) (list_search test (\<lambda>x. lnext x m)) =
    Some (case List.find P xs of None \<Rightarrow> NULL | Some x \<Rightarrow> x)"
  using search_from [of m l "[]" xs test P] assms by (simp add: next_first)

lemma iter_from:
  assumes "seq m l (as @ bs)"
  shows "list_iter step (\<lambda>x. lnext x m) (case bs of [] \<Rightarrow> NULL | x # _ \<Rightarrow> x) st = iter_fold step bs st"
  using assms
proof (induction bs arbitrary: as st)
  case Nil
  then show ?case by (simp add: list_iter.simps)
next
  case (Cons b bs)
  have "b \<noteq> NULL" using seq_nonnull [OF Cons.prems] by auto
  moreover have "lnext b m = Some (case bs of [] \<Rightarrow> NULL | x # _ \<Rightarrow> x)"
    by (rule next_elem [OF Cons.prems])
  moreover have "list_iter step (\<lambda>x. lnext x m) (case bs of [] \<Rightarrow> NULL | x # _ \<Rightarrow> x) st' =
      iter_fold step bs st'" for st'
    using Cons.prems by (intro Cons.IH [of "as @ [b]"]) simp
  ultimately show ?case
    by (subst list_iter.simps) (auto intro!: Option.bind_cong split: sum.split)
qed

lemma iter_is_fold:
  assumes "seq m l xs"
  shows "Option.bind (lnext l m) (\<lambda>e. list_iter step (\<lambda>x. lnext x m) e st) = iter_fold step xs st"
  using iter_from [of m l "[]" xs step st] assms by (simp add: next_first)

lemma iter_bind:
  assumes "seq m l xs"
  shows "Option.bind (lnext l m) (\<lambda>e. Option.bind (list_iter step (\<lambda>x. lnext x m) e st) k) =
    Option.bind (iter_fold step xs st) k"
  using iter_from [of m l "[]" xs step st] assms by (simp add: next_first)

lemma remove_member:
  assumes "seq m l xs" "e \<in> set xs"
  shows "\<exists>m'. lremove e m = Some m' \<and> seq m' l (remove1 e xs) \<and> cell m' = cell m \<and>
    (\<forall>k ys. seq m k ys \<longrightarrow> set (k # ys) \<inter> set (l # xs) = {} \<longrightarrow> seq m' k ys)"
proof -
  obtain as bs where xs: "xs = as @ e # bs" and "e \<notin> set as"
    using assms(2) by (metis split_list_first)
  then have "remove1 e xs = as @ bs" by (simp add: remove1_middle)
  then show ?thesis using remove_law [of m l as e bs] assms(1) xs by simp
qed

lemma insert_then_remove:
  assumes "seq m l xs" "cell m e" "e \<noteq> NULL" "e \<notin> set (l # xs)"
  shows "\<exists>m1 m2. linsert l e m = Some m1 \<and> lremove e m1 = Some m2 \<and> seq m2 l xs"
proof -
  obtain m1 where "linsert l e m = Some m1" "seq m1 l (xs @ [e])"
    using insert_law [OF assms] by blast
  moreover from remove_law [of m1 l xs e "[]"] this(2) obtain m2
    where "lremove e m1 = Some m2" "seq m2 l xs" by auto
  ultimately show ?thesis by blast
qed

end

interpretation dl: intrusive_list dlist "\<lambda>m p. p \<in> dom (nodes m)" list_insert list_remove list_next
proof (unfold_locales, goal_cases)
  case (1 m l xs) then show ?case by (rule dlistD)
next
  case (2 m l xs) then show ?case by (rule dlistD)
next
  case (3 m l xs x) then show ?case using dlist_node [of m l xs x] by auto
next
  case (4 m l xs) then show ?case by (rule list_next_head)
next
  case (5 m l as e bs) then show ?case by (rule list_next_refines)
next
  case (6 m l xs e)
  then obtain ne where "nodes m e = Some ne" by auto
  from list_insert_refines [OF 6(1,4,3) this] obtain m' where
    m': "list_insert l e m = Some m'" "dlist m' l (xs @ [e])" "held m' = held m"
      "dom (nodes m') = dom (nodes m)" "\<forall>x. x \<notin> set (l # e # xs) \<longrightarrow> nodes m' x = nodes m x"
    by blast
  have "dlist m' k ys" if "dlist m k ys" "set (k # ys) \<inter> set (l # e # xs) = {}" for k ys
    using dlist_cong [OF that(1)] that(2) m'(3,5) by (metis disjoint_iff)
  with m' show ?case by auto
next
  case (7 m l as e bs)
  from list_remove_refines [OF this] obtain m' where
    m': "list_remove e m = Some m'" "dlist m' l (as @ bs)" "held m' = held m"
      "dom (nodes m') = dom (nodes m)" "\<forall>x. x \<notin> set (l # as @ e # bs) \<longrightarrow> nodes m' x = nodes m x"
    by blast
  have "dlist m' k ys" if "dlist m k ys" "set (k # ys) \<inter> set (l # as @ e # bs) = {}" for k ys
    using dlist_cong [OF that(1)] that(2) m'(3,5) by (metis disjoint_iff)
  with m' show ?case by auto
qed
section \<open>Several disjoint lists over one heap\<close>

text \<open>
  \<open>lists_wf m ls\<close>: the heap holds exactly the given lists, each with its members, and no node
  outside them.
\<close>

definition cells :: "(ptr \<times> ptr list) list \<Rightarrow> ptr list" where
  "cells ls = concat (map (\<lambda>(l, xs). l # xs) ls)"

definition lists_wf :: "lmem \<Rightarrow> (ptr \<times> ptr list) list \<Rightarrow> bool" where
  "lists_wf m ls \<longleftrightarrow> list_all (\<lambda>(l, xs). dlist m l xs) ls \<and> distinct (cells ls) \<and>
     dom (nodes m) = set (cells ls)"

lemma cells_simps [simp]:
  "cells [] = []" "cells ((l, xs) # ls) = l # xs @ cells ls" "cells (as @ bs) = cells as @ cells bs"
  by (simp_all add: cells_def)

lemma cells_mem: "(k, ys) \<in> set ls \<Longrightarrow> set (k # ys) \<subseteq> set (cells ls)"
  by (force simp: cells_def)

lemma lists_wf_dlist: "lists_wf m ls \<Longrightarrow> (l, xs) \<in> set ls \<Longrightarrow> dlist m l xs"
  by (auto simp: lists_wf_def list_all_iff)

lemma node_alloc_dlist:
  assumes "dlist m l xs" "p \<notin> dom (nodes m)"
  shows "dlist (node_alloc p m) l xs"
proof (rule dlist_cong [OF assms(1)])
  show "nodes (node_alloc p m) x = nodes m x" if "x \<in> set (l # xs)" for x
    using dl.seq_cell [OF assms(1) that] assms(2) by (auto simp: node_alloc_def)
qed (simp add: node_alloc_def)

lemma lists_wf_insert:
  assumes wf: "lists_wf m (as @ (l, xs) # bs)" and p: "p \<noteq> NULL" "p \<notin> dom (nodes m)"
  shows "\<exists>m0 m'. list_node_init p (node_alloc p m) = Some m0 \<and> list_insert l p m0 = Some m' \<and>
    lists_wf m' (as @ (l, xs @ [p]) # bs)"
proof -
  let ?m = "node_alloc p m"
  have init: "list_node_init p ?m = Some ?m"
    using p by (simp add: list_node_init_def list_fault_simps node_alloc_def)
  have dl: "dlist ?m k ys" if "(k, ys) \<in> set (as @ (l, xs) # bs)" for k ys
    using node_alloc_dlist [OF lists_wf_dlist [OF wf that] p(2)] .
  have dom: "dom (nodes m) = set (cells (as @ (l, xs) # bs))" using wf by (simp add: lists_wf_def)
  then have pn: "p \<notin> set (cells (as @ (l, xs) # bs))" using p(2) by metis
  from dl.insert_law [of ?m l xs p] dl [of l xs] p pn obtain m' where
    m': "list_insert l p ?m = Some m'" "dlist m' l (xs @ [p])"
      "(\<lambda>x. x \<in> dom (nodes m')) = (\<lambda>x. x \<in> dom (nodes ?m))"
    and fr: "\<And>k ys. dlist ?m k ys \<Longrightarrow> set (k # ys) \<inter> set (l # p # xs) = {} \<Longrightarrow> dlist m' k ys"
    by (auto simp: node_alloc_def)
  have dist: "distinct (cells (as @ (l, xs) # bs))" using wf by (simp add: lists_wf_def)
  have others: "dlist m' k ys" if mem: "(k, ys) \<in> set as \<union> set bs" for k ys
  proof (rule fr)
    show "dlist ?m k ys" using dl mem by auto
    have "set (k # ys) \<subseteq> set (cells as) \<union> set (cells bs)"
      using mem cells_mem [of k ys as] cells_mem [of k ys bs] by auto
    moreover have "(set (cells as) \<union> set (cells bs)) \<inter> set (l # p # xs) = {}"
      using dist pn by auto
    ultimately show "set (k # ys) \<inter> set (l # p # xs) = {}" by blast
  qed
  have "dom (nodes m') = insert p (dom (nodes m))"
    using m'(3) by (auto simp: node_alloc_def fun_eq_iff)
  then have "lists_wf m' (as @ (l, xs @ [p]) # bs)"
    using m'(2) others dist pn dom by (auto simp: lists_wf_def list_all_iff)
  with init m'(1) show ?thesis by auto
qed

lemma node_free_dlist:
  assumes "dlist m l xs" "p \<notin> set (l # xs)"
  shows "dlist (node_free p m) l xs"
  by (rule dlist_cong [OF assms(1)]) (use assms(2) in \<open>auto simp: node_free_def\<close>)

lemma lists_wf_remove:
  assumes wf: "lists_wf m (as @ (l, xs) # bs)" and p: "p \<in> set xs"
  shows "\<exists>m'. list_remove p m = Some m' \<and> lists_wf (node_free p m') (as @ (l, remove1 p xs) # bs)"
proof -
  have dl: "dlist m k ys" if "(k, ys) \<in> set (as @ (l, xs) # bs)" for k ys
    using lists_wf_dlist [OF wf that] .
  from dl.remove_member [of m l xs p] dl [of l xs] p obtain m' where
    m': "list_remove p m = Some m'" "dlist m' l (remove1 p xs)"
      "(\<lambda>x. x \<in> dom (nodes m')) = (\<lambda>x. x \<in> dom (nodes m))"
    and fr: "\<And>k ys. dlist m k ys \<Longrightarrow> set (k # ys) \<inter> set (l # xs) = {} \<Longrightarrow> dlist m' k ys"
    by auto
  have dist: "distinct (cells (as @ (l, xs) # bs))"
    and dom: "dom (nodes m) = set (cells (as @ (l, xs) # bs))"
    using wf by (simp_all add: lists_wf_def)
  have others: "dlist (node_free p m') k ys" if mem: "(k, ys) \<in> set as \<union> set bs" for k ys
  proof -
    have sub: "set (k # ys) \<subseteq> set (cells as) \<union> set (cells bs)"
      using mem cells_mem [of k ys as] cells_mem [of k ys bs] by auto
    have "(set (cells as) \<union> set (cells bs)) \<inter> set (l # xs) = {}" using dist by auto
    with sub have "set (k # ys) \<inter> set (l # xs) = {}" by blast
    with dl mem p show ?thesis by (intro node_free_dlist fr) auto
  qed
  have "dlist (node_free p m') l (remove1 p xs)"
    using m'(2) dist p by (intro node_free_dlist) auto
  moreover have "dom (nodes (node_free p m')) = dom (nodes m) - {p}"
    using m'(3) by (auto simp: node_free_def fun_eq_iff)
  ultimately have "lists_wf (node_free p m') (as @ (l, remove1 p xs) # bs)"
    using others dist p dom by (auto simp: lists_wf_def list_all_iff)
  with m'(1) show ?thesis by blast
qed

section \<open>Properties\<close>

text \<open>
  C29: On a well-formed list, \<open>list_insert\<close> of a live node that is not on the list does not
  fault, appends the node to the sequence the list denotes, leaves the list well formed with its
  lock released, and changes no node outside the list and the inserted one.
\<close>

theorem list_insert_appends:
  assumes "dlist m l xs" "e \<notin> set (l # xs)" "e \<noteq> NULL" "nodes m e = Some n"
  shows "\<exists>m'. list_insert l e m = Some m' \<and> dlist m' l (xs @ [e]) \<and> held m' = held m \<and>
    (\<forall>x. x \<notin> set (l # e # xs) \<longrightarrow> nodes m' x = nodes m x)"
  using list_insert_refines [OF assms] by blast

definition example_lmem :: lmem where
  "example_lmem =
     \<lparr>nodes = [1 \<mapsto> \<lparr>node_list = 1, node_next = 5, node_prev = 5\<rparr>,
               5 \<mapsto> \<lparr>node_list = 1, node_next = 1, node_prev = 1\<rparr>,
               7 \<mapsto> \<lparr>node_list = 0, node_next = 0, node_prev = 0\<rparr>],
      held = (\<lambda>_. False)\<rparr>"

lemma example_dlist: "dlist example_lmem 1 [5]"
  by (simp add: example_lmem_def dlist_def in_list_def nx_def pv_def)

theorem list_insert_appends_witness:
  "\<exists>m'. list_insert 1 7 example_lmem = Some m' \<and> dlist m' 1 [5, 7]"
proof -
  have "nodes example_lmem 7 = Some \<lparr>node_list = 0, node_next = 0, node_prev = 0\<rparr>"
    by (simp add: example_lmem_def)
  from list_insert_appends [OF example_dlist _ _ this] show ?thesis by auto
qed

text \<open>
  C30: On a well-formed list, \<open>list_remove\<close> of a member does not fault, deletes exactly that
  member from the sequence, resets the node's three pointers to \<open>NULL\<close>, releases the lock, and
  changes no node outside the list; removing the node a second time does nothing.
\<close>

theorem list_remove_deletes:
  assumes "dlist m l xs" "e \<in> set xs"
  shows "\<exists>m'. list_remove e m = Some m' \<and> dlist m' l (remove1 e xs) \<and> held m' = held m \<and>
    nodes m' e = Some \<lparr>node_list = NULL, node_next = NULL, node_prev = NULL\<rparr> \<and>
    (\<forall>x. x \<notin> set (l # xs) \<longrightarrow> nodes m' x = nodes m x) \<and> list_remove e m' = Some m'"
proof -
  obtain as bs where xs: "xs = as @ e # bs" and n: "e \<notin> set as"
    using assms(2) by (metis split_list_first)
  from list_remove_refines [of m l as e bs] assms(1) xs obtain m' where
    "list_remove e m = Some m'" "dlist m' l (as @ bs)" "held m' = held m"
    "nodes m' e = Some \<lparr>node_list = NULL, node_next = NULL, node_prev = NULL\<rparr>"
    "\<forall>x. x \<notin> set (l # xs) \<longrightarrow> nodes m' x = nodes m x"
    by auto
  moreover from this(4) have "list_remove e m' = Some m'" by (simp add: list_remove_def node_at_def)
  ultimately show ?thesis using xs by (simp add: remove1_middle [OF n])
qed

theorem list_remove_deletes_witness:
  "\<exists>m'. list_remove 5 example_lmem = Some m' \<and> dlist m' 1 []"
  using list_remove_deletes [OF example_dlist, of 5] by auto

end
