(* ===== verification/Drv_State.thy ===== *)
theory Drv_State
  imports Drv_List "HOL-Library.Multiset"
begin

text \<open>
  The state of the kernel module \<open>ugds_drv.ko\<close>: its structures (\<open>struct ctrl\<close> of
  \<open>drv/ctrl.h\<close>, \<open>struct map\<close> of \<open>drv/map.h\<close>, the regions of \<open>drv/map.c\<close>) in typed
  heaps, its globals (\<open>drv/pci.c\<close>), and the log of the kernel calls it has made. The kernel and
  the NVIDIA driver are parameters: the record \<open>kapi\<close> holds the results their functions give
  during one operation of the module. Every kernel call that acquires or releases something is
  appended to \<open>calls\<close>, so that resource accounting is a property of the log.
\<close>

section \<open>Structures\<close>

record ctrl =
  c_pdev :: ptr
  c_name :: string
  c_number :: int
  c_rdev :: u32
  c_cls :: ptr
  c_chrdev :: ptr

datatype release = Release_user_pages | Release_gpu_memory | Release_dmabuf_memory

record map_desc =
  m_owner :: ptr
  m_vaddr :: u64
  m_ctrl_list :: ptr
  m_pdev :: ptr
  m_page_size :: u64
  m_data :: ptr
  m_release :: "release option"
  m_n_addrs :: u64
  m_invalid :: bool
  m_addrs :: "u64 list"

record gpu_region =
  g_pages :: ptr
  g_mappings :: ptr

record dmabuf_region =
  d_dmabuf :: ptr
  d_attachment :: ptr
  d_sgt :: ptr

section \<open>Calls into the kernel\<close>

datatype kcall =
    K_get_page ptr | K_put_page ptr
  | K_dma_map ptr u64 | K_dma_unmap ptr u64
  | K_p2p_get ptr | K_p2p_put ptr | K_p2p_free_table ptr
  | K_p2p_dma_map ptr ptr ptr | K_p2p_dma_unmap ptr ptr ptr
  | K_buf_get ptr | K_buf_put ptr
  | K_attach ptr ptr | K_detach ptr ptr
  | K_pin ptr | K_unpin ptr
  | K_map_attachment ptr ptr | K_unmap_attachment ptr ptr
  | K_resv_lock ptr | K_resv_unlock ptr
  | K_cdev_add ptr | K_cdev_del ptr
  | K_device_create ptr u32 | K_device_destroy ptr u32
  | K_request_region ptr | K_release_region ptr
  | K_enable ptr | K_disable ptr
  | K_set_master ptr | K_clear_master ptr
  | K_chrdev_region u32 | K_unregister_chrdev_region u32
  | K_class_create ptr | K_class_destroy ptr
  | K_register_driver | K_unregister_driver
  | K_copy_to_user u64 "u64 list"

datatype alloc_site = A_ctrl | A_map | A_pages | A_region | A_mappings

record kapi =
  current :: ptr
  kmalloc :: "alloc_site \<Rightarrow> ptr"
  heap_junk :: "nat \<Rightarrow> u64"
  get_user_pages :: "u64 \<Rightarrow> u64 \<Rightarrow> int \<times> ptr list"
  dma_map_page :: "ptr \<Rightarrow> ptr \<Rightarrow> u64"
  dma_mapping_error :: "ptr \<Rightarrow> u64 \<Rightarrow> int"
  p2p_get_pages :: "u64 \<Rightarrow> u64 \<Rightarrow> int \<times> ptr"
  p2p_entries :: "ptr \<Rightarrow> u32"
  p2p_dma_map_pages :: "ptr \<Rightarrow> ptr \<Rightarrow> int \<times> ptr"
  p2p_dma_addresses :: "ptr \<Rightarrow> u64 list"
  dma_buf_get :: "int \<Rightarrow> int + ptr"
  dma_buf_dynamic_attach :: "ptr \<Rightarrow> ptr \<Rightarrow> int + ptr"
  dma_buf_pin :: "ptr \<Rightarrow> int"
  dma_buf_map_attachment :: "ptr \<Rightarrow> int + ptr"
  sg_table :: "ptr \<Rightarrow> (u64 \<times> u32) list"
  move_notify_fired :: bool
  cdev_add :: "ptr \<Rightarrow> u32 \<Rightarrow> int"
  device_create :: "ptr \<Rightarrow> u32 \<Rightarrow> int + ptr"
  pci_request_region :: "ptr \<Rightarrow> int"
  pci_enable_device :: "ptr \<Rightarrow> int"
  dma_set_mask :: "ptr \<Rightarrow> nat \<Rightarrow> int"
  alloc_chrdev_region :: "int \<times> u32"
  class_create :: "int + ptr"
  pci_register_driver :: int
  pci_resource_len :: "ptr \<Rightarrow> u64"
  pci_resource_start :: "ptr \<Rightarrow> u64"
  vm_iomap_memory :: "u64 \<Rightarrow> u64 \<Rightarrow> int"
  copy_from_user_fails :: bool
  copy_to_user_fails :: bool

section \<open>Globals and the module state\<close>

text \<open>The three static lists of \<open>pci.c\<close> are distinct objects at fixed addresses.\<close>

definition ctrl_list :: ptr where "ctrl_list = 1"
definition host_list :: ptr where "host_list = 2"
definition device_list :: ptr where "device_list = 3"

record kstate =
  lm :: lmem
  ctrls :: "ptr \<rightharpoonup> ctrl"
  kmaps :: "ptr \<rightharpoonup> map_desc"
  page_arrays :: "ptr \<rightharpoonup> ptr list"
  gpu_regions :: "ptr \<rightharpoonup> gpu_region"
  mapping_arrays :: "ptr \<rightharpoonup> ptr list"
  dmabuf_regions :: "ptr \<rightharpoonup> dmabuf_region"
  calls :: "kcall list"
  curr_ctrls :: int
  max_num_ctrls :: int
  dev_first :: u32
  dev_class :: ptr

definition log :: "kcall list \<Rightarrow> kstate \<Rightarrow> kstate" where
  "log cs s = s\<lparr>calls := calls s @ cs\<rparr>"

definition with_lm :: "(lmem \<Rightarrow> lmem option) \<Rightarrow> kstate \<Rightarrow> kstate option" where
  "with_lm f s = do { m \<leftarrow> f (lm s); Some (s\<lparr>lm := m\<rparr>) }"

text \<open>
  Allocation and release of the two structures that embed a list node. The node of a fresh
  object has no meaningful content; a free of an object that is not live is a fault.
\<close>

definition alloc_node :: "ptr \<Rightarrow> kstate \<Rightarrow> kstate" where
  "alloc_node p s = s\<lparr>lm := node_alloc p (lm s)\<rparr>"

definition free_node :: "ptr \<Rightarrow> kstate \<Rightarrow> kstate" where
  "free_node p s = s\<lparr>lm := node_free p (lm s)\<rparr>"

section \<open>Resource accounting on the log\<close>

text \<open>Which acquisition a release gives back.\<close>

fun undoes :: "kcall \<Rightarrow> kcall option" where
  "undoes (K_put_page p) = Some (K_get_page p)"
| "undoes (K_dma_unmap d a) = Some (K_dma_map d a)"
| "undoes (K_p2p_put t) = Some (K_p2p_get t)"
| "undoes (K_p2p_free_table t) = Some (K_p2p_get t)"
| "undoes (K_p2p_dma_unmap d t m) = Some (K_p2p_dma_map d t m)"
| "undoes (K_buf_put b) = Some (K_buf_get b)"
| "undoes (K_detach b a) = Some (K_attach b a)"
| "undoes (K_unpin a) = Some (K_pin a)"
| "undoes (K_unmap_attachment a t) = Some (K_map_attachment a t)"
| "undoes (K_resv_unlock b) = Some (K_resv_lock b)"
| "undoes (K_cdev_del c) = Some (K_cdev_add c)"
| "undoes (K_device_destroy c d) = Some (K_device_create c d)"
| "undoes (K_release_region d) = Some (K_request_region d)"
| "undoes (K_disable d) = Some (K_enable d)"
| "undoes (K_clear_master d) = Some (K_set_master d)"
| "undoes (K_unregister_chrdev_region d) = Some (K_chrdev_region d)"
| "undoes (K_class_destroy c) = Some (K_class_create c)"
| "undoes K_unregister_driver = Some K_register_driver"
| "undoes _ = None"

definition net :: "kcall list \<Rightarrow> kcall \<Rightarrow> int" where
  "net cs c = int (count_list cs c) -
     int (length (filter (\<lambda>r. undoes r = Some c) cs))"

lemma net_Nil [simp]: "net [] c = 0"
  by (simp add: net_def)

lemma net_append [simp]: "net (xs @ ys) c = net xs c + net ys c"
  by (simp add: net_def)

lemma net_Cons: "net (x # xs) c =
    (if x = c then 1 else 0) - (if undoes x = Some c then 1 else 0) + net xs c"
  by (simp add: net_def)

lemma log_simps [simp]:
  "lm (log cs s) = lm s" "ctrls (log cs s) = ctrls s" "kmaps (log cs s) = kmaps s"
  "page_arrays (log cs s) = page_arrays s" "gpu_regions (log cs s) = gpu_regions s"
  "mapping_arrays (log cs s) = mapping_arrays s" "dmabuf_regions (log cs s) = dmabuf_regions s"
  "calls (log cs s) = calls s @ cs" "curr_ctrls (log cs s) = curr_ctrls s"
  "max_num_ctrls (log cs s) = max_num_ctrls s" "dev_first (log cs s) = dev_first s"
  "dev_class (log cs s) = dev_class s"
  by (simp_all add: log_def)

lemma log_upd:
  "(log cs s)\<lparr>lm := a\<rparr> = log cs (s\<lparr>lm := a\<rparr>)" "(log cs s)\<lparr>ctrls := b\<rparr> = log cs (s\<lparr>ctrls := b\<rparr>)"
  "(log cs s)\<lparr>kmaps := c\<rparr> = log cs (s\<lparr>kmaps := c\<rparr>)"
  "(log cs s)\<lparr>page_arrays := d\<rparr> = log cs (s\<lparr>page_arrays := d\<rparr>)"
  "(log cs s)\<lparr>gpu_regions := e\<rparr> = log cs (s\<lparr>gpu_regions := e\<rparr>)"
  "(log cs s)\<lparr>mapping_arrays := f\<rparr> = log cs (s\<lparr>mapping_arrays := f\<rparr>)"
  "(log cs s)\<lparr>dmabuf_regions := g\<rparr> = log cs (s\<lparr>dmabuf_regions := g\<rparr>)"
  by (simp_all add: log_def)

lemma log_Nil [simp]: "log [] s = s"
  by (simp add: log_def)

lemma log_log [simp]: "log ds (log cs s) = log (cs @ ds) s"
  by (simp add: log_def)

text \<open>
  A sequence of calls is balanced when everything it acquires it also gives back, and gives back
  nothing else. Only acquisitions count (calls that are not themselves a release).
\<close>

definition balanced :: "kcall list \<Rightarrow> bool" where
  "balanced ks \<longleftrightarrow> (\<forall>c. undoes c = None \<longrightarrow> net ks c = 0)"

end
