(* ===== verification/Drv_Ctrl.thy ===== *)
theory Drv_Ctrl
  imports Drv_State
begin

text \<open>
  Controller references of the kernel module (\<open>drv/ctrl.h\<close>, \<open>drv/ctrl.c\<close>): creation,
  lookup by PCI device and by inode, the character device of a controller, and release. The
  address of the embedded \<open>struct cdev\<close> is the controller's address plus the offset of the
  member (112 on a 64-bit target).
\<close>

section \<open>Operations\<close>

definition cdev_addr :: "ptr \<Rightarrow> ptr" where
  "cdev_addr p = p + 112"

text \<open>Device numbers: 12 bits of major, 20 bits of minor number (\<open>linux/kdev_t.h\<close>).\<close>

definition MAJOR :: "u32 \<Rightarrow> u32" where "MAJOR dev = drop_bit 20 dev"
definition MINOR :: "u32 \<Rightarrow> u32" where "MINOR dev = dev AND mask 20"
definition MKDEV :: "u32 \<Rightarrow> u32 \<Rightarrow> u32" where "MKDEV ma mi = push_bit 20 ma OR mi"

fun show_nat :: "nat \<Rightarrow> string" where
  "show_nat n = (if n < 10 then [char_of (48 + n)] else show_nat (n div 10) @ [char_of (48 + n mod 10)])"

definition show_int :: "int \<Rightarrow> string" where
  "show_int i = (if i < 0 then CHR ''-'' # show_nat (nat (- i)) else show_nat (nat i))"

definition ctrl_name :: "int \<Rightarrow> string" where
  "ctrl_name number = take 63 (''ugds_drv'' @ show_int number)"

definition ctrl_get :: "kapi \<Rightarrow> ptr \<Rightarrow> ptr \<Rightarrow> ptr \<Rightarrow> int \<Rightarrow> kstate \<Rightarrow> ((int + ptr) \<times> kstate) option" where
  "ctrl_get api lst cls pdev number s =
     (let p = kmalloc api A_ctrl in
      if p = NULL then Some (Inl (- ENOMEM), s)
      else do {
        s \<leftarrow> with_lm (list_node_init p) (alloc_node p s);
        let s = s\<lparr>ctrls := (ctrls s)(p \<mapsto>
          \<lparr>c_pdev = pdev, c_name = ctrl_name number, c_number = number, c_rdev = 0, c_cls = cls,
           c_chrdev = NULL\<rparr>)\<rparr>;
        s \<leftarrow> with_lm (list_insert lst p) s;
        Some (Inr p, s) })"

definition ctrl_chrdev_remove :: "ptr \<Rightarrow> kstate \<Rightarrow> kstate option" where
  "ctrl_chrdev_remove p s = do {
     c \<leftarrow> ctrls s p;
     if c_chrdev c \<noteq> NULL
     then Some (log [K_device_destroy (c_cls c) (c_rdev c), K_cdev_del (cdev_addr p)]
            (s\<lparr>ctrls := (ctrls s)(p \<mapsto> c\<lparr>c_chrdev := NULL\<rparr>)\<rparr>))
     else Some s }"

definition kfree_ctrl :: "ptr \<Rightarrow> kstate \<Rightarrow> kstate option" where
  "kfree_ctrl p s = do {
     c \<leftarrow> ctrls s p;
     Some (free_node p (s\<lparr>ctrls := (ctrls s)(p := None)\<rparr>)) }"

definition ctrl_put :: "ptr \<Rightarrow> kstate \<Rightarrow> kstate option" where
  "ctrl_put p s =
     (if p \<noteq> NULL
      then do {
        s \<leftarrow> with_lm (list_remove p) s;
        s \<leftarrow> ctrl_chrdev_remove p s;
        kfree_ctrl p s }
      else Some s)"

definition ctrl_find_by_pci_dev :: "ptr \<Rightarrow> ptr \<Rightarrow> kstate \<Rightarrow> ptr option" where
  "ctrl_find_by_pci_dev lst pdev s = do {
     element \<leftarrow> list_next lst (lm s);
     list_search (\<lambda>p. do { c \<leftarrow> ctrls s p; Some (c_pdev c = pdev) })
       (\<lambda>e. list_next e (lm s)) element }"

definition ctrl_find_by_inode :: "ptr \<Rightarrow> ptr \<Rightarrow> kstate \<Rightarrow> ptr option" where
  "ctrl_find_by_inode lst i_cdev s = do {
     element \<leftarrow> list_next lst (lm s);
     list_search (\<lambda>p. do { c \<leftarrow> ctrls s p; Some (cdev_addr p = i_cdev) })
       (\<lambda>e. list_next e (lm s)) element }"

definition ctrl_chrdev_create :: "kapi \<Rightarrow> ptr \<Rightarrow> u32 \<Rightarrow> kstate \<Rightarrow> (int \<times> kstate) option" where
  "ctrl_chrdev_create api p first s = do {
     c \<leftarrow> ctrls s p;
     if c_chrdev c \<noteq> NULL then Some (0, s)
     else
       let rdev = MKDEV (MAJOR first) (MINOR first + word_of_int (c_number c));
           s = s\<lparr>ctrls := (ctrls s)(p \<mapsto> c\<lparr>c_rdev := rdev\<rparr>)\<rparr>;
           err = cdev_add api (cdev_addr p) rdev
       in if err \<noteq> 0 then Some (err, s)
          else
            let s = log [K_cdev_add (cdev_addr p)] s
            in case device_create api (c_cls c) rdev of
                 Inl err \<Rightarrow> Some (err, log [K_cdev_del (cdev_addr p)] s)
               | Inr chrdev \<Rightarrow>
                   Some (0, log [K_device_create (c_cls c) rdev]
                     (s\<lparr>ctrls := (ctrls s)(p \<mapsto> c\<lparr>c_rdev := rdev, c_chrdev := chrdev\<rparr>)\<rparr>)) }"

section \<open>The lists of the driver\<close>

text \<open>
  The shape of the module's heap: the controllers \<open>cs\<close>, the host mappings \<open>hs\<close> and the
  device mappings \<open>ds\<close> are on their lists, nothing else is live, and every list member has its
  structure.
\<close>

definition drv_lists :: "ptr list \<Rightarrow> ptr list \<Rightarrow> ptr list \<Rightarrow> (ptr \<times> ptr list) list" where
  "drv_lists cs hs ds = [(ctrl_list, cs), (host_list, hs), (device_list, ds)]"

definition lists_ok :: "kstate \<Rightarrow> ptr list \<Rightarrow> ptr list \<Rightarrow> ptr list \<Rightarrow> bool" where
  "lists_ok s cs hs ds \<longleftrightarrow> lists_wf (lm s) (drv_lists cs hs ds) \<and>
     dom (ctrls s) = set cs \<and> dom (kmaps s) = set hs \<union> set ds"

lemma lists_ok_dlist:
  assumes "lists_ok s cs hs ds"
  shows "dlist (lm s) ctrl_list cs" "dlist (lm s) host_list hs" "dlist (lm s) device_list ds"
  using assms lists_wf_dlist [of "lm s" "drv_lists cs hs ds"]
  by (auto simp: lists_ok_def drv_lists_def)

lemma lists_ok_distinct:
  "lists_ok s cs hs ds \<Longrightarrow> distinct (ctrl_list # cs @ host_list # hs @ device_list # ds)"
  by (auto simp: lists_ok_def lists_wf_def drv_lists_def)

lemma lists_ok_nodes:
  "lists_ok s cs hs ds \<Longrightarrow>
   dom (nodes (lm s)) = {ctrl_list, host_list, device_list} \<union> set cs \<union> set hs \<union> set ds"
  by (auto simp: lists_ok_def lists_wf_def drv_lists_def)

lemma lists_ok_fresh:
  assumes "lists_ok s cs hs ds" "p \<notin> dom (nodes (lm s))"
  shows "kmaps s p = None" "ctrls s p = None"
proof -
  have "p \<notin> dom (kmaps s)" "p \<notin> dom (ctrls s)"
    using assms lists_ok_nodes [OF assms(1)] by (simp_all add: lists_ok_def)
  then show "kmaps s p = None" "ctrls s p = None" by (simp_all add: domIff)
qed

section \<open>Controllers: lookup, creation, release\<close>

lemma ctrl_find_by_pci_dev_find:
  assumes "dlist (lm s) l cs" "set cs \<subseteq> dom (ctrls s)"
  shows "ctrl_find_by_pci_dev l pdev s =
    Some (case List.find (\<lambda>p. c_pdev (the (ctrls s p)) = pdev) cs of None \<Rightarrow> NULL | Some p \<Rightarrow> p)"
proof -
  have "\<And>x. x \<in> set cs \<Longrightarrow>
      Option.bind (ctrls s x) (\<lambda>c. Some (c_pdev c = pdev)) = Some (c_pdev (the (ctrls s x)) = pdev)"
    using assms(2) by auto
  from dl.search_is_find [OF assms(1) this] show ?thesis
    by (simp add: ctrl_find_by_pci_dev_def)
qed

lemma ctrl_find_by_inode_find:
  assumes "dlist (lm s) l cs" "set cs \<subseteq> dom (ctrls s)"
  shows "ctrl_find_by_inode l i s =
    Some (case List.find (\<lambda>p. cdev_addr p = i) cs of None \<Rightarrow> NULL | Some p \<Rightarrow> p)"
proof -
  have "\<And>x. x \<in> set cs \<Longrightarrow> Option.bind (ctrls s x) (\<lambda>c. Some (cdev_addr x = i)) = Some (cdev_addr x = i)"
    using assms(2) by auto
  from dl.search_is_find [OF assms(1) this] show ?thesis
    by (simp add: ctrl_find_by_inode_def)
qed

definition new_ctrl :: "ptr \<Rightarrow> ptr \<Rightarrow> int \<Rightarrow> ctrl" where
  "new_ctrl cls pdev number = \<lparr>c_pdev = pdev, c_name = ctrl_name number, c_number = number,
     c_rdev = 0, c_cls = cls, c_chrdev = NULL\<rparr>"

lemma ctrl_get_ok:
  assumes "lists_ok s cs hs ds" "kmalloc api A_ctrl = p" "p \<noteq> NULL" "p \<notin> dom (nodes (lm s))"
  shows "\<exists>m'. ctrl_get api ctrl_list cls pdev number s =
      Some (Inr p, s\<lparr>lm := m', ctrls := (ctrls s)(p \<mapsto> new_ctrl cls pdev number)\<rparr>) \<and>
    lists_ok (s\<lparr>lm := m', ctrls := (ctrls s)(p \<mapsto> new_ctrl cls pdev number)\<rparr>) (cs @ [p]) hs ds"
proof -
  from lists_wf_insert [of "lm s" "[]" ctrl_list cs "[(host_list, hs), (device_list, ds)]" p] assms
  obtain m0 m' where "list_node_init p (node_alloc p (lm s)) = Some m0"
    "list_insert ctrl_list p m0 = Some m'" "lists_wf m' (drv_lists (cs @ [p]) hs ds)"
    by (auto simp: lists_ok_def drv_lists_def)
  then show ?thesis using assms
    by (auto simp: ctrl_get_def with_lm_def alloc_node_def new_ctrl_def lists_ok_def)
qed

text \<open>The device number a controller gets, and the four outcomes of creating its character device.\<close>

definition ctrl_rdev :: "u32 \<Rightarrow> ctrl \<Rightarrow> u32" where
  "ctrl_rdev first c = MKDEV (MAJOR first) (MINOR first + word_of_int (c_number c))"

lemma ctrl_chrdev_create_cases:
  assumes "ctrls s p = Some c" "c_chrdev c = NULL"
  shows "ctrl_chrdev_create api p first s =
    (if cdev_add api (cdev_addr p) (ctrl_rdev first c) \<noteq> 0
     then Some (cdev_add api (cdev_addr p) (ctrl_rdev first c),
       s\<lparr>ctrls := (ctrls s)(p \<mapsto> c\<lparr>c_rdev := ctrl_rdev first c\<rparr>)\<rparr>)
     else case device_create api (c_cls c) (ctrl_rdev first c) of
       Inl e \<Rightarrow> Some (e, log [K_cdev_add (cdev_addr p), K_cdev_del (cdev_addr p)]
         (s\<lparr>ctrls := (ctrls s)(p \<mapsto> c\<lparr>c_rdev := ctrl_rdev first c\<rparr>)\<rparr>))
     | Inr d \<Rightarrow> Some (0, log [K_cdev_add (cdev_addr p), K_device_create (c_cls c) (ctrl_rdev first c)]
         (s\<lparr>ctrls := (ctrls s)(p \<mapsto> c\<lparr>c_rdev := ctrl_rdev first c, c_chrdev := d\<rparr>)\<rparr>)))"
  using assms by (simp add: ctrl_chrdev_create_def ctrl_rdev_def Let_def log_def split: sum.split)

definition chrdev_teardown :: "ptr \<Rightarrow> ctrl \<Rightarrow> kcall list" where
  "chrdev_teardown p c = (if c_chrdev c = NULL then []
     else [K_device_destroy (c_cls c) (c_rdev c), K_cdev_del (cdev_addr p)])"

lemma ctrl_put_ok:
  assumes "lists_ok s cs hs ds" "p \<in> set cs" "ctrls s p = Some c"
  shows "\<exists>m'. ctrl_put p s =
      Some (log (chrdev_teardown p c) (s\<lparr>lm := m', ctrls := (ctrls s)(p := None)\<rparr>)) \<and>
    lists_ok (log (chrdev_teardown p c) (s\<lparr>lm := m', ctrls := (ctrls s)(p := None)\<rparr>))
      (remove1 p cs) hs ds"
proof -
  from lists_wf_remove [of "lm s" "[]" ctrl_list cs "[(host_list, hs), (device_list, ds)]" p] assms
  obtain m' where m': "list_remove p (lm s) = Some m'"
    "lists_wf (node_free p m') (drv_lists (remove1 p cs) hs ds)"
    by (auto simp: lists_ok_def drv_lists_def)
  have p0: "p \<noteq> NULL"
    using dl.seq_nonnull [OF lists_ok_dlist(1) [OF assms(1)]] assms(2) by (metis list.set_intros(2))
  have d: "distinct cs" using lists_ok_distinct [OF assms(1)] by simp
  let ?s = "log (chrdev_teardown p c) (s\<lparr>lm := node_free p m', ctrls := (ctrls s)(p := None)\<rparr>)"
  have "ctrl_put p s = Some ?s"
    using m'(1) assms(3) p0
    by (simp add: ctrl_put_def with_lm_def ctrl_chrdev_remove_def kfree_ctrl_def free_node_def
        chrdev_teardown_def log_def)
  moreover have "lists_ok ?s (remove1 p cs) hs ds"
    using m'(2) assms d by (simp add: lists_ok_def)
  ultimately show ?thesis by blast
qed

lemma ctrl_put_NULL [simp]: "ctrl_put NULL s = Some s"
  by (simp add: ctrl_put_def)

end
