(* ===== verification/Sg_Flatten.thy ===== *)
theory Sg_Flatten
  imports Prelude
begin

text \<open>
  Flattening of a scatter/gather table into one DMA address per page
  (\<open>sg_flatten_to_addrs\<close> of \<open>drv/map.c\<close>, used by the DMA-buf backend). The entries carry a
  64-bit address and a 32-bit length; the arithmetic is kept at these widths. \<open>page_at\<close> is the
  reference: the address of the page at a byte position of the table, if that page lies within one
  entry. The routine computes exactly the reference, and the reference is correct bytewise.
\<close>

section \<open>The routine\<close>

type_synonym sg_entry = "u64 \<times> u32"

text \<open>The inner loop: emit whole pages of one entry while pages are still expected.\<close>

function sg_emit :: "u64 \<Rightarrow> u64 \<Rightarrow> u64 \<Rightarrow> u32 \<Rightarrow> u64 list \<Rightarrow> u64 \<Rightarrow> (u32 \<times> u64 list \<times> u64) option" where
  "sg_emit ctrl_page_size expected_pages addr len addrs page_idx =
     (if ctrl_page_size \<le> ucast len \<and> page_idx < expected_pages
      then do {
        addrs \<leftarrow> arr_set addrs (unat page_idx) addr;
        sg_emit ctrl_page_size expected_pages (addr + ctrl_page_size)
          (ucast (ucast len - ctrl_page_size)) addrs (page_idx + 1) }
      else Some (len, addrs, page_idx))"
  by pat_completeness auto
termination
  by (relation "measure (\<lambda>(_, expected, _, _, _, idx). unat expected - unat idx)")
    (auto simp: unat_inc unat_less_iff)

declare sg_emit.simps [simp del]

text \<open>
  The loop over the entries. \<open>Inl addrs\<close> is the early \<open>return -EINVAL\<close> on a residual that is
  not a whole page; \<open>Inr (addrs, page_idx)\<close> is the normal end of the loop or the \<open>break\<close>.
\<close>

fun sg_walk :: "u64 \<Rightarrow> u64 \<Rightarrow> sg_entry list \<Rightarrow> u64 \<Rightarrow> u64 list \<Rightarrow> u64 \<Rightarrow>
    (u64 list + u64 list \<times> u64) option" where
  "sg_walk ctrl_page_size expected_pages [] remaining_offset addrs page_idx =
     Some (Inr (addrs, page_idx))"
| "sg_walk ctrl_page_size expected_pages ((addr, len) # sgl) remaining_offset addrs page_idx =
     (if remaining_offset > 0 \<and> remaining_offset \<ge> ucast len
      then sg_walk ctrl_page_size expected_pages sgl (remaining_offset - ucast len) addrs page_idx
      else
        let (addr, len, remaining_offset) =
          (if remaining_offset > 0
           then (addr + remaining_offset, ucast (ucast len - remaining_offset), 0)
           else (addr, len, remaining_offset))
        in do {
          (len, addrs, page_idx) \<leftarrow> sg_emit ctrl_page_size expected_pages addr len addrs page_idx;
          if len > 0 \<and> page_idx < expected_pages then Some (Inl addrs)
          else if page_idx \<ge> expected_pages then Some (Inr (addrs, page_idx))
          else sg_walk ctrl_page_size expected_pages sgl remaining_offset addrs page_idx })"

definition sg_flatten_to_addrs :: "sg_entry list \<Rightarrow> u64 list \<Rightarrow> u64 \<Rightarrow> u64 \<Rightarrow> u64 \<Rightarrow> (int \<times> u64 list) option" where
  "sg_flatten_to_addrs sgt addrs expected_pages ctrl_page_size hsa_offset = do {
     r \<leftarrow> sg_walk ctrl_page_size expected_pages sgt hsa_offset addrs 0;
     case r of
       Inl addrs \<Rightarrow> Some (- EINVAL, addrs)
     | Inr (addrs, page_idx) \<Rightarrow>
         if page_idx \<noteq> expected_pages then Some (- EINVAL, addrs) else Some (0, addrs) }"

section \<open>Reference: the page at a byte position of the table\<close>

fun page_at :: "nat \<Rightarrow> sg_entry list \<Rightarrow> nat \<Rightarrow> u64 option" where
  "page_at P [] pos = None"
| "page_at P ((a, l) # sgl) pos =
     (if pos < unat l
      then (if pos + P \<le> unat l then Some (a + of_nat pos) else None)
      else page_at P sgl (pos - unat l))"

text \<open>The bus addresses of the bytes the table describes, in order.\<close>

definition sg_bytes :: "sg_entry list \<Rightarrow> u64 list" where
  "sg_bytes sgl = concat (map (\<lambda>(a, l). map (\<lambda>k. a + of_nat k) [0..<unat l]) sgl)"

lemma sg_bytes_simps [simp]:
  "sg_bytes [] = []"
  "sg_bytes ((a, l) # sgl) = map (\<lambda>k. a + of_nat k) [0..<unat l] @ sg_bytes sgl"
  by (simp_all add: sg_bytes_def)

lemma page_at_bytes:
  "page_at P sgl pos = Some a \<Longrightarrow> b < P \<Longrightarrow>
   pos + b < length (sg_bytes sgl) \<and> sg_bytes sgl ! (pos + b) = a + of_nat b"
proof (induction P sgl pos rule: page_at.induct)
  case (1 P pos)
  then show ?case by simp
next
  case (2 P c l sgl pos)
  show ?case
  proof (cases "pos < unat l")
    case True
    with 2 show ?thesis by (auto simp: nth_append split: if_splits)
  next
    case False
    then obtain q where q: "pos = unat l + q" using le_Suc_ex not_less by blast
    with 2 False have "q + b < length (sg_bytes sgl) \<and> sg_bytes sgl ! (q + b) = a + of_nat b"
      by simp
    then show ?thesis using q by (simp add: nth_append)
  qed
qed

section \<open>The inner loop\<close>

lemma sg_emit_spec:
  assumes "0 < unat ps" "unat ex \<le> length addrs" "unat idx \<le> unat ex"
    and "k = min (unat len div unat ps) (unat ex - unat idx)"
  shows "\<exists>addrs' len' idx'. sg_emit ps ex addr len addrs idx = Some (len', addrs', idx') \<and>
    unat len' = unat len - k * unat ps \<and> unat idx' = unat idx + k \<and> length addrs' = length addrs \<and>
    (\<forall>i < unat idx. addrs' ! i = addrs ! i) \<and>
    (\<forall>j < k. addrs' ! (unat idx + j) = addr + of_nat (j * unat ps))"
  using assms
proof (induction ps ex addr len addrs idx arbitrary: k rule: sg_emit.induct)
  case (1 ps ex addr len addrs idx)
  show ?case
  proof (cases "unat ps \<le> unat len \<and> unat idx < unat ex")
    case False
    then have "k = 0" using 1(5) by auto
    with False show ?thesis by (auto simp: sg_emit.simps [of ps ex addr len addrs idx] unat_less_iff unat_le_iff)
  next
    case True
    let ?len = "ucast (ucast len - ps) :: u32"
    let ?addrs = "addrs[unat idx := addr]"
    have sub: "unat (ucast len - ps :: u64) = unat len - unat ps"
      using True by (simp add: unat_sub unat_le_iff)
    have len: "unat ?len = unat len - unat ps"
    proof -
      have "unat len - unat ps < 2 ^ 32" using unat_bound [of len] by simp
      then show ?thesis by (simp add: unsigned_ucast_eq sub take_bit_nat_eq_self)
    qed
    have idx: "unat (idx + 1) = Suc (unat idx)" using True by (intro unat_inc [of idx ex]) (simp add: unat_less_iff)
    have k: "k - 1 = min (unat ?len div unat ps) (unat ex - unat (idx + 1))" and k1: "0 < k"
      using True 1(2) 1(5) by (auto simp: len idx le_div_geq min_def)
    have step: "sg_emit ps ex addr len addrs idx = sg_emit ps ex (addr + ps) ?len ?addrs (idx + 1)"
      using True 1(3) by (simp add: sg_emit.simps [of ps ex addr len addrs idx] unat_less_iff unat_le_iff arr_set_def)
    have "\<exists>addrs' len' idx'. sg_emit ps ex (addr + ps) ?len ?addrs (idx + 1) = Some (len', addrs', idx') \<and>
      unat len' = unat ?len - (k - 1) * unat ps \<and> unat idx' = unat (idx + 1) + (k - 1) \<and>
      length addrs' = length ?addrs \<and> (\<forall>i < unat (idx + 1). addrs' ! i = ?addrs ! i) \<and>
      (\<forall>j < k - 1. addrs' ! (unat (idx + 1) + j) = addr + ps + of_nat (j * unat ps))"
      using True 1(2-4) k
      by (intro "1.IH") (auto simp: unat_less_iff unat_le_iff idx arr_set_def)
    then obtain addrs' len' idx' where
      r: "sg_emit ps ex (addr + ps) ?len ?addrs (idx + 1) = Some (len', addrs', idx')"
        "unat len' = unat ?len - (k - 1) * unat ps" "unat idx' = unat (idx + 1) + (k - 1)"
        "length addrs' = length ?addrs" "\<forall>i < unat (idx + 1). addrs' ! i = ?addrs ! i"
        "\<forall>j < k - 1. addrs' ! (unat (idx + 1) + j) = addr + ps + of_nat (j * unat ps)"
      by blast
    have "addrs' ! (unat idx + j) = addr + of_nat (j * unat ps)" if "j < k" for j
    proof (cases j)
      case 0
      then show ?thesis using r(5) idx True 1(3) by simp
    next
      case (Suc i)
      then have "addrs' ! (unat (idx + 1) + i) = addr + ps + of_nat (i * unat ps)"
        using r(6) that by auto
      then show ?thesis using Suc idx by (simp add: algebra_simps)
    qed
    moreover have "unat len' = unat len - k * unat ps"
      using r(2) k1 len by (cases k) (simp_all add: algebra_simps)
    moreover have "\<forall>i < unat idx. addrs' ! i = addrs ! i" using r(5) idx by simp
    ultimately show ?thesis using step r(1,3,4) idx k1 by auto
  qed
qed

section \<open>The walk computes the reference\<close>

text \<open>
  \<open>walk_spec pg idx n ex addrs res\<close>: with \<open>n\<close> pages still wanted, \<open>pg j\<close> being the reference
  for the \<open>j\<close>-th of them, the walk keeps the first \<open>idx\<close> entries, and either all pages exist and
  are stored, or it ends without having reached \<open>ex\<close> pages.
\<close>

definition walk_spec :: "(nat \<Rightarrow> u64 option) \<Rightarrow> nat \<Rightarrow> nat \<Rightarrow> u64 \<Rightarrow> u64 list \<Rightarrow>
    (u64 list + u64 list \<times> u64) option \<Rightarrow> bool" where
  "walk_spec pg idx n ex addrs res \<longleftrightarrow>
     (\<exists>addrs'. length addrs' = length addrs \<and> (\<forall>i < idx. addrs' ! i = addrs ! i) \<and>
       (if \<forall>j < n. pg j \<noteq> None
        then res = Some (Inr (addrs', ex)) \<and> (\<forall>j < n. pg j = Some (addrs' ! (idx + j)))
        else res = Some (Inl addrs') \<or> (\<exists>idx'. idx' \<noteq> ex \<and> res = Some (Inr (addrs', idx')))))"

lemma sg_len_after_offset:
  fixes off :: u64 and l :: u32
  assumes "\<not> (unat l \<le> unat off \<and> 0 < unat off)"
  shows "unat (if off > 0 then ucast (ucast l - off) else l) = unat l - unat off"
proof (cases "0 < unat off")
  case True
  then have sub: "unat (ucast l - off) = unat l - unat off"
    using assms by (simp add: unat_sub unat_le_iff)
  have "unat l - unat off < 2 ^ 32" using unat_bound [of l] by simp
  with True show ?thesis
    by (simp add: unat_less_iff unsigned_ucast_eq sub take_bit_nat_eq_self)
next
  case False
  then show ?thesis by (simp add: unat_less_iff)
qed

lemma walk_spec_prefix:
  assumes "walk_spec (\<lambda>j. pg (k + j)) (idx + k) (n - k) ex addrs' res" "k \<le> n"
    and "length addrs' = length addrs" "\<forall>i < idx. addrs' ! i = addrs ! i"
    and pre: "\<forall>j < k. pg j = Some (addrs' ! (idx + j))"
  shows "walk_spec pg idx n ex addrs res"
proof -
  have all: "(\<forall>j < n. pg j \<noteq> None) \<longleftrightarrow> (\<forall>j < n - k. pg (k + j) \<noteq> None)"
  proof
    assume R: "\<forall>j < n - k. pg (k + j) \<noteq> None"
    show "\<forall>j < n. pg j \<noteq> None"
    proof (intro allI impI)
      fix j assume "j < n"
      then show "pg j \<noteq> None" using pre R [rule_format, of "j - k"] by (cases "j < k") auto
    qed
  qed (use assms(2) in auto)
  from assms(1) obtain b where b: "length b = length addrs'" "\<forall>i < idx + k. b ! i = addrs' ! i"
    "if \<forall>j < n. pg j \<noteq> None
     then res = Some (Inr (b, ex)) \<and> (\<forall>j < n - k. pg (k + j) = Some (b ! (idx + k + j)))
     else res = Some (Inl b) \<or> (\<exists>idx'. idx' \<noteq> ex \<and> res = Some (Inr (b, idx')))"
    unfolding walk_spec_def all by blast
  have "pg j = Some (b ! (idx + j))"
    if "\<forall>j < n - k. pg (k + j) = Some (b ! (idx + k + j))" "j < n" for j
  proof (cases "j < k")
    case True
    then show ?thesis using pre b(2) by simp
  next
    case False
    then show ?thesis using that(1) [rule_format, of "j - k"] that(2) by simp
  qed
  then have stored: "\<forall>j < n. pg j = Some (b ! (idx + j))"
    if "\<forall>j < n - k. pg (k + j) = Some (b ! (idx + k + j))" using that by blast
  have keep: "length b = length addrs" "\<forall>i < idx. b ! i = addrs ! i" using b(1,2) assms(3,4) by simp_all
  show ?thesis
  proof (cases "\<forall>j < n. pg j \<noteq> None")
    case True
    with b(3) stored keep show ?thesis unfolding walk_spec_def if_P [OF True] by blast
  next
    case False
    with b(3) keep show ?thesis unfolding walk_spec_def if_not_P [OF False] by blast
  qed
qed

text \<open>One entry that is not skipped: the whole pages it holds from the offset on are stored.\<close>

lemma sg_walk_entry:
  assumes "0 < unat ps" "unat ex \<le> length addrs" "unat idx \<le> unat ex"
    and noskip: "\<not> (unat l \<le> unat off \<and> 0 < unat off)"
    and k: "k = min ((unat l - unat off) div unat ps) (unat ex - unat idx)"
  obtains addrs' idx' and len' :: u32 where
    "sg_walk ps ex ((a, l) # sgl) off addrs idx =
      (if 0 < len' \<and> idx' < ex then Some (Inl addrs')
       else if idx' \<ge> ex then Some (Inr (addrs', idx'))
       else sg_walk ps ex sgl 0 addrs' idx')"
    "unat len' = unat l - unat off - k * unat ps" "unat idx' = unat idx + k"
    "length addrs' = length addrs" "\<forall>i < unat idx. addrs' ! i = addrs ! i"
    "\<forall>j < k. page_at (unat ps) ((a, l) # sgl) (unat off + j * unat ps) = Some (addrs' ! (unat idx + j))"
proof -
  define len where "len = (if off > 0 then ucast (ucast l - off) else l)"
  have len: "unat len = unat l - unat off" unfolding len_def by (rule sg_len_after_offset [OF noskip])
  have start: "(if off > 0 then (a + off, ucast (ucast l - off), 0) else (a, l, off)) = (a + off, len, 0)"
    by (auto simp: word_gt_0 len_def)
  have "k = min (unat len div unat ps) (unat ex - unat idx)" by (simp add: k len)
  from sg_emit_spec [OF assms(1-3) this, of "a + off"] obtain addrs' len' idx'
    where r: "sg_emit ps ex (a + off) len addrs idx = Some (len', addrs', idx')"
      "unat len' = unat l - unat off - k * unat ps" "unat idx' = unat idx + k"
      "length addrs' = length addrs" "\<forall>i < unat idx. addrs' ! i = addrs ! i"
      "\<forall>j < k. addrs' ! (unat idx + j) = a + off + of_nat (j * unat ps)"
    unfolding len by blast
  have "(off > 0 \<and> off \<ge> ucast l) = False" using noskip by (auto simp: unat_less_iff unat_le_iff)
  then have walk: "sg_walk ps ex ((a, l) # sgl) off addrs idx =
    (if 0 < len' \<and> idx' < ex then Some (Inl addrs')
     else if idx' \<ge> ex then Some (Inr (addrs', idx'))
     else sg_walk ps ex sgl 0 addrs' idx')"
    by (simp only: sg_walk.simps if_False start) (simp add: r(1))
  have "page_at (unat ps) ((a, l) # sgl) (unat off + j * unat ps) = Some (addrs' ! (unat idx + j))"
    if "j < k" for j
  proof -
    have "(j + 1) * unat ps \<le> (unat l - unat off) div unat ps * unat ps"
      using that by (intro mult_le_mono1) (simp add: k)
    also have "\<dots> \<le> unat l - unat off" by (rule div_times_less_eq_dividend)
    finally have "unat off + j * unat ps + unat ps \<le> unat l" "unat off + j * unat ps < unat l"
      using assms(1) noskip by auto
    then show ?thesis using r(6) that by (simp add: algebra_simps)
  qed
  then show ?thesis using that [OF walk r(2-5)] by blast
qed

lemma sg_walk_spec:
  assumes "0 < unat ps" "unat ex \<le> length addrs" "unat idx \<le> unat ex"
  shows "walk_spec (\<lambda>j. page_at (unat ps) sgl (unat off + j * unat ps)) (unat idx)
    (unat ex - unat idx) ex addrs (sg_walk ps ex sgl off addrs idx)"
  using assms
proof (induction sgl arbitrary: off addrs idx)
  case Nil
  show ?case
  proof (cases "unat ex = unat idx")
    case True
    then have "idx = ex" by (simp add: word_unat_eq_iff)
    then show ?thesis by (auto simp: walk_spec_def)
  next
    case False
    then have "0 < unat ex - unat idx" "idx \<noteq> ex" using Nil.prems by auto
    then have "idx \<noteq> ex" "\<not> (\<forall>j < unat ex - unat idx. False)" by blast+
    then show ?thesis unfolding walk_spec_def by (intro exI [of _ addrs]) simp
  qed
next
  case (Cons e sgl)
  obtain a l where e: "e = (a, l)" by fastforce
  let ?P = "unat ps" and ?N = "unat ex - unat idx"
  show ?case
  proof (cases "unat l \<le> unat off \<and> 0 < unat off")
    case True
    have off: "unat (off - ucast l) = unat off - unat l" using True by (simp add: unat_sub unat_le_iff)
    have "(\<lambda>j. page_at ?P (e # sgl) (unat off + j * ?P)) =
        (\<lambda>j. page_at ?P sgl (unat (off - ucast l) + j * ?P))"
      using True by (simp add: e off)
    moreover have "sg_walk ps ex (e # sgl) off addrs idx = sg_walk ps ex sgl (off - ucast l) addrs idx"
      using True by (simp add: e unat_less_iff unat_le_iff)
    ultimately show ?thesis using Cons.IH [OF Cons.prems] by simp
  next
    case False
    define k where "k = min ((unat l - unat off) div ?P) ?N"
    obtain addrs' idx' and len' :: u32 where walk: "sg_walk ps ex (e # sgl) off addrs idx =
        (if 0 < len' \<and> idx' < ex then Some (Inl addrs')
         else if idx' \<ge> ex then Some (Inr (addrs', idx'))
         else sg_walk ps ex sgl 0 addrs' idx')"
      and len': "unat len' = unat l - unat off - k * ?P" and idx': "unat idx' = unat idx + k"
      and kept: "length addrs' = length addrs" "\<forall>i < unat idx. addrs' ! i = addrs ! i"
      and stored: "\<forall>j < k. page_at ?P (e # sgl) (unat off + j * ?P) = Some (addrs' ! (unat idx + j))"
      using sg_walk_entry [OF Cons.prems False k_def, of a sgl] unfolding e by metis
    consider (full) "k = ?N" | (residue) "k < ?N" "0 < unat len'" | (next_entry) "k < ?N" "len' = 0"
      using min.cobounded2 [of "(unat l - unat off) div ?P" ?N]
      by (cases "unat len' = 0") (auto simp: k_def [symmetric] word_unat_eq_iff le_less)
    then show ?thesis
    proof cases
      case full
      then have "idx' = ex" using idx' Cons.prems(3) by (simp add: word_unat_eq_iff)
      then show ?thesis unfolding walk_spec_def
        using kept stored full by (intro exI [of _ addrs']) (simp add: walk)
    next
      case residue
      have "unat len' < ?P" using residue(1) len' Cons.prems(1) by (simp add: k_def minus_div_mult_eq_mod)
      then have "page_at ?P (e # sgl) (unat off + k * ?P) = None" using residue len' by (auto simp: e)
      then have "\<not> (\<forall>j < ?N. page_at ?P (e # sgl) (unat off + j * ?P) \<noteq> None)" using residue by blast
      moreover have "sg_walk ps ex (e # sgl) off addrs idx = Some (Inl addrs')"
        using residue idx' by (simp only: walk) (auto simp: unat_less_iff unat_le_iff)
      ultimately show ?thesis unfolding walk_spec_def using kept by (intro exI [of _ addrs']) simp
    next
      case next_entry
      have "k * ?P \<le> unat l - unat off" using next_entry(1) by (simp add: k_def div_times_less_eq_dividend)
      then have l: "unat l = unat off + k * ?P" using False len' next_entry(2) by (cases "unat off") auto
      have more: "\<not> ex \<le> idx'" using next_entry idx' by (simp add: unat_le_iff)
      have "walk_spec (\<lambda>j. page_at ?P sgl (unat (0 :: u64) + j * ?P)) (unat idx') (unat ex - unat idx')
          ex addrs' (sg_walk ps ex sgl 0 addrs' idx')"
        using Cons.prems kept more by (intro Cons.IH) (auto simp: unat_le_iff)
      moreover have "page_at ?P (e # sgl) (unat off + (k + j) * ?P) = page_at ?P sgl (j * ?P)" for j
        by (simp add: e l algebra_simps)
      ultimately have rest: "walk_spec (\<lambda>j. page_at ?P (e # sgl) (unat off + (k + j) * ?P)) (unat idx + k)
          (?N - k) ex addrs' (sg_walk ps ex sgl 0 addrs' idx')"
        by (simp only: idx' unsigned_0 add_0 diff_diff_left)
      have "sg_walk ps ex (e # sgl) off addrs idx = sg_walk ps ex sgl 0 addrs' idx'"
        using more next_entry by (simp only: walk) simp
      with walk_spec_prefix [OF rest less_imp_le [OF next_entry(1)] kept stored] show ?thesis by simp
    qed
  qed
qed

section \<open>Correctness\<close>

lemma sg_flatten_walk:
  assumes "0 < unat ps" "unat ex \<le> length addrs"
  shows "\<exists>addrs'. length addrs' = length addrs \<and>
    (if \<forall>j < unat ex. page_at (unat ps) sgl (unat off + j * unat ps) \<noteq> None
     then sg_flatten_to_addrs sgl addrs ex ps off = Some (0, addrs') \<and>
       (\<forall>j < unat ex. page_at (unat ps) sgl (unat off + j * unat ps) = Some (addrs' ! j))
     else sg_flatten_to_addrs sgl addrs ex ps off = Some (- EINVAL, addrs'))"
proof -
  have "walk_spec (\<lambda>j. page_at (unat ps) sgl (unat off + j * unat ps)) 0 (unat ex) ex addrs
      (sg_walk ps ex sgl off addrs 0)"
    using sg_walk_spec [OF assms, of 0 sgl off] by simp
  then obtain addrs' where "length addrs' = length addrs"
    "if \<forall>j < unat ex. page_at (unat ps) sgl (unat off + j * unat ps) \<noteq> None
     then sg_walk ps ex sgl off addrs 0 = Some (Inr (addrs', ex)) \<and>
       (\<forall>j < unat ex. page_at (unat ps) sgl (unat off + j * unat ps) = Some (addrs' ! j))
     else sg_walk ps ex sgl off addrs 0 = Some (Inl addrs') \<or>
       (\<exists>idx'. idx' \<noteq> ex \<and> sg_walk ps ex sgl off addrs 0 = Some (Inr (addrs', idx')))"
    unfolding walk_spec_def by auto
  then show ?thesis unfolding sg_flatten_to_addrs_def
    by (intro exI [of _ addrs']) (simp only: split: if_splits, auto)
qed

text \<open>
  C9. \<open>sg_flatten_to_addrs\<close> computes the reference: given room for \<open>expected_pages\<close> entries and a
  non-zero page size it always returns, without a store out of bounds; it returns 0 exactly when
  every wanted page lies whole inside one entry of the table, and then entry \<open>j\<close> is the bus
  address of the \<open>j\<close>-th page from the offset on; otherwise it returns \<open>-EINVAL\<close>.
\<close>

theorem sg_flatten_equiv:
  assumes "0 < unat ps" "unat ex \<le> length addrs"
  shows "\<exists>addrs'. length addrs' = length addrs \<and>
    (if \<forall>j < unat ex. page_at (unat ps) sgl (unat off + j * unat ps) \<noteq> None
     then sg_flatten_to_addrs sgl addrs ex ps off = Some (0, addrs') \<and>
       (\<forall>j < unat ex. page_at (unat ps) sgl (unat off + j * unat ps) = Some (addrs' ! j))
     else sg_flatten_to_addrs sgl addrs ex ps off = Some (- EINVAL, addrs'))"
  by (rule sg_flatten_walk [OF assms])

definition example_sgl :: "sg_entry list" where
  "example_sgl = [(0x1000, 0x1000), (0x80000, 0x2000)]"

theorem sg_flatten_equiv_witness:
  "\<exists>addrs'. sg_flatten_to_addrs example_sgl [0, 0] 2 0x1000 0x1000 = Some (0, addrs') \<and>
    addrs' ! 1 = 0x81000"
proof -
  have "\<forall>j < unat (2 :: u64). page_at (unat (0x1000 :: u64)) example_sgl (unat (0x1000 :: u64) + j * unat (0x1000 :: u64)) =
      Some ([0x80000, 0x81000] ! j)"
    by (simp add: less_2_cases_iff example_sgl_def all_conj_distrib)
  then show ?thesis using sg_flatten_equiv [of "0x1000" "2" "[0, 0]" example_sgl "0x1000"]
    by (auto dest!: spec [of _ "Suc 0"])
qed

text \<open>
  C10. Byte for byte: when \<open>sg_flatten_to_addrs\<close> returns 0, byte \<open>b\<close> of page \<open>j\<close> in the resulting
  page list is the bus address of byte \<open>hsa_offset + j * page_size + b\<close> of the buffer the
  scatter/gather table describes.
\<close>

theorem sg_flatten_bytes:
  assumes "0 < unat ps" "unat ex \<le> length addrs"
    and "sg_flatten_to_addrs sgl addrs ex ps off = Some (0, addrs')"
    and "j < unat ex" "b < unat ps"
  shows "unat off + j * unat ps + b < length (sg_bytes sgl) \<and>
    sg_bytes sgl ! (unat off + j * unat ps + b) = addrs' ! j + of_nat b"
proof -
  have "page_at (unat ps) sgl (unat off + j * unat ps) = Some (addrs' ! j)"
    using sg_flatten_walk [OF assms(1,2), of sgl off] assms(3,4) by (auto split: if_splits)
  then show ?thesis using assms(5) by (rule page_at_bytes)
qed

theorem sg_flatten_bytes_witness:
  "sg_bytes example_sgl ! (0x1000 + 1 * 0x1000 + 5) = 0x81005"
proof -
  have "sg_flatten_to_addrs example_sgl [0, 0] 2 0x1000 0x1000 = Some (0, [0x80000, 0x81000])"
    by code_simp
  from sg_flatten_bytes [OF _ _ this, of 1 5] show ?thesis by simp
qed

end
