(* ===== verification/Drv_Map.thy ===== *)
theory Drv_Map
  imports Drv_Ctrl Sg_Flatten
begin

text \<open>
  Memory mappings of the kernel module (\<open>drv/map.h\<close>, \<open>drv/map.c\<close>): the descriptor of a
  mapping, pinned user pages, GPU memory through the NVIDIA peer-to-peer interface, GPU memory
  through DMA-buf, lookup and release. A descriptor's \<open>addrs\<close> is the array as allocated: its
  length follows from the byte count passed to \<open>kvmalloc\<close>, computed in 64-bit arithmetic as the
  source does.
\<close>

section \<open>Constants\<close>

definition PAGE_SIZE :: u64 where "PAGE_SIZE = 4096"
definition PAGE_MASK :: u64 where "PAGE_MASK = NOT (PAGE_SIZE - 1)"
definition GPU_PAGE_SIZE :: u64 where "GPU_PAGE_SIZE = push_bit 16 1"
definition GPU_PAGE_MASK :: u64 where "GPU_PAGE_MASK = NOT (GPU_PAGE_SIZE - 1)"

text \<open>The \<open>uint32_t max_num_ctrls\<close> of \<open>map.c\<close>, which is not the module parameter of \<open>pci.c\<close>.\<close>

definition map_max_num_ctrls :: nat where "map_max_num_ctrls = 64"

section \<open>Descriptors\<close>

definition map_upd :: "ptr \<Rightarrow> (map_desc \<Rightarrow> map_desc) \<Rightarrow> kstate \<Rightarrow> kstate option" where
  "map_upd p f s = do { m \<leftarrow> kmaps s p; Some (s\<lparr>kmaps := (kmaps s)(p \<mapsto> f m)\<rparr>) }"

text \<open>
  \<open>sizeof(struct map)\<close> is 104 and the array starts at byte 96. An allocation that is too small for
  the fixed members, or for the \<open>n_pages\<close> entries the loop clears, is a fault.
\<close>

definition map_alloc_bytes :: "u64 \<Rightarrow> u64" where
  "map_alloc_bytes n_pages = 104 + (n_pages - 1) * 8"

definition create_descriptor :: "kapi \<Rightarrow> ptr \<Rightarrow> u64 \<Rightarrow> u64 \<Rightarrow> kstate \<Rightarrow> ((int + ptr) \<times> kstate) option" where
  "create_descriptor api ctrl vaddr n_pages s =
     (let p = kmalloc api A_map; bytes = map_alloc_bytes n_pages in
      if p = NULL then Some (Inl (- ENOMEM), s)
      else if bytes < 96 then None
      else do {
        s \<leftarrow> with_lm (list_node_init p) (alloc_node p s);
        c \<leftarrow> ctrls s ctrl;
        addrs \<leftarrow> arr_fill (map (heap_junk api) [0..<(unat bytes - 96) div 8]) (unat n_pages) 0;
        Some (Inr p, s\<lparr>kmaps := (kmaps s)(p \<mapsto>
          \<lparr>m_owner = current api, m_vaddr = vaddr, m_ctrl_list = unat (heap_junk api 0),
           m_pdev = c_pdev c, m_page_size = 0, m_data = NULL, m_release = None,
           m_n_addrs = n_pages, m_invalid = False, m_addrs = addrs\<rparr>)\<rparr>) })"

definition kvfree_map :: "ptr \<Rightarrow> kstate \<Rightarrow> kstate option" where
  "kvfree_map p s = do {
     m \<leftarrow> kmaps s p;
     Some (free_node p (s\<lparr>kmaps := (kmaps s)(p := None)\<rparr>)) }"

definition map_find :: "kapi \<Rightarrow> ptr \<Rightarrow> u64 \<Rightarrow> kstate \<Rightarrow> ptr option" where
  "map_find api lst vaddr s = do {
     element \<leftarrow> list_next lst (lm s);
     list_search (\<lambda>p. do {
         m \<leftarrow> kmaps s p;
         Some (m_owner m = current api \<and> m_page_size m > 0 \<and>
           m_vaddr m = vaddr AND NOT (m_page_size m - 1)) })
       (\<lambda>e. list_next e (lm s)) element }"

section \<open>User pages\<close>

definition release_user_pages :: "ptr \<Rightarrow> kstate \<Rightarrow> kstate option" where
  "release_user_pages p s = do {
     m \<leftarrow> kmaps s p;
     addrs \<leftarrow> arr_prefix (m_addrs m) (unat (m_n_addrs m));
     pages \<leftarrow> page_arrays s (m_data m);
     got \<leftarrow> arr_prefix pages (unat (m_n_addrs m));
     if NULL \<in> set got then None
     else Some (log (map (K_dma_unmap (m_pdev m)) addrs @ map K_put_page got)
       (s\<lparr>page_arrays := (page_arrays s)(m_data m := None),
          kmaps := (kmaps s)(p \<mapsto> m\<lparr>m_data := NULL\<rparr>)\<rparr>)) }"

text \<open>
  The loop that maps the pages: the result is the value returned, the address array and the
  calls made. A failed \<open>dma_map_page\<close> acquires nothing and ends the loop.
\<close>

function dma_map_pages :: "kapi \<Rightarrow> ptr \<Rightarrow> ptr list \<Rightarrow> nat \<Rightarrow> nat \<Rightarrow> u64 list \<Rightarrow> (int \<times> u64 list \<times> kcall list) option" where
  "dma_map_pages api dev pages i n addrs =
     (if i < n
      then do {
        page \<leftarrow> arr_get pages i;
        let a = dma_map_page api dev page;
        addrs \<leftarrow> arr_set addrs i a;
        let retval = dma_mapping_error api dev a;
        if retval \<noteq> 0 then Some (retval, addrs, [])
        else do {
          (retval, addrs, cs) \<leftarrow> dma_map_pages api dev pages (i + 1) n addrs;
          Some (retval, addrs, K_dma_map dev a # cs) } }
      else Some (0, addrs, []))"
  by pat_completeness auto
termination
  by (relation "measure (\<lambda>(_, _, _, i, n, _). n - i)") auto

declare dma_map_pages.simps [simp del]

definition map_user_pages :: "kapi \<Rightarrow> ptr \<Rightarrow> kstate \<Rightarrow> (int \<times> kstate) option" where
  "map_user_pages api p s = do {
     m \<leftarrow> kmaps s p;
     let q = kmalloc api A_pages;
     if q = NULL then Some (- ENOMEM, s)
     else
       let (retval, got) = get_user_pages api (m_vaddr m) (m_n_addrs m) in
       if retval \<le> 0 then Some (retval, s)
       else do {
         pages \<leftarrow> arr_store (replicate (unat (m_n_addrs m)) NULL) got;
         let s = log (map K_get_page got) (s\<lparr>page_arrays := (page_arrays s)(q \<mapsto> pages)\<rparr>);
         let m = m\<lparr>m_n_addrs := word_of_int retval, m_page_size := PAGE_SIZE, m_data := q,
           m_release := Some Release_user_pages\<rparr>;
         (retval, addrs, cs) \<leftarrow>
           dma_map_pages api (m_pdev m) pages 0 (unat (m_n_addrs m)) (m_addrs m);
         Some (retval, log cs (s\<lparr>kmaps := (kmaps s)(p \<mapsto> m\<lparr>m_addrs := addrs\<rparr>)\<rparr>)) } }"

section \<open>GPU memory through the NVIDIA peer-to-peer interface\<close>

text \<open>
  The loop over the controllers that releases the DMA mappings of a region: the slot read is the
  next one, and it advances only when that slot is in use.
\<close>

definition unmap_gpu_step :: "kstate \<Rightarrow> gpu_region \<Rightarrow> ptr list \<Rightarrow> ptr \<Rightarrow> nat \<times> kcall list \<Rightarrow>
    (unit + nat \<times> kcall list) option" where
  "unmap_gpu_step s gd mappings element = (\<lambda>(j, cs). do {
     c \<leftarrow> ctrls s element;
     mapping \<leftarrow> arr_get mappings j;
     if mapping \<noteq> NULL
     then Some (Inr (j + 1, cs @ [K_p2p_dma_unmap (c_pdev c) (g_pages gd) mapping]))
     else Some (Inr (j, cs)) })"

definition unmap_gpu_mappings :: "kstate \<Rightarrow> ptr \<Rightarrow> gpu_region \<Rightarrow> ptr list \<Rightarrow> kcall list option" where
  "unmap_gpu_mappings s lst gd mappings = do {
     element \<leftarrow> list_next lst (lm s);
     r \<leftarrow> list_iter (unmap_gpu_step s gd mappings) (\<lambda>e. list_next e (lm s)) element (0, []);
     case r of Inl _ \<Rightarrow> None | Inr (_, cs) \<Rightarrow> Some cs }"

definition release_gpu_region :: "(ptr \<Rightarrow> kcall) \<Rightarrow> ptr \<Rightarrow> kstate \<Rightarrow> kstate option" where
  "release_gpu_region put p s = do {
     m \<leftarrow> kmaps s p;
     if m_data m = NULL then Some s
     else do {
       gd \<leftarrow> gpu_regions s (m_data m);
       s \<leftarrow> (if g_mappings gd \<noteq> NULL
              then do {
                mappings \<leftarrow> mapping_arrays s (g_mappings gd);
                cs \<leftarrow> unmap_gpu_mappings s (m_ctrl_list m) gd mappings;
                Some (log cs (s\<lparr>mapping_arrays := (mapping_arrays s)(g_mappings gd := None)\<rparr>)) }
              else Some s);
       let s = (if g_pages gd \<noteq> NULL then log [put (g_pages gd)] s else s);
       Some (s\<lparr>gpu_regions := (gpu_regions s)(m_data m := None),
               kmaps := (kmaps s)(p \<mapsto> m\<lparr>m_data := NULL\<rparr>)\<rparr>) } }"

definition release_gpu_memory :: "ptr \<Rightarrow> kstate \<Rightarrow> kstate option" where
  "release_gpu_memory p s = release_gpu_region K_p2p_put p s"

text \<open>The loop over the controllers that creates the DMA mappings.\<close>

definition map_gpu_step :: "kapi \<Rightarrow> kstate \<Rightarrow> ptr \<Rightarrow> nat \<Rightarrow> ptr \<Rightarrow>
    nat \<times> ptr list \<times> u64 list \<times> kcall list \<Rightarrow>
    ((int \<times> ptr list \<times> u64 list \<times> kcall list) + (nat \<times> ptr list \<times> u64 list \<times> kcall list)) option" where
  "map_gpu_step api s pages n_addrs element = (\<lambda>(j, mappings, addrs, cs). do {
     c \<leftarrow> ctrls s element;
     let (err, mapping) = p2p_dma_map_pages api (c_pdev c) pages;
     if err \<noteq> 0 then Some (Inl (err, mappings, addrs, cs))
     else do {
       mappings \<leftarrow> arr_set mappings j mapping;
       let cs = cs @ [K_p2p_dma_map (c_pdev c) pages mapping];
       addrs \<leftarrow> (if j + 1 = 1
                  then do {
                    first \<leftarrow> arr_get mappings 0;
                    dma_addresses \<leftarrow> arr_prefix (p2p_dma_addresses api first) n_addrs;
                    arr_store addrs dma_addresses }
                  else Some addrs);
       Some (Inr (j + 1, mappings, addrs, cs)) } })"

definition map_gpu_memory :: "kapi \<Rightarrow> ptr \<Rightarrow> ptr \<Rightarrow> kstate \<Rightarrow> (int \<times> kstate) option" where
  "map_gpu_memory api p lst s = do {
     m \<leftarrow> kmaps s p;
     let g = kmalloc api A_region;
     if g = NULL then Some (- ENOMEM, s)
     else
       let ms = kmalloc api A_mappings in
       if ms = NULL then Some (- ENOMEM, s)
       else
         let m = m\<lparr>m_page_size := GPU_PAGE_SIZE, m_data := g, m_release := Some Release_gpu_memory\<rparr>;
             mappings = replicate map_max_num_ctrls NULL;
             s = s\<lparr>mapping_arrays := (mapping_arrays s)(ms \<mapsto> mappings),
                   gpu_regions := (gpu_regions s)(g \<mapsto> \<lparr>g_pages = NULL, g_mappings = ms\<rparr>),
                   kmaps := (kmaps s)(p \<mapsto> m)\<rparr>;
             (err, pages) = p2p_get_pages api (m_vaddr m) (GPU_PAGE_SIZE * m_n_addrs m)
         in if err \<noteq> 0 then Some (err, s)
            else do {
              let s = log [K_p2p_get pages]
                (s\<lparr>gpu_regions := (gpu_regions s)(g \<mapsto> \<lparr>g_pages = pages, g_mappings = ms\<rparr>)\<rparr>);
              element \<leftarrow> list_next lst (lm s);
              r \<leftarrow> list_iter (map_gpu_step api s pages (unat (m_n_addrs m)))
                    (\<lambda>e. list_next e (lm s)) element (0, mappings, m_addrs m, []);
              case r of
                Inl (err, mappings, addrs, cs) \<Rightarrow>
                  Some (err, log cs (s\<lparr>mapping_arrays := (mapping_arrays s)(ms \<mapsto> mappings),
                    kmaps := (kmaps s)(p \<mapsto> m\<lparr>m_addrs := addrs\<rparr>)\<rparr>))
              | Inr (j, mappings, addrs, cs) \<Rightarrow>
                  Some (0, log cs (s\<lparr>mapping_arrays := (mapping_arrays s)(ms \<mapsto> mappings),
                    kmaps := (kmaps s)(p \<mapsto> m\<lparr>m_addrs := addrs,
                      m_n_addrs := ucast (p2p_entries api pages)\<rparr>)\<rparr>)) } }"

section \<open>GPU memory through DMA-buf\<close>

definition ugds_dmabuf_move_notify :: "ptr \<Rightarrow> kstate \<Rightarrow> kstate option" where
  "ugds_dmabuf_move_notify p s =
     (if p \<noteq> NULL then map_upd p (\<lambda>m. m\<lparr>m_invalid := True\<rparr>) s else Some s)"

definition release_dmabuf_memory :: "ptr \<Rightarrow> kstate \<Rightarrow> kstate option" where
  "release_dmabuf_memory p s = do {
     m \<leftarrow> kmaps s p;
     if m_data m = NULL then Some s
     else do {
       dr \<leftarrow> dmabuf_regions s (m_data m);
       Some (log
         ((if d_sgt dr \<noteq> NULL
           then [K_resv_lock (d_dmabuf dr), K_unmap_attachment (d_attachment dr) (d_sgt dr),
                 K_unpin (d_attachment dr), K_resv_unlock (d_dmabuf dr)] else []) @
          (if d_attachment dr \<noteq> NULL then [K_detach (d_dmabuf dr) (d_attachment dr)] else []) @
          (if d_dmabuf dr \<noteq> NULL then [K_buf_put (d_dmabuf dr)] else []))
         (s\<lparr>dmabuf_regions := (dmabuf_regions s)(m_data m := None),
            kmaps := (kmaps s)(p \<mapsto> m\<lparr>m_data := NULL\<rparr>)\<rparr>)) } }"

text \<open>
  \<open>map_dmabuf_memory\<close>. The two early error returns read \<open>dr\<close> after \<open>kfree(dr)\<close>; in the model
  the region is gone from the heap by then, so the read is the fault \<open>None\<close>. The exporter's
  \<open>move_notify\<close>, which only sets the \<open>invalid\<close> flag of the descriptor, is taken to run, if it
  runs, right after the attachment is made.
\<close>

definition map_dmabuf_memory :: "kapi \<Rightarrow> ptr \<Rightarrow> int \<Rightarrow> u64 \<Rightarrow> u64 \<Rightarrow> u64 \<Rightarrow> kstate \<Rightarrow> (int \<times> kstate) option" where
  "map_dmabuf_memory api p dmabuf_fd hsa_offset expected_pages ioaddrs_capacity s =
     (if expected_pages > ioaddrs_capacity then Some (- EOVERFLOW, s)
      else
        let q = kmalloc api A_region in
        if q = NULL then Some (- ENOMEM, s)
        else case dma_buf_get api dmabuf_fd of
          Inl e \<Rightarrow> do {
            let s = s\<lparr>dmabuf_regions := (dmabuf_regions s)(q := None)\<rparr>;
            dr \<leftarrow> dmabuf_regions s q;
            Some (e, s) }
        | Inr buf \<Rightarrow> do {
            let s = log [K_buf_get buf] s;
            m \<leftarrow> kmaps s p;
            case dma_buf_dynamic_attach api buf (m_pdev m) of
              Inl e \<Rightarrow> do {
                let s = log [K_buf_put buf] (s\<lparr>dmabuf_regions := (dmabuf_regions s)(q := None)\<rparr>);
                dr \<leftarrow> dmabuf_regions s q;
                Some (e, s) }
            | Inr att \<Rightarrow> do {
                let s = log [K_attach buf att] s;
                s \<leftarrow> (if move_notify_fired api then ugds_dmabuf_move_notify p s else Some s);
                let err = dma_buf_pin api att;
                if err \<noteq> 0
                then Some (err, log [K_resv_lock buf, K_resv_unlock buf, K_detach buf att, K_buf_put buf] s)
                else
                  let s = log [K_resv_lock buf, K_pin att, K_resv_unlock buf] s in
                  case dma_buf_map_attachment api att of
                    Inl err \<Rightarrow> Some (err, log [K_resv_lock buf, K_resv_unlock buf, K_resv_lock buf,
                      K_unpin att, K_resv_unlock buf, K_detach buf att, K_buf_put buf] s)
                  | Inr sgt \<Rightarrow> do {
                      let s = log [K_resv_lock buf, K_map_attachment att sgt, K_resv_unlock buf]
                        (s\<lparr>dmabuf_regions := (dmabuf_regions s)(q \<mapsto>
                           \<lparr>d_dmabuf = buf, d_attachment = att, d_sgt = sgt\<rparr>)\<rparr>);
                      m \<leftarrow> kmaps s p;
                      let m = m\<lparr>m_page_size := PAGE_SIZE, m_data := q,
                        m_release := Some Release_dmabuf_memory\<rparr>;
                      (err, addrs) \<leftarrow> sg_flatten_to_addrs (sg_table api sgt) (m_addrs m)
                        expected_pages PAGE_SIZE hsa_offset;
                      let m = m\<lparr>m_addrs := addrs\<rparr>;
                      if err \<noteq> 0
                      then Some (err, log [K_resv_lock buf, K_unmap_attachment att sgt, K_unpin att,
                             K_resv_unlock buf, K_detach buf att, K_buf_put buf]
                           (s\<lparr>dmabuf_regions := (dmabuf_regions s)(q := None),
                              kmaps := (kmaps s)(p \<mapsto> m\<lparr>m_data := NULL\<rparr>)\<rparr>))
                      else Some (0, s\<lparr>kmaps := (kmaps s)(p \<mapsto> m)\<rparr>) } } })"

section \<open>Creating and releasing mappings\<close>

definition run_release :: "release \<Rightarrow> ptr \<Rightarrow> kstate \<Rightarrow> kstate option" where
  "run_release r = (case r of
     Release_user_pages \<Rightarrow> release_user_pages
   | Release_gpu_memory \<Rightarrow> release_gpu_memory
   | Release_dmabuf_memory \<Rightarrow> release_dmabuf_memory)"

definition unmap_and_release :: "ptr \<Rightarrow> kstate \<Rightarrow> kstate option" where
  "unmap_and_release p s = do {
     s \<leftarrow> with_lm (list_remove p) s;
     m \<leftarrow> kmaps s p;
     s \<leftarrow> (case m_release m of
            Some r \<Rightarrow> if m_data m \<noteq> NULL then run_release r p s else Some s
          | None \<Rightarrow> Some s);
     kvfree_map p s }"

definition force_release_gpu_memory :: "ptr \<Rightarrow> kstate \<Rightarrow> kstate option" where
  "force_release_gpu_memory p s = do {
     s \<leftarrow> release_gpu_region K_p2p_free_table p s;
     unmap_and_release p s }"

text \<open>
  The three ways to make a mapping share their frame: make a descriptor, set it up, release it
  again when that fails, and put it on the list otherwise.
\<close>

definition map_with :: "(ptr \<Rightarrow> kstate \<Rightarrow> (int \<times> kstate) option) \<Rightarrow> (map_desc \<Rightarrow> map_desc) \<Rightarrow>
    kapi \<Rightarrow> ptr \<Rightarrow> ptr \<Rightarrow> u64 \<Rightarrow> u64 \<Rightarrow> kstate \<Rightarrow> ((int + ptr) \<times> kstate) option" where
  "map_with setup prepare api lst ctrl vaddr n_pages s =
     (if n_pages < 1 then Some (Inl (- EINVAL), s)
      else do {
        (r, s) \<leftarrow> create_descriptor api ctrl vaddr n_pages s;
        case r of
          Inl e \<Rightarrow> Some (Inl e, s)
        | Inr md \<Rightarrow> do {
            s \<leftarrow> map_upd md prepare s;
            (err, s) \<leftarrow> setup md s;
            if err \<noteq> 0
            then do {
              s \<leftarrow> unmap_and_release md s;
              Some (Inl err, s) }
            else do {
              s \<leftarrow> with_lm (list_insert lst md) s;
              Some (Inr md, s) } } })"

definition map_userspace :: "kapi \<Rightarrow> ptr \<Rightarrow> ptr \<Rightarrow> u64 \<Rightarrow> u64 \<Rightarrow> kstate \<Rightarrow> ((int + ptr) \<times> kstate) option" where
  "map_userspace api lst ctrl vaddr n_pages =
     map_with (map_user_pages api) (\<lambda>m. m\<lparr>m_page_size := PAGE_SIZE\<rparr>)
       api lst ctrl (vaddr AND PAGE_MASK) n_pages"

definition map_device_memory :: "kapi \<Rightarrow> ptr \<Rightarrow> ptr \<Rightarrow> u64 \<Rightarrow> u64 \<Rightarrow> ptr \<Rightarrow> kstate \<Rightarrow> ((int + ptr) \<times> kstate) option" where
  "map_device_memory api lst ctrl vaddr n_pages ctrls_list =
     map_with (\<lambda>md. map_gpu_memory api md ctrls_list)
       (\<lambda>m. m\<lparr>m_page_size := GPU_PAGE_SIZE, m_ctrl_list := ctrls_list\<rparr>)
       api lst ctrl (vaddr AND GPU_PAGE_MASK) n_pages"

definition map_dmabuf :: "kapi \<Rightarrow> ptr \<Rightarrow> ptr \<Rightarrow> u64 \<Rightarrow> int \<Rightarrow> u64 \<Rightarrow> u64 \<Rightarrow> u64 \<Rightarrow> kstate \<Rightarrow>
    ((int + ptr) \<times> kstate) option" where
  "map_dmabuf api lst ctrl gpu_ptr dmabuf_fd dmabuf_offset n_pages ioaddrs_capacity =
     map_with (\<lambda>md. map_dmabuf_memory api md dmabuf_fd dmabuf_offset n_pages ioaddrs_capacity)
       (\<lambda>m. m\<lparr>m_page_size := PAGE_SIZE\<rparr>)
       api lst ctrl gpu_ptr n_pages"

end
