(* ===== verification/Drv_Map_Inv.thy ===== *)
theory Drv_Map_Inv
  imports Drv_Map
begin

text \<open>
  The heap invariant of the mapping component and its preservation. Every live descriptor is
  consistent with the objects it points to, and the page arrays, GPU regions, mapping arrays and
  DMA-buf regions that are allocated are exactly those that some descriptor owns, each owned once:
  nothing is leaked and nothing is freed twice. The three set-up routines share the contract of
  the locale \<open>mapping_setup\<close>. Along with the invariant, \<open>charge\<close> keeps the books: the
  kernel resources acquired and released by an operation are the change in what its mapping holds.
\<close>

section \<open>Ownership\<close>

definition owned :: "(ptr \<rightharpoonup> ptr) \<Rightarrow> (ptr \<rightharpoonup> 'a) \<Rightarrow> bool" where
  "owned f h \<longleftrightarrow> (\<forall>q. q \<in> dom h \<longleftrightarrow> (\<exists>p. f p = Some q)) \<and>
     (\<forall>p p' q. f p = Some q \<longrightarrow> f p' = Some q \<longrightarrow> p = p')"

lemma owned_live: "owned f h \<Longrightarrow> f p = Some q \<Longrightarrow> q \<in> dom h"
  unfolding owned_def by blast

lemma owned_owner: "owned f h \<Longrightarrow> q \<in> dom h \<Longrightarrow> \<exists>p. f p = Some q"
  unfolding owned_def by blast

lemma owned_once: "owned f h \<Longrightarrow> f p = Some q \<Longrightarrow> f p' = Some q \<Longrightarrow> p = p'"
  unfolding owned_def by blast

lemma ownedI:
  assumes "\<And>p q. f p = Some q \<Longrightarrow> q \<in> dom h" "\<And>q. q \<in> dom h \<Longrightarrow> \<exists>p. f p = Some q"
    and "\<And>p p' q. f p = Some q \<Longrightarrow> f p' = Some q \<Longrightarrow> p = p'"
  shows "owned f h"
  unfolding owned_def using assms by blast

lemma owned_add:
  assumes o: "owned f h" and p: "f p = None" and q: "q \<notin> dom h"
  shows "owned (f(p \<mapsto> q)) (h(q \<mapsto> v))"
proof (rule ownedI)
  fix p' q' assume "(f(p \<mapsto> q)) p' = Some q'"
  then show "q' \<in> dom (h(q \<mapsto> v))" using owned_live [OF o] by (cases "p' = p") auto
next
  fix q' assume q': "q' \<in> dom (h(q \<mapsto> v))"
  show "\<exists>p'. (f(p \<mapsto> q)) p' = Some q'"
  proof (cases "q' = q")
    case True
    then have "(f(p \<mapsto> q)) p = Some q'" by simp
    then show ?thesis ..
  next
    case False
    then obtain p' where "f p' = Some q'" using owned_owner [OF o, of q'] q' by auto
    then have "(f(p \<mapsto> q)) p' = Some q'" using p by auto
    then show ?thesis ..
  qed
next
  fix p1 p2 q' assume "(f(p \<mapsto> q)) p1 = Some q'" "(f(p \<mapsto> q)) p2 = Some q'"
  then show "p1 = p2"
    using owned_once [OF o] owned_live [OF o] q by (cases "p1 = p"; cases "p2 = p") auto
qed

lemma owned_remove:
  assumes o: "owned f h" and p: "f p = Some q"
  shows "owned (f(p := None)) (h(q := None))"
proof (rule ownedI)
  fix p' q' assume "(f(p := None)) p' = Some q'"
  then have f: "f p' = Some q'" "p' \<noteq> p" by (auto split: if_splits)
  then have "q' \<noteq> q" using owned_once [OF o p] by blast
  then show "q' \<in> dom (h(q := None))" using owned_live [OF o f(1)] by auto
next
  fix q' assume "q' \<in> dom (h(q := None))"
  then have "q' \<noteq> q" "q' \<in> dom h" by (auto split: if_splits)
  then obtain p' where "f p' = Some q'" using owned_owner [OF o] by blast
  then have "(f(p := None)) p' = Some q'" using p \<open>q' \<noteq> q\<close> by auto
  then show "\<exists>p'. (f(p := None)) p' = Some q'" ..
next
  fix p1 p2 q' assume "(f(p := None)) p1 = Some q'" "(f(p := None)) p2 = Some q'"
  then have "f p1 = Some q'" "f p2 = Some q'" by (auto split: if_splits)
  then show "p1 = p2" by (rule owned_once [OF o])
qed

lemma owned_update: "owned f h \<Longrightarrow> q \<in> dom h \<Longrightarrow> owned f (h(q \<mapsto> v))"
  unfolding owned_def by (simp add: dom_fun_upd insert_absorb)

section \<open>The invariant\<close>

definition data_of :: "release \<Rightarrow> (ptr \<rightharpoonup> map_desc) \<Rightarrow> ptr \<rightharpoonup> ptr" where
  "data_of r ms p = (case ms p of
     None \<Rightarrow> None
   | Some m \<Rightarrow> if m_release m = Some r \<and> m_data m \<noteq> NULL then Some (m_data m) else None)"

definition array_of :: "(ptr \<rightharpoonup> gpu_region) \<Rightarrow> ptr \<rightharpoonup> ptr" where
  "array_of gs q = map_option g_mappings (gs q)"

definition user_ok :: "(ptr \<rightharpoonup> ptr list) \<Rightarrow> map_desc \<Rightarrow> bool" where
  "user_ok pa m \<longleftrightarrow> (\<exists>pages. pa (m_data m) = Some pages \<and>
     unat (m_n_addrs m) \<le> length pages \<and> NULL \<notin> set (take (unat (m_n_addrs m)) pages))"

definition gpu_ok :: "(ptr \<rightharpoonup> gpu_region) \<Rightarrow> (ptr \<rightharpoonup> ptr list) \<Rightarrow> map_desc \<Rightarrow> bool" where
  "gpu_ok gr ma m \<longleftrightarrow> m_ctrl_list m = ctrl_list \<and>
     (\<exists>gd ms. gr (m_data m) = Some gd \<and> g_mappings gd \<noteq> NULL \<and>
        ma (g_mappings gd) = Some ms \<and> length ms = map_max_num_ctrls)"

definition map_ok :: "(ptr \<rightharpoonup> ptr list) \<Rightarrow> (ptr \<rightharpoonup> gpu_region) \<Rightarrow> (ptr \<rightharpoonup> ptr list) \<Rightarrow> map_desc \<Rightarrow> bool" where
  "map_ok pa gr ma m \<longleftrightarrow> unat (m_n_addrs m) \<le> length (m_addrs m) \<and>
     (m_data m \<noteq> NULL \<longrightarrow> m_release m \<noteq> None \<and>
       (m_release m = Some Release_user_pages \<longrightarrow> user_ok pa m) \<and>
       (m_release m = Some Release_gpu_memory \<longrightarrow> gpu_ok gr ma m))"

definition heap_inv :: "(ptr \<rightharpoonup> map_desc) \<Rightarrow> (ptr \<rightharpoonup> ptr list) \<Rightarrow> (ptr \<rightharpoonup> gpu_region) \<Rightarrow>
    (ptr \<rightharpoonup> ptr list) \<Rightarrow> (ptr \<rightharpoonup> dmabuf_region) \<Rightarrow> bool" where
  "heap_inv km pa gr ma dr \<longleftrightarrow> (\<forall>p m. km p = Some m \<longrightarrow> map_ok pa gr ma m) \<and>
     owned (data_of Release_user_pages km) pa \<and>
     owned (data_of Release_gpu_memory km) gr \<and>
     owned (data_of Release_dmabuf_memory km) dr \<and>
     owned (array_of gr) ma"

definition maps_inv :: "kstate \<Rightarrow> bool" where
  "maps_inv s \<longleftrightarrow> heap_inv (kmaps s) (page_arrays s) (gpu_regions s) (mapping_arrays s) (dmabuf_regions s)"

text \<open>The controllers are on their list and there are no more of them than a mapping array has slots.\<close>

definition ctrls_ok :: "kstate \<Rightarrow> ptr list \<Rightarrow> bool" where
  "ctrls_ok s cs \<longleftrightarrow> dlist (lm s) ctrl_list cs \<and> set cs \<subseteq> dom (ctrls s) \<and> length cs \<le> map_max_num_ctrls"

lemma data_of_upd:
  "data_of r (ms(p \<mapsto> m)) =
     (if m_release m = Some r \<and> m_data m \<noteq> NULL then (data_of r ms)(p \<mapsto> m_data m)
      else (data_of r ms)(p := None))"
  by (auto simp: data_of_def fun_eq_iff)

lemma data_of_None: "data_of r (ms(p := None)) = (data_of r ms)(p := None)"
  by (auto simp: data_of_def fun_eq_iff)

lemma data_of_same: "data_of r ms p = None \<Longrightarrow> (data_of r ms)(p := None) = data_of r ms"
  by (auto simp: fun_eq_iff)

lemma array_of_upd: "array_of (gs(q \<mapsto> g)) = (array_of gs)(q \<mapsto> g_mappings g)"
  "array_of (gs(q := None)) = (array_of gs)(q := None)"
  by (auto simp: array_of_def fun_eq_iff)

lemma maps_inv_log [simp]: "maps_inv (log cs s) = maps_inv s"
  by (simp add: maps_inv_def)

lemma maps_inv_lm [simp]: "maps_inv (s\<lparr>lm := m\<rparr>) = maps_inv s"
  by (simp add: maps_inv_def)

lemma ctrls_ok_cong: "ctrls_ok s cs \<Longrightarrow> lm s' = lm s \<Longrightarrow> ctrls s' = ctrls s \<Longrightarrow> ctrls_ok s' cs"
  by (simp add: ctrls_ok_def)

section \<open>Adding and freeing a descriptor without data\<close>

lemma maps_inv_add:
  assumes "maps_inv s" "kmaps s p = None" "m_data m = NULL" "unat (m_n_addrs m) \<le> length (m_addrs m)"
  shows "maps_inv (s\<lparr>kmaps := (kmaps s)(p \<mapsto> m)\<rparr>)"
proof -
  have "data_of r (kmaps s) p = None" for r using assms(2) by (simp add: data_of_def)
  then show ?thesis
    using assms by (simp add: maps_inv_def heap_inv_def map_ok_def data_of_upd data_of_same)
qed

lemma maps_inv_free:
  assumes "maps_inv s" "kmaps s p = Some m" "m_data m = NULL"
  shows "maps_inv (s\<lparr>kmaps := (kmaps s)(p := None)\<rparr>)"
proof -
  have "data_of r (kmaps s) p = None" for r using assms by (simp add: data_of_def)
  then show ?thesis
    using assms by (simp add: maps_inv_def heap_inv_def data_of_None data_of_same)
qed

section \<open>Acquiring and releasing the data of a descriptor\<close>

lemma heap_inv_map_ok: "heap_inv km pa gr ma dr \<Longrightarrow> km p = Some m \<Longrightarrow> map_ok pa gr ma m"
  by (simp add: heap_inv_def)

lemma data_of_Some: "data_of r km p = Some q \<longleftrightarrow>
    (\<exists>m. km p = Some m \<and> m_release m = Some r \<and> m_data m = q \<and> q \<noteq> NULL)"
  by (auto simp: data_of_def split: option.splits)

lemma data_of_NoneI: "km p = Some m \<Longrightarrow> m_release m \<noteq> Some r \<or> m_data m = NULL \<Longrightarrow> data_of r km p = None"
  by (auto simp: data_of_def)

lemma heap_inv_user_release:
  assumes inv: "heap_inv km pa gr ma dr" and p: "km p = Some m" "m_release m = Some Release_user_pages"
    and q: "m_data m = q" "q \<noteq> NULL"
  shows "heap_inv (km(p \<mapsto> m\<lparr>m_data := NULL\<rparr>)) (pa(q := None)) gr ma dr"
proof -
  have d: "data_of Release_user_pages km p = Some q" using p q by (simp add: data_of_def)
  have o: "owned (data_of Release_user_pages km) pa" using inv by (simp add: heap_inv_def)
  have "map_ok (pa(q := None)) gr ma m'" if "km p' = Some m'" "p' \<noteq> p" for p' m'
  proof -
    have "m_data m' \<noteq> q" if "m_release m' = Some Release_user_pages" "m_data m' \<noteq> NULL"
      using owned_once [OF o d, of p'] that \<open>km p' = Some m'\<close> \<open>p' \<noteq> p\<close> by (auto simp: data_of_Some)
    then show ?thesis
      using heap_inv_map_ok [OF inv \<open>km p' = Some m'\<close>] by (auto simp: map_ok_def user_ok_def)
  qed
  moreover have "data_of r km p = None" if "r \<noteq> Release_user_pages" for r
    using p that by (simp add: data_of_def)
  ultimately show ?thesis
    using inv owned_remove [OF o d] p
    by (auto simp: heap_inv_def data_of_upd data_of_same map_ok_def)
qed

lemma heap_inv_dmabuf_release:
  assumes inv: "heap_inv km pa gr ma dr" and p: "km p = Some m" "m_release m = Some Release_dmabuf_memory"
    and q: "m_data m = q" "q \<noteq> NULL"
  shows "heap_inv (km(p \<mapsto> m\<lparr>m_data := NULL\<rparr>)) pa gr ma (dr(q := None))"
proof -
  have d: "data_of Release_dmabuf_memory km p = Some q" using p q by (simp add: data_of_def)
  have o: "owned (data_of Release_dmabuf_memory km) dr" using inv by (simp add: heap_inv_def)
  moreover have "data_of r km p = None" if "r \<noteq> Release_dmabuf_memory" for r
    using p that by (simp add: data_of_def)
  ultimately show ?thesis
    using inv owned_remove [OF o d] p
    by (auto simp: heap_inv_def data_of_upd data_of_same map_ok_def)
qed

lemma heap_inv_gpu_release:
  assumes inv: "heap_inv km pa gr ma dr" and p: "km p = Some m" "m_release m = Some Release_gpu_memory"
    and q: "m_data m = q" "q \<noteq> NULL" and g: "gr q = Some gd"
  shows "heap_inv (km(p \<mapsto> m\<lparr>m_data := NULL\<rparr>)) pa (gr(q := None)) (ma(g_mappings gd := None)) dr"
proof -
  have d: "data_of Release_gpu_memory km p = Some q" using p q by (simp add: data_of_def)
  have o: "owned (data_of Release_gpu_memory km) gr" using inv by (simp add: heap_inv_def)
  have a: "array_of gr q = Some (g_mappings gd)" using g by (simp add: array_of_def)
  have oa: "owned (array_of gr) ma" using inv by (simp add: heap_inv_def)
  have "map_ok pa (gr(q := None)) (ma(g_mappings gd := None)) m'" if km': "km p' = Some m'" "p' \<noteq> p" for p' m'
  proof -
    have "gpu_ok (gr(q := None)) (ma(g_mappings gd := None)) m'"
      if r: "m_release m' = Some Release_gpu_memory" "m_data m' \<noteq> NULL"
    proof -
      have "m_data m' \<noteq> q" using owned_once [OF o d, of p'] r km' by (auto simp: data_of_Some)
      moreover have "gpu_ok gr ma m'" using heap_inv_map_ok [OF inv km'(1)] r by (simp add: map_ok_def)
      moreover have "g_mappings gd' \<noteq> g_mappings gd" if "gr q' = Some gd'" "q' \<noteq> q" for q' gd'
        using owned_once [OF oa a, of q'] that by (auto simp: array_of_def)
      ultimately show ?thesis by (auto simp: gpu_ok_def)
    qed
    then show ?thesis using heap_inv_map_ok [OF inv km'(1)] by (simp add: map_ok_def)
  qed
  moreover have "data_of r km p = None" if "r \<noteq> Release_gpu_memory" for r
    using p that by (simp add: data_of_def)
  ultimately show ?thesis
    using inv owned_remove [OF o d] owned_remove [OF oa a] p
    by (auto simp: heap_inv_def data_of_upd data_of_same array_of_upd map_ok_def)
qed

lemma heap_inv_user_acquire:
  assumes inv: "heap_inv km pa gr ma dr" and p: "km p = Some m" "m_data m = NULL"
    and q: "q \<noteq> NULL" "q \<notin> dom pa"
    and m': "m_release m' = Some Release_user_pages" "m_data m' = q" "unat (m_n_addrs m') \<le> length (m_addrs m')"
      "unat (m_n_addrs m') \<le> length pages" "NULL \<notin> set (take (unat (m_n_addrs m')) pages)"
  shows "heap_inv (km(p \<mapsto> m')) (pa(q \<mapsto> pages)) gr ma dr"
proof -
  have d: "data_of r km p = None" for r using p by (simp add: data_of_def)
  have o: "owned (data_of Release_user_pages km) pa" using inv by (simp add: heap_inv_def)
  have "map_ok (pa(q \<mapsto> pages)) gr ma m2" if "km p2 = Some m2" for p2 m2
    using heap_inv_map_ok [OF inv that] q(2) by (auto simp: map_ok_def user_ok_def)
  then show ?thesis
    using inv owned_add [OF o d q(2), of pages] q m'
    by (auto simp: heap_inv_def data_of_upd data_of_same [OF d] map_ok_def user_ok_def)
qed

lemma heap_inv_dmabuf_acquire:
  assumes inv: "heap_inv km pa gr ma dr" and p: "km p = Some m" "m_data m = NULL"
    and q: "q \<noteq> NULL" "q \<notin> dom dr"
    and m': "m_release m' = Some Release_dmabuf_memory" "m_data m' = q" "unat (m_n_addrs m') \<le> length (m_addrs m')"
  shows "heap_inv (km(p \<mapsto> m')) pa gr ma (dr(q \<mapsto> d))"
proof -
  have d: "data_of r km p = None" for r using p by (simp add: data_of_def)
  have o: "owned (data_of Release_dmabuf_memory km) dr" using inv by (simp add: heap_inv_def)
  show ?thesis
    using inv owned_add [OF o d q(2)] q m'
    by (auto simp: heap_inv_def data_of_upd data_of_same [OF d] map_ok_def)
qed

lemma heap_inv_gpu_acquire:
  assumes inv: "heap_inv km pa gr ma dr" and p: "km p = Some m" "m_data m = NULL"
    and q: "q \<noteq> NULL" "q \<notin> dom gr" and a: "g_mappings gd \<noteq> NULL" "g_mappings gd \<notin> dom ma"
    and ms: "length ms = map_max_num_ctrls"
    and m': "m_release m' = Some Release_gpu_memory" "m_data m' = q" "m_ctrl_list m' = ctrl_list"
      "unat (m_n_addrs m') \<le> length (m_addrs m')"
  shows "heap_inv (km(p \<mapsto> m')) pa (gr(q \<mapsto> gd)) (ma(g_mappings gd \<mapsto> ms)) dr"
proof -
  have d: "data_of r km p = None" for r using p by (simp add: data_of_def)
  have o: "owned (data_of Release_gpu_memory km) gr" using inv by (simp add: heap_inv_def)
  have oa: "owned (array_of gr) ma" using inv by (simp add: heap_inv_def)
  have dq: "array_of gr q = None" using q(2) by (auto simp: array_of_def)
  have "map_ok pa (gr(q \<mapsto> gd)) (ma(g_mappings gd \<mapsto> ms)) m2" if "km p2 = Some m2" for p2 m2
    using heap_inv_map_ok [OF inv that] q(2) a(2) by (auto simp: map_ok_def gpu_ok_def)
  then show ?thesis
    using inv owned_add [OF o d q(2), of gd] owned_add [OF oa dq a(2), of ms] q a ms m'
    by (auto simp: heap_inv_def data_of_upd data_of_same [OF d] array_of_upd map_ok_def gpu_ok_def)
qed

section \<open>What a mapping holds\<close>

text \<open>
  The kernel resources a descriptor stands for, as the calls that acquired them. The DMA mappings
  of GPU memory are not included: they are released in the order of the controller list at that
  time, which is not necessarily the order in which they were made.
\<close>

definition holds :: "(ptr \<rightharpoonup> ptr list) \<Rightarrow> (ptr \<rightharpoonup> gpu_region) \<Rightarrow> (ptr \<rightharpoonup> dmabuf_region) \<Rightarrow> map_desc \<Rightarrow> kcall list" where
  "holds pa gr dr m =
     (if m_data m = NULL then []
      else if m_release m = Some Release_user_pages
      then (case pa (m_data m) of None \<Rightarrow> []
         | Some pages \<Rightarrow> map K_get_page (take (unat (m_n_addrs m)) pages) @
             map (K_dma_map (m_pdev m)) (take (unat (m_n_addrs m)) (m_addrs m)))
      else if m_release m = Some Release_gpu_memory
      then (case gr (m_data m) of None \<Rightarrow> []
         | Some gd \<Rightarrow> if g_pages gd \<noteq> NULL then [K_p2p_get (g_pages gd)] else [])
      else if m_release m = Some Release_dmabuf_memory
      then (case dr (m_data m) of None \<Rightarrow> []
         | Some d \<Rightarrow> (if d_sgt d \<noteq> NULL then [K_map_attachment (d_attachment d) (d_sgt d), K_pin (d_attachment d)] else []) @
             (if d_attachment d \<noteq> NULL then [K_attach (d_dmabuf d) (d_attachment d)] else []) @
             (if d_dmabuf d \<noteq> NULL then [K_buf_get (d_dmabuf d)] else []))
      else [])"

definition holding :: "kstate \<Rightarrow> ptr \<Rightarrow> kcall list" where
  "holding s p = (case kmaps s p of None \<Rightarrow> [] | Some m \<Rightarrow> holds (page_arrays s) (gpu_regions s) (dmabuf_regions s) m)"

fun counted :: "kcall \<Rightarrow> bool" where
  "counted (K_get_page _) = True"
| "counted (K_dma_map _ _) = True"
| "counted (K_p2p_get _) = True"
| "counted (K_buf_get _) = True"
| "counted (K_attach _ _) = True"
| "counted (K_pin _) = True"
| "counted (K_map_attachment _ _) = True"
| "counted _ = False"

text \<open>
  \<open>charge p s s'\<close>: between the two states only the mapping \<open>p\<close> acquired or released something,
  and the calls made account for the difference.
\<close>

definition charge :: "ptr \<Rightarrow> kstate \<Rightarrow> kstate \<Rightarrow> bool" where
  "charge p s s' \<longleftrightarrow> (\<forall>q. q \<noteq> p \<longrightarrow> holding s' q = holding s q) \<and>
     (\<forall>c. counted c \<longrightarrow> net (calls s') c - net (calls s) c =
        int (count_list (holding s' p) c) - int (count_list (holding s p) c))"

lemma charge_refl [simp]: "charge p s s"
  by (simp add: charge_def)

lemma charge_trans: "charge p s s' \<Longrightarrow> charge p s' s'' \<Longrightarrow> charge p s s''"
  unfolding charge_def by (smt (verit))

lemma chargeI:
  assumes "\<And>q. q \<noteq> p \<Longrightarrow> holding s' q = holding s q"
    and "\<And>c. counted c \<Longrightarrow> net (calls s') c - net (calls s) c = int (count_list (holding s' p) c) - int (count_list (holding s p) c)"
  shows "charge p s s'"
  using assms by (simp add: charge_def)

lemma charge_idle:
  assumes "\<And>q. holding s' q = holding s q" "calls s' = calls s"
  shows "charge p s s'"
  using assms by (simp add: charge_def)

lemma holding_simps [simp]: "holding (s\<lparr>lm := m\<rparr>) q = holding s q" "holding (log ks s) q = holding s q"
  by (auto simp: holding_def split: option.split)

lemma holds_no_data [simp]: "m_data m = NULL \<Longrightarrow> holds pa gr dr m = []"
  by (simp add: holds_def)

lemma holds_user_upd:
  "(m_release m = Some Release_user_pages \<Longrightarrow> m_data m \<noteq> NULL \<Longrightarrow> m_data m \<noteq> q) \<Longrightarrow> holds (pa(q := v)) gr dr m = holds pa gr dr m"
  by (auto simp: holds_def)

lemma holds_gpu_upd:
  "(m_release m = Some Release_gpu_memory \<Longrightarrow> m_data m \<noteq> NULL \<Longrightarrow> m_data m \<noteq> q) \<Longrightarrow> holds pa (gr(q := v)) dr m = holds pa gr dr m"
  by (auto simp: holds_def)

lemma holds_dmabuf_upd:
  "(m_release m = Some Release_dmabuf_memory \<Longrightarrow> m_data m \<noteq> NULL \<Longrightarrow> m_data m \<noteq> q) \<Longrightarrow> holds pa gr (dr(q := v)) m = holds pa gr dr m"
  by (auto simp: holds_def)

lemma maps_inv_owned:
  assumes "maps_inv s"
  shows "owned (data_of Release_user_pages (kmaps s)) (page_arrays s)" "owned (data_of Release_gpu_memory (kmaps s)) (gpu_regions s)"
    "owned (data_of Release_dmabuf_memory (kmaps s)) (dmabuf_regions s)" "owned (array_of (gpu_regions s)) (mapping_arrays s)"
  using assms by (simp_all add: maps_inv_def heap_inv_def)

lemma other_data:
  assumes "owned (data_of r (kmaps s)) h" "kmaps s p = Some m" "m_release m = Some r" "m_data m \<noteq> NULL"
    "kmaps s q = Some m'" "q \<noteq> p" "m_release m' = Some r" "m_data m' \<noteq> NULL"
  shows "m_data m' \<noteq> m_data m"
  using owned_once [OF assms(1), of p "m_data m" q] assms by (auto simp: data_of_Some)

lemma live_data:
  assumes "owned (data_of r (kmaps s)) h" "kmaps s q = Some m'" "m_release m' = Some r" "m_data m' \<noteq> NULL" "x \<notin> dom h"
  shows "m_data m' \<noteq> x"
  using owned_live [OF assms(1), of q "m_data m'"] assms by (auto simp: data_of_Some)

text \<open>The calls that release the DMA mappings: the used slots are paired with the controllers in order.\<close>

fun unmap_calls :: "(ptr \<Rightarrow> ptr) \<Rightarrow> ptr \<Rightarrow> ptr list \<Rightarrow> ptr list \<Rightarrow> kcall list" where
  "unmap_calls pdev pages (c # cs) (m # ms) =
     (if m \<noteq> NULL then K_p2p_dma_unmap (pdev c) pages m # unmap_calls pdev pages cs ms
      else unmap_calls pdev pages cs (m # ms))"
| "unmap_calls pdev pages _ _ = []"

lemma net_acquires:
  "net (map K_get_page ps) c = int (count_list (map K_get_page ps) c)"
  "net (map (K_dma_map d) as) c = int (count_list (map (K_dma_map d) as) c)"
  by (induction ps) (auto simp: net_Cons, induction as, auto simp: net_Cons)

lemma net_dma_maps: "net (map (K_dma_map d \<circ> f) ps) c = int (count_list (map (K_dma_map d \<circ> f) ps) c)"
  using net_acquires(2) [of d "map f ps"] by simp

lemma net_put_pages: "counted c \<Longrightarrow> net (map K_put_page ps) c = - int (count_list (map K_get_page ps) c)"
  by (induction ps; cases c; auto simp: net_Cons)

lemma net_dma_unmaps: "counted c \<Longrightarrow> net (map (K_dma_unmap d) as) c = - int (count_list (map (K_dma_map d) as) c)"
  by (induction as; cases c; auto simp: net_Cons)

lemma net_p2p_unmaps:
  "counted c \<Longrightarrow> net (unmap_calls f t cs ms) c = 0"
  by (induction f t cs ms rule: unmap_calls.induct) (cases c; auto simp: net_Cons)+

section \<open>The release routines\<close>

text \<open>An operation on one mapping: it leaves the lists, the controllers, the globals and every other
  descriptor alone.\<close>

definition frame :: "ptr \<Rightarrow> kstate \<Rightarrow> kstate \<Rightarrow> bool" where
  "frame p s s' \<longleftrightarrow> lm s' = lm s \<and> ctrls s' = ctrls s \<and> curr_ctrls s' = curr_ctrls s \<and>
     max_num_ctrls s' = max_num_ctrls s \<and> dev_first s' = dev_first s \<and> dev_class s' = dev_class s \<and>
     (\<exists>cs. calls s' = calls s @ cs) \<and> p \<in> dom (kmaps s') \<and> (\<forall>q. q \<noteq> p \<longrightarrow> kmaps s' q = kmaps s q)"

lemma iter_unmap_gpu:
  assumes "set cs \<subseteq> dom (ctrls s)" "j + length cs \<le> length ms"
  shows "\<exists>j'. iter_fold (unmap_gpu_step s gd ms) cs (j, acc) =
    Some (Inr (j', acc @ unmap_calls (\<lambda>c. c_pdev (the (ctrls s c))) (g_pages gd) cs (drop j ms)))"
  using assms
proof (induction cs arbitrary: j acc)
  case Nil
  then show ?case by simp
next
  case (Cons c cs)
  then obtain cc where c: "ctrls s c = Some cc" by auto
  have j: "j < length ms" "drop j ms = ms ! j # drop (Suc j) ms"
    using Cons.prems(2) by (auto simp: Cons_nth_drop_Suc)
  show ?case
  proof (cases "ms ! j = NULL")
    case True
    then show ?thesis using Cons.IH [of j acc] Cons.prems j c
      by (simp add: unmap_gpu_step_def arr_get_def)
  next
    case False
    then show ?thesis
      using Cons.IH [of "Suc j" "acc @ [K_p2p_dma_unmap (c_pdev cc) (g_pages gd) (ms ! j)]"] Cons.prems j c
      by (simp add: unmap_gpu_step_def arr_get_def)
  qed
qed

lemma unmap_gpu_mappings_ok:
  assumes "ctrls_ok s cs" "length ms = map_max_num_ctrls"
  shows "unmap_gpu_mappings s ctrl_list gd ms =
    Some (unmap_calls (\<lambda>c. c_pdev (the (ctrls s c))) (g_pages gd) cs ms)"
proof -
  have "dlist (lm s) ctrl_list cs" using assms(1) by (simp add: ctrls_ok_def)
  note iter = dl.iter_bind [OF this]
  from iter_unmap_gpu [of cs s 0 ms gd "[]"] assms show ?thesis
    by (auto simp: unmap_gpu_mappings_def ctrls_ok_def iter)
qed

lemma release_gpu_region_ok:
  assumes "maps_inv s" "ctrls_ok s cs" "kmaps s p = Some m" "m_release m = Some Release_gpu_memory" "m_data m \<noteq> NULL"
    and put: "\<And>t c. counted c \<Longrightarrow> net [put t] c = - int (count_list [K_p2p_get t] c)"
  shows "\<exists>s'. release_gpu_region put p s = Some s' \<and> maps_inv s' \<and> frame p s s' \<and>
    kmaps s' p = Some (m\<lparr>m_data := NULL\<rparr>) \<and> charge p s s'"
proof -
  have "gpu_ok (gpu_regions s) (mapping_arrays s) m"
    using assms(1,3,4,5) by (auto simp: maps_inv_def heap_inv_def map_ok_def)
  then obtain gd ms where g: "m_ctrl_list m = ctrl_list" "gpu_regions s (m_data m) = Some gd"
    "g_mappings gd \<noteq> NULL" "mapping_arrays s (g_mappings gd) = Some ms" "length ms = map_max_num_ctrls"
    by (auto simp: gpu_ok_def)
  have "heap_inv ((kmaps s)(p \<mapsto> m\<lparr>m_data := NULL\<rparr>)) (page_arrays s) ((gpu_regions s)(m_data m := None))
      ((mapping_arrays s)(g_mappings gd := None)) (dmabuf_regions s)"
    using heap_inv_gpu_release [of "kmaps s"] assms g(2) by (simp add: maps_inv_def)
  moreover have "holding s p = (if g_pages gd \<noteq> NULL then [K_p2p_get (g_pages gd)] else [])"
    using assms(3-5) g(2) by (simp add: holding_def holds_def)
  moreover have "holds (page_arrays s) ((gpu_regions s)(m_data m := None)) (dmabuf_regions s) m' =
      holds (page_arrays s) (gpu_regions s) (dmabuf_regions s) m'" if "kmaps s q = Some m'" "q \<noteq> p" for q m'
    using other_data [OF maps_inv_owned(2) [OF assms(1)] assms(3-5) that] by (intro holds_gpu_upd) auto
  ultimately show ?thesis
    using assms(3-5) g unmap_gpu_mappings_ok [OF assms(2) g(5), of gd] put
    by (auto simp: release_gpu_region_def frame_def maps_inv_def charge_def holding_def net_p2p_unmaps split: option.split)
qed

lemma release_user_pages_ok:
  assumes "maps_inv s" "kmaps s p = Some m" "m_release m = Some Release_user_pages" "m_data m \<noteq> NULL"
  shows "\<exists>s'. release_user_pages p s = Some s' \<and> maps_inv s' \<and> frame p s s' \<and>
    kmaps s' p = Some (m\<lparr>m_data := NULL\<rparr>) \<and> charge p s s'"
proof -
  have "user_ok (page_arrays s) m" "unat (m_n_addrs m) \<le> length (m_addrs m)"
    using assms by (auto simp: maps_inv_def heap_inv_def map_ok_def)
  then obtain pages where pg: "page_arrays s (m_data m) = Some pages" "unat (m_n_addrs m) \<le> length pages"
    "NULL \<notin> set (take (unat (m_n_addrs m)) pages)" "unat (m_n_addrs m) \<le> length (m_addrs m)"
    by (auto simp: user_ok_def)
  moreover have "holds ((page_arrays s)(m_data m := None)) (gpu_regions s) (dmabuf_regions s) m' =
      holds (page_arrays s) (gpu_regions s) (dmabuf_regions s) m'" if "kmaps s q = Some m'" "q \<noteq> p" for q m'
    using other_data [OF maps_inv_owned(1) [OF assms(1)] assms(2-4) that] by (intro holds_user_upd) auto
  moreover have "holding s p = map K_get_page (take (unat (m_n_addrs m)) pages) @
      map (K_dma_map (m_pdev m)) (take (unat (m_n_addrs m)) (m_addrs m))"
    using assms(2-4) pg(1) by (simp add: holding_def holds_def)
  moreover have "heap_inv ((kmaps s)(p \<mapsto> m\<lparr>m_data := NULL\<rparr>)) ((page_arrays s)(m_data m := None))
      (gpu_regions s) (mapping_arrays s) (dmabuf_regions s)"
    using heap_inv_user_release [of "kmaps s"] assms by (simp add: maps_inv_def)
  ultimately show ?thesis
    using assms(2-4)
    by (auto simp: release_user_pages_def arr_prefix_def frame_def maps_inv_def charge_def holding_def
        net_put_pages net_dma_unmaps split: option.split)
qed

lemma release_dmabuf_memory_ok:
  assumes "maps_inv s" "kmaps s p = Some m" "m_release m = Some Release_dmabuf_memory" "m_data m \<noteq> NULL"
  shows "\<exists>s'. release_dmabuf_memory p s = Some s' \<and> maps_inv s' \<and> frame p s s' \<and>
    kmaps s' p = Some (m\<lparr>m_data := NULL\<rparr>) \<and> charge p s s'"
proof -
  have "owned (data_of Release_dmabuf_memory (kmaps s)) (dmabuf_regions s)"
    using assms(1) by (simp add: maps_inv_def heap_inv_def)
  then obtain dr where "dmabuf_regions s (m_data m) = Some dr"
    using owned_live [of "data_of Release_dmabuf_memory (kmaps s)" "dmabuf_regions s" p "m_data m"] assms
    by (auto simp: data_of_Some)
  moreover have "heap_inv ((kmaps s)(p \<mapsto> m\<lparr>m_data := NULL\<rparr>)) (page_arrays s) (gpu_regions s)
      (mapping_arrays s) ((dmabuf_regions s)(m_data m := None))"
    using heap_inv_dmabuf_release [of "kmaps s"] assms by (simp add: maps_inv_def)
  moreover have "holds (page_arrays s) (gpu_regions s) ((dmabuf_regions s)(m_data m := None)) m' =
      holds (page_arrays s) (gpu_regions s) (dmabuf_regions s) m'" if "kmaps s q = Some m'" "q \<noteq> p" for q m'
    using other_data [OF maps_inv_owned(3) [OF assms(1)] assms(2-4) that] by (intro holds_dmabuf_upd) auto
  moreover have "holding s p = holds (page_arrays s) (gpu_regions s) (dmabuf_regions s) m"
    using assms(2) by (simp add: holding_def)
  ultimately show ?thesis
    using assms(2-4) unfolding charge_def
    by (auto simp: release_dmabuf_memory_def frame_def maps_inv_def holding_def split: option.split)
      (case_tac c; auto simp: holds_def net_Cons)+
qed

lemma run_release_ok:
  assumes "maps_inv s" "ctrls_ok s cs" "kmaps s p = Some m" "m_data m \<noteq> NULL"
  shows "\<exists>r s'. m_release m = Some r \<and> run_release r p s = Some s' \<and> maps_inv s' \<and> frame p s s' \<and>
    kmaps s' p = Some (m\<lparr>m_data := NULL\<rparr>) \<and> charge p s s'"
proof -
  obtain r where r: "m_release m = Some r"
    using assms by (auto simp: maps_inv_def heap_inv_def map_ok_def)
  have "counted c \<Longrightarrow> net [K_p2p_put t] c = - int (count_list [K_p2p_get t] c)" for t c
    by (cases c) (simp_all add: net_Cons)
  then show ?thesis
    using release_user_pages_ok [OF assms(1,3) _ assms(4)] release_dmabuf_memory_ok [OF assms(1,3) _ assms(4)]
      release_gpu_region_ok [OF assms(1-3) _ assms(4), of K_p2p_put] r
    by (cases r) (auto simp: run_release_def release_gpu_memory_def)
qed

text \<open>Unlinking, releasing and freeing: what is left is the state without the descriptor.\<close>

lemma unmap_and_release_ok:
  assumes "maps_inv s" "kmaps s p = Some m" "list_remove p (lm s) = Some l'" "ctrls_ok (s\<lparr>lm := l'\<rparr>) cs"
  shows "\<exists>s'. unmap_and_release p s = Some s' \<and> maps_inv s' \<and> lm s' = node_free p l' \<and> ctrls s' = ctrls s \<and>
    kmaps s' = (kmaps s)(p := None) \<and> curr_ctrls s' = curr_ctrls s \<and> max_num_ctrls s' = max_num_ctrls s \<and>
    dev_first s' = dev_first s \<and> dev_class s' = dev_class s \<and> (\<exists>ks. calls s' = calls s @ ks) \<and> charge p s s'"
proof -
  let ?s = "s\<lparr>lm := l'\<rparr>"
  let ?rel = "case m_release m of Some r \<Rightarrow> if m_data m \<noteq> NULL then run_release r p ?s else Some ?s | None \<Rightarrow> Some ?s"
  have inv: "maps_inv ?s" "kmaps ?s p = Some m" using assms by simp_all
  have "\<exists>s1 m1. ?rel = Some s1 \<and> maps_inv s1 \<and> frame p ?s s1 \<and> kmaps s1 p = Some m1 \<and> m_data m1 = NULL \<and> charge p ?s s1"
  proof (cases "m_data m = NULL")
    case True
    then show ?thesis using inv by (cases "m_release m") (auto simp: frame_def)
  next
    case False
    from run_release_ok [OF inv(1) assms(4) inv(2) this] show ?thesis using False by fastforce
  qed
  then obtain s1 m1 where s1: "?rel = Some s1" "maps_inv s1" "frame p ?s s1" "kmaps s1 p = Some m1" "m_data m1 = NULL"
    and ch: "charge p ?s s1" by blast
  have run: "unmap_and_release p s = kvfree_map p s1"
    using assms(2,3) s1(1) by (simp add: unmap_and_release_def with_lm_def)
  have km: "(kmaps s1)(p := None) = (kmaps s)(p := None)"
    using s1(3) by (auto simp: frame_def fun_eq_iff)
  let ?s2 = "s1\<lparr>kmaps := (kmaps s1)(p := None), lm := node_free p (lm s1)\<rparr>"
  have "charge p s1 ?s2" using s1(4,5) by (intro charge_idle) (auto simp: holding_def split: option.split)
  moreover have "charge p s ?s" by (rule charge_idle) simp_all
  ultimately have "charge p s ?s2" using ch charge_trans by blast
  with run km show ?thesis
    using s1 maps_inv_free [OF s1(2,4,5)] by (simp add: kvfree_map_def free_node_def frame_def)
qed

section \<open>What is relied on of the kernel\<close>

text \<open>Allocations return \<open>NULL\<close> or memory that is not in use.\<close>

definition fresh_data :: "kapi \<Rightarrow> kstate \<Rightarrow> bool" where
  "fresh_data api s \<longleftrightarrow> kmalloc api A_pages \<notin> dom (page_arrays s) \<and>
     kmalloc api A_region \<notin> dom (gpu_regions s) \<and> kmalloc api A_region \<notin> dom (dmabuf_regions s) \<and>
     kmalloc api A_mappings \<notin> dom (mapping_arrays s)"

text \<open>\<open>get_user_pages\<close> reports as many pages as it pins, and no more than it was asked for.\<close>

definition pages_api :: "kapi \<Rightarrow> bool" where
  "pages_api api \<longleftrightarrow> (\<forall>v n r got. get_user_pages api v n = (r, got) \<longrightarrow> 0 < r \<longrightarrow>
     length got = nat r \<and> nat r \<le> unat n \<and> NULL \<notin> set got)"

text \<open>
  A successful \<open>nvidia_p2p_get_pages\<close> yields a table with one entry per 64 KiB page, and a DMA mapping
  of a table has one address per entry.
\<close>

definition p2p_api :: "kapi \<Rightarrow> bool" where
  "p2p_api api \<longleftrightarrow>
     (\<forall>v len t. p2p_get_pages api v len = (0, t) \<longrightarrow> t \<noteq> NULL \<and> unat (p2p_entries api t) * 65536 = unat len) \<and>
     (\<forall>d t mp. p2p_dma_map_pages api d t = (0, mp) \<longrightarrow>
        mp \<noteq> NULL \<and> length (p2p_dma_addresses api mp) = unat (p2p_entries api t))"

text \<open>The file descriptor denotes a DMA-buf and it can be attached to.\<close>

definition dmabuf_attaches :: "kapi \<Rightarrow> int \<Rightarrow> bool" where
  "dmabuf_attaches api fd \<longleftrightarrow> (\<exists>b. dma_buf_get api fd = Inr b \<and> (\<forall>d. \<exists>a. dma_buf_dynamic_attach api b d = Inr a))"

text \<open>Objects the DMA-buf framework returns are not \<open>NULL\<close>.\<close>

definition dmabuf_api :: "kapi \<Rightarrow> bool" where
  "dmabuf_api api \<longleftrightarrow> (\<forall>fd b. dma_buf_get api fd = Inr b \<longrightarrow> b \<noteq> NULL) \<and>
     (\<forall>b d a. dma_buf_dynamic_attach api b d = Inr a \<longrightarrow> a \<noteq> NULL) \<and>
     (\<forall>a t. dma_buf_map_attachment api a = Inr t \<longrightarrow> t \<noteq> NULL)"

text \<open>No page fails to be mapped for DMA.\<close>

definition dma_api :: "kapi \<Rightarrow> bool" where
  "dma_api api \<longleftrightarrow> (\<forall>d a. dma_mapping_error api d a = 0)"

section \<open>The set-up routines\<close>

lemma dma_map_pages_total:
  assumes "n \<le> length pages" "n \<le> length addrs"
  shows "\<exists>e addrs' ks. dma_map_pages api dev pages i n addrs = Some (e, addrs', ks) \<and> length addrs' = length addrs"
  using assms
proof (induction api dev pages i n addrs rule: dma_map_pages.induct)
  case (1 api dev pages i n addrs)
  show ?case
  proof (cases "i < n")
    case True
    let ?a = "dma_map_page api dev (pages ! i)"
    show ?thesis
    proof (cases "dma_mapping_error api dev ?a = 0")
      case ok: True
      from 1(1) [OF True, of "pages ! i" ?a "addrs[i := ?a]" 0] ok True 1(2,3)
      obtain e addrs' ks where "dma_map_pages api dev pages (i + 1) n (addrs[i := ?a]) = Some (e, addrs', ks)"
        "length addrs' = length addrs"
        by (auto simp: arr_get_def arr_set_def)
      with True ok 1(2,3) show ?thesis
        by (simp add: dma_map_pages.simps [of api dev pages i n addrs] arr_get_def arr_set_def Let_def)
    next
      case False
      with True 1(2,3) show ?thesis
        by (simp add: dma_map_pages.simps [of api dev pages i n addrs] arr_get_def arr_set_def Let_def)
    qed
  next
    case False
    then show ?thesis by (simp add: dma_map_pages.simps [of api dev pages i n addrs])
  qed
qed

lemma dma_map_pages_exact:
  assumes "dma_api api" "n \<le> length pages" "n \<le> length addrs" "i \<le> n"
  shows "dma_map_pages api dev pages i n addrs =
    Some (0, take i addrs @ map (dma_map_page api dev) (drop i (take n pages)) @ drop n addrs,
      map (\<lambda>p. K_dma_map dev (dma_map_page api dev p)) (drop i (take n pages)))"
  using assms
proof (induction "n - i" arbitrary: i addrs)
  case 0
  then show ?case by (subst dma_map_pages.simps) simp
next
  case (Suc k)
  then have i: "i < n" "i < length pages" "i < length addrs" by auto
  let ?a = "dma_map_page api dev (pages ! i)"
  have "drop i (take n pages) = pages ! i # drop (Suc i) (take n pages)"
    using i Suc.prems by (simp add: Cons_nth_drop_Suc [symmetric] nth_take)
  moreover have "take (Suc i) (addrs[i := ?a]) = take i addrs @ [?a]"
    using i by (simp add: take_Suc_conv_app_nth)
  moreover have "drop n (addrs[i := ?a]) = drop n addrs" using i by simp
  moreover have "dma_mapping_error api dev a = 0" for a using Suc.prems(1) by (simp add: dma_api_def)
  ultimately show ?case
    using i Suc.hyps(1) [of "Suc i" "addrs[i := ?a]"] Suc.hyps(2) Suc.prems
    by (simp add: dma_map_pages.simps [of api dev pages i n addrs] arr_get_def arr_set_def Let_def)
qed

lemma map_user_pages_ok:
  assumes inv: "maps_inv s" and p: "kmaps s p = Some m" "m_data m = NULL"
    and n: "unat (m_n_addrs m) \<le> length (m_addrs m)" and fresh: "fresh_data api s" and api: "pages_api api"
  shows "\<exists>err s'. map_user_pages api p s = Some (err, s') \<and> maps_inv s' \<and> frame p s s' \<and>
    (dma_api api \<longrightarrow> charge p s s')"
proof -
  let ?q = "kmalloc api A_pages"
  obtain r got where g: "get_user_pages api (m_vaddr m) (m_n_addrs m) = (r, got)" by fastforce
  show ?thesis
  proof (cases "?q = NULL \<or> r \<le> 0")
    case True
    then show ?thesis using inv p g by (auto simp: map_user_pages_def frame_def Let_def)
  next
    case False
    then have got: "length got = nat r" "nat r \<le> unat (m_n_addrs m)" "NULL \<notin> set got"
      using api g by (auto simp: pages_api_def)
    have "nat r < 2 ^ 64" using got(2) unat_bound [of "m_n_addrs m"] by simp
    then have r: "unat (word_of_int r :: u64) = nat r"
      using False by (simp add: unat_eq_nat_uint uint_word_of_int_eq take_bit_int_eq_self nat_less_iff)
    let ?pages = "got @ drop (length got) (replicate (unat (m_n_addrs m)) NULL)"
    let ?m = "m\<lparr>m_n_addrs := word_of_int r, m_page_size := PAGE_SIZE, m_data := ?q,
           m_release := Some Release_user_pages\<rparr>"
    obtain e addrs ks where d: "dma_map_pages api (m_pdev m) ?pages 0 (nat r) (m_addrs m) = Some (e, addrs, ks)"
      "length addrs = length (m_addrs m)"
      using dma_map_pages_total [of "nat r" ?pages "m_addrs m" api "m_pdev m" 0] got n by auto
    have "heap_inv ((kmaps s)(p \<mapsto> ?m\<lparr>m_addrs := addrs\<rparr>)) ((page_arrays s)(?q \<mapsto> ?pages))
        (gpu_regions s) (mapping_arrays s) (dmabuf_regions s)"
      using inv p fresh False got d(2) n r
      by (intro heap_inv_user_acquire [of _ _ _ _ _ p m]) (auto simp: maps_inv_def fresh_data_def)
    moreover have "map_user_pages api p s = Some (e, log (map K_get_page got @ ks)
        (s\<lparr>page_arrays := (page_arrays s)(?q \<mapsto> ?pages), kmaps := (kmaps s)(p \<mapsto> ?m\<lparr>m_addrs := addrs\<rparr>)\<rparr>))"
      using False p g got r d by (simp add: map_user_pages_def arr_store_def Let_def log_def)
    moreover have "charge p s (log (map K_get_page got @ ks)
        (s\<lparr>page_arrays := (page_arrays s)(?q \<mapsto> ?pages), kmaps := (kmaps s)(p \<mapsto> ?m\<lparr>m_addrs := addrs\<rparr>)\<rparr>))"
      if dma: "dma_api api"
    proof -
      have "addrs = map (dma_map_page api (m_pdev m)) got @ drop (nat r) (m_addrs m)"
        "ks = map (K_dma_map (m_pdev m)) (map (dma_map_page api (m_pdev m)) got)"
        using dma_map_pages_exact [OF dma, of "nat r" ?pages "m_addrs m" 0 "m_pdev m"] d(1) got n
        by (auto simp: comp_def)
      moreover have "holds ((page_arrays s)(?q \<mapsto> ?pages)) (gpu_regions s) (dmabuf_regions s) m' =
          holds (page_arrays s) (gpu_regions s) (dmabuf_regions s) m'" if "kmaps s q = Some m'" for q m'
        using live_data [OF maps_inv_owned(1) [OF inv] that] fresh by (intro holds_user_upd) (auto simp: fresh_data_def)
      ultimately show ?thesis
        using p False got r
        by (auto simp: charge_def holding_def holds_def net_acquires net_dma_maps split: option.split)
    qed
    ultimately show ?thesis using p by (auto simp: frame_def maps_inv_def)
  qed
qed

lemma iter_map_gpu:
  assumes "set cs \<subseteq> dom (ctrls s)" "j + length cs \<le> length ms" "n \<le> length addrs"
    and api: "\<And>d mp. p2p_dma_map_pages api d t = (0, mp) \<Longrightarrow> n \<le> length (p2p_dma_addresses api mp)"
  shows "\<exists>e j' ms' addrs' ks. length ms' = length ms \<and> length addrs' = length addrs \<and>
    (\<forall>c. counted c \<longrightarrow> net ks c = net acc c) \<and>
    (iter_fold (map_gpu_step api s t n) cs (j, ms, addrs, acc) = Some (Inl (e, ms', addrs', ks)) \<or>
     iter_fold (map_gpu_step api s t n) cs (j, ms, addrs, acc) = Some (Inr (j', ms', addrs', ks)))"
  using assms(1-3)
proof (induction cs arbitrary: j ms addrs acc)
  case Nil
  then show ?case by auto
next
  case (Cons c cs)
  then obtain cc where c: "ctrls s c = Some cc" by auto
  obtain err mp where mp: "p2p_dma_map_pages api (c_pdev cc) t = (err, mp)" by fastforce
  show ?case
  proof (cases "err = 0")
    case False
    then show ?thesis using c mp by (auto simp: map_gpu_step_def)
  next
    case True
    let ?addrs = "if j = 0 then take n (p2p_dma_addresses api mp) @ drop n addrs else addrs"
    let ?acc = "acc @ [K_p2p_dma_map (c_pdev cc) t mp]"
    have n: "n \<le> length (p2p_dma_addresses api mp)" using api mp True by blast
    have step: "map_gpu_step api s t n c (j, ms, addrs, acc) =
        Some (Inr (Suc j, ms[j := mp], ?addrs, ?acc))"
      using c mp True n Cons.prems by (auto simp: map_gpu_step_def fault_simps arr_prefix_def arr_store_def)
    have "counted c \<Longrightarrow> net ?acc c = net acc c" for c by (cases c) (simp_all add: net_Cons)
    moreover have "length ?addrs = length addrs" using n Cons.prems(3) by simp
    ultimately show ?thesis using Cons.IH [of "Suc j" "ms[j := mp]" ?addrs ?acc] Cons.prems
      unfolding iter_fold.simps step by (simp split del: if_split)
  qed
qed

lemma map_gpu_memory_ok:
  assumes inv: "maps_inv s" and cs: "ctrls_ok s cs" and p: "kmaps s p = Some m" "m_data m = NULL" "m_ctrl_list m = ctrl_list"
    and n: "unat (m_n_addrs m) \<le> length (m_addrs m)" "unat (m_n_addrs m) < 2 ^ 32"
    and fresh: "fresh_data api s" and api: "p2p_api api"
  shows "\<exists>err s'. map_gpu_memory api p ctrl_list s = Some (err, s') \<and> maps_inv s' \<and> frame p s s' \<and> charge p s s'"
proof -
  let ?g = "kmalloc api A_region" and ?a = "kmalloc api A_mappings"
  let ?m = "m\<lparr>m_page_size := GPU_PAGE_SIZE, m_data := ?g, m_release := Some Release_gpu_memory\<rparr>"
  let ?ms = "replicate map_max_num_ctrls NULL"
  obtain err t where t: "p2p_get_pages api (m_vaddr m) (GPU_PAGE_SIZE * m_n_addrs m) = (err, t)" by fastforce
  show ?thesis
  proof (cases "?g = NULL \<or> ?a = NULL")
    case True
    then show ?thesis using inv p by (auto simp: map_gpu_memory_def frame_def Let_def)
  next
    case False
    have acq: "heap_inv ((kmaps s)(p \<mapsto> m')) (page_arrays s) ((gpu_regions s)(?g \<mapsto> \<lparr>g_pages = t', g_mappings = ?a\<rparr>))
        ((mapping_arrays s)(?a \<mapsto> ms)) (dmabuf_regions s)"
      if "length ms = map_max_num_ctrls" "m_release m' = Some Release_gpu_memory" "m_data m' = ?g"
        "m_ctrl_list m' = ctrl_list" "unat (m_n_addrs m') \<le> length (m_addrs m')" for m' t' ms
      using heap_inv_gpu_acquire [of "kmaps s" _ _ _ _ p m ?g "\<lparr>g_pages = t', g_mappings = ?a\<rparr>" ms m'] inv p fresh False that
      by (simp add: maps_inv_def fresh_data_def)
    have others: "holds (page_arrays s) ((gpu_regions s)(?g := v)) (dmabuf_regions s) m' =
        holds (page_arrays s) (gpu_regions s) (dmabuf_regions s) m'" if "kmaps s q = Some m'" for q m' v
      using live_data [OF maps_inv_owned(2) [OF inv] that] fresh by (intro holds_gpu_upd) (auto simp: fresh_data_def)
    show ?thesis
    proof (cases "err = 0")
      case False
      let ?s = "s\<lparr>mapping_arrays := (mapping_arrays s)(?a \<mapsto> ?ms),
        gpu_regions := (gpu_regions s)(?g \<mapsto> \<lparr>g_pages = NULL, g_mappings = ?a\<rparr>), kmaps := (kmaps s)(p \<mapsto> ?m)\<rparr>"
      have "charge p s ?s"
        using p others by (auto simp: charge_def holding_def holds_def [of _ _ _ ?m] split: option.split)
      then show ?thesis
        using False \<open>\<not> (?g = NULL \<or> ?a = NULL)\<close> p t n acq [of ?ms ?m NULL]
        by (simp add: map_gpu_memory_def frame_def Let_def maps_inv_def)
    next
      case True
      have "unat (GPU_PAGE_SIZE * m_n_addrs m) = 65536 * unat (m_n_addrs m)"
        using n(2) by (simp add: GPU_PAGE_SIZE_def unat_word_ariths push_bit_eq_mult)
      moreover have "unat (p2p_entries api t) * 65536 = unat (GPU_PAGE_SIZE * m_n_addrs m)"
        using api t True unfolding p2p_api_def by metis
      ultimately have ent: "unat (p2p_entries api t) = unat (m_n_addrs m)" by simp
      then have len: "unat (m_n_addrs m) \<le> length (p2p_dma_addresses api mp)"
        if "p2p_dma_map_pages api d t = (0, mp)" for d mp
        using api that by (simp add: p2p_api_def)
      let ?s = "log [K_p2p_get t] (s\<lparr>mapping_arrays := (mapping_arrays s)(?a \<mapsto> ?ms),
        kmaps := (kmaps s)(p \<mapsto> ?m), gpu_regions := (gpu_regions s)(?g \<mapsto> \<lparr>g_pages = t, g_mappings = ?a\<rparr>)\<rparr>)"
      have "dlist (lm s) ctrl_list cs" using cs by (simp add: ctrls_ok_def)
      note iter = dl.iter_bind [OF this]
      obtain e j' ms' addrs' ks where it: "length ms' = map_max_num_ctrls" "length addrs' = length (m_addrs m)"
        "\<forall>c. counted c \<longrightarrow> net ks c = 0"
        "iter_fold (map_gpu_step api ?s t (unat (m_n_addrs m))) cs (0, ?ms, m_addrs m, []) = Some (Inl (e, ms', addrs', ks)) \<or>
         iter_fold (map_gpu_step api ?s t (unat (m_n_addrs m))) cs (0, ?ms, m_addrs m, []) = Some (Inr (j', ms', addrs', ks))"
        using iter_map_gpu [of cs ?s 0 ?ms "unat (m_n_addrs m)" "m_addrs m" api t "[]"] cs n len
        by (auto simp: ctrls_ok_def)
      have "map_gpu_memory api p ctrl_list s = do {
          r \<leftarrow> iter_fold (map_gpu_step api ?s t (unat (m_n_addrs m))) cs (0, ?ms, m_addrs m, []);
          case r of
            Inl (err, mappings, addrs, ks) \<Rightarrow>
              Some (err, log ks (?s\<lparr>mapping_arrays := (mapping_arrays s)(?a \<mapsto> mappings),
                kmaps := (kmaps s)(p \<mapsto> ?m\<lparr>m_addrs := addrs\<rparr>)\<rparr>))
          | Inr (j, mappings, addrs, ks) \<Rightarrow>
              Some (0, log ks (?s\<lparr>mapping_arrays := (mapping_arrays s)(?a \<mapsto> mappings),
                kmaps := (kmaps s)(p \<mapsto> ?m\<lparr>m_addrs := addrs, m_n_addrs := ucast (p2p_entries api t)\<rparr>)\<rparr>)) }"
        using p t True False by (simp add: map_gpu_memory_def Let_def iter)
      moreover have "charge p s (log ks (?s\<lparr>mapping_arrays := ma, kmaps := (kmaps s)(p \<mapsto> m')\<rparr>))"
        if "m_release m' = Some Release_gpu_memory" "m_data m' = ?g" for ma m'
      proof -
        have "t \<noteq> NULL" using api t True unfolding p2p_api_def by metis
        then show ?thesis
          using that p it(3) others False
          by (auto simp: charge_def holding_def holds_def [of _ _ _ m'] net_Cons split: option.split)
      qed
      ultimately show ?thesis
        using it(4) p
          acq [of ms' "?m\<lparr>m_addrs := addrs'\<rparr>" t]
          acq [of ms' "?m\<lparr>m_addrs := addrs', m_n_addrs := ucast (p2p_entries api t)\<rparr>" t] it(1,2) n ent
        by (elim disjE) (simp_all add: frame_def maps_inv_def)
    qed
  qed
qed

lemma sg_flatten_total:
  assumes "0 < unat ps" "unat ex \<le> length addrs"
  shows "\<exists>err addrs'. sg_flatten_to_addrs sgl addrs ex ps off = Some (err, addrs') \<and> length addrs' = length addrs"
  using sg_flatten_walk [OF assms, of sgl off] by (auto split: if_splits)

lemma move_notify_ok:
  assumes "maps_inv s" "kmaps s p = Some m" "m_data m = NULL"
  shows "\<exists>m' s'. (if b then ugds_dmabuf_move_notify p s else Some s) = Some s' \<and>
    s' = s\<lparr>kmaps := (kmaps s)(p \<mapsto> m')\<rparr> \<and> m_data m' = NULL \<and> m_n_addrs m' = m_n_addrs m \<and>
    m_addrs m' = m_addrs m \<and> m_pdev m' = m_pdev m \<and> maps_inv s'"
proof (cases "b \<and> p \<noteq> NULL")
  case True
  have "map_ok pa gr ma (m\<lparr>m_invalid := True\<rparr>) = map_ok pa gr ma m" for pa gr ma
    using assms(3) by (simp add: map_ok_def)
  moreover have "data_of r (kmaps s) p = None" for r using assms by (simp add: data_of_def)
  ultimately have "maps_inv (s\<lparr>kmaps := (kmaps s)(p \<mapsto> m\<lparr>m_invalid := True\<rparr>)\<rparr>)"
    using assms by (auto simp: maps_inv_def heap_inv_def data_of_upd data_of_same)
  with True assms show ?thesis
    by (intro exI [of _ "m\<lparr>m_invalid := True\<rparr>"]) (simp add: ugds_dmabuf_move_notify_def map_upd_def)
next
  case False
  have "s\<lparr>kmaps := (kmaps s)(p \<mapsto> m)\<rparr> = s" using assms(2) by (simp add: fun_upd_idem)
  with False assms show ?thesis
    by (intro exI [of _ m]) (auto simp: ugds_dmabuf_move_notify_def)
qed

lemma map_dmabuf_memory_ok:
  assumes inv: "maps_inv s" and p: "kmaps s p = Some m" "m_data m = NULL"
    and n: "unat (m_n_addrs m) \<le> length (m_addrs m)" and fresh: "fresh_data api s" and api: "dmabuf_attaches api fd"
  shows "\<exists>err s'. map_dmabuf_memory api p fd off (m_n_addrs m) cap s = Some (err, s') \<and> maps_inv s' \<and> frame p s s' \<and>
    (dmabuf_api api \<longrightarrow> charge p s s')"
proof -
  let ?q = "kmalloc api A_region"
  obtain b a where b: "dma_buf_get api fd = Inr b" and a: "dma_buf_dynamic_attach api b (m_pdev m) = Inr a"
    using api unfolding dmabuf_attaches_def by metis
  let ?s = "log [K_buf_get b, K_attach b a] s"
  from move_notify_ok [of ?s p m "move_notify_fired api"] inv p obtain m' s' where
    mv: "(if move_notify_fired api then ugds_dmabuf_move_notify p ?s else Some ?s) = Some s'"
      "s' = ?s\<lparr>kmaps := (kmaps s)(p \<mapsto> m')\<rparr>" "m_data m' = NULL" "m_n_addrs m' = m_n_addrs m"
      "m_addrs m' = m_addrs m" "maps_inv s'" by auto
  have fr: "frame p s s'" using mv(2) by (simp add: frame_def)
  have idle: "charge p s (log ks s')" if "\<And>c. counted c \<Longrightarrow> net ([K_buf_get b, K_attach b a] @ ks) c = 0" for ks
    using that p mv(2,3) by (auto simp: charge_def holding_def split: option.split)
  show ?thesis
  proof (cases "m_n_addrs m > cap \<or> ?q = NULL")
    case True
    then show ?thesis using inv p by (auto simp: map_dmabuf_memory_def frame_def)
  next
    case False
    show ?thesis
    proof (cases "dma_buf_pin api a = 0 \<and> (\<exists>t. dma_buf_map_attachment api a = Inr t)")
      case no: False
      have "charge p s (log [K_resv_lock b, K_resv_unlock b, K_detach b a, K_buf_put b] s')"
        by (rule idle, case_tac c) (simp_all add: net_Cons)
      moreover have "charge p s (log ([K_resv_lock b, K_pin a, K_resv_unlock b] @ [K_resv_lock b, K_resv_unlock b, K_resv_lock b,
          K_unpin a, K_resv_unlock b, K_detach b a, K_buf_put b]) s')"
        by (rule idle, case_tac c) (simp_all add: net_Cons)
      ultimately show ?thesis
        using no False p b a mv(1,6) fr
        by (cases "dma_buf_map_attachment api a") (auto simp: map_dmabuf_memory_def frame_def Let_def)
    next
      case True
      then obtain t where t: "dma_buf_pin api a = 0" "dma_buf_map_attachment api a = Inr t" by blast
      obtain err addrs where sg: "sg_flatten_to_addrs (sg_table api t) (m_addrs m) (m_n_addrs m) PAGE_SIZE off = Some (err, addrs)"
        "length addrs = length (m_addrs m)"
        using sg_flatten_total [of PAGE_SIZE "m_n_addrs m" "m_addrs m" "sg_table api t" off] n
        by (auto simp: PAGE_SIZE_def)
      let ?m = "m'\<lparr>m_page_size := PAGE_SIZE, m_data := ?q, m_release := Some Release_dmabuf_memory, m_addrs := addrs\<rparr>"
      have "heap_inv ((kmaps s')(p \<mapsto> ?m)) (page_arrays s') (gpu_regions s') (mapping_arrays s')
          ((dmabuf_regions s')(?q \<mapsto> \<lparr>d_dmabuf = b, d_attachment = a, d_sgt = t\<rparr>))"
        using mv n sg(2) fresh False
        by (intro heap_inv_dmabuf_acquire [of _ _ _ _ _ p m']) (auto simp: maps_inv_def fresh_data_def)
      moreover from heap_inv_dmabuf_release [OF this, of p ?m ?q] False
      have "heap_inv ((kmaps s')(p \<mapsto> ?m\<lparr>m_data := NULL\<rparr>)) (page_arrays s') (gpu_regions s') (mapping_arrays s')
          ((dmabuf_regions s')(?q := None))"
        by simp
      moreover have others: "holds (page_arrays s) (gpu_regions s) ((dmabuf_regions s)(?q := v)) m2 =
          holds (page_arrays s) (gpu_regions s) (dmabuf_regions s) m2" if "kmaps s q2 = Some m2" for q2 m2 v
        using live_data [OF maps_inv_owned(3) [OF inv] that] fresh by (intro holds_dmabuf_upd) (auto simp: fresh_data_def)
      have "charge p s (log [K_resv_lock b, K_pin a, K_resv_unlock b, K_resv_lock b, K_map_attachment a t, K_resv_unlock b]
          (s'\<lparr>dmabuf_regions := (dmabuf_regions s')(?q \<mapsto> \<lparr>d_dmabuf = b, d_attachment = a, d_sgt = t\<rparr>),
              kmaps := (kmaps s')(p \<mapsto> ?m)\<rparr>))" if "dmabuf_api api"
      proof -
        have "b \<noteq> NULL" "a \<noteq> NULL" "t \<noteq> NULL" using that b a t(2) by (auto simp: dmabuf_api_def)
        with False p mv(2,3) others show ?thesis
        proof (intro chargeI, goal_cases)
          case (2 c) then show ?case by (cases c) (simp_all add: holding_def holds_def [of _ _ _ ?m] net_Cons)
        qed (auto simp: holding_def split: option.split)
      qed
      moreover have "charge p s (log [K_resv_lock b, K_pin a, K_resv_unlock b, K_resv_lock b, K_map_attachment a t, K_resv_unlock b,
            K_resv_lock b, K_unmap_attachment a t, K_unpin a, K_resv_unlock b, K_detach b a, K_buf_put b]
          (s'\<lparr>dmabuf_regions := (dmabuf_regions s')(?q := None), kmaps := (kmaps s')(p \<mapsto> ?m\<lparr>m_data := NULL\<rparr>)\<rparr>))"
        using p mv(2,3) others
      proof (intro chargeI, goal_cases)
        case (2 c) then show ?case by (cases c) (simp_all add: holding_def net_Cons)
      qed (auto simp: holding_def split: option.split)
      ultimately show ?thesis
        using False p b a mv(1) t sg mv(2-5) fr
        by (simp add: map_dmabuf_memory_def frame_def Let_def maps_inv_def log_upd)
    qed
  qed
qed

section \<open>Descriptors on their lists\<close>

lemma map_alloc_bytes_exact:
  assumes "0 < unat n" "unat n < 2 ^ 60"
  shows "unat (map_alloc_bytes n) = 96 + 8 * unat n"
proof -
  have "unat (n - 1) = unat n - 1" using assms(1) by (simp add: unat_sub unat_le_iff)
  moreover have "unat ((n - 1) * 8) = unat (n - 1) * 8 mod 2 ^ 64"
    by (simp only: unat_word_ariths) simp
  ultimately have "unat ((n - 1) * 8) = (unat n - 1) * 8" using assms(2) by simp
  moreover have "unat (104 + (n - 1) * 8) = (104 + unat ((n - 1) * 8)) mod 2 ^ 64"
    by (simp only: unat_word_ariths) simp
  ultimately have "unat (104 + (n - 1) * 8) = 104 + (unat n - 1) * 8" using assms(2) by simp
  then show ?thesis unfolding map_alloc_bytes_def using assms(1) by simp
qed

definition new_desc :: "kapi \<Rightarrow> ctrl \<Rightarrow> u64 \<Rightarrow> u64 \<Rightarrow> map_desc" where
  "new_desc api c vaddr n =
     \<lparr>m_owner = current api, m_vaddr = vaddr, m_ctrl_list = unat (heap_junk api 0),
      m_pdev = c_pdev c, m_page_size = 0, m_data = NULL, m_release = None,
      m_n_addrs = n, m_invalid = False, m_addrs = replicate (unat n) 0\<rparr>"

lemma node_alloc_init: "p \<noteq> NULL \<Longrightarrow> list_node_init p (node_alloc p m) = Some (node_alloc p m)"
  by (simp add: list_node_init_def list_fault_simps node_alloc_def)

lemma node_alloc_remove: "p \<noteq> NULL \<Longrightarrow> list_remove p (node_alloc p m) = Some (node_alloc p m)"
  by (simp add: list_remove_def node_at_def node_alloc_def)

lemma node_alloc_free: "p \<notin> dom (nodes m) \<Longrightarrow> node_free p (node_alloc p m) = m"
  by (cases m) (auto simp: node_free_def node_alloc_def fun_eq_iff)

lemma create_descriptor_ok:
  assumes "0 < unat n" "unat n < 2 ^ 60" "ctrls s c = Some cc" "kmalloc api A_map = p" "p \<noteq> NULL"
  shows "create_descriptor api c vaddr n s =
    Some (Inr p, s\<lparr>lm := node_alloc p (lm s), kmaps := (kmaps s)(p \<mapsto> new_desc api cc vaddr n)\<rparr>)"
proof -
  have "\<not> map_alloc_bytes n < 96" "(unat (map_alloc_bytes n) - 96) div 8 = unat n"
    using map_alloc_bytes_exact [OF assms(1,2)] by (simp_all add: unat_less_iff)
  then show ?thesis
    using assms node_alloc_init [of p "lm s"]
    by (simp add: create_descriptor_def with_lm_def alloc_node_def arr_fill_def new_desc_def)
qed

text \<open>
  The invariant of the module: lists and heap fit together, and there are at most as many
  controllers as a mapping array has slots.
\<close>

definition drv_inv :: "kstate \<Rightarrow> ptr list \<Rightarrow> ptr list \<Rightarrow> ptr list \<Rightarrow> bool" where
  "drv_inv s cs hs ds \<longleftrightarrow> lists_ok s cs hs ds \<and> maps_inv s \<and> length cs \<le> map_max_num_ctrls"

definition same_globals :: "kstate \<Rightarrow> kstate \<Rightarrow> bool" where
  "same_globals s s' \<longleftrightarrow> ctrls s' = ctrls s \<and> curr_ctrls s' = curr_ctrls s \<and>
     max_num_ctrls s' = max_num_ctrls s \<and> dev_first s' = dev_first s \<and> dev_class s' = dev_class s \<and>
     (\<exists>ks. calls s' = calls s @ ks)"

lemma drv_inv_ctrls: "drv_inv s cs hs ds \<Longrightarrow> ctrls_ok s cs"
  using lists_ok_dlist(1) [of s cs hs ds] by (simp add: drv_inv_def ctrls_ok_def lists_ok_def)

lemma drv_inv_ctrls_alloc:
  assumes "drv_inv s cs hs ds" "p \<notin> dom (nodes (lm s))" "lm s' = node_alloc p (lm s)" "ctrls s' = ctrls s"
  shows "ctrls_ok s' cs"
  using drv_inv_ctrls [OF assms(1)] assms(2-) by (simp add: ctrls_ok_def node_alloc_dlist)

lemma lists_wf_host_insert:
  assumes "lists_wf m (drv_lists cs hs ds)" "p \<noteq> NULL" "p \<notin> dom (nodes m)"
  shows "\<exists>m'. list_insert host_list p (node_alloc p m) = Some m' \<and> lists_wf m' (drv_lists cs (hs @ [p]) ds)"
  using lists_wf_insert [of m "[(ctrl_list, cs)]" host_list hs "[(device_list, ds)]" p] assms node_alloc_init [of p m]
  by (auto simp: drv_lists_def)

lemma lists_wf_device_insert:
  assumes "lists_wf m (drv_lists cs hs ds)" "p \<noteq> NULL" "p \<notin> dom (nodes m)"
  shows "\<exists>m'. list_insert device_list p (node_alloc p m) = Some m' \<and> lists_wf m' (drv_lists cs hs (ds @ [p]))"
  using lists_wf_insert [of m "[(ctrl_list, cs), (host_list, hs)]" device_list ds "[]" p] assms node_alloc_init [of p m]
  by (auto simp: drv_lists_def)

text \<open>Where a new mapping goes.\<close>

definition put_on :: "ptr \<Rightarrow> ptr \<Rightarrow> ptr \<Rightarrow> ptr list \<Rightarrow> ptr list" where
  "put_on l lst p xs = (if l = lst then xs @ [p] else xs)"

lemma lists_wf_map_insert:
  assumes "lists_wf m (drv_lists cs hs ds)" "p \<noteq> NULL" "p \<notin> dom (nodes m)" "l \<in> {host_list, device_list}"
  shows "\<exists>m'. list_insert l p (node_alloc p m) = Some m' \<and>
    lists_wf m' (drv_lists cs (put_on l host_list p hs) (put_on l device_list p ds))"
  using lists_wf_host_insert [OF assms(1-3)] lists_wf_device_insert [OF assms(1-3)] assms(4)
  by (auto simp: put_on_def host_list_def device_list_def)

section \<open>The contract of a set-up routine\<close>

locale mapping_setup =
  fixes bring_up :: "kapi \<Rightarrow> ptr \<Rightarrow> kstate \<Rightarrow> (int \<times> kstate) option"
    and prepare :: "map_desc \<Rightarrow> map_desc"
    and ready :: "kapi \<Rightarrow> u64 \<Rightarrow> bool"
    and exact :: "kapi \<Rightarrow> bool"
  assumes prepare_keeps: "m_data (prepare m) = m_data m" "m_n_addrs (prepare m) = m_n_addrs m"
      "m_addrs (prepare m) = m_addrs m"
    and bring_up_law: "maps_inv s \<Longrightarrow> ctrls_ok s cs \<Longrightarrow> kmaps s p = Some (prepare m) \<Longrightarrow> m_data m = NULL \<Longrightarrow>
      unat (m_n_addrs m) \<le> length (m_addrs m) \<Longrightarrow> fresh_data api s \<Longrightarrow> ready api (m_n_addrs m) \<Longrightarrow>
      \<exists>err s'. bring_up api p s = Some (err, s') \<and> maps_inv s' \<and> frame p s s' \<and> (exact api \<longrightarrow> charge p s s')"
begin

lemma map_with_keeps:
  assumes inv: "drv_inv s cs hs ds" and c: "c \<in> set cs" and n: "unat n < 2 ^ 60"
    and l: "l \<in> {host_list, device_list}" and fresh: "kmalloc api A_map \<notin> dom (nodes (lm s))" "fresh_data api s"
    and api: "ready api n"
  shows "\<exists>r s'. map_with (bring_up api) prepare api l c vaddr n s = Some (r, s') \<and> same_globals s s' \<and>
    (exact api \<longrightarrow> charge (kmalloc api A_map) s s') \<and>
    (case r of Inl e \<Rightarrow> drv_inv s' cs hs ds
     | Inr p \<Rightarrow> p = kmalloc api A_map \<and> drv_inv s' cs (put_on l host_list p hs) (put_on l device_list p ds))"
proof (cases "n < 1 \<or> kmalloc api A_map = NULL")
  case True
  then show ?thesis
    using inv unfolding map_with_def create_descriptor_def by (auto simp: same_globals_def)
next
  case False
  define p where "p = kmalloc api A_map"
  have p: "p \<noteq> NULL" "p \<notin> dom (nodes (lm s))" using False fresh by (simp_all add: p_def)
  have lok: "lists_ok s cs hs ds" and minv: "maps_inv s" using inv by (simp_all add: drv_inv_def)
  have "c \<in> dom (ctrls s)" using lok c by (simp add: lists_ok_def)
  then obtain cc where cc: "ctrls s c = Some cc" by blast
  have km: "kmaps s p = None" by (rule lists_ok_fresh(1) [OF lok p(2)])
  have n0: "0 < unat n" using False by (auto simp: unat_gt_0)
  let ?d = "new_desc api cc vaddr n"
  define s1 where "s1 = s\<lparr>lm := node_alloc p (lm s), kmaps := (kmaps s)(p \<mapsto> prepare ?d)\<rparr>"
  have cd: "map_upd p prepare (s\<lparr>lm := node_alloc p (lm s), kmaps := (kmaps s)(p \<mapsto> ?d)\<rparr>) = Some s1"
    by (simp add: map_upd_def s1_def)
  have d: "m_data ?d = NULL" "m_n_addrs ?d = n" "length (m_addrs ?d) = unat n" by (simp_all add: new_desc_def)
  have inv1: "maps_inv s1"
    using maps_inv_add [of "s\<lparr>lm := node_alloc p (lm s)\<rparr>" p "prepare ?d"] minv km d by (simp add: s1_def prepare_keeps)
  have cok: "ctrls_ok s1 cs" by (rule drv_inv_ctrls_alloc [OF inv p(2)]) (simp_all add: s1_def)
  have "fresh_data api s1" "kmaps s1 p = Some (prepare ?d)" using fresh(2) by (simp_all add: fresh_data_def s1_def)
  from bring_up_law [OF inv1 cok this(2) d(1) _ this(1)] d api obtain err s2 where
    s2: "bring_up api p s1 = Some (err, s2)" "maps_inv s2" "frame p s1 s2" and ch1: "exact api \<Longrightarrow> charge p s1 s2" by auto
  have "charge p s s1" using km d(1)
    by (intro charge_idle) (auto simp: s1_def holding_def prepare_keeps split: option.split)
  with ch1 have ch: "exact api \<Longrightarrow> charge p s s2" using charge_trans by blast
  have lm2: "lm s2 = node_alloc p (lm s)" using s2(3) by (simp add: frame_def s1_def)
  have km2: "(kmaps s2)(p := None) = kmaps s" "dom (kmaps s2) = insert p (dom (kmaps s))"
    using s2(3) km by (auto simp: frame_def s1_def fun_eq_iff split: if_splits)
  have g2: "ctrls s2 = ctrls s" "curr_ctrls s2 = curr_ctrls s" "max_num_ctrls s2 = max_num_ctrls s"
    "dev_first s2 = dev_first s" "dev_class s2 = dev_class s" "\<exists>ks. calls s2 = calls s @ ks"
    using s2(3) by (auto simp: frame_def s1_def)
  have run: "map_with (bring_up api) prepare api l c vaddr n s =
    (if err \<noteq> 0 then do { s \<leftarrow> unmap_and_release p s2; Some (Inl err, s) }
     else do { s \<leftarrow> with_lm (list_insert l p) s2; Some (Inr p, s) })"
    using False n0 create_descriptor_ok [OF n0 n cc, of api p vaddr] p(1) cd s2(1)
    by (simp add: map_with_def p_def)
  show ?thesis
  proof (cases "err = 0")
    case True
    have "lists_wf (lm s) (drv_lists cs hs ds)" using lok by (simp add: lists_ok_def)
    from lists_wf_map_insert [OF this p l] obtain m' where
      "list_insert l p (node_alloc p (lm s)) = Some m'"
      "lists_wf m' (drv_lists cs (put_on l host_list p hs) (put_on l device_list p ds))"
      by blast
    moreover have "charge p s2 (s2\<lparr>lm := m'\<rparr>)" by (rule charge_idle) simp_all
    ultimately show ?thesis using True run s2(2) lm2 km2 g2 lok l inv ch charge_trans
      by (auto simp: with_lm_def same_globals_def drv_inv_def lists_ok_def put_on_def p_def)
  next
    case False
    obtain m2 where m2: "kmaps s2 p = Some m2" using km2(2) by auto
    have rm: "list_remove p (lm s2) = Some (node_alloc p (lm s))" using lm2 node_alloc_remove [OF p(1)] by simp
    have "ctrls_ok (s2\<lparr>lm := node_alloc p (lm s)\<rparr>) cs"
      by (rule drv_inv_ctrls_alloc [OF inv p(2)]) (simp_all add: g2)
    from unmap_and_release_ok [OF s2(2) m2 rm this] obtain s3 where
      s3: "unmap_and_release p s2 = Some s3" "maps_inv s3" "lm s3 = lm s" "kmaps s3 = kmaps s" "same_globals s s3" "charge p s2 s3"
      using node_alloc_free [OF p(2)] km2(1) g2 by (auto simp: same_globals_def)
    with False run inv ch charge_trans show ?thesis
      by (auto simp: drv_inv_def lists_ok_def same_globals_def p_def)
  qed
qed

end

text \<open>The three set-up routines of \<open>map.c\<close> meet the contract.\<close>

interpretation user_pages: mapping_setup map_user_pages "\<lambda>m. m\<lparr>m_page_size := PAGE_SIZE\<rparr>"
  "\<lambda>api n. pages_api api" dma_api
  by unfold_locales (auto intro!: map_user_pages_ok)

interpretation gpu_pages: mapping_setup "\<lambda>api p. map_gpu_memory api p ctrl_list"
  "\<lambda>m. m\<lparr>m_page_size := GPU_PAGE_SIZE, m_ctrl_list := ctrl_list\<rparr>"
  "\<lambda>api n. p2p_api api \<and> unat n < 2 ^ 32" "\<lambda>_. True"
  by unfold_locales (auto intro!: map_gpu_memory_ok)

interpretation dmabuf_pages: mapping_setup "\<lambda>api p. map_dmabuf_memory api p fd off n cap"
  "\<lambda>m. m\<lparr>m_page_size := PAGE_SIZE\<rparr>" "\<lambda>api n'. dmabuf_attaches api fd \<and> n' = n" dmabuf_api
  for fd off n cap
proof (unfold_locales, goal_cases)
  case (4 s cs p m api)
  then show ?case using map_dmabuf_memory_ok [of s p "m\<lparr>m_page_size := PAGE_SIZE\<rparr>" api fd off cap] by simp
qed simp_all

section \<open>Releasing a listed mapping\<close>

lemma lists_wf_map_remove:
  assumes "lists_wf m (drv_lists cs hs ds)" "p \<in> set hs \<union> set ds"
  shows "\<exists>m'. list_remove p m = Some m' \<and> dlist m' ctrl_list cs \<and>
    lists_wf (node_free p m') (drv_lists cs (remove1 p hs) (remove1 p ds))"
proof -
  have d: "distinct (ctrl_list # cs @ host_list # hs @ device_list # ds)"
    using assms(1) by (simp add: lists_wf_def drv_lists_def)
  have c: "dlist m ctrl_list cs" using lists_wf_dlist [OF assms(1)] by (simp add: drv_lists_def)
  have keep: "dlist m' ctrl_list cs" if "list_remove p m = Some m'" "dlist m l xs" "p \<in> set xs"
    "set (ctrl_list # cs) \<inter> set (l # xs) = {}" for m' l xs
    using dl.remove_member [OF that(2,3)] that(1,4) c by force
  show ?thesis
  proof (cases "p \<in> set hs")
    case True
    then have "remove1 p ds = ds" using d by (intro remove1_idem) auto
    moreover obtain m' where m': "list_remove p m = Some m'"
      "lists_wf (node_free p m') (drv_lists cs (remove1 p hs) ds)"
      using lists_wf_remove [of m "[(ctrl_list, cs)]" host_list hs "[(device_list, ds)]" p] assms(1) True
      by (auto simp: drv_lists_def)
    moreover have "dlist m host_list hs" using lists_wf_dlist [OF assms(1)] by (simp add: drv_lists_def)
    from keep [OF m'(1) this True] d have "dlist m' ctrl_list cs" by auto
    ultimately show ?thesis by auto
  next
    case False
    then have p: "p \<in> set ds" using assms(2) by simp
    moreover have "remove1 p hs = hs" using False by (rule remove1_idem)
    moreover obtain m' where m': "list_remove p m = Some m'"
      "lists_wf (node_free p m') (drv_lists cs hs (remove1 p ds))"
      using lists_wf_remove [of m "[(ctrl_list, cs), (host_list, hs)]" device_list ds "[]" p] assms(1) p
      by (auto simp: drv_lists_def)
    moreover have "dlist m device_list ds" using lists_wf_dlist [OF assms(1)] by (simp add: drv_lists_def)
    from keep [OF m'(1) this p] d have "dlist m' ctrl_list cs" by auto
    ultimately show ?thesis by auto
  qed
qed

lemma unmap_and_release_keeps:
  assumes inv: "drv_inv s cs hs ds" and p: "p \<in> set hs \<union> set ds"
  shows "\<exists>s'. unmap_and_release p s = Some s' \<and> drv_inv s' cs (remove1 p hs) (remove1 p ds) \<and>
    same_globals s s' \<and> kmaps s' = (kmaps s)(p := None) \<and> charge p s s'"
proof -
  have lok: "lists_ok s cs hs ds" and minv: "maps_inv s" using inv by (simp_all add: drv_inv_def)
  have "p \<in> dom (kmaps s)" using lok p by (simp add: lists_ok_def)
  then obtain m where m: "kmaps s p = Some m" by blast
  have "lists_wf (lm s) (drv_lists cs hs ds)" using lok by (simp add: lists_ok_def)
  from lists_wf_map_remove [OF this p] obtain m' where
    m': "list_remove p (lm s) = Some m'" "dlist m' ctrl_list cs"
      "lists_wf (node_free p m') (drv_lists cs (remove1 p hs) (remove1 p ds))" by blast
  have "ctrls_ok (s\<lparr>lm := m'\<rparr>) cs" using drv_inv_ctrls [OF inv] m'(2) by (simp add: ctrls_ok_def)
  from unmap_and_release_ok [OF minv m m'(1) this] obtain s' where
    s': "unmap_and_release p s = Some s'" "maps_inv s'" "lm s' = node_free p m'" "kmaps s' = (kmaps s)(p := None)"
      "same_globals s s'" "charge p s s'" by (auto simp: same_globals_def)
  have "distinct hs" "distinct ds" "set hs \<inter> set ds = {}" using lists_ok_distinct [OF lok] by auto
  then have "dom (kmaps s') = set (remove1 p hs) \<union> set (remove1 p ds)"
    using s'(4) lok by (auto simp: lists_ok_def)
  then have "drv_inv s' cs (remove1 p hs) (remove1 p ds)"
    using inv s' m'(3) lok by (simp add: drv_inv_def lists_ok_def same_globals_def)
  with s' show ?thesis by blast
qed

end
