(* ===== verification/Drv_Pci.thy ===== *)
theory Drv_Pci
  imports Drv_Map_Inv
begin

text \<open>
  The entry points of the kernel module (\<open>drv/pci.c\<close>, \<open>drv/ioctl.h\<close>): device probe and removal,
  the ioctl and mmap handlers, module load and unload. The handlers run one at a time; which GPU
  backend is compiled in is the parameter \<open>backend\<close>. An ioctl argument stands for the structure
  in user memory, which \<open>copy_from_user\<close> may fail to fetch.
\<close>

section \<open>Requests\<close>

datatype backend = CUDA | HIP

record nvm_ioctl_map =
  vaddr_start :: u64
  n_pages :: u64
  ioaddrs :: u64

record nvm_ioctl_dmabuf =
  gpu_ptr :: u64
  dmabuf_fd :: int
  dmabuf_offset :: u64
  buf_size :: u64
  ioaddrs_capacity :: u64
  ioaddrs_out :: u64

datatype ioctl =
    NVM_MAP_HOST_MEMORY nvm_ioctl_map
  | NVM_MAP_DEVICE_MEMORY nvm_ioctl_map
  | NVM_UNMAP_MEMORY u64
  | NVM_MAP_DMABUF_MEMORY nvm_ioctl_dmabuf
  | Unknown_ioctl u32

section \<open>File operations\<close>

definition mmap_registers :: "kapi \<Rightarrow> ptr \<Rightarrow> u64 \<Rightarrow> u64 \<Rightarrow> kstate \<Rightarrow> int option" where
  "mmap_registers api i_cdev vm_start vm_end s = do {
     ctrl \<leftarrow> ctrl_find_by_inode ctrl_list i_cdev s;
     if ctrl = NULL then Some (- EBADF)
     else do {
       c \<leftarrow> ctrls s ctrl;
       if vm_end - vm_start > pci_resource_len api (c_pdev c) then Some (- EINVAL)
       else Some (vm_iomap_memory api (pci_resource_start api (c_pdev c)) (vm_end - vm_start)) } }"

text \<open>The common end of the host and the GPU memory requests: the addresses go to user space.\<close>

definition copy_addrs :: "kapi \<Rightarrow> u64 \<Rightarrow> (int + ptr) \<times> kstate \<Rightarrow> (int \<times> kstate) option" where
  "copy_addrs api dst = (\<lambda>(r, s). case r of
     Inr md \<Rightarrow> do {
       m \<leftarrow> kmaps s md;
       addrs \<leftarrow> arr_prefix (m_addrs m) (unat (m_n_addrs m));
       if copy_to_user_fails api then Some (- EFAULT, s)
       else Some (0, log [K_copy_to_user dst addrs] s) }
   | Inl e \<Rightarrow> Some (e, s))"

definition ioctl_map_host :: "kapi \<Rightarrow> ptr \<Rightarrow> nvm_ioctl_map \<Rightarrow> kstate \<Rightarrow> (int \<times> kstate) option" where
  "ioctl_map_host api ctrl request s =
     (if copy_from_user_fails api then Some (- EFAULT, s)
      else do {
        r \<leftarrow> map_userspace api host_list ctrl (vaddr_start request) (n_pages request) s;
        copy_addrs api (ioaddrs request) r })"

definition ioctl_map_device :: "kapi \<Rightarrow> ptr \<Rightarrow> nvm_ioctl_map \<Rightarrow> kstate \<Rightarrow> (int \<times> kstate) option" where
  "ioctl_map_device api ctrl request s =
     (if copy_from_user_fails api then Some (- EFAULT, s)
      else do {
        r \<leftarrow> map_device_memory api device_list ctrl (vaddr_start request) (n_pages request) ctrl_list s;
        copy_addrs api (ioaddrs request) r })"

definition dmabuf_request_ok :: "nvm_ioctl_dmabuf \<Rightarrow> bool" where
  "dmabuf_request_ok dreq \<longleftrightarrow>
     \<not> (buf_size dreq = 0 \<or> buf_size dreq mod PAGE_SIZE \<noteq> 0) \<and>
     \<not> (gpu_ptr dreq = 0 \<or> gpu_ptr dreq mod PAGE_SIZE \<noteq> 0) \<and>
     \<not> (ioaddrs_out dreq = 0 \<or> ioaddrs_capacity dreq = 0) \<and>
     \<not> (dmabuf_offset dreq \<noteq> 0 \<and> dmabuf_offset dreq mod PAGE_SIZE \<noteq> 0) \<and>
     \<not> dmabuf_fd dreq < 0"

definition ioctl_map_dmabuf :: "kapi \<Rightarrow> ptr \<Rightarrow> nvm_ioctl_dmabuf \<Rightarrow> kstate \<Rightarrow> (int \<times> kstate) option" where
  "ioctl_map_dmabuf api ctrl dreq s =
     (if copy_from_user_fails api then Some (- EFAULT, s)
      else if \<not> dmabuf_request_ok dreq then Some (- EINVAL, s)
      else do {
        (r, s) \<leftarrow> map_dmabuf api device_list ctrl (gpu_ptr dreq) (dmabuf_fd dreq) (dmabuf_offset dreq)
          (buf_size dreq div PAGE_SIZE) (ioaddrs_capacity dreq) s;
        case r of
          Inl e \<Rightarrow> Some (e, s)
        | Inr md \<Rightarrow> do {
            m \<leftarrow> kmaps s md;
            if m_invalid m then do { s \<leftarrow> unmap_and_release md s; Some (- EIO, s) }
            else if m_n_addrs m > ioaddrs_capacity dreq
            then do { s \<leftarrow> unmap_and_release md s; Some (- EOVERFLOW, s) }
            else do {
              addrs \<leftarrow> arr_prefix (m_addrs m) (unat (m_n_addrs m));
              if copy_to_user_fails api
              then do { s \<leftarrow> unmap_and_release md s; Some (- EFAULT, s) }
              else Some (0, log [K_copy_to_user (ioaddrs_out dreq) addrs] s) } } })"

definition ioctl_unmap_memory :: "kapi \<Rightarrow> u64 \<Rightarrow> kstate \<Rightarrow> (int \<times> kstate) option" where
  "ioctl_unmap_memory api addr s =
     (if copy_from_user_fails api then Some (- EFAULT, s)
      else do {
        md \<leftarrow> map_find api host_list addr s;
        if md \<noteq> NULL then do { s \<leftarrow> unmap_and_release md s; Some (0, s) }
        else do {
          md \<leftarrow> map_find api device_list addr s;
          if md \<noteq> NULL then do { s \<leftarrow> unmap_and_release md s; Some (0, s) }
          else Some (- EINVAL, s) } })"

definition map_ioctl :: "backend \<Rightarrow> kapi \<Rightarrow> ptr \<Rightarrow> ioctl \<Rightarrow> kstate \<Rightarrow> (int \<times> kstate) option" where
  "map_ioctl b api i_cdev cmd s = do {
     ctrl \<leftarrow> ctrl_find_by_inode ctrl_list i_cdev s;
     if ctrl = NULL then Some (- EBADF, s)
     else case cmd of
         NVM_MAP_HOST_MEMORY request \<Rightarrow> ioctl_map_host api ctrl request s
       | NVM_MAP_DEVICE_MEMORY request \<Rightarrow>
           if b = CUDA then ioctl_map_device api ctrl request s else Some (- EINVAL, s)
       | NVM_MAP_DMABUF_MEMORY dreq \<Rightarrow>
           if b = HIP then ioctl_map_dmabuf api ctrl dreq s else Some (- EINVAL, s)
       | NVM_UNMAP_MEMORY addr \<Rightarrow> ioctl_unmap_memory api addr s
       | Unknown_ioctl _ \<Rightarrow> Some (- EINVAL, s) }"

section \<open>Probe and removal\<close>

definition add_pci_dev :: "kapi \<Rightarrow> ptr \<Rightarrow> kstate \<Rightarrow> (int \<times> kstate) option" where
  "add_pci_dev api dev s =
     (if curr_ctrls s \<ge> max_num_ctrls s then Some (0, s)
      else do {
        (r, s) \<leftarrow> ctrl_get api ctrl_list (dev_class s) dev (curr_ctrls s) s;
        case r of
          Inl e \<Rightarrow> Some (e, s)
        | Inr ctrl \<Rightarrow>
            let err = pci_request_region api dev in
            if err \<noteq> 0 then do { s \<leftarrow> ctrl_put ctrl s; Some (err, s) }
            else
              let s = log [K_request_region dev] s; err = pci_enable_device api dev in
              if err < 0 then do {
                s \<leftarrow> ctrl_put ctrl (log [K_release_region dev] s);
                Some (err, s) }
              else do {
                let s = log [K_enable dev] s;
                (err, s) \<leftarrow> ctrl_chrdev_create api ctrl (dev_first s) s;
                if err \<noteq> 0 then do {
                  s \<leftarrow> ctrl_put ctrl (log [K_disable dev, K_release_region dev] s);
                  Some (err, s) }
                else
                  let s = log [K_set_master dev] s in
                  if dma_set_mask api dev 64 \<noteq> 0 \<and> dma_set_mask api dev 32 \<noteq> 0
                  then do {
                    s \<leftarrow> ctrl_put ctrl (log [K_clear_master dev, K_disable dev, K_release_region dev] s);
                    Some (- EIO, s) }
                  else Some (0, s\<lparr>curr_ctrls := curr_ctrls s + 1\<rparr>) } })"

definition remove_pci_dev :: "ptr \<Rightarrow> kstate \<Rightarrow> kstate option" where
  "remove_pci_dev dev s =
     (if dev = NULL then Some s
      else do {
        let s = s\<lparr>curr_ctrls := curr_ctrls s - 1\<rparr>;
        ctrl \<leftarrow> ctrl_find_by_pci_dev ctrl_list dev s;
        s \<leftarrow> ctrl_put ctrl s;
        Some (log [K_release_region dev, K_clear_master dev, K_disable dev] s) })"

section \<open>Load and unload\<close>

partial_function (option) clear_map_list :: "ptr \<Rightarrow> nat \<Rightarrow> kstate \<Rightarrow> (nat \<times> kstate) option" where
  "clear_map_list lst i s = do {
     p \<leftarrow> list_next lst (lm s);
     if p = NULL then Some (i, s)
     else do {
       s \<leftarrow> unmap_and_release p s;
       clear_map_list lst (i + 1) s } }"

definition ugds_drv_entry :: "kapi \<Rightarrow> kstate \<Rightarrow> (int \<times> kstate) option" where
  "ugds_drv_entry api s = do {
     s \<leftarrow> with_lm (list_init ctrl_list) s;
     s \<leftarrow> with_lm (list_init host_list) s;
     s \<leftarrow> with_lm (list_init device_list) s;
     let (err, first) = alloc_chrdev_region api;
     if err < 0 then Some (err, s)
     else
       let s = log [K_chrdev_region first] (s\<lparr>dev_first := first\<rparr>) in
       case class_create api of
         Inl e \<Rightarrow> Some (e, log [K_unregister_chrdev_region first] s)
       | Inr cls \<Rightarrow>
           let s = log [K_class_create cls] (s\<lparr>dev_class := cls\<rparr>); err = pci_register_driver api in
           if err \<noteq> 0 then Some (err, log [K_class_destroy cls, K_unregister_chrdev_region first] s)
           else Some (0, log [K_register_driver] s) }"

text \<open>\<open>pci_unregister_driver\<close> calls \<open>remove_pci_dev\<close> for every device bound to the driver.\<close>

primrec remove_all :: "ptr list \<Rightarrow> kstate \<Rightarrow> kstate option" where
  "remove_all [] s = Some s"
| "remove_all (dev # devs) s = do { s \<leftarrow> remove_pci_dev dev s; remove_all devs s }"

definition ugds_drv_exit :: "ptr list \<Rightarrow> kstate \<Rightarrow> kstate option" where
  "ugds_drv_exit bound s = do {
     (_, s) \<leftarrow> clear_map_list device_list 0 s;
     (_, s) \<leftarrow> clear_map_list host_list 0 s;
     s \<leftarrow> remove_all bound s;
     Some (log [K_unregister_driver, K_class_destroy (dev_class s),
       K_unregister_chrdev_region (dev_first s)] s) }"

section \<open>The ioctl handler keeps the invariant\<close>

text \<open>What the kernel owes one call of the module: fresh memory and the documented results.\<close>

definition env_ok :: "kapi \<Rightarrow> kstate \<Rightarrow> bool" where
  "env_ok api s \<longleftrightarrow> kmalloc api A_map \<notin> dom (nodes (lm s)) \<and> fresh_data api s \<and> pages_api api \<and> p2p_api api"

text \<open>
  Requests whose page count stays below the point where the size computation of
  \<open>create_descriptor\<close> wraps around and, for a DMA-buf, whose descriptor can be attached to.
\<close>

definition cmd_ok :: "kapi \<Rightarrow> ioctl \<Rightarrow> bool" where
  "cmd_ok api cmd \<longleftrightarrow> (case cmd of
     NVM_MAP_HOST_MEMORY request \<Rightarrow> unat (n_pages request) < 2 ^ 60
   | NVM_MAP_DEVICE_MEMORY request \<Rightarrow> unat (n_pages request) < 2 ^ 32
   | NVM_MAP_DMABUF_MEMORY dreq \<Rightarrow> dmabuf_attaches api (dmabuf_fd dreq)
   | _ \<Rightarrow> True)"

text \<open>
  A kernel in which DMA mappings of pages do not fail and the DMA-buf framework returns objects;
  under it an operation charges exactly one mapping.
\<close>

definition exact_api :: "kapi \<Rightarrow> bool" where
  "exact_api api \<longleftrightarrow> dma_api api \<and> dmabuf_api api"

definition charged :: "kapi \<Rightarrow> kstate \<Rightarrow> kstate \<Rightarrow> bool" where
  "charged api s s' \<longleftrightarrow> (exact_api api \<longrightarrow> (\<exists>p. charge p s s'))"

lemma charged_refl [simp]: "charged api s s"
  unfolding charged_def using charge_refl by blast

lemma charged_I: "(exact_api api \<Longrightarrow> charge p s s') \<Longrightarrow> charged api s s'"
  unfolding charged_def by blast

lemma charge_log: "charge p s s' \<Longrightarrow> \<forall>c. counted c \<longrightarrow> net ks c = 0 \<Longrightarrow> charge p s (log ks s')"
  by (simp add: charge_def)

lemma charge_copy: "charge p s s' \<Longrightarrow> charge p s (log [K_copy_to_user a xs] s')"
  by (rule charge_log) (auto simp: net_Cons elim: counted.elims)

text \<open>The invariant for some contents of the mapping lists.\<close>

definition drv_ok :: "kstate \<Rightarrow> ptr list \<Rightarrow> bool" where
  "drv_ok s cs \<longleftrightarrow> (\<exists>hs ds. drv_inv s cs hs ds)"

lemma drv_inv_log [simp]: "drv_inv (log ks s) cs hs ds = drv_inv s cs hs ds"
  by (simp add: drv_inv_def lists_ok_def)

lemma drv_ok_log [simp]: "drv_ok (log ks s) cs = drv_ok s cs"
  by (simp add: drv_ok_def)

lemma drv_okI: "drv_inv s cs hs ds \<Longrightarrow> drv_ok s cs"
  by (auto simp: drv_ok_def)

lemma drv_inv_member:
  assumes "drv_inv s cs hs ds" "p \<in> set hs \<union> set ds"
  shows "\<exists>m. kmaps s p = Some m \<and> unat (m_n_addrs m) \<le> length (m_addrs m)"
proof -
  have "p \<in> dom (kmaps s)" using assms by (simp add: drv_inv_def lists_ok_def)
  then obtain m where m: "kmaps s p = Some m" by blast
  then have "map_ok (page_arrays s) (gpu_regions s) (mapping_arrays s) m"
    using assms(1) by (auto simp: drv_inv_def maps_inv_def heap_inv_def)
  with m show ?thesis by (simp add: map_ok_def)
qed

lemma same_globals_refl [simp]: "same_globals s s"
  by (simp add: same_globals_def)

lemma same_globals_trans: "same_globals s s' \<Longrightarrow> same_globals s' s'' \<Longrightarrow> same_globals s s''"
  by (auto simp: same_globals_def)

lemma same_globals_log: "same_globals s s' \<Longrightarrow> same_globals s (log ks s')"
  by (auto simp: same_globals_def)

lemma put_on_mem: "l \<in> {host_list, device_list} \<Longrightarrow> p \<in> set (put_on l host_list p hs) \<union> set (put_on l device_list p ds)"
  by (auto simp: put_on_def)

lemma copy_addrs_keeps:
  assumes "case r of Inl e \<Rightarrow> drv_inv s' cs hs ds
    | Inr p \<Rightarrow> p = q \<and> drv_inv s' cs (put_on l host_list p hs) (put_on l device_list p ds)"
    and "l \<in> {host_list, device_list}" "same_globals s s'" "exact_api api \<longrightarrow> charge q s s'"
  shows "\<exists>e s''. copy_addrs api dst (r, s') = Some (e, s'') \<and> drv_ok s'' cs \<and> same_globals s s'' \<and> charged api s s''"
proof (cases r)
  case (Inl e)
  then show ?thesis using assms by (auto simp: copy_addrs_def drv_ok_def charged_def)
next
  case (Inr p)
  with assms(1) have inv: "drv_inv s' cs (put_on l host_list p hs) (put_on l device_list p ds)" by auto
  from drv_inv_member [OF this put_on_mem [OF assms(2)]] obtain m where
    "kmaps s' p = Some m" "unat (m_n_addrs m) \<le> length (m_addrs m)" by blast
  moreover have "charged api s s'" "charged api s (log [K_copy_to_user dst xs] s')" for xs
    using assms(4) charge_copy unfolding charged_def by blast+
  ultimately show ?thesis using drv_okI [OF inv] assms(3) Inr
    by (cases "copy_to_user_fails api") (simp_all add: copy_addrs_def arr_prefix_def same_globals_log)
qed

lemma ioctl_map_host_keeps:
  assumes "drv_inv s cs hs ds" "c \<in> set cs" "env_ok api s" "unat (n_pages request) < 2 ^ 60"
  shows "\<exists>e s'. ioctl_map_host api c request s = Some (e, s') \<and> drv_ok s' cs \<and> same_globals s s' \<and> charged api s s'"
proof (cases "copy_from_user_fails api")
  case True
  then show ?thesis using assms by (auto simp: ioctl_map_host_def drv_ok_def)
next
  case False
  from user_pages.map_with_keeps [OF assms(1,2,4), of host_list api "vaddr_start request AND PAGE_MASK"] assms(3)
  obtain r s' where r: "map_userspace api host_list c (vaddr_start request) (n_pages request) s = Some (r, s')"
    "same_globals s s'" "case r of Inl e \<Rightarrow> drv_inv s' cs hs ds
     | Inr p \<Rightarrow> p = kmalloc api A_map \<and> drv_inv s' cs (put_on host_list host_list p hs) (put_on host_list device_list p ds)"
    "exact_api api \<longrightarrow> charge (kmalloc api A_map) s s'"
    by (auto simp: map_userspace_def env_ok_def exact_api_def)
  from copy_addrs_keeps [OF r(3) _ r(2,4)] r(1) False show ?thesis by (simp add: ioctl_map_host_def)
qed

lemma ioctl_map_device_keeps:
  assumes "drv_inv s cs hs ds" "c \<in> set cs" "env_ok api s" "unat (n_pages request) < 2 ^ 32"
  shows "\<exists>e s'. ioctl_map_device api c request s = Some (e, s') \<and> drv_ok s' cs \<and> same_globals s s' \<and> charged api s s'"
proof (cases "copy_from_user_fails api")
  case True
  then show ?thesis using assms by (auto simp: ioctl_map_device_def drv_ok_def)
next
  case False
  from gpu_pages.map_with_keeps [OF assms(1,2), of "n_pages request" device_list api "vaddr_start request AND GPU_PAGE_MASK"] assms(3,4)
  obtain r s' where r: "map_device_memory api device_list c (vaddr_start request) (n_pages request) ctrl_list s = Some (r, s')"
    "same_globals s s'" "case r of Inl e \<Rightarrow> drv_inv s' cs hs ds
     | Inr p \<Rightarrow> p = kmalloc api A_map \<and> drv_inv s' cs (put_on device_list host_list p hs) (put_on device_list device_list p ds)"
    "exact_api api \<longrightarrow> charge (kmalloc api A_map) s s'"
    by (auto simp: map_device_memory_def env_ok_def)
  from copy_addrs_keeps [OF r(3) _ r(2,4)] r(1) False show ?thesis by (simp add: ioctl_map_device_def)
qed

lemma unmap_and_release_drv_ok:
  assumes "drv_inv s cs hs ds" "p \<in> set hs \<union> set ds"
  shows "\<exists>s'. unmap_and_release p s = Some s' \<and> drv_ok s' cs \<and> same_globals s s' \<and> charge p s s'"
  using unmap_and_release_keeps [OF assms] by (auto simp: drv_ok_def)

lemma ioctl_map_dmabuf_keeps:
  assumes "drv_inv s cs hs ds" "c \<in> set cs" "env_ok api s" "dmabuf_attaches api (dmabuf_fd dreq)"
  shows "\<exists>e s'. ioctl_map_dmabuf api c dreq s = Some (e, s') \<and> drv_ok s' cs \<and> same_globals s s' \<and> charged api s s'"
proof (cases "copy_from_user_fails api \<or> \<not> dmabuf_request_ok dreq")
  case True
  then show ?thesis using assms by (auto simp: ioctl_map_dmabuf_def drv_ok_def)
next
  case False
  let ?n = "buf_size dreq div PAGE_SIZE"
  have "unat ?n = unat (buf_size dreq) div 4096" by (simp add: PAGE_SIZE_def unat_div)
  moreover have "unat (buf_size dreq) < 2 ^ 64" using unat_bound [of "buf_size dreq"] by simp
  ultimately have n: "unat ?n < 2 ^ 60" by simp
  from dmabuf_pages.map_with_keeps [OF assms(1,2) n, of device_list api "dmabuf_fd dreq" ?n "dmabuf_offset dreq"
      "ioaddrs_capacity dreq" "gpu_ptr dreq"] assms(3,4)
  obtain r s' where r: "map_dmabuf api device_list c (gpu_ptr dreq) (dmabuf_fd dreq) (dmabuf_offset dreq) ?n (ioaddrs_capacity dreq) s = Some (r, s')"
    "same_globals s s'" "case r of Inl e \<Rightarrow> drv_inv s' cs hs ds
     | Inr p \<Rightarrow> p = kmalloc api A_map \<and> drv_inv s' cs (put_on device_list host_list p hs) (put_on device_list device_list p ds)"
    "exact_api api \<longrightarrow> charge (kmalloc api A_map) s s'"
    by (auto simp: map_dmabuf_def env_ok_def exact_api_def)
  show ?thesis
  proof (cases r)
    case (Inl e)
    then show ?thesis using r False by (auto simp: ioctl_map_dmabuf_def drv_ok_def charged_def)
  next
    case (Inr p)
    with r(3) have inv: "drv_inv s' cs (put_on device_list host_list p hs) (put_on device_list device_list p ds)" by auto
    have mem: "p \<in> set (put_on device_list host_list p hs) \<union> set (put_on device_list device_list p ds)"
      by (rule put_on_mem) simp
    from drv_inv_member [OF inv mem] obtain m where "kmaps s' p = Some m" "unat (m_n_addrs m) \<le> length (m_addrs m)" by blast
    moreover from unmap_and_release_drv_ok [OF inv mem] r(2) obtain s'' where
      "unmap_and_release p s' = Some s''" "drv_ok s'' cs" "same_globals s s''" and ch: "charge p s' s''"
      using same_globals_trans by blast
    moreover have "p = kmalloc api A_map" using r(3) Inr by simp
    with r(4) ch have "charged api s s''" "charged api s (log [K_copy_to_user dst xs] s')" for dst xs
      using charge_copy charge_trans unfolding charged_def by blast+
    ultimately show ?thesis using r Inr False drv_okI [OF inv]
      by (auto simp: ioctl_map_dmabuf_def arr_prefix_def same_globals_log)
  qed
qed

definition map_matches :: "kapi \<Rightarrow> u64 \<Rightarrow> map_desc \<Rightarrow> bool" where
  "map_matches api vaddr m \<longleftrightarrow> m_owner m = current api \<and> m_page_size m > 0 \<and>
     m_vaddr m = vaddr AND NOT (m_page_size m - 1)"

lemma map_find_find:
  assumes "dlist (lm s) l ms" "set ms \<subseteq> dom (kmaps s)"
  shows "map_find api l vaddr s =
    Some (case List.find (\<lambda>p. map_matches api vaddr (the (kmaps s p))) ms of None \<Rightarrow> NULL | Some p \<Rightarrow> p)"
proof -
  have "\<And>x. x \<in> set ms \<Longrightarrow> Option.bind (kmaps s x) (\<lambda>m. Some (m_owner m = current api \<and> m_page_size m > 0 \<and>
      m_vaddr m = vaddr AND NOT (m_page_size m - 1))) = Some (map_matches api vaddr (the (kmaps s x)))"
    using assms(2) by (auto simp: map_matches_def)
  from dl.search_is_find [OF assms(1) this] show ?thesis by (simp add: map_find_def)
qed

lemma drv_inv_lists:
  assumes "drv_inv s cs hs ds"
  shows "dlist (lm s) host_list hs" "dlist (lm s) device_list ds" "set hs \<subseteq> dom (kmaps s)" "set ds \<subseteq> dom (kmaps s)"
  using assms lists_ok_dlist(2,3) [of s cs hs ds] by (auto simp: drv_inv_def lists_ok_def)

lemma drv_inv_nonnull:
  assumes "drv_inv s cs hs ds" "p \<in> set cs \<union> set hs \<union> set ds"
  shows "p \<noteq> NULL"
  using dl.seq_nonnull [OF lists_ok_dlist(1)] dl.seq_nonnull [OF lists_ok_dlist(2)]
    dl.seq_nonnull [OF lists_ok_dlist(3)] assms
  unfolding drv_inv_def by (metis Un_iff list.set_intros(2))

lemma map_find_none:
  assumes "drv_inv s cs hs ds" "set ms \<subseteq> set hs \<union> set ds"
  shows "(case List.find P ms of None \<Rightarrow> NULL | Some p \<Rightarrow> p) = NULL \<longleftrightarrow> List.find P ms = None"
  using drv_inv_nonnull [OF assms(1)] assms(2) find_Some_set [of P ms]
  by (auto split: option.splits)

lemma ioctl_unmap_memory_cases:
  assumes inv: "drv_inv s cs hs ds"
  defines "P \<equiv> \<lambda>addr api p. map_matches api addr (the (kmaps s p))"
  shows "ioctl_unmap_memory api addr s =
    (if copy_from_user_fails api then Some (- EFAULT, s)
     else case List.find (P addr api) (hs @ ds) of
       None \<Rightarrow> Some (- EINVAL, s)
     | Some p \<Rightarrow> do { s \<leftarrow> unmap_and_release p s; Some (0, s) })"
proof -
  note l = drv_inv_lists [OF inv]
  have find_append: "List.find Q (xs @ ys) = (case List.find Q xs of None \<Rightarrow> List.find Q ys | Some x \<Rightarrow> Some x)"
    for Q and xs ys :: "ptr list" by (induction xs) auto
  have nn: "p \<noteq> NULL" if "List.find Q xs = Some p" "set xs \<subseteq> set hs \<union> set ds" for Q xs p
    using find_Some_set [OF that(1)] that(2) drv_inv_nonnull [OF inv] by blast
  show ?thesis
    using nn [of "P addr api" hs] nn [of "P addr api" ds]
    by (auto simp: ioctl_unmap_memory_def map_find_find [OF l(1,3)] map_find_find [OF l(2,4)] find_append P_def
        split: option.splits)
qed

lemma ioctl_unmap_memory_keeps:
  assumes "drv_inv s cs hs ds"
  shows "\<exists>e s'. ioctl_unmap_memory api addr s = Some (e, s') \<and> drv_ok s' cs \<and> same_globals s s' \<and> charged api s s'"
proof (cases "List.find (\<lambda>p. map_matches api addr (the (kmaps s p))) (hs @ ds)")
  case None
  then show ?thesis using assms by (auto simp: ioctl_unmap_memory_cases [OF assms] drv_ok_def)
next
  case (Some p)
  then have "p \<in> set hs \<union> set ds" using find_Some_set [OF Some] by auto
  from unmap_and_release_drv_ok [OF assms this] obtain s' where
    "unmap_and_release p s = Some s'" "drv_ok s' cs" "same_globals s s'" "charged api s s'"
    unfolding charged_def by blast
  with Some drv_okI [OF assms] show ?thesis by (auto simp: ioctl_unmap_memory_cases [OF assms])
qed

lemma map_ioctl_keeps:
  assumes inv: "drv_inv s cs hs ds" and env: "env_ok api s" and cmd: "cmd_ok api cmd"
  shows "\<exists>e s'. map_ioctl b api i cmd s = Some (e, s') \<and> drv_ok s' cs \<and> same_globals s s' \<and> charged api s s'"
proof -
  have cs: "dlist (lm s) ctrl_list cs" "set cs \<subseteq> dom (ctrls s)"
    using drv_inv_ctrls [OF inv] by (simp_all add: ctrls_ok_def)
  show ?thesis
  proof (cases "List.find (\<lambda>p. cdev_addr p = i) cs")
    case None
    then show ?thesis using inv by (auto simp: map_ioctl_def ctrl_find_by_inode_find [OF cs] drv_ok_def)
  next
    case (Some c)
    then have c: "c \<in> set cs" using find_Some_set [OF Some] by simp
    then have "c \<noteq> NULL" using drv_inv_nonnull [OF inv] by simp
    then have "map_ioctl b api i cmd s = (case cmd of
         NVM_MAP_HOST_MEMORY request \<Rightarrow> ioctl_map_host api c request s
       | NVM_MAP_DEVICE_MEMORY request \<Rightarrow>
           if b = CUDA then ioctl_map_device api c request s else Some (- EINVAL, s)
       | NVM_MAP_DMABUF_MEMORY dreq \<Rightarrow>
           if b = HIP then ioctl_map_dmabuf api c dreq s else Some (- EINVAL, s)
       | NVM_UNMAP_MEMORY addr \<Rightarrow> ioctl_unmap_memory api addr s
       | Unknown_ioctl _ \<Rightarrow> Some (- EINVAL, s))"
      using Some by (simp add: map_ioctl_def ctrl_find_by_inode_find [OF cs])
    then show ?thesis
      using ioctl_map_host_keeps [OF inv c env] ioctl_map_device_keeps [OF inv c env]
        ioctl_map_dmabuf_keeps [OF inv c env] ioctl_unmap_memory_keeps [OF inv] cmd inv
      by (cases cmd) (auto simp: cmd_ok_def drv_ok_def)
  qed
qed

end
