(* ===== verification/Drv_Module.thy ===== *)
theory Drv_Module
  imports Drv_Pci
begin

text \<open>
  The kernel module as a state machine: module load, then any sequence of probes, removals,
  ioctls and callbacks of the GPU drivers, then unload. The invariant \<open>mod_inv\<close> holds in every
  reachable state, no step from a reachable state faults, and unloading leaves nothing allocated.
\<close>

section \<open>The books\<close>

text \<open>What the calls made so far acquired and did not release is what the live mappings hold.\<close>

definition accounted :: "kstate \<Rightarrow> bool" where
  "accounted s \<longleftrightarrow> (\<forall>c. counted c \<longrightarrow> net (calls s) c = (\<Sum>p\<in>dom (kmaps s). int (count_list (holding s p) c)))"

lemma holding_none: "p \<notin> dom (kmaps s) \<Longrightarrow> holding s p = []"
  by (auto simp: holding_def split: option.split)

lemma accounted_iff:
  assumes "finite A" "dom (kmaps s) \<subseteq> A"
  shows "accounted s \<longleftrightarrow> (\<forall>c. counted c \<longrightarrow> net (calls s) c = (\<Sum>p\<in>A. int (count_list (holding s p) c)))"
proof -
  have "(\<Sum>p\<in>A. int (count_list (holding s p) c)) = (\<Sum>p\<in>dom (kmaps s). int (count_list (holding s p) c))" for c
    using assms by (intro sum.mono_neutral_right) (auto simp: holding_none)
  then show ?thesis by (simp add: accounted_def)
qed

lemma charge_accounted:
  assumes "charge p s s'" "accounted s" "finite (dom (kmaps s))" "finite (dom (kmaps s'))"
  shows "accounted s'"
proof -
  let ?A = "insert p (dom (kmaps s) \<union> dom (kmaps s'))"
  have fin: "finite ?A" using assms(3,4) by simp
  have "net (calls s') c = (\<Sum>q\<in>?A. int (count_list (holding s' q) c))" if "counted c" for c
  proof -
    have "net (calls s) c = (\<Sum>q\<in>?A. int (count_list (holding s q) c))"
      using assms(2) that accounted_iff [OF fin, of s] by blast
    moreover have "(\<Sum>q\<in>?A - {p}. int (count_list (holding s' q) c)) = (\<Sum>q\<in>?A - {p}. int (count_list (holding s q) c))"
      using assms(1) by (intro sum.cong) (auto simp: charge_def)
    moreover have "net (calls s') c - net (calls s) c = int (count_list (holding s' p) c) - int (count_list (holding s p) c)"
      using assms(1) that by (simp add: charge_def)
    moreover have "(\<Sum>q\<in>?A. f q) = f p + (\<Sum>q\<in>?A - {p}. f q)" for f :: "ptr \<Rightarrow> int"
      using fin by (intro sum.remove) auto
    ultimately show ?thesis by simp
  qed
  then show ?thesis using accounted_iff [OF fin, of s'] by blast
qed

lemma counted_acquires: "counted c \<Longrightarrow> undoes c = None"
  by (cases c) simp_all

lemma holding_ctrls [simp]: "holding (s\<lparr>ctrls := f\<rparr>) q = holding s q" "holding (s\<lparr>curr_ctrls := n\<rparr>) q = holding s q"
  by (auto simp: holding_def split: option.split)

lemma charge_quiet:
  assumes "\<And>q. holding s' q = holding s q" "calls s' = calls s @ ks" "\<And>k. counted k \<Longrightarrow> net ks k = 0"
  shows "charge p s s'"
  using assms by (simp add: charge_def)

lemma charge_balanced:
  assumes "\<And>q. holding s' q = holding s q" "calls s' = calls s @ ks" "balanced ks"
  shows "charge p s s'"
  using assms counted_acquires by (simp add: charge_def balanced_def)

section \<open>Probe and removal keep the invariant\<close>

definition pdev_of :: "kstate \<Rightarrow> ptr \<Rightarrow> ptr" where
  "pdev_of s p = c_pdev (the (ctrls s p))"

definition pdevs :: "kstate \<Rightarrow> ptr list \<Rightarrow> ptr list" where
  "pdevs s cs = map (pdev_of s) cs"

definition mod_inv :: "kstate \<Rightarrow> ptr list \<Rightarrow> ptr list \<Rightarrow> ptr list \<Rightarrow> bool" where
  "mod_inv s cs hs ds \<longleftrightarrow> drv_inv s cs hs ds \<and> curr_ctrls s = int (length cs) \<and>
     max_num_ctrls s \<le> int map_max_num_ctrls \<and> distinct (pdevs s cs) \<and> NULL \<notin> set (pdevs s cs)"

lemma maps_inv_ctrls [simp]: "maps_inv (s\<lparr>ctrls := f\<rparr>) = maps_inv s" "maps_inv (s\<lparr>curr_ctrls := n\<rparr>) = maps_inv s"
  by (simp_all add: maps_inv_def)

lemma lists_ok_log [simp]: "lists_ok (log ks s) cs hs ds = lists_ok s cs hs ds"
  by (simp add: lists_ok_def)

lemma ctrl_put_keeps:
  assumes "lists_ok s cs hs ds" "p \<in> set cs"
  shows "\<exists>m' ks. ctrl_put p s = Some (log ks (s\<lparr>lm := m', ctrls := (ctrls s)(p := None)\<rparr>)) \<and>
    lists_ok (s\<lparr>lm := m', ctrls := (ctrls s)(p := None)\<rparr>) (remove1 p cs) hs ds"
proof -
  have "p \<in> dom (ctrls s)" using assms by (simp add: lists_ok_def)
  then obtain c where "ctrls s p = Some c" by blast
  from ctrl_put_ok [OF assms this] show ?thesis by auto
qed

text \<open>
  What the kernel owes a probe: fresh memory, an error pointer that carries a non-zero error, and
  a device that is not \<open>NULL\<close> otherwise.
\<close>

definition probe_api :: "kapi \<Rightarrow> kstate \<Rightarrow> bool" where
  "probe_api api s \<longleftrightarrow> kmalloc api A_ctrl \<notin> dom (nodes (lm s)) \<and>
     (\<forall>c d e. device_create api c d = Inl e \<longrightarrow> e \<noteq> 0) \<and> (\<forall>c d q. device_create api c d = Inr q \<longrightarrow> q \<noteq> NULL)"

text \<open>The calls of a successful probe.\<close>

definition probe_calls :: "ptr \<Rightarrow> ctrl \<Rightarrow> kcall list" where
  "probe_calls p c = [K_request_region (c_pdev c), K_enable (c_pdev c), K_cdev_add (cdev_addr p),
     K_device_create (c_cls c) (c_rdev c), K_set_master (c_pdev c)]"

definition chrdev_ctrl :: "kapi \<Rightarrow> ptr \<Rightarrow> kstate \<Rightarrow> ctrl \<Rightarrow> bool" where
  "chrdev_ctrl api dev s c \<longleftrightarrow> c_pdev c = dev \<and> c_number c = curr_ctrls s \<and> c_cls c = dev_class s \<and>
     c_chrdev c \<noteq> NULL \<and> c_name c = ctrl_name (curr_ctrls s) \<and>
     c_rdev c = MKDEV (MAJOR (dev_first s)) (MINOR (dev_first s) + word_of_int (curr_ctrls s))"

lemma ctrl_put_new:
  assumes "lists_ok s (cs @ [p]) hs ds" "p \<notin> set cs" "ctrls s p = Some c" "(ctrls s)(p := None) = f"
  shows "\<exists>m'. ctrl_put p s = Some (log (chrdev_teardown p c) (s\<lparr>lm := m', ctrls := f\<rparr>)) \<and>
    lists_ok (s\<lparr>lm := m', ctrls := f\<rparr>) cs hs ds"
  using ctrl_put_ok [OF assms(1) _ assms(3)] assms(2,4) by (simp add: remove1_append)

text \<open>The error exits of a probe: release the controller after the calls \<open>ks\<close>.\<close>

definition probe_undo :: "ptr \<Rightarrow> kstate \<Rightarrow> lmem \<Rightarrow> kcall list \<Rightarrow> ctrl \<Rightarrow> int \<Rightarrow> (int \<times> kstate) option" where
  "probe_undo p s m ks c err = do {
     s \<leftarrow> ctrl_put p (log ks (s\<lparr>lm := m, ctrls := (ctrls s)(p \<mapsto> c)\<rparr>));
     Some (err, s) }"

lemma add_pci_dev_run:
  assumes lim: "\<not> max_num_ctrls s \<le> curr_ctrls s" and api: "probe_api api s"
    and c0: "c0 = new_ctrl (dev_class s) dev (curr_ctrls s)" "r = ctrl_rdev (dev_first s) c0" "c1 = c0\<lparr>c_rdev := r\<rparr>"
    and get: "ctrl_get api ctrl_list (dev_class s) dev (curr_ctrls s) s = Some (Inr p, s\<lparr>lm := m, ctrls := (ctrls s)(p \<mapsto> c0)\<rparr>)"
  shows "add_pci_dev api dev s =
    (if pci_request_region api dev \<noteq> 0 then probe_undo p s m [] c0 (pci_request_region api dev)
     else if pci_enable_device api dev < 0
     then probe_undo p s m [K_request_region dev, K_release_region dev] c0 (pci_enable_device api dev)
     else if cdev_add api (cdev_addr p) r \<noteq> 0
     then probe_undo p s m [K_request_region dev, K_enable dev, K_disable dev, K_release_region dev] c1
       (cdev_add api (cdev_addr p) r)
     else case device_create api (dev_class s) r of
       Inl e \<Rightarrow> probe_undo p s m [K_request_region dev, K_enable dev, K_cdev_add (cdev_addr p), K_cdev_del (cdev_addr p),
         K_disable dev, K_release_region dev] c1 e
     | Inr d \<Rightarrow>
         if dma_set_mask api dev 64 \<noteq> 0 \<and> dma_set_mask api dev 32 \<noteq> 0
         then probe_undo p s m [K_request_region dev, K_enable dev, K_cdev_add (cdev_addr p), K_device_create (dev_class s) r,
           K_set_master dev, K_clear_master dev, K_disable dev, K_release_region dev] (c1\<lparr>c_chrdev := d\<rparr>) (- EIO)
         else Some (0, log [K_request_region dev, K_enable dev, K_cdev_add (cdev_addr p),
           K_device_create (dev_class s) r, K_set_master dev]
           (s\<lparr>lm := m, ctrls := (ctrls s)(p \<mapsto> c1\<lparr>c_chrdev := d\<rparr>), curr_ctrls := curr_ctrls s + 1\<rparr>)))"
proof -
  let ?s = "log [K_request_region dev, K_enable dev] (s\<lparr>lm := m, ctrls := (ctrls s)(p \<mapsto> c0)\<rparr>)"
  have "c_chrdev c0 = NULL" "c_cls c0 = dev_class s" by (simp_all add: c0 new_ctrl_def)
  moreover note ctrl_chrdev_create_cases [of ?s p c0 api "dev_first s", folded c0(2)]
  moreover have "e \<noteq> 0" if "device_create api (dev_class s) r = Inl e" for e
    using api that by (auto simp: probe_api_def)
  ultimately show ?thesis
    unfolding c0(3) using lim get
    by (simp add: add_pci_dev_def probe_undo_def Let_def log_def split: sum.split)
qed

lemma probe_undo_ok:
  assumes "lists_ok (s\<lparr>lm := m, ctrls := (ctrls s)(p \<mapsto> c0)\<rparr>) (cs @ [p]) hs ds" "p \<notin> set cs" "ctrls s p = None"
  shows "\<exists>m'. probe_undo p s m ks c err = Some (err, log (ks @ chrdev_teardown p c) (s\<lparr>lm := m'\<rparr>)) \<and>
    lists_ok (s\<lparr>lm := m'\<rparr>) cs hs ds"
proof -
  let ?s = "log ks (s\<lparr>lm := m, ctrls := (ctrls s)(p \<mapsto> c)\<rparr>)"
  have "lists_ok ?s (cs @ [p]) hs ds" using assms(1) by (simp add: lists_ok_def)
  from ctrl_put_new [OF this assms(2), of c "ctrls s"] assms(3)
  show ?thesis by (auto simp: probe_undo_def log_def fun_upd_idem lists_ok_def)
qed

lemma add_pci_dev_cases:
  assumes lok: "lists_ok s cs hs ds" and api: "probe_api api s"
  obtains (rejected) err m' ks where "add_pci_dev api dev s = Some (err, log ks (s\<lparr>lm := m'\<rparr>))"
      "balanced ks" "lists_ok (s\<lparr>lm := m'\<rparr>) cs hs ds" "err = 0 \<Longrightarrow> max_num_ctrls s \<le> curr_ctrls s"
  | (added) p m' c where "p = kmalloc api A_ctrl" "p \<noteq> NULL" "curr_ctrls s < max_num_ctrls s" "chrdev_ctrl api dev s c"
      "add_pci_dev api dev s = Some (0, log (probe_calls p c)
        (s\<lparr>lm := m', ctrls := (ctrls s)(p \<mapsto> c), curr_ctrls := curr_ctrls s + 1\<rparr>))"
      "lists_ok (s\<lparr>lm := m', ctrls := (ctrls s)(p \<mapsto> c)\<rparr>) (cs @ [p]) hs ds"
proof (cases "max_num_ctrls s \<le> curr_ctrls s \<or> kmalloc api A_ctrl = NULL")
  case True
  then have "add_pci_dev api dev s = Some (if max_num_ctrls s \<le> curr_ctrls s then 0 else - ENOMEM, log [] (s\<lparr>lm := lm s\<rparr>))"
    by (auto simp: add_pci_dev_def ctrl_get_def)
  then show ?thesis by (rule rejected) (use lok in \<open>auto simp: balanced_def split: if_splits\<close>)
next
  case False
  define p where "p = kmalloc api A_ctrl"
  define c0 where "c0 = new_ctrl (dev_class s) dev (curr_ctrls s)"
  define r where "r = ctrl_rdev (dev_first s) c0"
  define c1 where "c1 = c0\<lparr>c_rdev := r\<rparr>"
  have fresh: "p \<notin> dom (nodes (lm s))" using api by (simp add: probe_api_def p_def)
  have pc: "ctrls s p = None" by (rule lists_ok_fresh(2) [OF lok fresh])
  then have pcs: "p \<notin> set cs" using lok by (auto simp: lists_ok_def)
  from ctrl_get_ok [OF lok _ _ fresh, of api "dev_class s" dev "curr_ctrls s"] False
  obtain m1 where get: "ctrl_get api ctrl_list (dev_class s) dev (curr_ctrls s) s =
      Some (Inr p, s\<lparr>lm := m1, ctrls := (ctrls s)(p \<mapsto> c0)\<rparr>)"
    and l1: "lists_ok (s\<lparr>lm := m1, ctrls := (ctrls s)(p \<mapsto> c0)\<rparr>) (cs @ [p]) hs ds"
    by (auto simp: p_def c0_def)
  have undo: thesis if "add_pci_dev api dev s = probe_undo p s m1 ks c err" "balanced (ks @ chrdev_teardown p c)"
    "err \<noteq> 0" for ks c err
    using probe_undo_ok [OF l1 pcs pc, of ks c err] that rejected by (metis)
  have t: "chrdev_teardown p c0 = []" "chrdev_teardown p c1 = []"
    by (simp_all add: chrdev_teardown_def c0_def c1_def new_ctrl_def)
  have td: "d \<noteq> NULL \<and> chrdev_teardown p (c1\<lparr>c_chrdev := d\<rparr>) = [K_device_destroy (dev_class s) r, K_cdev_del (cdev_addr p)]"
    if "device_create api (dev_class s) r = Inr d" for d
    using api that by (auto simp: chrdev_teardown_def probe_api_def c0_def c1_def new_ctrl_def)
  have ne: "e \<noteq> 0" if "device_create api (dev_class s) r = Inl e" for e
    using api that by (auto simp: probe_api_def)
  have lim: "\<not> max_num_ctrls s \<le> curr_ctrls s" using False by simp
  note run = add_pci_dev_run [OF lim api c0_def r_def c1_def get]
  note bal = balanced_def net_Cons
  consider (region) "pci_request_region api dev \<noteq> 0"
    | (enable) "pci_request_region api dev = 0" "pci_enable_device api dev < 0"
    | (cdev) "pci_request_region api dev = 0" "\<not> pci_enable_device api dev < 0" "cdev_add api (cdev_addr p) r \<noteq> 0"
    | (device) e where "pci_request_region api dev = 0" "\<not> pci_enable_device api dev < 0" "cdev_add api (cdev_addr p) r = 0"
        "device_create api (dev_class s) r = Inl e"
    | (masks) d where "pci_request_region api dev = 0" "\<not> pci_enable_device api dev < 0" "cdev_add api (cdev_addr p) r = 0"
        "device_create api (dev_class s) r = Inr d" "dma_set_mask api dev 64 \<noteq> 0 \<and> dma_set_mask api dev 32 \<noteq> 0"
    | (ok) d where "pci_request_region api dev = 0" "\<not> pci_enable_device api dev < 0" "cdev_add api (cdev_addr p) r = 0"
        "device_create api (dev_class s) r = Inr d" "\<not> (dma_set_mask api dev 64 \<noteq> 0 \<and> dma_set_mask api dev 32 \<noteq> 0)"
    by (cases "device_create api (dev_class s) r") blast+
  then show thesis
  proof cases
    case region
    then show ?thesis by (intro undo [of "[]" c0 "pci_request_region api dev"]) (simp_all add: run t bal)
  next
    case enable
    then show ?thesis
      by (intro undo [of "[K_request_region dev, K_release_region dev]" c0 "pci_enable_device api dev"])
        (simp_all add: run t, auto simp: bal)
  next
    case cdev
    then show ?thesis
      by (intro undo [of "[K_request_region dev, K_enable dev, K_disable dev, K_release_region dev]" c1
            "cdev_add api (cdev_addr p) r"]) (simp_all add: run t, auto simp: bal)
  next
    case device
    then show ?thesis
      by (intro undo [of "[K_request_region dev, K_enable dev, K_cdev_add (cdev_addr p), K_cdev_del (cdev_addr p),
         K_disable dev, K_release_region dev]" c1 e]) (simp_all add: run t ne, auto simp: bal)
  next
    case masks
    then show ?thesis
      by (intro undo [of "[K_request_region dev, K_enable dev, K_cdev_add (cdev_addr p), K_device_create (dev_class s) r,
           K_set_master dev, K_clear_master dev, K_disable dev, K_release_region dev]" "c1\<lparr>c_chrdev := d\<rparr>" "- EIO"])
        (simp_all add: run td, auto simp: bal)
  next
    case ok
    let ?c = "c1\<lparr>c_chrdev := d\<rparr>"
    have "chrdev_ctrl api dev s ?c" "probe_calls p ?c = [K_request_region dev, K_enable dev, K_cdev_add (cdev_addr p),
        K_device_create (dev_class s) r, K_set_master dev]"
      using td ok by (auto simp: chrdev_ctrl_def probe_calls_def c1_def c0_def r_def new_ctrl_def ctrl_rdev_def)
    moreover have "lists_ok (s\<lparr>lm := m1, ctrls := (ctrls s)(p \<mapsto> ?c)\<rparr>) (cs @ [p]) hs ds"
      using l1 by (simp add: lists_ok_def)
    ultimately show ?thesis
      using ok lim False by (intro added [OF p_def, of ?c m1]) (auto simp: run p_def)
  qed
qed

lemma mod_invD:
  assumes "mod_inv s cs hs ds"
  shows "drv_inv s cs hs ds" "lists_ok s cs hs ds" "maps_inv s" "curr_ctrls s = int (length cs)"
    "max_num_ctrls s \<le> int map_max_num_ctrls"
  using assms by (simp_all add: mod_inv_def drv_inv_def)

lemma pdevs_cong: "ctrls s' = ctrls s \<Longrightarrow> pdevs s' cs = pdevs s cs"
  by (simp add: pdevs_def pdev_of_def)

lemma pdevs_log [simp]: "pdevs (log ks s) cs = pdevs s cs"
  by (rule pdevs_cong) simp

lemma mod_inv_log [simp]: "mod_inv (log ks s) cs hs ds = mod_inv s cs hs ds"
  unfolding mod_inv_def by simp

lemma mod_inv_same_globals:
  assumes "mod_inv s cs hs ds" "drv_inv s' cs hs' ds'" "same_globals s s'"
  shows "mod_inv s' cs hs' ds'"
  using assms pdevs_cong [of s' s] by (auto simp: mod_inv_def same_globals_def)

lemma add_pci_dev_added_inv:
  assumes inv: "mod_inv s cs hs ds" and dev: "dev \<noteq> NULL" "dev \<notin> set (pdevs s cs)"
    and added: "p = kmalloc api A_ctrl" "p \<noteq> NULL" "curr_ctrls s < max_num_ctrls s" "chrdev_ctrl api dev s c"
      "add_pci_dev api dev s = Some (0, log (probe_calls p c)
        (s\<lparr>lm := m', ctrls := (ctrls s)(p \<mapsto> c), curr_ctrls := curr_ctrls s + 1\<rparr>))"
      "lists_ok (s\<lparr>lm := m', ctrls := (ctrls s)(p \<mapsto> c)\<rparr>) (cs @ [p]) hs ds"
  shows "mod_inv (log (probe_calls p c) (s\<lparr>lm := m', ctrls := (ctrls s)(p \<mapsto> c), curr_ctrls := curr_ctrls s + 1\<rparr>))
    (cs @ [p]) hs ds"
proof -
  let ?s = "log (probe_calls p c) (s\<lparr>lm := m', ctrls := (ctrls s)(p \<mapsto> c), curr_ctrls := curr_ctrls s + 1\<rparr>)"
  have p: "p \<notin> set cs" using added(6) by (auto simp: lists_ok_def lists_wf_def drv_lists_def)
  have "pdevs ?s (cs @ [p]) = pdevs s cs @ [dev]"
    using p added(4) by (auto simp: pdevs_def pdev_of_def chrdev_ctrl_def)
  moreover have "length cs < map_max_num_ctrls" using added(3) mod_invD(4,5) [OF inv] by simp
  moreover have "lists_ok ?s (cs @ [p]) hs ds" using added(6) by (simp add: lists_ok_def)
  ultimately show ?thesis using inv dev by (simp add: mod_inv_def drv_inv_def)
qed

lemma add_pci_dev_keeps:
  assumes inv: "mod_inv s cs hs ds" and api: "probe_api api s" and dev: "dev \<noteq> NULL" "dev \<notin> set (pdevs s cs)"
  shows "\<exists>err s' cs'. add_pci_dev api dev s = Some (err, s') \<and> mod_inv s' cs' hs ds \<and> charge NULL s s'"
proof (cases rule: add_pci_dev_cases [OF mod_invD(2) [OF inv] api, of dev, case_names rejected added])
  case (rejected err m' ks)
  have "pdevs (s\<lparr>lm := m'\<rparr>) cs = pdevs s cs" by (rule pdevs_cong) simp
  then have "mod_inv (log ks (s\<lparr>lm := m'\<rparr>)) cs hs ds"
    using inv rejected(3) by (simp add: mod_inv_def drv_inv_def)
  moreover have "charge NULL s (log ks (s\<lparr>lm := m'\<rparr>))" using rejected(2) by (intro charge_balanced) simp_all
  ultimately show ?thesis using rejected(1) by blast
next
  case (added p m' c)
  let ?s = "log (probe_calls p c) (s\<lparr>lm := m', ctrls := (ctrls s)(p \<mapsto> c), curr_ctrls := curr_ctrls s + 1\<rparr>)"
  have "mod_inv ?s (cs @ [p]) hs ds" by (rule add_pci_dev_added_inv [OF inv dev added])
  moreover have "charge NULL s ?s"
  proof (rule charge_quiet)
    show "net (probe_calls p c) k = 0" if "counted k" for k
      using that by (cases k) (simp_all add: probe_calls_def net_Cons)
  qed simp_all
  ultimately show ?thesis using added(5) by blast
qed

lemma remove_pci_dev_run:
  assumes inv: "mod_inv s cs hs ds" and p: "p \<in> set cs" "pdev_of s p = dev" "ctrls s p = Some c"
  shows "\<exists>m' ks. ks = chrdev_teardown p c @ [K_release_region dev, K_clear_master dev, K_disable dev] \<and>
    remove_pci_dev dev s = Some (log ks (s\<lparr>curr_ctrls := curr_ctrls s - 1, lm := m', ctrls := (ctrls s)(p := None)\<rparr>)) \<and>
    mod_inv (log ks (s\<lparr>curr_ctrls := curr_ctrls s - 1, lm := m', ctrls := (ctrls s)(p := None)\<rparr>)) (remove1 p cs) hs ds"
proof -
  note d = mod_invD [OF inv]
  let ?s = "s\<lparr>curr_ctrls := curr_ctrls s - 1\<rparr>"
  have lok: "lists_ok ?s cs hs ds" using d(2) by (simp add: lists_ok_def)
  have dev: "dev \<noteq> NULL" and dist: "distinct (map (pdev_of s) cs)" using inv p by (auto simp: mod_inv_def pdevs_def)
  have "List.find (\<lambda>q. c_pdev (the (ctrls s q)) = dev) cs = Some p"
  proof -
    have u: "q = p" if "q \<in> set cs" "pdev_of s q = dev" for q
      using that p dist by (auto simp: distinct_map inj_on_def)
    have "List.find (\<lambda>q. c_pdev (the (ctrls s q)) = dev) cs \<noteq> None"
      using p by (auto simp: find_None_iff pdev_of_def)
    then obtain q where q: "List.find (\<lambda>q. c_pdev (the (ctrls s q)) = dev) cs = Some q" by blast
    with find_Some_set [OF q] u show ?thesis by (simp add: pdev_of_def)
  qed
  moreover have "dlist (lm s) ctrl_list cs" "set cs \<subseteq> dom (ctrls s)"
    using drv_inv_ctrls [OF d(1)] by (simp_all add: ctrls_ok_def)
  ultimately have find: "ctrl_find_by_pci_dev ctrl_list dev ?s = Some p"
    using ctrl_find_by_pci_dev_find [of ?s ctrl_list cs dev] by simp
  from ctrl_put_ok [OF lok p(1), of c] p(3) obtain m' where
    put: "ctrl_put p ?s = Some (log (chrdev_teardown p c) (?s\<lparr>lm := m', ctrls := (ctrls s)(p := None)\<rparr>))"
      "lists_ok (?s\<lparr>lm := m', ctrls := (ctrls s)(p := None)\<rparr>) (remove1 p cs) hs ds" by auto
  let ?s' = "?s\<lparr>lm := m', ctrls := (ctrls s)(p := None)\<rparr>"
  have dc: "distinct cs" using dist by (simp add: distinct_map)
  have pd: "pdevs s2 (remove1 p cs) = pdevs s (remove1 p cs)" if "ctrls s2 = (ctrls s)(p := None)" for s2
    using dc that by (auto simp: pdevs_def pdev_of_def)
  have "distinct (pdevs s (remove1 p cs))" "NULL \<notin> set (pdevs s (remove1 p cs))"
    using inv dist dc by (auto simp: pdevs_def distinct_map mod_inv_def intro: inj_on_diff)
  moreover have "int (length (remove1 p cs)) = int (length cs) - 1"
    using p(1) length_pos_if_in_set [OF p(1)] by (simp add: length_remove1 of_nat_diff Suc_leI)
  ultimately have "mod_inv ?s' (remove1 p cs) hs ds"
    using inv put(2) by (simp add: mod_inv_def drv_inv_def pd)
  with dev find put(1) show ?thesis by (intro exI [of _ m']) (simp add: remove_pci_dev_def Let_def)
qed

lemma remove_calls_charge:
  assumes "ks = chrdev_teardown p c @ [K_release_region dev, K_clear_master dev, K_disable dev]"
  shows "charge q s (log ks (s\<lparr>curr_ctrls := n, lm := m', ctrls := f\<rparr>))"
proof (rule charge_quiet)
  show "net ks k = 0" if "counted k" for k
    using that by (cases k) (simp_all add: assms chrdev_teardown_def net_Cons)
qed simp_all

section \<open>Callbacks of the GPU drivers\<close>

lemma frame_drv_inv:
  assumes "drv_inv s cs hs ds" "frame p s s'" "maps_inv s'" "p \<in> dom (kmaps s)"
  shows "drv_inv s' cs hs ds \<and> same_globals s s'"
proof -
  have "dom (kmaps s') = dom (kmaps s)" using assms(2,4) by (auto simp: frame_def)
  then show ?thesis using assms by (auto simp: drv_inv_def lists_ok_def frame_def same_globals_def)
qed

lemma force_release_keeps:
  assumes inv: "drv_inv s cs hs ds" and p: "kmaps s p = Some m" "m_release m = Some Release_gpu_memory" "m_data m \<noteq> NULL"
  shows "\<exists>s'. force_release_gpu_memory p s = Some s' \<and> drv_inv s' cs (remove1 p hs) (remove1 p ds) \<and> same_globals s s' \<and> charge p s s'"
proof -
  have minv: "maps_inv s" using inv by (simp add: drv_inv_def)
  have "counted c \<Longrightarrow> net [K_p2p_free_table t] c = - int (count_list [K_p2p_get t] c)" for t c
    by (cases c) (simp_all add: net_Cons)
  from release_gpu_region_ok [OF minv drv_inv_ctrls [OF inv] p this] obtain s1 where
    s1: "release_gpu_region K_p2p_free_table p s = Some s1" "maps_inv s1" "frame p s s1" "charge p s s1" by blast
  have "drv_inv s1 cs hs ds" and g: "same_globals s s1" using frame_drv_inv [OF inv s1(3,2)] p(1) by auto
  moreover have "p \<in> dom (kmaps s)" using p(1) by blast
  then have "p \<in> set hs \<union> set ds" using inv by (simp add: drv_inv_def lists_ok_def)
  ultimately obtain s' where "unmap_and_release p s1 = Some s'" "drv_inv s' cs (remove1 p hs) (remove1 p ds)" "same_globals s1 s'" "charge p s1 s'"
    using unmap_and_release_keeps by blast
  with s1(1) same_globals_trans [OF g this(3)] charge_trans [OF s1(4) this(4)] show ?thesis
    by (simp add: force_release_gpu_memory_def)
qed

lemma move_notify_keeps:
  assumes inv: "drv_inv s cs hs ds" and p: "kmaps s p = Some m"
  shows "\<exists>s'. ugds_dmabuf_move_notify p s = Some s' \<and> drv_inv s' cs hs ds \<and> same_globals s s' \<and> charge p s s'"
proof (cases "p = NULL")
  case True
  then show ?thesis using inv by (simp add: ugds_dmabuf_move_notify_def)
next
  case False
  let ?m = "m\<lparr>m_invalid := True\<rparr>" and ?s = "s\<lparr>kmaps := (kmaps s)(p \<mapsto> m\<lparr>m_invalid := True\<rparr>)\<rparr>"
  have ok: "map_ok pa gr ma ?m = map_ok pa gr ma m" for pa gr ma
    by (simp add: map_ok_def user_ok_def gpu_ok_def)
  have "data_of r ((kmaps s)(p \<mapsto> ?m)) = data_of r (kmaps s)" for r
    using p by (auto simp: data_of_def fun_eq_iff)
  then have "maps_inv ?s" using inv ok p by (auto simp: drv_inv_def maps_inv_def heap_inv_def)
  moreover have "dom (kmaps ?s) = dom (kmaps s)" using p by auto
  ultimately have "drv_inv ?s cs hs ds" using inv by (simp add: drv_inv_def lists_ok_def)
  moreover have "charge p s ?s"
    using p by (intro charge_idle) (auto simp: holding_def holds_def split: option.split)
  ultimately show ?thesis using False p
    by (simp add: ugds_dmabuf_move_notify_def map_upd_def same_globals_def)
qed

section \<open>Load and unload\<close>

text \<open>The static data of the module before it is loaded.\<close>

definition init_state :: "int \<Rightarrow> kstate" where
  "init_state limit =
     \<lparr>lm = \<lparr>nodes = (\<lambda>p. if p \<in> {ctrl_list, host_list, device_list}
               then Some \<lparr>node_list = NULL, node_next = NULL, node_prev = NULL\<rparr> else None),
            held = (\<lambda>_. False)\<rparr>,
      ctrls = Map.empty, kmaps = Map.empty, page_arrays = Map.empty, gpu_regions = Map.empty,
      mapping_arrays = Map.empty, dmabuf_regions = Map.empty, calls = [], curr_ctrls = 0,
      max_num_ctrls = limit, dev_first = 0, dev_class = NULL\<rparr>"

lemma maps_inv_empty:
  assumes "kmaps s = Map.empty" "page_arrays s = Map.empty" "gpu_regions s = Map.empty"
    "mapping_arrays s = Map.empty" "dmabuf_regions s = Map.empty"
  shows "maps_inv s"
proof -
  have "data_of r Map.empty = Map.empty" "array_of Map.empty = Map.empty" for r
    by (simp_all add: data_of_def array_of_def fun_eq_iff)
  then show ?thesis using assms by (simp add: maps_inv_def heap_inv_def owned_def)
qed

text \<open>Nothing is allocated in a state without mappings.\<close>

lemma owned_none:
  assumes "owned f h" "\<And>p. f p = None"
  shows "h = Map.empty"
proof
  fix q
  show "h q = None" using owned_owner [OF assms(1), of q] assms(2) by (cases "h q") auto
qed

lemma maps_inv_no_maps:
  assumes "maps_inv s" "kmaps s = Map.empty"
  shows "page_arrays s = Map.empty \<and> gpu_regions s = Map.empty \<and> mapping_arrays s = Map.empty \<and> dmabuf_regions s = Map.empty"
proof -
  have inv: "owned (data_of Release_user_pages (kmaps s)) (page_arrays s)"
    "owned (data_of Release_gpu_memory (kmaps s)) (gpu_regions s)"
    "owned (data_of Release_dmabuf_memory (kmaps s)) (dmabuf_regions s)"
    "owned (array_of (gpu_regions s)) (mapping_arrays s)"
    using assms(1) by (simp_all add: maps_inv_def heap_inv_def)
  have d: "data_of r (kmaps s) p = None" for r p using assms(2) by (simp add: data_of_def)
  have g: "gpu_regions s = Map.empty" by (rule owned_none [OF inv(2) d])
  have "mapping_arrays s = Map.empty" by (rule owned_none [OF inv(4)]) (simp add: array_of_def g)
  with g owned_none [OF inv(1) d] owned_none [OF inv(3) d] show ?thesis by simp
qed

lemma ugds_drv_entry_lists:
  "\<exists>m. lists_wf m (drv_lists [] [] []) \<and>
    do { s \<leftarrow> with_lm (list_init ctrl_list) (init_state n); s \<leftarrow> with_lm (list_init host_list) s;
         with_lm (list_init device_list) s } = Some ((init_state n)\<lparr>lm := m\<rparr>)"
proof -
  let ?z = "\<lparr>node_list = NULL, node_next = NULL, node_prev = NULL\<rparr>"
  let ?m = "lm (init_state n)"
  have ne: "ctrl_list \<noteq> NULL" "host_list \<noteq> NULL" "device_list \<noteq> NULL" "ctrl_list \<noteq> host_list" "ctrl_list \<noteq> device_list"
    "host_list \<noteq> device_list" by (simp_all add: ctrl_list_def host_list_def device_list_def)
  have n: "nodes ?m p = Some ?z" if "p \<in> {ctrl_list, host_list, device_list}" for p
    using that by (simp add: init_state_def)
  have dom: "dom (nodes ?m) = {ctrl_list, host_list, device_list}"
    by (auto simp: init_state_def split: if_splits)
  obtain m1 where m1: "list_init ctrl_list ?m = Some m1" "dlist m1 ctrl_list []" "dom (nodes m1) = dom (nodes ?m)"
    "\<forall>x. x \<noteq> ctrl_list \<longrightarrow> nodes m1 x = nodes ?m x \<and> held m1 x = held ?m x"
    using list_init_refines [OF n, of ctrl_list] ne by auto
  obtain m2 where m2: "list_init host_list m1 = Some m2" "dlist m2 host_list []" "dom (nodes m2) = dom (nodes ?m)"
    "\<forall>x. x \<noteq> host_list \<longrightarrow> nodes m2 x = nodes m1 x \<and> held m2 x = held m1 x"
    using list_init_refines [of m1 host_list ?z] m1 n [of host_list] ne by auto
  obtain m3 where m3: "list_init device_list m2 = Some m3" "dlist m3 device_list []" "dom (nodes m3) = dom (nodes ?m)"
    "\<forall>x. x \<noteq> device_list \<longrightarrow> nodes m3 x = nodes m2 x \<and> held m3 x = held m2 x"
    using list_init_refines [of m2 device_list ?z] m2 m1 n [of device_list] ne by auto
  have "dlist m3 host_list []" by (rule dlist_cong [OF m2(2)]) (use m3(4) ne in auto)
  moreover have "dlist m2 ctrl_list []" by (rule dlist_cong [OF m1(2)]) (use m2(4) ne in auto)
  then have "dlist m3 ctrl_list []" by (rule dlist_cong) (use m3(4) ne in auto)
  ultimately have "lists_wf m3 (drv_lists [] [] [])"
    using m3(2,3) dom ne by (simp add: lists_wf_def drv_lists_def)
  with m1(1) m2(1) m3(1) show ?thesis by (intro exI [of _ m3]) (simp add: with_lm_def)
qed

lemma ugds_drv_entry_ok:
  assumes "n \<le> int map_max_num_ctrls"
  shows "\<exists>err s. ugds_drv_entry api (init_state n) = Some (err, s) \<and> mod_inv s [] [] []"
proof -
  obtain m where m: "lists_wf m (drv_lists [] [] [])"
    "do { s \<leftarrow> with_lm (list_init ctrl_list) (init_state n); s \<leftarrow> with_lm (list_init host_list) s;
         with_lm (list_init device_list) s } = Some ((init_state n)\<lparr>lm := m\<rparr>)"
    using ugds_drv_entry_lists by blast
  have mi: "mod_inv (log ks ((init_state n)\<lparr>lm := m, dev_first := f, dev_class := c\<rparr>)) [] [] []" for ks f c
    using m(1) assms by (simp add: mod_inv_def drv_inv_def lists_ok_def pdevs_def init_state_def maps_inv_empty)
  obtain e f where ef: "alloc_chrdev_region api = (e, f)" by fastforce
  have "ugds_drv_entry api (init_state n) = do {
      s \<leftarrow> do { s \<leftarrow> with_lm (list_init ctrl_list) (init_state n); s \<leftarrow> with_lm (list_init host_list) s;
         with_lm (list_init device_list) s };
      if e < 0 then Some (e, s)
      else
       let s = log [K_chrdev_region f] (s\<lparr>dev_first := f\<rparr>) in
       case class_create api of
         Inl e \<Rightarrow> Some (e, log [K_unregister_chrdev_region f] s)
       | Inr cls \<Rightarrow>
           let s = log [K_class_create cls] (s\<lparr>dev_class := cls\<rparr>); err = pci_register_driver api in
           if err \<noteq> 0 then Some (err, log [K_class_destroy cls, K_unregister_chrdev_region f] s)
           else Some (0, log [K_register_driver] s) }"
    by (simp add: ugds_drv_entry_def ef)
  then show ?thesis
    unfolding m(2) using mi [where ks = "[]" and f = 0 and c = NULL]
      mi [where f = f and c = NULL and ks = "[K_chrdev_region f, K_unregister_chrdev_region f]"] mi [where f = f]
    by (cases "class_create api") (auto simp: Let_def log_def init_state_def)
qed

lemma drv_inv_finite: "drv_inv s cs hs ds \<Longrightarrow> finite (dom (kmaps s))"
  by (simp add: drv_inv_def lists_ok_def)

lemma unmap_accounted:
  assumes "drv_inv s cs hs ds" "charge p s s'" "kmaps s' = (kmaps s)(p := None)"
  shows "accounted s \<longrightarrow> accounted s'"
  using charge_accounted [OF assms(2)] drv_inv_finite [OF assms(1)] assms(3) by simp

lemma clear_host_list:
  assumes "drv_inv s cs hs ds"
  shows "\<exists>s'. clear_map_list host_list i s = Some (i + length hs, s') \<and> drv_inv s' cs [] ds \<and> same_globals s s' \<and>
    (accounted s \<longrightarrow> accounted s')"
  using assms
proof (induction hs arbitrary: i s)
  case Nil
  then show ?case using dl.next_first [OF drv_inv_lists(1) [OF Nil]] by (subst clear_map_list.simps) simp
next
  case (Cons p hs)
  have "p \<noteq> NULL" using drv_inv_nonnull [OF Cons.prems] by simp
  moreover have "list_next host_list (lm s) = Some p" using dl.next_first [OF drv_inv_lists(1) [OF Cons.prems]] by simp
  moreover have "p \<notin> set ds" using lists_ok_distinct [of s cs "p # hs" ds] Cons.prems by (simp add: drv_inv_def)
  then have "remove1 p ds = ds" by (rule remove1_idem)
  then obtain s1 where "unmap_and_release p s = Some s1" "drv_inv s1 cs hs ds" "same_globals s s1" "accounted s \<longrightarrow> accounted s1"
    using unmap_and_release_keeps [OF Cons.prems, of p] unmap_accounted [OF Cons.prems] by auto
  moreover from Cons.IH [OF this(2), of "i + 1"] obtain s' where
    "clear_map_list host_list (i + 1) s1 = Some (i + 1 + length hs, s')" "drv_inv s' cs [] ds" "same_globals s1 s'"
    "accounted s1 \<longrightarrow> accounted s'" by blast
  ultimately show ?case by (subst clear_map_list.simps) (auto intro: same_globals_trans)
qed

lemma clear_device_list:
  assumes "drv_inv s cs hs ds"
  shows "\<exists>s'. clear_map_list device_list i s = Some (i + length ds, s') \<and> drv_inv s' cs hs [] \<and> same_globals s s' \<and>
    (accounted s \<longrightarrow> accounted s')"
  using assms
proof (induction ds arbitrary: i s)
  case Nil
  then show ?case using dl.next_first [OF drv_inv_lists(2) [OF Nil]] by (subst clear_map_list.simps) simp
next
  case (Cons p ds)
  have "p \<noteq> NULL" using drv_inv_nonnull [OF Cons.prems] by simp
  moreover have "list_next device_list (lm s) = Some p" using dl.next_first [OF drv_inv_lists(2) [OF Cons.prems]] by simp
  moreover have "p \<notin> set hs" using lists_ok_distinct [of s cs hs "p # ds"] Cons.prems by (simp add: drv_inv_def)
  then have "remove1 p hs = hs" by (rule remove1_idem)
  then obtain s1 where "unmap_and_release p s = Some s1" "drv_inv s1 cs hs ds" "same_globals s s1" "accounted s \<longrightarrow> accounted s1"
    using unmap_and_release_keeps [OF Cons.prems, of p] unmap_accounted [OF Cons.prems] by auto
  moreover from Cons.IH [OF this(2), of "i + 1"] obtain s' where
    "clear_map_list device_list (i + 1) s1 = Some (i + 1 + length ds, s')" "drv_inv s' cs hs []" "same_globals s1 s'"
    "accounted s1 \<longrightarrow> accounted s'" by blast
  ultimately show ?case by (subst clear_map_list.simps) (auto intro: same_globals_trans)
qed

text \<open>Removing every bound device empties the controller list.\<close>

lemma remove_all_ok:
  assumes "mod_inv s cs hs ds" "distinct devs" "set devs = set (pdevs s cs)"
  shows "\<exists>s'. remove_all devs s = Some s' \<and> mod_inv s' [] hs ds \<and> kmaps s' = kmaps s \<and> (accounted s \<longrightarrow> accounted s')"
  using assms
proof (induction devs arbitrary: s cs)
  case Nil
  then show ?case by (simp add: pdevs_def)
next
  case (Cons dev devs)
  have "dev \<in> set (pdevs s cs)" using Cons.prems(3) by auto
  then obtain p where p: "p \<in> set cs" "pdev_of s p = dev" by (auto simp: pdevs_def)
  have "p \<in> dom (ctrls s)" using mod_invD(2) [OF Cons.prems(1)] p(1) by (simp add: lists_ok_def)
  then obtain c where c: "ctrls s p = Some c" by blast
  from remove_pci_dev_run [OF Cons.prems(1) p c] obtain m' ks where
    ks: "ks = chrdev_teardown p c @ [K_release_region dev, K_clear_master dev, K_disable dev]"
    and rm: "remove_pci_dev dev s = Some (log ks (s\<lparr>curr_ctrls := curr_ctrls s - 1, lm := m', ctrls := (ctrls s)(p := None)\<rparr>))"
    and inv: "mod_inv (log ks (s\<lparr>curr_ctrls := curr_ctrls s - 1, lm := m', ctrls := (ctrls s)(p := None)\<rparr>)) (remove1 p cs) hs ds"
    by blast
  let ?s = "log ks (s\<lparr>curr_ctrls := curr_ctrls s - 1, lm := m', ctrls := (ctrls s)(p := None)\<rparr>)"
  have dist: "distinct (map (pdev_of s) cs)" using Cons.prems(1) by (simp add: mod_inv_def pdevs_def)
  then have dc: "distinct cs" by (simp add: distinct_map)
  have "set (pdevs ?s (remove1 p cs)) = pdev_of s ` (set cs - {p})"
    using dc by (auto simp: pdevs_def pdev_of_def)
  also have "\<dots> = pdev_of s ` set cs - {dev}"
    using dist p by (auto simp: distinct_map inj_on_def)
  also have "\<dots> = set devs" using Cons.prems(2,3) by (auto simp: pdevs_def)
  finally have "set devs = set (pdevs ?s (remove1 p cs))" by simp
  then obtain s' where s': "remove_all devs ?s = Some s'" "mod_inv s' [] hs ds" "kmaps s' = kmaps ?s" "accounted ?s \<longrightarrow> accounted s'"
    using Cons.IH [OF inv] Cons.prems(2) by auto
  moreover have "accounted s \<longrightarrow> accounted ?s"
    using charge_accounted [OF remove_calls_charge [OF ks]] drv_inv_finite [OF mod_invD(1) [OF Cons.prems(1)]] by simp
  ultimately show ?case using rm by simp
qed

lemma ugds_drv_exit_ok:
  assumes "mod_inv s cs hs ds" "distinct bound" "set bound = set (pdevs s cs)"
  shows "\<exists>s'. ugds_drv_exit bound s = Some s' \<and> mod_inv s' [] [] [] \<and> (accounted s \<longrightarrow> accounted s')"
proof -
  from clear_device_list [OF mod_invD(1) [OF assms(1)], of 0] obtain s1 where
    s1: "clear_map_list device_list 0 s = Some (length ds, s1)" "drv_inv s1 cs hs []" "same_globals s s1"
      "accounted s \<longrightarrow> accounted s1" by auto
  from clear_host_list [OF s1(2), of 0] obtain s2 where
    s2: "clear_map_list host_list 0 s1 = Some (length hs, s2)" "drv_inv s2 cs [] []" "same_globals s1 s2"
      "accounted s1 \<longrightarrow> accounted s2" by auto
  have g: "same_globals s s2" by (rule same_globals_trans [OF s1(3) s2(3)])
  have inv: "mod_inv s2 cs [] []" by (rule mod_inv_same_globals [OF assms(1) s2(2) g])
  have "pdevs s2 cs = pdevs s cs" using g by (intro pdevs_cong) (simp add: same_globals_def)
  then obtain s3 where s3: "remove_all bound s2 = Some s3" "mod_inv s3 [] [] []" "accounted s2 \<longrightarrow> accounted s3"
    using remove_all_ok [OF inv assms(2)] assms(3) by auto
  let ?s = "log [K_unregister_driver, K_class_destroy (dev_class s3), K_unregister_chrdev_region (dev_first s3)] s3"
  have "charge NULL s3 ?s"
  proof (rule charge_quiet)
    show "net [K_unregister_driver, K_class_destroy (dev_class s3), K_unregister_chrdev_region (dev_first s3)] k = 0"
      if "counted k" for k using that by (cases k) (simp_all add: net_Cons)
  qed simp_all
  from charge_accounted [OF this] have "accounted s3 \<longrightarrow> accounted ?s"
    using drv_inv_finite [OF mod_invD(1) [OF s3(2)]] by simp
  with s1(1,4) s2(1,4) s3 show ?thesis by (simp add: ugds_drv_exit_def)
qed

section \<open>The module as a state machine\<close>

datatype event = Probe ptr | Remove ptr | Ioctl ptr ioctl | Reclaim ptr | Move_notify ptr

fun exec :: "backend \<Rightarrow> kapi \<Rightarrow> event \<Rightarrow> kstate \<Rightarrow> kstate option" where
  "exec b api (Probe dev) s = map_option snd (add_pci_dev api dev s)"
| "exec b api (Remove dev) s = remove_pci_dev dev s"
| "exec b api (Ioctl i_cdev cmd) s = map_option snd (map_ioctl b api i_cdev cmd s)"
| "exec b api (Reclaim p) s = force_release_gpu_memory p s"
| "exec b api (Move_notify p) s = ugds_dmabuf_move_notify p s"

text \<open>
  \<open>K\<close> below is what is assumed of the kernel in every event. What the kernel and the GPU drivers
  may do when: a device is probed when it is not bound yet and
  removed when the driver has a controller for it; the callbacks come for live mappings of their kind.
\<close>

fun allowed :: "kapi \<Rightarrow> event \<Rightarrow> kstate \<Rightarrow> bool" where
  "allowed api (Probe dev) s \<longleftrightarrow> dev \<noteq> NULL \<and> (\<forall>c \<in> ran (ctrls s). c_pdev c \<noteq> dev) \<and> probe_api api s"
| "allowed api (Remove dev) s \<longleftrightarrow> (\<exists>c \<in> ran (ctrls s). c_pdev c = dev)"
| "allowed api (Ioctl i_cdev cmd) s \<longleftrightarrow> env_ok api s \<and> cmd_ok api cmd"
| "allowed api (Reclaim p) s \<longleftrightarrow> (case kmaps s p of None \<Rightarrow> False
     | Some m \<Rightarrow> m_release m = Some Release_gpu_memory \<and> m_data m \<noteq> NULL)"
| "allowed api (Move_notify p) s \<longleftrightarrow> (case kmaps s p of None \<Rightarrow> False
     | Some m \<Rightarrow> m_release m = Some Release_dmabuf_memory \<and> m_data m \<noteq> NULL)"

inductive reach :: "(kapi \<Rightarrow> bool) \<Rightarrow> backend \<Rightarrow> int \<Rightarrow> kstate \<Rightarrow> bool" for K b n where
  load: "ugds_drv_entry api (init_state n) = Some (0, s) \<Longrightarrow> reach K b n s"
| event: "reach K b n s \<Longrightarrow> K api \<Longrightarrow> allowed api e s \<Longrightarrow> exec b api e s = Some s' \<Longrightarrow> reach K b n s'"

inductive_cases reach_cases: "reach K b n s"

lemma ran_ctrls:
  assumes "lists_ok s cs hs ds"
  shows "c_pdev ` ran (ctrls s) = set (pdevs s cs)"
proof -
  have "dom (ctrls s) = set cs" using assms by (simp add: lists_ok_def)
  then show ?thesis by (force simp: pdevs_def pdev_of_def ran_def dom_def image_def set_eq_iff)
qed

lemma exec_keeps:
  assumes inv: "mod_inv s cs hs ds" and ok: "allowed api e s"
  shows "\<exists>s' cs' hs' ds'. exec b api e s = Some s' \<and> mod_inv s' cs' hs' ds' \<and> charged api s s'"
proof (cases e)
  case (Probe dev)
  then have "dev \<noteq> NULL" "dev \<notin> set (pdevs s cs)" "probe_api api s"
    using ok by (auto simp: ran_ctrls [OF mod_invD(2) [OF inv], symmetric])
  from add_pci_dev_keeps [OF inv this(3,1,2)] obtain err s' cs' where
    "add_pci_dev api dev s = Some (err, s')" "mod_inv s' cs' hs ds" "charge NULL s s'" by blast
  then have "exec b api e s = Some s'" "mod_inv s' cs' hs ds" "charged api s s'"
    unfolding charged_def Probe by auto
  then show ?thesis by blast
next
  case (Remove dev)
  then have "dev \<in> set (pdevs s cs)"
    using ok by (auto simp: ran_ctrls [OF mod_invD(2) [OF inv], symmetric])
  then obtain p where p: "p \<in> set cs" "pdev_of s p = dev" by (auto simp: pdevs_def)
  have "p \<in> dom (ctrls s)" using mod_invD(2) [OF inv] p(1) by (simp add: lists_ok_def)
  then obtain c where "ctrls s p = Some c" by blast
  from remove_pci_dev_run [OF inv p this] obtain m' ks where
    ks: "ks = chrdev_teardown p c @ [K_release_region dev, K_clear_master dev, K_disable dev]"
    and run: "remove_pci_dev dev s = Some (log ks (s\<lparr>curr_ctrls := curr_ctrls s - 1, lm := m', ctrls := (ctrls s)(p := None)\<rparr>))"
      "mod_inv (log ks (s\<lparr>curr_ctrls := curr_ctrls s - 1, lm := m', ctrls := (ctrls s)(p := None)\<rparr>)) (remove1 p cs) hs ds"
    by blast
  from run remove_calls_charge [OF ks] show ?thesis unfolding Remove exec.simps charged_def by blast
next
  case (Ioctl i cmd)
  with ok have "env_ok api s" "cmd_ok api cmd" by simp_all
  from map_ioctl_keeps [OF mod_invD(1) [OF inv] this] obtain r s' hs' ds' where
    "map_ioctl b api i cmd s = Some (r, s')" "drv_inv s' cs hs' ds'" "same_globals s s'" "charged api s s'"
    unfolding drv_ok_def by blast
  with mod_inv_same_globals [OF inv] have "exec b api e s = Some s'" "mod_inv s' cs hs' ds'" "charged api s s'"
    using Ioctl by auto
  then show ?thesis by blast
next
  case (Reclaim p)
  with ok obtain m where "kmaps s p = Some m" "m_release m = Some Release_gpu_memory" "m_data m \<noteq> NULL"
    by (auto split: option.splits)
  from force_release_keeps [OF mod_invD(1) [OF inv] this] mod_inv_same_globals [OF inv] show ?thesis
    unfolding Reclaim exec.simps charged_def by blast
next
  case (Move_notify p)
  with ok obtain m where "kmaps s p = Some m" by (auto split: option.splits)
  from move_notify_keeps [OF mod_invD(1) [OF inv] this] mod_inv_same_globals [OF inv] show ?thesis
    unfolding Move_notify exec.simps charged_def by blast
qed

lemma reach_inv:
  assumes "reach K b n s" "n \<le> int map_max_num_ctrls"
  shows "\<exists>cs hs ds. mod_inv s cs hs ds"
  using assms
proof (induction rule: reach.induct)
  case (load api s)
  then show ?case using ugds_drv_entry_ok [of n api] by auto
next
  case (event s api e s')
  then obtain cs hs ds where "mod_inv s cs hs ds" by blast
  from exec_keeps [OF this event.hyps(3), of b] event.hyps(4) show ?case by auto
qed

lemma mod_inv_finite: "mod_inv s cs hs ds \<Longrightarrow> finite (dom (kmaps s))"
  by (drule mod_invD(2)) (simp add: lists_ok_def)

lemma entry_calls:
  assumes "ugds_drv_entry api (init_state n) = Some (0, s)"
  shows "kmaps s = Map.empty \<and> (\<exists>f c. calls s = [] \<or> calls s = [K_chrdev_region f, K_unregister_chrdev_region f] \<or>
    calls s = [K_chrdev_region f, K_class_create c, K_register_driver])"
proof -
  obtain e f where ef: "alloc_chrdev_region api = (e, f)" by fastforce
  show ?thesis
    using assms by (cases "class_create api")
      (auto simp: ugds_drv_entry_def with_lm_def init_state_def log_def Let_def ef split: if_splits)
qed

lemma reach_accounted:
  assumes "reach exact_api b n s" "n \<le> int map_max_num_ctrls"
  shows "accounted s"
  using assms
proof (induction rule: reach.induct)
  case (load api s)
  then have "kmaps s = Map.empty" and "counted c \<Longrightarrow> net (calls s) c = 0" for c
    using entry_calls [OF load(1)] by (cases c; auto simp: net_Cons)+
  then show ?case by (simp add: accounted_def)
next
  case (event s api e s')
  obtain cs hs ds where inv: "mod_inv s cs hs ds" using reach_inv [OF event.hyps(1) event.prems] by blast
  from exec_keeps [OF this event.hyps(3), of b] event.hyps(4) obtain cs' hs' ds' where
    "mod_inv s' cs' hs' ds'" "charged api s s'" by auto
  with event.IH [OF event.prems] event.hyps(2) mod_inv_finite [OF inv] mod_inv_finite show ?case
    unfolding charged_def using charge_accounted by blast
qed

section \<open>A concrete kernel\<close>

text \<open>A kernel in which everything succeeds, used to instantiate the hypotheses.\<close>

definition example_api :: kapi where
  "example_api =
     \<lparr>current = 7, kmalloc = (\<lambda>a. case a of A_ctrl \<Rightarrow> 10 | A_map \<Rightarrow> 20 | A_pages \<Rightarrow> 30 | A_region \<Rightarrow> 40 | A_mappings \<Rightarrow> 50),
      heap_junk = (\<lambda>i. of_nat i), get_user_pages = (\<lambda>v n. (int (unat n), map (\<lambda>i. i + 1) [0..<unat n])),
      dma_map_page = (\<lambda>d p. of_nat p * 4096), dma_mapping_error = (\<lambda>d a. 0),
      p2p_get_pages = (\<lambda>v len. if unat len mod 65536 = 0 \<and> unat len div 65536 < 2 ^ 32 then (0, Suc (unat len div 65536)) else (- EINVAL, NULL)),
      p2p_entries = (\<lambda>t. of_nat (t - 1)),
      p2p_dma_map_pages = (\<lambda>d t. (0, Suc (unat (of_nat (t - 1) :: u32)))),
      p2p_dma_addresses = (\<lambda>m. replicate (m - 1) 0),
      dma_buf_get = (\<lambda>fd. Inr 60), dma_buf_dynamic_attach = (\<lambda>b d. Inr 61), dma_buf_pin = (\<lambda>a. 0),
      dma_buf_map_attachment = (\<lambda>a. Inr 62), sg_table = (\<lambda>t. [(0x10000, 0x2000)]), move_notify_fired = False,
      cdev_add = (\<lambda>c d. 0), device_create = (\<lambda>c d. Inr 80), pci_request_region = (\<lambda>d. 0),
      pci_enable_device = (\<lambda>d. 0), dma_set_mask = (\<lambda>d n. 0), alloc_chrdev_region = (0, MKDEV 240 0),
      class_create = Inr 90, pci_register_driver = 0, pci_resource_len = (\<lambda>d. 0x4000),
      pci_resource_start = (\<lambda>d. 0xf0000000), vm_iomap_memory = (\<lambda>a n. 0),
      copy_from_user_fails = False, copy_to_user_fails = False\<rparr>"

definition loaded :: kstate where
  "loaded = (case ugds_drv_entry example_api (init_state 64) of Some (_, s) \<Rightarrow> s | None \<Rightarrow> init_state 64)"

lemma loaded_entry: "ugds_drv_entry example_api (init_state 64) = Some (0, loaded)"
  by (simp add: loaded_def ugds_drv_entry_def example_api_def with_lm_def list_init_def list_fault_simps init_state_def
      ctrl_list_def host_list_def device_list_def)

lemma loaded_reach: "reach K b 64 loaded"
  using loaded_entry by (rule reach.load)

lemma loaded_lists: "mod_inv loaded [] [] []"
  using ugds_drv_entry_ok [of 64 example_api] loaded_entry by (simp add: map_max_num_ctrls_def)

lemma loaded_simps: "ctrls loaded = Map.empty" "kmaps loaded = Map.empty" "dom (nodes (lm loaded)) = {ctrl_list, host_list, device_list}"
  using lists_ok_nodes [OF mod_invD(2) [OF loaded_lists]] mod_invD(2) [OF loaded_lists]
  by (auto simp: lists_ok_def)

lemma example_probe_api: "probe_api example_api loaded"
  by (simp add: probe_api_def example_api_def loaded_simps ctrl_list_def host_list_def device_list_def)

section \<open>Properties\<close>











text \<open>
  C26. A probe is all or nothing. When it returns an error (or the limit is reached) the controller
  list, the controllers and the count are as before and every call it made is undone; when it
  succeeds, one controller with its character device is appended, numbered by the count.
\<close>

theorem probe_all_or_nothing:
  assumes "lists_ok s cs hs ds" "probe_api api s"
  shows "\<exists>err s' ks. add_pci_dev api dev s = Some (err, s') \<and> calls s' = calls s @ ks \<and> kmaps s' = kmaps s \<and>
    (if err \<noteq> 0 \<or> max_num_ctrls s \<le> curr_ctrls s
     then ctrls s' = ctrls s \<and> curr_ctrls s' = curr_ctrls s \<and> balanced ks \<and> lists_ok s' cs hs ds
     else \<exists>c. ctrls s' = (ctrls s)(kmalloc api A_ctrl \<mapsto> c) \<and> chrdev_ctrl api dev s c \<and>
       curr_ctrls s' = curr_ctrls s + 1 \<and> ks = probe_calls (kmalloc api A_ctrl) c \<and>
       lists_ok s' (cs @ [kmalloc api A_ctrl]) hs ds)"
proof (cases rule: add_pci_dev_cases [OF assms, of dev, case_names rejected added])
  case (rejected err m' ks)
  then have "err \<noteq> 0 \<or> max_num_ctrls s \<le> curr_ctrls s" by blast
  with rejected show ?thesis by (intro exI [of _ err] exI [of _ "log ks (s\<lparr>lm := m'\<rparr>)"] exI [of _ ks]) simp
next
  case (added p m' c)
  let ?s = "log (probe_calls p c) (s\<lparr>lm := m', ctrls := (ctrls s)(p \<mapsto> c), curr_ctrls := curr_ctrls s + 1\<rparr>)"
  have "lists_ok ?s (cs @ [p]) hs ds" using added(6) by (simp add: lists_ok_def)
  with added show ?thesis by (intro exI [of _ 0] exI [of _ ?s] exI [of _ "probe_calls p c"]) auto
qed

theorem probe_all_or_nothing_witness:
  "\<exists>err s'. add_pci_dev example_api 5 loaded = Some (err, s') \<and> (err = 0 \<or> ctrls s' = Map.empty)"
  using probe_all_or_nothing [OF mod_invD(2) [OF loaded_lists] example_probe_api, of 5]
  by (auto simp: loaded_simps split: if_splits)

text \<open>
  C27. Removal undoes a probe: removing a device right after it was added succeeds, restores the
  controllers, the count and the list, and the calls of the two together are balanced.
\<close>

theorem probe_then_remove:
  assumes "mod_inv s cs hs ds" "probe_api api s" "dev \<noteq> NULL" "dev \<notin> set (pdevs s cs)" "curr_ctrls s < max_num_ctrls s"
    and "add_pci_dev api dev s = Some (0, s1)"
  shows "\<exists>s2 ks. remove_pci_dev dev s1 = Some s2 \<and> calls s2 = calls s @ ks \<and> balanced ks \<and>
    ctrls s2 = ctrls s \<and> curr_ctrls s2 = curr_ctrls s \<and> lists_ok s2 cs hs ds"
proof (cases rule: add_pci_dev_cases [OF mod_invD(2) [OF assms(1)] assms(2), of dev, case_names rejected added])
  case (rejected err m' ks)
  then show ?thesis using assms(5,6) by simp
next
  case (added p m' c)
  let ?s = "log (probe_calls p c) (s\<lparr>lm := m', ctrls := (ctrls s)(p \<mapsto> c), curr_ctrls := curr_ctrls s + 1\<rparr>)"
  have s1: "s1 = ?s" using added(5) assms(6) by simp
  have c: "c_pdev c = dev" "c_chrdev c \<noteq> NULL" using added(4) by (simp_all add: chrdev_ctrl_def)
  have p: "p \<notin> set cs" using added(6) by (auto simp: lists_ok_def lists_wf_def drv_lists_def)
  have "mod_inv s1 (cs @ [p]) hs ds"
    using add_pci_dev_added_inv [OF assms(1) assms(3,4) added] s1 by simp
  from remove_pci_dev_run [OF this, of p dev c] s1 c obtain m2 ks where
    ks: "ks = chrdev_teardown p c @ [K_release_region dev, K_clear_master dev, K_disable dev]"
    and s2: "remove_pci_dev dev s1 = Some (log ks (s1\<lparr>curr_ctrls := curr_ctrls s1 - 1, lm := m2, ctrls := (ctrls s1)(p := None)\<rparr>))"
      "mod_inv (log ks (s1\<lparr>curr_ctrls := curr_ctrls s1 - 1, lm := m2, ctrls := (ctrls s1)(p := None)\<rparr>)) (remove1 p (cs @ [p])) hs ds"
    by (auto simp: pdev_of_def)
  have "ctrls s p = None" using mod_invD(2) [OF assms(1)] p by (auto simp: lists_ok_def)
  then have "(ctrls s1)(p := None) = ctrls s" by (auto simp: s1)
  moreover have "balanced (probe_calls p c @ ks)"
    using c by (auto simp: ks probe_calls_def chrdev_teardown_def balanced_def net_Cons)
  ultimately show ?thesis
    using s2 mod_invD(2) [OF s2(2)] p
    by (intro exI [of _ "probe_calls p c @ ks"] exI) (auto simp: s1 remove1_append)
qed

lemma loaded_limit: "max_num_ctrls loaded = 64" "curr_ctrls loaded = 0"
  by (simp_all add: loaded_def ugds_drv_entry_def example_api_def with_lm_def list_init_def list_fault_simps init_state_def
      ctrl_list_def host_list_def device_list_def)

lemma example_probe: "\<exists>s1. add_pci_dev example_api 5 loaded = Some (0, s1)"
proof -
  have "(10 :: ptr) \<notin> dom (nodes (lm loaded))" by (simp add: loaded_simps ctrl_list_def host_list_def device_list_def)
  from ctrl_get_ok [OF mod_invD(2) [OF loaded_lists] _ _ this, of example_api "dev_class loaded" 5 "curr_ctrls loaded"]
  obtain m' where "ctrl_get example_api ctrl_list (dev_class loaded) 5 (curr_ctrls loaded) loaded =
      Some (Inr 10, loaded\<lparr>lm := m', ctrls := (ctrls loaded)(10 \<mapsto> new_ctrl (dev_class loaded) 5 (curr_ctrls loaded))\<rparr>)"
    by (auto simp: example_api_def)
  from add_pci_dev_run [OF _ example_probe_api refl refl refl this] show ?thesis
    by (simp add: loaded_limit) (simp add: example_api_def)
qed

theorem probe_then_remove_witness:
  "\<exists>s1 s2. add_pci_dev example_api 5 loaded = Some (0, s1) \<and> remove_pci_dev 5 s1 = Some s2 \<and> ctrls s2 = Map.empty"
proof -
  obtain s1 where s1: "add_pci_dev example_api 5 loaded = Some (0, s1)" using example_probe by blast
  from probe_then_remove [OF loaded_lists example_probe_api _ _ _ s1] s1 show ?thesis
    by (auto simp: loaded_simps loaded_limit pdevs_def)
qed

section \<open>Isolation\<close>

lemma find_matches:
  assumes "drv_inv s cs hs ds" "List.find (\<lambda>p. map_matches api addr (the (kmaps s p))) (hs @ ds) = Some p"
  shows "\<exists>m. kmaps s p = Some m \<and> map_matches api addr m \<and> p \<in> set hs \<union> set ds"
proof -
  from find_Some_set [OF assms(2)] have p: "p \<in> set hs \<union> set ds" "map_matches api addr (the (kmaps s p))" by auto
  from drv_inv_member [OF assms(1) p(1)] p show ?thesis by auto
qed

lemma unmap_effect:
  assumes inv: "drv_inv s cs hs ds" and run: "ioctl_unmap_memory api addr s = Some (r, s')"
  shows "kmaps s' = kmaps s \<or> (\<exists>p m. r = 0 \<and> kmaps s p = Some m \<and> map_matches api addr m \<and> kmaps s' = (kmaps s)(p := None))"
proof (cases "List.find (\<lambda>p. map_matches api addr (the (kmaps s p))) (hs @ ds)")
  case None
  then show ?thesis using run by (auto simp: ioctl_unmap_memory_cases [OF inv] split: if_splits)
next
  case (Some p)
  from find_matches [OF inv Some] obtain m where m: "kmaps s p = Some m" "map_matches api addr m" "p \<in> set hs \<union> set ds" by blast
  from unmap_and_release_keeps [OF inv m(3)] Some run m(1,2) show ?thesis
    by (auto simp: ioctl_unmap_memory_cases [OF inv] split: if_splits)
qed


text \<open>Two processes with a mapping of the same address each, behind one controller.\<close>

definition example_map :: "ptr \<Rightarrow> ptr \<Rightarrow> map_desc" where
  "example_map own data = \<lparr>m_owner = own, m_vaddr = 0x5000, m_ctrl_list = 0, m_pdev = 5, m_page_size = 4096, m_data = data,
     m_release = Some Release_user_pages, m_n_addrs = 1, m_invalid = False, m_addrs = [0x1000]\<rparr>"

definition example_drv :: kstate where
  "example_drv = (init_state 64)\<lparr>
     lm := \<lparr>nodes = [1 \<mapsto> \<lparr>node_list = 1, node_next = 10, node_prev = 10\<rparr>, 10 \<mapsto> \<lparr>node_list = 1, node_next = 1, node_prev = 1\<rparr>,
       2 \<mapsto> \<lparr>node_list = 2, node_next = 20, node_prev = 21\<rparr>, 20 \<mapsto> \<lparr>node_list = 2, node_next = 21, node_prev = 2\<rparr>,
       21 \<mapsto> \<lparr>node_list = 2, node_next = 2, node_prev = 20\<rparr>, 3 \<mapsto> \<lparr>node_list = 3, node_next = 3, node_prev = 3\<rparr>], held = \<lambda>_. False\<rparr>,
     ctrls := [10 \<mapsto> new_ctrl 90 5 0], kmaps := [20 \<mapsto> example_map 7 30, 21 \<mapsto> example_map 8 31],
     page_arrays := [30 \<mapsto> [1], 31 \<mapsto> [2]]\<rparr>"

lemma owned_empty: "owned Map.empty Map.empty"
  by (simp add: owned_def)

lemma example_drv_inv: "drv_inv example_drv [10] [20, 21] []"
proof -
  have wf: "lists_wf (lm example_drv) (drv_lists [10] [20, 21] [])"
    by (auto simp: lists_wf_def drv_lists_def example_drv_def ctrl_list_def host_list_def device_list_def
        dlist_def in_list_def nx_def pv_def)
  have "data_of r (kmaps example_drv) = (if r = Release_user_pages then [20 \<mapsto> 30, 21 \<mapsto> 31] else Map.empty)" for r
    by (auto simp: data_of_def example_drv_def example_map_def fun_eq_iff)
  moreover have "owned [20 \<mapsto> 30, 21 \<mapsto> 31] [30 \<mapsto> [1], 31 \<mapsto> [2 :: ptr]]"
    by (rule owned_add [OF owned_add [OF owned_empty]]) simp_all
  moreover have "array_of Map.empty = Map.empty" by (simp add: array_of_def fun_eq_iff)
  ultimately have "maps_inv example_drv"
    by (auto simp: owned_empty maps_inv_def heap_inv_def map_ok_def user_ok_def example_drv_def example_map_def init_state_def split: if_splits)
  with wf show ?thesis by (auto simp: drv_inv_def lists_ok_def example_drv_def map_max_num_ctrls_def)
qed


section \<open>Why the requests are bounded\<close>

text \<open>
  The bounds in \<^const>\<open>cmd_ok\<close> are needed. For a page count just above \<open>2 ^ 61\<close> the size passed
  to \<open>kvmalloc\<close> wraps around to that of a descriptor with one address, and the loop that clears
  the addresses runs past its end.
\<close>

lemma create_descriptor_wraps:
  assumes "kmalloc api A_map \<noteq> NULL"
  shows "create_descriptor api c vaddr (2 ^ 61 + 1) s = None"
proof -
  have "map_alloc_bytes (2 ^ 61 + 1) = 104" by (simp add: map_alloc_bytes_def)
  moreover have "arr_fill (map (heap_junk api) [0..<1]) (unat (2 ^ 61 + 1 :: u64)) 0 = None"
    by (simp add: arr_fill_def)
  ultimately show ?thesis using assms by (auto simp: create_descriptor_def bind_eq_None)
qed

text \<open>
  A DMA-buf descriptor that the kernel refuses makes \<open>map_dmabuf_memory\<close> read the region it has
  just freed.
\<close>

lemma map_dmabuf_bad_fd:
  assumes "kmalloc api A_region \<noteq> NULL" "dma_buf_get api fd = Inl e" "n \<le> cap"
  shows "map_dmabuf_memory api p fd off n cap s = None"
  using assms by (simp add: map_dmabuf_memory_def)

section \<open>Mapping the registers\<close>

text \<open>
  C28. Register access is confined to the device's own BAR: mapping the registers never faults, and
  the physical range handed to the kernel starts at the BAR of the controller whose character
  device was opened and is no longer than that BAR; without such a controller the answer is
  \<open>-EBADF\<close> and with a longer range it is \<open>-EINVAL\<close>.
\<close>

theorem mmap_within_bar:
  assumes "drv_inv s cs hs ds"
  shows "\<exists>r. mmap_registers api i vm_start vm_end s = Some r \<and>
    (r = - EBADF \<and> (\<forall>p\<in>set cs. cdev_addr p \<noteq> i) \<or>
     (\<exists>p c. p \<in> set cs \<and> cdev_addr p = i \<and> ctrls s p = Some c \<and>
       (if vm_end - vm_start \<le> pci_resource_len api (c_pdev c)
        then r = vm_iomap_memory api (pci_resource_start api (c_pdev c)) (vm_end - vm_start)
        else r = - EINVAL)))"
proof -
  have cs: "dlist (lm s) ctrl_list cs" "set cs \<subseteq> dom (ctrls s)"
    using drv_inv_ctrls [OF assms] by (simp_all add: ctrls_ok_def)
  show ?thesis
  proof (cases "List.find (\<lambda>p. cdev_addr p = i) cs")
    case None
    then have "mmap_registers api i vm_start vm_end s = Some (- EBADF)"
      by (simp add: mmap_registers_def ctrl_find_by_inode_find [OF cs])
    with None show ?thesis by (simp add: find_None_iff)
  next
    case (Some p)
    from find_Some_set [OF this] cs(2) obtain c where p: "p \<in> set cs" "cdev_addr p = i" "ctrls s p = Some c" by blast
    then have "p \<noteq> NULL" using dlist_node [OF cs(1)] by auto
    with Some p(3) have run: "mmap_registers api i vm_start vm_end s =
        Some (if vm_end - vm_start \<le> pci_resource_len api (c_pdev c)
          then vm_iomap_memory api (pci_resource_start api (c_pdev c)) (vm_end - vm_start) else - EINVAL)"
      by (auto simp: mmap_registers_def ctrl_find_by_inode_find [OF cs] not_le)
    show ?thesis unfolding run by (intro exI [of _ p] exI conjI disjI2 refl) (use p in auto)
  qed
qed

theorem mmap_within_bar_witness:
  "mmap_registers example_api (cdev_addr 10) 0x1000 0x3000 example_drv \<noteq> None"
  using mmap_within_bar [OF example_drv_inv, of example_api "cdev_addr 10" "0x1000" "0x3000"] by auto

end
