(* ===== verification/Drv_Addr.thy ===== *)
theory Drv_Addr
  imports Drv_Module
begin

text \<open>
  What the mapping requests of the kernel module deliver: which bus addresses \<open>map_ioctl\<close> copies to user space
  for host memory, for GPU memory and for a DMA-buf.
\<close>

section \<open>The frame of a mapping\<close>

lemma create_descriptor_result:
  assumes "create_descriptor api ctrl vaddr n s = Some (Inr md, s')"
  shows "\<exists>c m. ctrls s ctrl = Some c \<and> kmaps s' md = Some m \<and> calls s' = calls s \<and> ctrls s' = ctrls s \<and> lm s' = node_alloc md (lm s) \<and> md = kmalloc api A_map \<and>
    m_vaddr m = vaddr \<and> m_n_addrs m = n \<and> m_pdev m = c_pdev c \<and> unat n \<le> length (m_addrs m)"
  using assms by (auto simp: node_alloc_init create_descriptor_def with_lm_def alloc_node_def bind_eq_Some arr_fill_def Let_def split: if_splits)

lemma map_with_result:
  assumes "map_with setup prepare api lst ctrl vaddr n s = Some (Inr md, s')"
  obtains c m s1 s2 where "ctrls s ctrl = Some c" "kmaps s1 md = Some (prepare m)" "setup md s1 = Some (0, s2)" "calls s1 = calls s"
    "kmaps s' = kmaps s2" "calls s' = calls s2" "m_vaddr m = vaddr" "m_n_addrs m = n" "m_pdev m = c_pdev c" "unat n \<le> length (m_addrs m)" "n \<noteq> 0"
    "ctrls s1 = ctrls s" "lm s1 = node_alloc md (lm s)" "md = kmalloc api A_map"
proof -
  have n: "n \<noteq> 0" using assms by (auto simp: map_with_def split: if_splits)
  obtain r0 s0 where C: "create_descriptor api ctrl vaddr n s = Some (r0, s0)" using assms n by (auto simp: map_with_def bind_eq_Some)
  then have "r0 = Inr md" and "map_upd md prepare s0 \<bind> (\<lambda>s. setup md s \<bind> (\<lambda>(err, s). if err \<noteq> 0 then unmap_and_release md s \<bind> (\<lambda>s. Some (Inl err, s))
      else with_lm (list_insert lst md) s \<bind> (\<lambda>s. Some (Inr md, s)))) = Some (Inr md, s')"
    using assms n by (cases r0; fastforce simp: map_with_def bind_eq_Some split: if_splits)+
  with C obtain m0 s2 l where R: "create_descriptor api ctrl vaddr n s = Some (Inr md, s0)" "kmaps s0 md = Some m0"
    "setup md (s0\<lparr>kmaps := (kmaps s0)(md \<mapsto> prepare m0)\<rparr>) = Some (0, s2)" "s' = s2\<lparr>lm := l\<rparr>"
    by (auto simp: map_upd_def with_lm_def bind_eq_Some split: if_splits)
  from create_descriptor_result [OF R(1)] R(2) obtain c where "ctrls s ctrl = Some c" "calls s0 = calls s" "ctrls s0 = ctrls s" "lm s0 = node_alloc md (lm s)" "md = kmalloc api A_map" "m_vaddr m0 = vaddr" "m_n_addrs m0 = n"
    "m_pdev m0 = c_pdev c" "unat n \<le> length (m_addrs m0)" by auto
  then show thesis using that [of c "s0\<lparr>kmaps := (kmaps s0)(md \<mapsto> prepare m0)\<rparr>" m0 s2] R n by simp
qed

lemma map_with_error:
  assumes "map_with setup prepare api lst ctrl vaddr n s = Some (Inl e, s')"
  shows "e \<noteq> 0"
proof (cases "n < 1")
  case False
  obtain r0 s0 where C: "create_descriptor api ctrl vaddr n s = Some (r0, s0)" using assms False by (auto simp: map_with_def bind_eq_Some)
  then have "r0 = Inl x \<Longrightarrow> x \<noteq> 0" for x by (auto simp: create_descriptor_def bind_eq_Some Let_def split: if_splits)
  then show ?thesis using assms C False by (cases r0) (auto simp: map_with_def bind_eq_Some split: if_splits)
qed (use assms in \<open>simp add: map_with_def\<close>)

section \<open>Host memory\<close>

lemma dma_map_pages_result:
  assumes "dma_map_pages api dev pages i n addrs = Some (0, addrs', cs)" "i \<le> n" "n \<le> length addrs"
  shows "take n addrs' = take i addrs @ map (dma_map_page api dev) (drop i (take n pages)) \<and> n \<le> length addrs' \<and>
    cs = map (\<lambda>p. K_dma_map dev (dma_map_page api dev p)) (drop i (take n pages))"
  using assms
proof (induction api dev pages i n addrs arbitrary: addrs' cs rule: dma_map_pages.induct)
  case (1 api dev pages i n addrs)
  show ?case
  proof (cases "i < n")
    case False
    then have "i = n" using "1.prems"(2) by simp
    then show ?thesis using "1.prems" by (simp add: dma_map_pages.simps [of api dev pages n n])
  next
    case True
    let ?a = "dma_map_page api dev (pages ! i)"
    have i: "i < length pages" and "dma_mapping_error api dev ?a = 0"
      using "1.prems"(1) True by (auto simp: dma_map_pages.simps [of api dev pages i n addrs] arr_get_def bind_eq_Some Let_def split: if_splits)
    then obtain cs' where r: "dma_map_pages api dev pages (i + 1) n (addrs[i := ?a]) = Some (0, addrs', cs')" "cs = K_dma_map dev ?a # cs'"
      using "1.prems"(1,3) True by (auto simp: dma_map_pages.simps [of api dev pages i n addrs] arr_get_def arr_set_def bind_eq_Some Let_def split: if_splits)
    have "drop i (take n pages) = pages ! i # drop (Suc i) (take n pages)"
      using i True by (simp add: Cons_nth_drop_Suc [symmetric] nth_take)
    moreover have "take (Suc i) (addrs[i := ?a]) = take i addrs @ [?a]" using True "1.prems"(3) by (simp add: take_Suc_conv_app_nth)
    ultimately show ?thesis
      using "1.IH" [OF True _ _ _ _ _ r(1)] i True "1.prems"(3) r(2) \<open>dma_mapping_error api dev ?a = 0\<close> by (simp add: arr_get_def arr_set_def)
  qed
qed

text \<open>\<open>get_user_pages\<close> pins at least one of the pages it is asked for, or reports an error.\<close>

definition pins_some :: "kapi \<Rightarrow> bool" where
  "pins_some api \<longleftrightarrow> (\<forall>v n. n \<noteq> 0 \<longrightarrow> fst (get_user_pages api v n) \<noteq> 0)"

lemma map_user_pages_result:
  assumes run: "map_user_pages api p s = Some (0, s')" and p: "kmaps s p = Some m" "m_n_addrs m \<noteq> 0" "unat (m_n_addrs m) \<le> length (m_addrs m)"
    and api: "pages_api api" "pins_some api"
  obtains got m' where "get_user_pages api (m_vaddr m) (m_n_addrs m) = (int (length got), got)" "got \<noteq> []" "length got \<le> unat (m_n_addrs m)"
    "kmaps s' p = Some m'" "arr_prefix (m_addrs m') (unat (m_n_addrs m')) = Some (map (dma_map_page api (m_pdev m)) got)"
    "calls s' = calls s @ map K_get_page got @ map (\<lambda>q. K_dma_map (m_pdev m) (dma_map_page api (m_pdev m) q)) got"
proof -
  obtain r got where g: "get_user_pages api (m_vaddr m) (m_n_addrs m) = (r, got)" by fastforce
  have "r \<noteq> 0" using api(2) p(2) g unfolding pins_some_def by (metis fst_conv)
  then have r: "0 < r" using run p(1) g by (auto simp: map_user_pages_def Let_def split: if_splits)
  then have got: "length got = nat r" "nat r \<le> unat (m_n_addrs m)" using api(1) g unfolding pages_api_def by blast+
  have u: "unat (word_of_int r :: u64) = nat r"
  proof -
    have "nat r < 2 ^ 64" using got(2) unat_bound [of "m_n_addrs m"] by simp
    then have "unat (of_nat (nat r) :: u64) = nat r" by (simp add: unsigned_of_nat take_bit_nat_eq_self)
    then show ?thesis using r by simp
  qed
  let ?pages = "got @ drop (length got) (replicate (unat (m_n_addrs m)) NULL)"
  obtain addrs cs where D: "dma_map_pages api (m_pdev m) ?pages 0 (nat r) (m_addrs m) = Some (0, addrs, cs)"
    and s': "calls s' = calls s @ map K_get_page got @ cs" "\<exists>m'. kmaps s' p = Some m' \<and> m_addrs m' = addrs \<and> m_n_addrs m' = word_of_int r"
    using run p(1) g r got u by (auto simp: map_user_pages_def arr_store_def bind_eq_Some Let_def split: if_splits prod.splits)
  have "take (nat r) addrs = map (dma_map_page api (m_pdev m)) got" "nat r \<le> length addrs" "cs = map (\<lambda>q. K_dma_map (m_pdev m) (dma_map_page api (m_pdev m) q)) got"
    using dma_map_pages_result [OF D] got p(3) by simp_all
  then show thesis using that [of got] s' g r got u by (force simp: arr_prefix_def)
qed

lemma host_map_result:
  assumes api: "pages_api api" "pins_some api" and run: "map_ioctl b api i_cdev (NVM_MAP_HOST_MEMORY req) s = Some (0, s')"
    and find: "ctrl_find_by_inode ctrl_list i_cdev s = Some ctrl"
  obtains c got where "ctrls s ctrl = Some c" "get_user_pages api (vaddr_start req AND PAGE_MASK) (n_pages req) = (int (length got), got)"
    "got \<noteq> []" "length got \<le> unat (n_pages req)"
    "calls s' = calls s @ map K_get_page got @ map (\<lambda>q. K_dma_map (c_pdev c) (dma_map_page api (c_pdev c) q)) got @
       [K_copy_to_user (ioaddrs req) (map (dma_map_page api (c_pdev c)) got)]"
proof -
  have "ctrl \<noteq> NULL" and run: "ioctl_map_host api ctrl req s = Some (0, s')"
    using run find by (auto simp: map_ioctl_def split: if_splits)
  then obtain x t where M: "map_userspace api host_list ctrl (vaddr_start req) (n_pages req) s = Some (x, t)" "copy_addrs api (ioaddrs req) (x, t) = Some (0, s')"
    by (auto simp: ioctl_map_host_def bind_eq_Some split: if_splits)
  from M(1) have e: "x \<noteq> Inl 0" unfolding map_userspace_def using map_with_error by blast
  then obtain md where md: "x = Inr md" using M(2) by (cases x) (auto simp: copy_addrs_def)
  from M(1) [unfolded md map_userspace_def] obtain c m s1 s2 where W: "ctrls s ctrl = Some c" "kmaps s1 md = Some (m\<lparr>m_page_size := PAGE_SIZE\<rparr>)"
    "map_user_pages api md s1 = Some (0, s2)" "calls s1 = calls s" "kmaps t = kmaps s2" "calls t = calls s2" "m_vaddr m = vaddr_start req AND PAGE_MASK" "m_n_addrs m = n_pages req"
    "m_pdev m = c_pdev c" "unat (n_pages req) \<le> length (m_addrs m)" "n_pages req \<noteq> 0" by (rule map_with_result)
  obtain got m' where G: "get_user_pages api (vaddr_start req AND PAGE_MASK) (n_pages req) = (int (length got), got)" "got \<noteq> []" "length got \<le> unat (n_pages req)"
    "kmaps s2 md = Some m'" "arr_prefix (m_addrs m') (unat (m_n_addrs m')) = Some (map (dma_map_page api (c_pdev c)) got)"
    "calls s2 = calls s1 @ map K_get_page got @ map (\<lambda>q. K_dma_map (c_pdev c) (dma_map_page api (c_pdev c) q)) got"
    by (rule map_user_pages_result [OF W(3,2) _ _ api]) (use W in simp_all)
  have "calls s' = calls t @ [K_copy_to_user (ioaddrs req) (map (dma_map_page api (c_pdev c)) got)]"
    using M(2) md W(5) G(4,5) by (auto simp: copy_addrs_def split: if_splits)
  then show thesis using that [OF W(1) G(1-3)] W(4,6) G(6) by simp
qed

section \<open>GPU memory\<close>

text \<open>
  The addresses are those of the first mapping, which is the one for the first controller of the list.
\<close>

lemma map_gpu_step_cases:
  assumes "map_gpu_step api s t n c (j, ms, addrs, acc) = Some x"
  obtains cc err mp where "ctrls s c = Some cc" "p2p_dma_map_pages api (c_pdev cc) t = (err, mp)" "err \<noteq> 0" "x = Inl (err, ms, addrs, acc)"
  | cc mp where "ctrls s c = Some cc" "p2p_dma_map_pages api (c_pdev cc) t = (0, mp)" "j = 0 \<Longrightarrow> n \<le> length (p2p_dma_addresses api mp) \<and> n \<le> length addrs"
    "x = Inr (Suc j, ms[j := mp], if j = 0 then take n (p2p_dma_addresses api mp) @ drop n addrs else addrs, acc @ [K_p2p_dma_map (c_pdev cc) t mp])"
proof -
  note fails = that(1) and works = that(2)
  obtain cc where cc: "ctrls s c = Some cc" using assms by (auto simp: map_gpu_step_def bind_eq_Some)
  obtain err mp where mp: "p2p_dma_map_pages api (c_pdev cc) t = (err, mp)" by fastforce
  show thesis
  proof (cases "err = 0")
    case True
    show thesis
      by (rule works [OF cc mp [unfolded True]])
        (use assms cc mp True in \<open>auto simp: map_gpu_step_def bind_eq_Some arr_set_def arr_get_def arr_prefix_def arr_store_def split: if_splits\<close>)
  qed (use fails [OF cc mp] assms cc mp in \<open>simp add: map_gpu_step_def\<close>)
qed

lemma iter_map_gpu_result:
  assumes "iter_fold (map_gpu_step api s t n) cs (j, ms, addrs, acc) = Some r"
  shows "case r of Inl (e, ms', addrs', ks) \<Rightarrow> e \<noteq> 0 | Inr (j', ms', addrs', ks) \<Rightarrow> j \<noteq> 0 \<longrightarrow> addrs' = addrs"
  using assms
proof (induction cs arbitrary: j ms addrs acc)
  case (Cons c cs)
  then obtain x where x: "map_gpu_step api s t n c (j, ms, addrs, acc) = Some x" by (auto simp: bind_eq_Some)
  show ?case
  proof (cases rule: map_gpu_step_cases [OF x])
    case 1
    then show ?thesis using Cons.prems x by auto
  next
    case (2 cc mp)
    then have "iter_fold (map_gpu_step api s t n) cs
        (Suc j, ms[j := mp], if j = 0 then take n (p2p_dma_addresses api mp) @ drop n addrs else addrs, acc @ [K_p2p_dma_map (c_pdev cc) t mp]) = Some r"
      using Cons.prems x by simp
    from Cons.IH [OF this] show ?thesis by (auto split: sum.splits)
  qed
qed (auto split: sum.split)

lemma iter_map_gpu_first:
  assumes "iter_fold (map_gpu_step api s t n) (c # cs) (0, ms, addrs, acc) = Some (Inr (j', ms', addrs', ks))"
  shows "\<exists>cc mp. ctrls s c = Some cc \<and> p2p_dma_map_pages api (c_pdev cc) t = (0, mp) \<and> n \<le> length (p2p_dma_addresses api mp) \<and>
    n \<le> length addrs' \<and> take n addrs' = take n (p2p_dma_addresses api mp)"
proof -
  obtain x where x: "map_gpu_step api s t n c (0, ms, addrs, acc) = Some x" using assms by (auto simp: bind_eq_Some)
  show ?thesis
  proof (cases rule: map_gpu_step_cases [OF x])
    case 1
    then show ?thesis using assms x by simp
  next
    case (2 cc mp)
    then have "iter_fold (map_gpu_step api s t n) cs (Suc 0, ms[0 := mp], take n (p2p_dma_addresses api mp) @ drop n addrs, acc @ [K_p2p_dma_map (c_pdev cc) t mp]) =
        Some (Inr (j', ms', addrs', ks))" using assms x by simp
    from iter_map_gpu_result [OF this] show ?thesis using 2(1-3) by auto
  qed
qed

lemma map_gpu_memory_result:
  assumes run: "map_gpu_memory api p ctrl_list s = Some (0, s')" and p: "kmaps s p = Some m" and cs: "dlist (lm s) ctrl_list (c # cs)"
    and n: "unat (m_n_addrs m) < 2 ^ 32" and api: "p2p_api api"
  obtains cc t mp m' where "ctrls s c = Some cc" "p2p_get_pages api (m_vaddr m) (GPU_PAGE_SIZE * m_n_addrs m) = (0, t)"
    "p2p_dma_map_pages api (c_pdev cc) t = (0, mp)" "length (p2p_dma_addresses api mp) = unat (m_n_addrs m)"
    "kmaps s' p = Some m'" "arr_prefix (m_addrs m') (unat (m_n_addrs m')) = Some (p2p_dma_addresses api mp)"
proof -
  let ?g = "kmalloc api A_region" and ?a = "kmalloc api A_mappings" and ?n = "unat (m_n_addrs m)"
  obtain err t where t: "p2p_get_pages api (m_vaddr m) (GPU_PAGE_SIZE * m_n_addrs m) = (err, t)" by fastforce
  have ok: "?g \<noteq> NULL" "?a \<noteq> NULL" "err = 0" using run p t by (auto simp: map_gpu_memory_def Let_def split: if_splits)
  let ?m = "m\<lparr>m_page_size := GPU_PAGE_SIZE, m_data := ?g, m_release := Some Release_gpu_memory\<rparr>"
  let ?s = "log [K_p2p_get t] (s\<lparr>mapping_arrays := (mapping_arrays s)(?a \<mapsto> replicate map_max_num_ctrls NULL), kmaps := (kmaps s)(p \<mapsto> ?m), gpu_regions := (gpu_regions s)(?g \<mapsto> \<lparr>g_pages = t, g_mappings = ?a\<rparr>)\<rparr>)"
  have "map_gpu_memory api p ctrl_list s = do {
      r \<leftarrow> iter_fold (map_gpu_step api ?s t ?n) (c # cs) (0, replicate map_max_num_ctrls NULL, m_addrs m, []);
      case r of
        Inl (err, mappings, addrs, ks) \<Rightarrow> Some (err, log ks (?s\<lparr>mapping_arrays := (mapping_arrays s)(?a \<mapsto> mappings), kmaps := (kmaps s)(p \<mapsto> ?m\<lparr>m_addrs := addrs\<rparr>)\<rparr>))
      | Inr (j, mappings, addrs, ks) \<Rightarrow> Some (0, log ks (?s\<lparr>mapping_arrays := (mapping_arrays s)(?a \<mapsto> mappings),
          kmaps := (kmaps s)(p \<mapsto> ?m\<lparr>m_addrs := addrs, m_n_addrs := ucast (p2p_entries api t)\<rparr>)\<rparr>)) }"
    using p t ok by (simp add: map_gpu_memory_def Let_def dl.iter_bind [OF cs] del: iter_fold.simps)
  with run obtain r where r: "iter_fold (map_gpu_step api ?s t ?n) (c # cs) (0, replicate map_max_num_ctrls NULL, m_addrs m, []) = Some r"
    and s': "(case r of
        Inl (err, mappings, addrs, ks) \<Rightarrow> Some (err, log ks (?s\<lparr>mapping_arrays := (mapping_arrays s)(?a \<mapsto> mappings), kmaps := (kmaps s)(p \<mapsto> ?m\<lparr>m_addrs := addrs\<rparr>)\<rparr>))
      | Inr (j, mappings, addrs, ks) \<Rightarrow> Some (0, log ks (?s\<lparr>mapping_arrays := (mapping_arrays s)(?a \<mapsto> mappings),
          kmaps := (kmaps s)(p \<mapsto> ?m\<lparr>m_addrs := addrs, m_n_addrs := ucast (p2p_entries api t)\<rparr>)\<rparr>))) = Some (0, s')"
    by (auto simp: bind_eq_Some simp del: iter_fold.simps)
  have e: "unat (p2p_entries api t) = ?n"
  proof -
    have "unat (GPU_PAGE_SIZE * m_n_addrs m) = 65536 * ?n" using n by (simp add: GPU_PAGE_SIZE_def unat_word_ariths push_bit_eq_mult)
    moreover have "unat (p2p_entries api t) * 65536 = unat (GPU_PAGE_SIZE * m_n_addrs m)" using api t ok(3) unfolding p2p_api_def by metis
    ultimately show ?thesis by simp
  qed
  obtain j ms addrs ks where R: "r = Inr (j, ms, addrs, ks)" using s' iter_map_gpu_result [OF r] by (cases r) auto
  from iter_map_gpu_first [OF r [unfolded R]] obtain cc mp where F: "ctrls s c = Some cc" "p2p_dma_map_pages api (c_pdev cc) t = (0, mp)"
    "?n \<le> length addrs" "take ?n addrs = take ?n (p2p_dma_addresses api mp)" by auto
  have l: "length (p2p_dma_addresses api mp) = ?n" using api F(2) e unfolding p2p_api_def by metis
  have u: "unat (ucast (p2p_entries api t) :: u64) = ?n" using e by (simp add: unsigned_ucast_eq take_bit_nat_eq_self n)
  obtain m' where m': "kmaps s' p = Some m'" "m_addrs m' = addrs" "m_n_addrs m' = ucast (p2p_entries api t)" using s' R by auto
  show thesis by (rule that [OF F(1) _ F(2) l m'(1)]) (use t ok(3) m' u F(3,4) l in \<open>simp_all add: arr_prefix_def\<close>)
qed

lemma copy_addrs_result:
  assumes "copy_addrs api dst (x, t) = Some (0, s')" "x \<noteq> Inl 0"
  obtains md m addrs where "x = Inr md" "kmaps t md = Some m" "arr_prefix (m_addrs m) (unat (m_n_addrs m)) = Some addrs" "calls s' = calls t @ [K_copy_to_user dst addrs]"
proof -
  obtain md where md: "x = Inr md" using assms by (cases x) (auto simp: copy_addrs_def)
  show thesis using that [OF md] assms(1) md by (auto simp: copy_addrs_def bind_eq_Some split: if_splits)
qed

lemma device_map_result:
  assumes inv: "drv_inv s cs hs ds" and run: "map_ioctl CUDA api i_cdev (NVM_MAP_DEVICE_MEMORY req) s = Some (0, s')"
    and n: "unat (n_pages req) < 2 ^ 32" and api: "p2p_api api" "kmalloc api A_map \<notin> dom (nodes (lm s))"
  obtains c cs' cc t mp ks where "cs = c # cs'" "ctrls s c = Some cc" "p2p_get_pages api (vaddr_start req AND GPU_PAGE_MASK) (GPU_PAGE_SIZE * n_pages req) = (0, t)"
    "p2p_dma_map_pages api (c_pdev cc) t = (0, mp)" "length (p2p_dma_addresses api mp) = unat (n_pages req)"
    "calls s' = ks @ [K_copy_to_user (ioaddrs req) (p2p_dma_addresses api mp)]"
proof -
  have cl: "dlist (lm s) ctrl_list cs" "set cs \<subseteq> dom (ctrls s)" using drv_inv_ctrls [OF inv] by (simp_all add: ctrls_ok_def)
  obtain ctrl where ctrl: "ctrl_find_by_inode ctrl_list i_cdev s = Some ctrl" "ctrl \<noteq> NULL" "ioctl_map_device api ctrl req s = Some (0, s')"
    using run by (auto simp: map_ioctl_def bind_eq_Some split: if_splits)
  then obtain c cs' where cs: "cs = c # cs'" using ctrl_find_by_inode_find [OF cl, of i_cdev] by (cases cs) auto
  obtain x t where M: "map_device_memory api device_list ctrl (vaddr_start req) (n_pages req) ctrl_list s = Some (x, t)" "copy_addrs api (ioaddrs req) (x, t) = Some (0, s')"
    using ctrl(3) by (auto simp: ioctl_map_device_def bind_eq_Some split: if_splits)
  have "x \<noteq> Inl 0" using M(1) unfolding map_device_memory_def using map_with_error by blast
  from copy_addrs_result [OF M(2) this] obtain md m' addrs where C: "x = Inr md" "kmaps t md = Some m'" "arr_prefix (m_addrs m') (unat (m_n_addrs m')) = Some addrs"
    "calls s' = calls t @ [K_copy_to_user (ioaddrs req) addrs]" .
  from M(1) [unfolded C(1) map_device_memory_def] obtain m s1 s2 where W: "kmaps s1 md = Some (m\<lparr>m_page_size := GPU_PAGE_SIZE, m_ctrl_list := ctrl_list\<rparr>)"
    "map_gpu_memory api md ctrl_list s1 = Some (0, s2)" "kmaps t = kmaps s2" "m_vaddr m = vaddr_start req AND GPU_PAGE_MASK" "m_n_addrs m = n_pages req"
    "ctrls s1 = ctrls s" "lm s1 = node_alloc md (lm s)" "md = kmalloc api A_map" by (rule map_with_result)
  have "dlist (lm s1) ctrl_list (c # cs')" using cl(1) cs api(2) W(7,8) by (simp add: node_alloc_dlist)
  then obtain cc tb mp m2 where G: "ctrls s1 c = Some cc" "p2p_get_pages api (vaddr_start req AND GPU_PAGE_MASK) (GPU_PAGE_SIZE * n_pages req) = (0, tb)"
    "p2p_dma_map_pages api (c_pdev cc) tb = (0, mp)" "length (p2p_dma_addresses api mp) = unat (n_pages req)" "kmaps s2 md = Some m2"
    "arr_prefix (m_addrs m2) (unat (m_n_addrs m2)) = Some (p2p_dma_addresses api mp)"
    by (rule map_gpu_memory_result [OF W(2,1) _ _ api(1)]) (use W(4,5) n in simp_all)
  have "addrs = p2p_dma_addresses api mp" using C(2,3) W(3) G(5,6) by simp
  then show thesis using that [OF cs _ G(2-4)] G(1) W(6) C(4) by simp
qed

section \<open>DMA-buf\<close>

text \<open>An attachment that cannot be mapped is reported with an error.\<close>

definition attach_errs :: "kapi \<Rightarrow> bool" where
  "attach_errs api \<longleftrightarrow> (\<forall>a e. dma_buf_map_attachment api a = Inl e \<longrightarrow> e \<noteq> 0)"

lemma map_dmabuf_memory_result:
  assumes run: "map_dmabuf_memory api p fd off n cap s = Some (0, s')" and p: "kmaps s p = Some m" "unat n \<le> length (m_addrs m)" and api: "attach_errs api"
  obtains sgt m' where "kmaps s' p = Some m'" "m_n_addrs m' = m_n_addrs m" "length (m_addrs m') = length (m_addrs m)"
    "\<forall>j < unat n. page_at (unat PAGE_SIZE) (sg_table api sgt) (unat off + j * unat PAGE_SIZE) = Some (m_addrs m' ! j)"
proof -
  obtain b a sgt where k: "dma_buf_get api fd = Inr b" "dma_buf_dynamic_attach api b (m_pdev m) = Inr a" "dma_buf_pin api a = 0" "dma_buf_map_attachment api a = Inr sgt"
    using run p(1) api by (auto simp: map_dmabuf_memory_def attach_errs_def bind_eq_Some Let_def split: if_splits sum.splits)
  have ps: "0 < unat PAGE_SIZE" by (simp add: PAGE_SIZE_def)
  have "\<exists>addrs m'. sg_flatten_to_addrs (sg_table api sgt) (m_addrs m) n PAGE_SIZE off = Some (0, addrs) \<and> kmaps s' p = Some m' \<and> m_addrs m' = addrs \<and> m_n_addrs m' = m_n_addrs m"
    using run p(1) k by (auto simp: map_dmabuf_memory_def ugds_dmabuf_move_notify_def map_upd_def bind_eq_Some Let_def split: if_splits)
  with sg_flatten_walk [OF ps p(2), of "sg_table api sgt" off] show thesis using that by (auto split: if_splits)
qed

lemma dmabuf_map_result:
  assumes run: "map_ioctl HIP api i_cdev (NVM_MAP_DMABUF_MEMORY req) s = Some (0, s')" and api: "attach_errs api"
  obtains sgt addrs ks where "length addrs = unat (buf_size req div PAGE_SIZE)" "calls s' = ks @ [K_copy_to_user (ioaddrs_out req) addrs]"
    "\<forall>j < length addrs. page_at (unat PAGE_SIZE) (sg_table api sgt) (unat (dmabuf_offset req) + j * unat PAGE_SIZE) = Some (addrs ! j)"
proof -
  let ?n = "buf_size req div PAGE_SIZE"
  obtain ctrl where ctrl: "ioctl_map_dmabuf api ctrl req s = Some (0, s')" using run by (auto simp: map_ioctl_def bind_eq_Some split: if_splits)
  then obtain x t where M: "map_dmabuf api device_list ctrl (gpu_ptr req) (dmabuf_fd req) (dmabuf_offset req) ?n (ioaddrs_capacity req) s = Some (x, t)"
    by (auto simp: ioctl_map_dmabuf_def bind_eq_Some split: if_splits)
  have e: "x \<noteq> Inl 0" using M unfolding map_dmabuf_def using map_with_error by blast
  obtain md m' addrs where C: "x = Inr md" "kmaps t md = Some m'" "arr_prefix (m_addrs m') (unat (m_n_addrs m')) = Some addrs"
    "calls s' = calls t @ [K_copy_to_user (ioaddrs_out req) addrs]"
    using ctrl M e by (cases x) (auto simp: ioctl_map_dmabuf_def bind_eq_Some split: if_splits)
  from M [unfolded C(1) map_dmabuf_def] obtain m s1 s2 where W: "kmaps s1 md = Some (m\<lparr>m_page_size := PAGE_SIZE\<rparr>)"
    "map_dmabuf_memory api md (dmabuf_fd req) (dmabuf_offset req) ?n (ioaddrs_capacity req) s1 = Some (0, s2)" "kmaps t = kmaps s2"
    "m_n_addrs m = ?n" "unat ?n \<le> length (m_addrs m)" by (rule map_with_result)
  obtain sgt m2 where R: "kmaps s2 md = Some m2" "m_n_addrs m2 = ?n"
    "\<forall>j < unat ?n. page_at (unat PAGE_SIZE) (sg_table api sgt) (unat (dmabuf_offset req) + j * unat PAGE_SIZE) = Some (m_addrs m2 ! j)"
    by (rule map_dmabuf_memory_result [OF W(2,1) _ api]) (use W(4,5) in simp_all)
  have "unat ?n \<le> length (m_addrs m2)" "addrs = take (unat ?n) (m_addrs m2)" using C(2,3) W(3) R(1,2) by (auto simp: arr_prefix_def split: if_splits)
  then show thesis using that [of addrs "calls t" sgt] C(4) R(3) by simp
qed

section \<open>Theorems\<close>

text \<open>
  C22. Host memory: when the request succeeds, the addresses copied to user space are the bus addresses, for the
  device behind the opened file, of the pages pinned at the start of the range, in order; nothing else is
  acquired. No more pages are pinned than requested, but there may be fewer.
\<close>

theorem host_map_addresses:
  assumes "pages_api api" "pins_some api" "map_ioctl b api i_cdev (NVM_MAP_HOST_MEMORY req) s = Some (0, s')" "ctrl_find_by_inode ctrl_list i_cdev s = Some ctrl"
  shows "\<exists>c got. ctrls s ctrl = Some c \<and> get_user_pages api (vaddr_start req AND PAGE_MASK) (n_pages req) = (int (length got), got) \<and>
    got \<noteq> [] \<and> length got \<le> unat (n_pages req) \<and>
    calls s' = calls s @ map K_get_page got @ map (\<lambda>q. K_dma_map (c_pdev c) (dma_map_page api (c_pdev c) q)) got @
      [K_copy_to_user (ioaddrs req) (map (dma_map_page api (c_pdev c)) got)]"
  by (rule host_map_result [OF assms]) blast

text \<open>A kernel that pins only the first page of a range.\<close>

definition short_api :: kapi where
  "short_api = example_api\<lparr>kmalloc := (\<lambda>a. case a of A_map \<Rightarrow> 25 | A_pages \<Rightarrow> 35 | A_ctrl \<Rightarrow> 11 | A_region \<Rightarrow> 45 | A_mappings \<Rightarrow> 55),
     get_user_pages := (\<lambda>v n. if n = 0 then (0, []) else (1, [9]))\<rparr>"

definition two_pages :: nvm_ioctl_map where
  "two_pages = \<lparr>vaddr_start = 0x7000, n_pages = 2, ioaddrs = 0x9000\<rparr>"

lemma example_find: "ctrl_find_by_inode ctrl_list (cdev_addr 10) example_drv = Some 10"
  using drv_inv_ctrls [OF example_drv_inv] ctrl_find_by_inode_find [of example_drv ctrl_list "[10]" "cdev_addr 10"] by (simp add: ctrls_ok_def)

lemma option_bind_weak: "m = m' \<Longrightarrow> Option.bind m f = Option.bind m' f" by simp

lemmas run_map = map_with_def create_descriptor_def map_alloc_bytes_def with_lm_def alloc_node_def list_node_init_def
  arr_fill_def map_upd_def list_insert_def list_fault_simps node_alloc_def copy_addrs_def arr_prefix_def arr_store_def arr_get_def arr_set_def
  Let_def two_pages_def short_api_def example_api_def example_drv_def init_state_def new_ctrl_def ctrl_list_def host_list_def device_list_def
lemmas lazy = option_bind_weak option.case_cong_weak if_weak_cong sum.case_cong_weak prod.case_cong_weak

lemma short_run: "\<exists>s'. map_ioctl CUDA short_api (cdev_addr 10) (NVM_MAP_HOST_MEMORY two_pages) example_drv = Some (0, s')"
proof -
  have "case ioctl_map_host short_api 10 two_pages example_drv of None \<Rightarrow> False | Some (r, s') \<Rightarrow> r = 0"
    by (simp add: run_map ioctl_map_host_def map_userspace_def map_user_pages_def dma_map_pages.simps cong: lazy)
  then show ?thesis by (auto simp: map_ioctl_def example_find split: option.splits)
qed

text \<open>Two pages are requested, one is pinned, and the request succeeds with one address.\<close>

theorem host_map_addresses_witness:
  "\<exists>s' cs. map_ioctl CUDA short_api (cdev_addr 10) (NVM_MAP_HOST_MEMORY two_pages) example_drv = Some (0, s') \<and>
    n_pages two_pages = 2 \<and> calls s' = cs @ [K_copy_to_user 0x9000 [0x9000]]"
proof -
  have api: "pages_api short_api" "pins_some short_api" by (auto simp: pages_api_def pins_some_def short_api_def unat_gt_0 Suc_le_eq)
  obtain s' where r: "map_ioctl CUDA short_api (cdev_addr 10) (NVM_MAP_HOST_MEMORY two_pages) example_drv = Some (0, s')" using short_run by blast
  from host_map_addresses [OF api r example_find] show ?thesis using r by (auto simp: two_pages_def short_api_def example_api_def)
qed

text \<open>
  C23. GPU memory: when the request succeeds, the addresses copied to user space are those of the mapping that was
  made for the first controller of the list, one for every page requested, whichever controller the opened
  file belongs to.
\<close>

theorem gpu_map_addresses:
  assumes "drv_inv s cs hs ds" "map_ioctl CUDA api i_cdev (NVM_MAP_DEVICE_MEMORY req) s = Some (0, s')" "unat (n_pages req) < 2 ^ 32"
    and "p2p_api api" "kmalloc api A_map \<notin> dom (nodes (lm s))"
  shows "\<exists>c cs' cc t mp ks. cs = c # cs' \<and> ctrls s c = Some cc \<and> p2p_get_pages api (vaddr_start req AND GPU_PAGE_MASK) (GPU_PAGE_SIZE * n_pages req) = (0, t) \<and>
    p2p_dma_map_pages api (c_pdev cc) t = (0, mp) \<and> length (p2p_dma_addresses api mp) = unat (n_pages req) \<and>
    calls s' = ks @ [K_copy_to_user (ioaddrs req) (p2p_dma_addresses api mp)]"
  by (rule device_map_result [OF assms]) blast

lemma gpu_run: "\<exists>s'. map_ioctl CUDA short_api (cdev_addr 10) (NVM_MAP_DEVICE_MEMORY two_pages) example_drv = Some (0, s')"
proof -
  have "case ioctl_map_device short_api 10 two_pages example_drv of None \<Rightarrow> False | Some (r, s') \<Rightarrow> r = 0"
    by (simp add: run_map ioctl_map_device_def map_device_memory_def map_gpu_memory_def map_gpu_step_def list_iter.simps list_next_def map_max_num_ctrls_def GPU_PAGE_SIZE_def cong: lazy)
  then show ?thesis by (auto simp: map_ioctl_def example_find split: option.splits)
qed

theorem gpu_map_addresses_witness:
  "\<exists>s' cs. map_ioctl CUDA short_api (cdev_addr 10) (NVM_MAP_DEVICE_MEMORY two_pages) example_drv = Some (0, s') \<and> calls s' = cs @ [K_copy_to_user 0x9000 [0, 0]]"
proof -
  have api: "p2p_api short_api"
    by (auto simp: p2p_api_def short_api_def example_api_def unsigned_of_nat take_bit_nat_eq_self split: if_splits)
  obtain s' where r: "map_ioctl CUDA short_api (cdev_addr 10) (NVM_MAP_DEVICE_MEMORY two_pages) example_drv = Some (0, s')" using gpu_run by blast
  have "kmalloc short_api A_map \<notin> dom (nodes (lm example_drv))" by (simp add: short_api_def example_drv_def)
  moreover have "replicate 2 (0 :: u64) = [0, 0]" by (simp add: numeral_2_eq_2)
  ultimately show ?thesis using gpu_map_addresses [OF example_drv_inv r _ api] r by (auto simp: two_pages_def short_api_def example_api_def GPU_PAGE_SIZE_def)
qed


definition second_page :: nvm_ioctl_dmabuf where
  "second_page = \<lparr>gpu_ptr = 0x7000, dmabuf_fd = 4, dmabuf_offset = 0x1000, buf_size = 0x1000, ioaddrs_capacity = 1, ioaddrs_out = 0x9000\<rparr>"

lemma dmabuf_run: "\<exists>s'. map_ioctl HIP short_api (cdev_addr 10) (NVM_MAP_DMABUF_MEMORY second_page) example_drv = Some (0, s')"
proof -
  have "case ioctl_map_dmabuf short_api 10 second_page example_drv of None \<Rightarrow> False | Some (r, s') \<Rightarrow> r = 0"
    by (simp add: run_map ioctl_map_dmabuf_def dmabuf_request_ok_def map_dmabuf_def map_dmabuf_memory_def sg_flatten_to_addrs_def sg_walk.simps sg_emit.simps second_page_def PAGE_SIZE_def cong: lazy)
  then show ?thesis by (auto simp: map_ioctl_def example_find split: option.splits)
qed


end
