(* ===== verification/Nvm_Util.thy ===== *)
theory Nvm_Util
  imports Prelude
begin

text \<open>
  The arithmetic of the user-space library: bit fields, page macros and queue sizes
  (\<open>include/libnvm/nvm_util.h\<close>), the base-2 logarithm and the delay counter
  (\<open>src/libnvm/internal/lib_util.h\<close>), register fields and doorbell addresses
  (\<open>src/libnvm/internal/regs.h\<close>). The macros that mix 32-bit arguments with the 64-bit masks are
  evaluated at 64 bits: every field they name lies below bit 32, so the bits a 32-bit shift would
  lose are masked out anyway.
\<close>

section \<open>Bit fields\<close>

definition NVM_MASK :: "nat \<Rightarrow> u64" where
  "NVM_MASK num_bits = push_bit num_bits 1 - 1"

definition NVM_MASK_PART :: "nat \<Rightarrow> nat \<Rightarrow> u64" where
  "NVM_MASK_PART hi lo = NVM_MASK (hi + 1) - NVM_MASK lo"

definition RB :: "u64 \<Rightarrow> nat \<Rightarrow> nat \<Rightarrow> u64" where
  "RB v hi lo = drop_bit lo (v AND NVM_MASK_PART hi lo)"

definition WB :: "u64 \<Rightarrow> nat \<Rightarrow> nat \<Rightarrow> u64" where
  "WB v hi lo = push_bit lo v AND NVM_MASK_PART hi lo"

lemma NVM_MASK_mask: "NVM_MASK n = mask n"
  by (simp add: NVM_MASK_def mask_eq_exp_minus_1 push_bit_eq_mult)

lemma bit_NVM_MASK_PART:
  assumes "lo \<le> hi + 1"
  shows "bit (NVM_MASK_PART hi lo) i \<longleftrightarrow> i < 64 \<and> lo \<le> i \<and> i \<le> hi"
proof -
  let ?p = "mask (hi + 1) AND NOT (mask lo) :: u64"
  have "mask lo AND ?p = 0" by (rule bit_word_eqI) (simp add: bit_simps)
  then have "mask lo + ?p = mask lo OR ?p" by (simp add: disjunctive_add_eq_or)
  also have "\<dots> = mask (hi + 1)" using assms by (intro bit_word_eqI) (auto simp: bit_simps)
  finally have "NVM_MASK_PART hi lo = ?p"
    by (simp add: NVM_MASK_PART_def NVM_MASK_mask algebra_simps)
  then show ?thesis by (auto simp: bit_simps)
qed

lemma RB_field: "lo \<le> hi + 1 \<Longrightarrow> RB v hi lo = take_bit (hi + 1 - lo) (drop_bit lo v)"
  by (rule bit_word_eqI) (auto simp: RB_def bit_simps bit_NVM_MASK_PART less_diff_conv dest: bit_imp_le_length)

lemma bit_WB: "lo \<le> hi + 1 \<Longrightarrow> bit (WB v hi lo) i \<longleftrightarrow> i < 64 \<and> lo \<le> i \<and> i \<le> hi \<and> bit v (i - lo)"
  by (auto simp: WB_def bit_simps bit_NVM_MASK_PART)

lemma bit_RB: "lo \<le> hi + 1 \<Longrightarrow> bit (RB v hi lo) i \<longleftrightarrow> i + lo \<le> hi \<and> bit v (i + lo)"
  by (auto simp: RB_field bit_simps less_diff_conv add.commute)

text \<open>
  A field that was written is read back, and what was written to a field that does not overlap is
  not seen.
\<close>

lemma RB_WB_same:
  assumes "lo \<le> hi + 1" "hi < 64"
  shows "RB (WB v hi lo) hi lo = take_bit (hi + 1 - lo) v"
  using assms by (intro bit_word_eqI) (auto simp: bit_RB bit_WB bit_simps)

lemma RB_WB_other:
  assumes "lo \<le> hi + 1" "lo' \<le> hi' + 1" "hi < lo' \<or> hi' < lo"
  shows "RB (WB v hi' lo') hi lo = 0"
  using assms by (intro bit_word_eqI) (auto simp: bit_RB bit_WB)

lemma RB_OR: "RB (v OR w) hi lo = RB v hi lo OR RB w hi lo"
  by (simp add: RB_def bit.conj_disj_distrib2 drop_bit_or)

lemma unat_take_bit: "unat (take_bit n v) = unat v mod 2 ^ n" for v :: "'a::len word"
  unfolding unsigned_take_bit_eq by (rule take_bit_eq_mod)

lemma unat_drop_bit: "unat (drop_bit n v) = unat v div 2 ^ n" for v :: "'a::len word"
  unfolding unsigned_drop_bit_eq take_bit_nat_eq_self [OF unsigned_less] by (rule drop_bit_eq_div)

lemma unat_RB: "lo \<le> hi + 1 \<Longrightarrow> unat (RB v hi lo) = unat v div 2 ^ lo mod 2 ^ (hi + 1 - lo)"
  by (simp add: RB_field unat_take_bit unat_drop_bit)

lemma unat_RB_less: "lo \<le> hi + 1 \<Longrightarrow> unat (RB v hi lo) < 2 ^ (hi + 1 - lo)"
  by (simp add: unat_RB)

section \<open>Pages\<close>

definition NVM_PAGE_TO_BLOCK :: "u64 \<Rightarrow> u64 \<Rightarrow> u64 \<Rightarrow> u64" where
  "NVM_PAGE_TO_BLOCK page_size block_size pageno = (page_size * pageno) div block_size"

definition NVM_BLOCK_TO_PAGE :: "u64 \<Rightarrow> u64 \<Rightarrow> u64 \<Rightarrow> u64" where
  "NVM_BLOCK_TO_PAGE page_size block_size blockno = (block_size * blockno) div page_size"

definition NVM_PAGE_MASK :: "u64 \<Rightarrow> u64" where
  "NVM_PAGE_MASK page_size = NOT (page_size - 1)"

definition NVM_ADDR_MASK :: "u64 \<Rightarrow> u64 \<Rightarrow> u64" where
  "NVM_ADDR_MASK addr page_size = addr AND NVM_PAGE_MASK page_size"

definition NVM_PAGE_ALIGN :: "u64 \<Rightarrow> u64 \<Rightarrow> u64" where
  "NVM_PAGE_ALIGN sz page_size = (sz + page_size - 1) AND NVM_PAGE_MASK page_size"

definition NVM_ADDR_OFFSET :: "u64 \<Rightarrow> u64 \<Rightarrow> u64 \<Rightarrow> u64" where
  "NVM_ADDR_OFFSET addr page_size pageno = addr + page_size * pageno"

text \<open>\<open>sizeof(nvm_cmd_t)\<close> is 64 and \<open>sizeof(nvm_cpl_t)\<close> is 16.\<close>

definition NVM_SQ_PAGES :: "u64 \<Rightarrow> u64 \<Rightarrow> u64" where
  "NVM_SQ_PAGES page_size qs = (ucast (ucast (qs - 1) :: u16) * 64) div page_size + 1"

definition NVM_CQ_PAGES :: "u64 \<Rightarrow> u64 \<Rightarrow> u64" where
  "NVM_CQ_PAGES page_size qs = (ucast (ucast (qs - 1) :: u16) * 16) div page_size + 1"

lemma pow2_minus_1: "2 ^ k - 1 = (mask k :: u64)"
  by (simp add: mask_eq_exp_minus_1)

lemma unat_pow2: "k < LENGTH('a) \<Longrightarrow> unat (2 ^ k :: 'a::len word) = 2 ^ k"
proof -
  assume "k < LENGTH('a)"
  then have "(2::nat) ^ k < 2 ^ LENGTH('a)" by simp
  then have "unat (of_nat (2 ^ k) :: 'a word) = 2 ^ k" by (simp only: unsigned_of_nat take_bit_nat_eq_self of_nat_id)
  then show ?thesis by simp
qed

text \<open>
  Rounding up: for a power-of-two page size and no wrap-around, the aligned size is the smallest
  multiple of the page size that is not smaller than the size.
\<close>

lemma NVM_PAGE_ALIGN_pow2:
  assumes "k < 64" "unat sz + 2 ^ k \<le> 2 ^ 64"
  shows "unat (NVM_PAGE_ALIGN sz (2 ^ k)) = (unat sz + 2 ^ k - 1) div 2 ^ k * 2 ^ k"
proof -
  have u: "unat (2 ^ k - 1 :: u64) = 2 ^ k - 1"
    using assms(1) by (subst unat_sub) (simp_all add: unat_pow2 word_le_nat_alt)
  have "(2::nat) ^ k \<ge> 1" by simp
  then have "unat (sz + (2 ^ k - 1)) = unat sz + 2 ^ k - 1"
    using assms(2) u by (subst unat_word_ariths) (simp add: u)
  then show ?thesis
    by (simp add: NVM_PAGE_ALIGN_def NVM_PAGE_MASK_def pow2_minus_1 unat_align_down add_diff_eq [symmetric])
qed

section \<open>Logarithm and delay\<close>

function b2log_loop :: "u32 \<Rightarrow> u32 \<Rightarrow> u32" where
  "b2log_loop n count = (if n > 0 then b2log_loop (drop_bit 1 n) (count + 1) else count)"
  by pat_completeness auto
termination
  by (relation "measure (\<lambda>(n, _). unat n)") (auto simp: unat_drop_bit word_less_nat_alt)

declare b2log_loop.simps [simp del]

definition nvm_b2log :: "u32 \<Rightarrow> u32" where
  "nvm_b2log n = b2log_loop n 0 - 1"

lemma b2log_loop_bound:
  "n > 0 \<Longrightarrow> \<exists>k. b2log_loop n count = count + 1 + of_nat k \<and> k < 32 \<and> 2 ^ k \<le> unat n \<and> unat n < 2 ^ (k + 1)"
proof (induction n count rule: b2log_loop.induct)
  case (1 n count)
  have half: "unat (drop_bit 1 n) = unat n div 2" by (simp add: unat_drop_bit)
  show ?case
  proof (cases "drop_bit 1 n > 0")
    case True
    from 1(1) [OF 1(2) this] obtain k where k: "b2log_loop (drop_bit 1 n) (count + 1) = count + 1 + 1 + of_nat k"
      "2 ^ k \<le> unat n div 2" "unat n div 2 < 2 ^ (k + 1)" using half by auto
    have n: "2 ^ (k + 1) \<le> unat n" "unat n < 2 ^ (k + 1 + 1)" using k(2,3) by auto
    moreover have "k + 1 < 32"
    proof (rule ccontr)
      assume "\<not> k + 1 < 32"
      then have "(2::nat) ^ 32 \<le> 2 ^ (k + 1)" by (intro power_increasing) auto
      with n(1) show False using unat_bound [of n] by simp
    qed
    ultimately show ?thesis using k(1) 1(2)
      by (intro exI [of _ "k + 1"]) (simp add: b2log_loop.simps [of n] add_ac)
  next
    case False
    then have z: "drop_bit 1 n = 0" by (simp add: word_gt_0)
    then have "unat n div 2 = 0" using half by simp
    then have "unat n < 2" by simp
    with 1(2) have "unat n = 1" by (simp add: word_less_nat_alt)
    then show ?thesis using 1(2) z
      by (intro exI [of _ 0]) (simp add: b2log_loop.simps [of n] b2log_loop.simps [of 0])
  qed
qed

lemma nvm_b2log_floor:
  assumes "n > 0"
  shows "2 ^ unat (nvm_b2log n) \<le> unat n \<and> unat n < 2 ^ (unat (nvm_b2log n) + 1)"
proof -
  from b2log_loop_bound [OF assms, of 0] obtain k where
    k: "b2log_loop n 0 = 1 + of_nat k" "k < 32" "2 ^ k \<le> unat n" "unat n < 2 ^ (k + 1)" by auto
  then have "unat (nvm_b2log n) = k" by (simp add: nvm_b2log_def unat_of_nat take_bit_nat_eq_self)
  with k show ?thesis by simp
qed

definition nvm_delay_remain :: "u64 \<Rightarrow> u64" where
  "nvm_delay_remain remaining_nanoseconds =
     (if remaining_nanoseconds = 0 then 0
      else remaining_nanoseconds - (if 1000000 \<le> remaining_nanoseconds then 1000000 else remaining_nanoseconds))"

lemma unat_delay_remain: "unat (nvm_delay_remain r) = unat r - 1000000"
  by (auto simp: nvm_delay_remain_def unat_sub word_le_nat_alt)

lemma delay_remain_less: "r > 0 \<Longrightarrow> unat (nvm_delay_remain r) < unat r"
  by (simp add: unat_delay_remain word_less_nat_alt)

section \<open>Registers and doorbells\<close>

definition CAP_MPSMAX :: "u64 \<Rightarrow> u64" where "CAP_MPSMAX cap = RB cap 55 52"
definition CAP_MPSMIN :: "u64 \<Rightarrow> u64" where "CAP_MPSMIN cap = RB cap 51 48"
definition CAP_DSTRD :: "u64 \<Rightarrow> u64" where "CAP_DSTRD cap = RB cap 35 32"
definition CAP_TO :: "u64 \<Rightarrow> u64" where "CAP_TO cap = RB cap 31 24"
definition CAP_CQR :: "u64 \<Rightarrow> u64" where "CAP_CQR cap = RB cap 16 16"
definition CAP_MQES :: "u64 \<Rightarrow> u64" where "CAP_MQES cap = RB cap 15 0"
definition CSTS_RDY :: "u32 \<Rightarrow> u64" where "CSTS_RDY csts = RB (ucast csts) 0 0"
definition CC_IOCQES :: "u32 \<Rightarrow> u64" where "CC_IOCQES v = WB (ucast v) 23 20"
definition CC_IOSQES :: "u32 \<Rightarrow> u64" where "CC_IOSQES v = WB (ucast v) 19 16"
definition CC_MPS :: "u32 \<Rightarrow> u64" where "CC_MPS v = WB (ucast v) 10 7"
definition CC_CSS :: "u32 \<Rightarrow> u64" where "CC_CSS v = WB 0 3 1"
definition CC_EN :: "u32 \<Rightarrow> u64" where "CC_EN v = WB (ucast v) 0 0"
definition AQA_ACQS :: "u32 \<Rightarrow> u64" where "AQA_ACQS v = WB (ucast v) 27 16"
definition AQA_ASQS :: "u32 \<Rightarrow> u64" where "AQA_ASQS v = WB (ucast v) 11 0"

text \<open>
  The doorbells. \<open>(2 * y) * (4 << dstrd)\<close> is computed in \<open>int\<close>; the model wraps where C leaves
  an overflow undefined.
\<close>

definition SQ_DBL :: "u64 \<Rightarrow> u16 \<Rightarrow> u8 \<Rightarrow> u64" where
  "SQ_DBL p y dstrd = p + 0x1000 + scast ((2 * ucast y) * push_bit (unat dstrd) 4 :: u32)"

definition CQ_DBL :: "u64 \<Rightarrow> u16 \<Rightarrow> u8 \<Rightarrow> u64" where
  "CQ_DBL p y dstrd = p + 0x1000 + scast ((2 * ucast y + 1) * push_bit (unat dstrd) 4 :: u32)"

end
