(* ===== verification/Nvm_Error.thy ===== *)
theory Nvm_Error
  imports Nvm_Util
begin

text \<open>
  Status values (\<open>include/libnvm/nvm_error.h\<close>, \<open>src/libnvm/error.cpp\<close>). A function of the library
  returns one \<open>int\<close> that carries either an errno (positive) or the status of an NVMe completion
  (negative). A completion has four 32-bit words; its status field is the upper half of the last.
\<close>

section \<open>Completions\<close>

record nvm_cpl =
  cpl_dw0 :: u32
  cpl_dw1 :: u32
  cpl_dw2 :: u32
  cpl_dw3 :: u32

definition NVM_CPL_CID :: "nvm_cpl \<Rightarrow> u16" where
  "NVM_CPL_CID cpl = ucast (cpl_dw3 cpl)"

definition NVM_CPL_STATUS :: "nvm_cpl \<Rightarrow> u16" where
  "NVM_CPL_STATUS cpl = ucast (drop_bit 16 (cpl_dw3 cpl))"

definition NVM_CPL_SQHD :: "nvm_cpl \<Rightarrow> u16" where
  "NVM_CPL_SQHD cpl = ucast (cpl_dw2 cpl)"

definition NVM_CPL_SQID :: "nvm_cpl \<Rightarrow> u16" where
  "NVM_CPL_SQID cpl = ucast (drop_bit 16 (cpl_dw2 cpl))"

section \<open>Status codes\<close>

definition NVM_ERR_SCT :: "nvm_cpl \<Rightarrow> u8" where
  "NVM_ERR_SCT cpl = ucast (RB (ucast (NVM_CPL_STATUS cpl)) 11 9)"

definition NVM_ERR_SC :: "nvm_cpl \<Rightarrow> u8" where
  "NVM_ERR_SC cpl = ucast (RB (ucast (NVM_CPL_STATUS cpl)) 8 1)"

definition NVM_ERR_DNR :: "nvm_cpl \<Rightarrow> bool" where
  "NVM_ERR_DNR cpl \<longleftrightarrow> RB (ucast (NVM_CPL_STATUS cpl)) 15 15 \<noteq> 0"

definition NVM_ERR_MORE :: "nvm_cpl \<Rightarrow> bool" where
  "NVM_ERR_MORE cpl \<longleftrightarrow> RB (ucast (NVM_CPL_STATUS cpl)) 14 14 \<noteq> 0"

definition NVM_ERR_STATUS :: "nvm_cpl option \<Rightarrow> int" where
  "NVM_ERR_STATUS cpl = (case cpl of
     Some cpl \<Rightarrow> - (push_bit 8 (uint (NVM_ERR_SCT cpl)) OR uint (NVM_ERR_SC cpl))
   | None \<Rightarrow> 0)"

definition NVM_ERR_OK :: "nvm_cpl \<Rightarrow> bool" where
  "NVM_ERR_OK cpl \<longleftrightarrow> NVM_ERR_SCT cpl = 0 \<and> NVM_ERR_SC cpl = 0"

definition NVM_ERR_PACK :: "nvm_cpl option \<Rightarrow> int \<Rightarrow> int" where
  "NVM_ERR_PACK cpl err = (if err \<noteq> 0 then err else NVM_ERR_STATUS cpl)"

definition NVM_ERR_UNPACK_ERRNO :: "int \<Rightarrow> int" where
  "NVM_ERR_UNPACK_ERRNO status = (if status > 0 then status else 0)"

definition NVM_ERR_UNPACK_SCT :: "int \<Rightarrow> int" where
  "NVM_ERR_UNPACK_SCT status = (if status < 0 then drop_bit 8 (- status) AND 0xff else 0)"

definition NVM_ERR_UNPACK_SC :: "int \<Rightarrow> int" where
  "NVM_ERR_UNPACK_SC status = (if status < 0 then (- status) AND 0xff else 0)"

definition nvm_ok :: "int \<Rightarrow> bool" where
  "nvm_ok status \<longleftrightarrow> status = 0"

section \<open>Messages\<close>

definition generic_status :: "string list" where
  "generic_status =
    [''Success'',
     ''Invalid command opcode'',
     ''Invalid field in command'',
     ''Command ID conflict'',
     ''Data transfer error'',
     ''Commands aborted due to power loss notification'',
     ''Internal error'',
     ''Command abort requested'',
     ''Command aborted due to SQ deletion'',
     ''Command aborted due to failed fused command'',
     ''Command aborted due to missing fused command'',
     ''Invalid namespace or format'',
     ''Command sequence error'',
     ''Invalid SGL segment descriptor'',
     ''Invalid number of SQL descriptors'',
     ''Data SGL length invalid'',
     ''Metadata SGL length invalid'',
     ''SGL descriptor type invalid'',
     ''Invalid use of controller memory buffer'',
     ''PRP offset invalid'',
     ''Atomic write unit exceeded'',
     ''Operation denied'',
     ''SGL offset invalid'',
     ''Unknown/reserved'',
     ''Host identifier inconsistent format'',
     ''Keep alive timer expired'',
     ''Keep alive timer invalid'',
     ''Command aborted due to preempt and abort'',
     ''Sanitize failed'',
     ''Sanitize in progress'',
     ''SGL data block granularity invalid'',
     ''Command not supported for queue in CMB'']"

definition generic_status_nvm_commands :: "string list" where
  "generic_status_nvm_commands =
    [''LBA out of range'',
     ''Capacity exceeded'',
     ''Namespace not ready'',
     ''Reservation conflict'',
     ''Format in progress'']"

definition command_specific_status :: "string list" where
  "command_specific_status =
    [''Completion queue invalid'',
     ''Invalid queue identifier'',
     ''Invalid queue size'',
     ''Abort command limit exceeded'',
     ''Unknown/reserved'',
     ''Asynchronous event request limit exceeded'',
     ''Invalid firmware slot'',
     ''Invalid firmware image'',
     ''Invalid interrupt vector'',
     ''Invalid log page'',
     ''Invalid format'',
     ''Firmware activation requires conventional reset'',
     ''Invalid queue deletion'',
     ''Feature identifier not saveable'',
     ''Feature not changeable'',
     ''Feature not namespace specific'',
     ''Firmware activation requires NVM subsystem reset'',
     ''Firmware activation requires reset'',
     ''Firmware activation requires maximum time violation'',
     ''Firmware activation prohibited'',
     ''Overlapping range'',
     ''Namespace insufficient capacity'',
     ''Namespace identifier unavailable'',
     ''Unknown/reserved'',
     ''Namespace already attached'',
     ''Namespace is private'',
     ''Namespace not attached'',
     ''Thin provisioning not supported'',
     ''Controller list invalid'',
     ''Device self-test in progress'',
     ''Boot partition write prohibited'',
     ''Invalid controller identifier'',
     ''Invalid secondary controller state'',
     ''Invalid number of controller resources'',
     ''Invalid resource identifier'']"

definition command_specific_status_nvm_commands :: "string list" where
  "command_specific_status_nvm_commands =
    [''Conflicting attributes'',
     ''Invalid protection information'',
     ''Attempted write to read only range'']"

definition media_and_data_integrity_nvm_commands :: "string list" where
  "media_and_data_integrity_nvm_commands =
    [''Write fault'',
     ''Unrecovered read error'',
     ''End-to-end guard check error'',
     ''End-to-end application tag check error'',
     ''End-to-end reference tag check error'',
     ''Compare failure'',
     ''Access denied'',
     ''Deallocated or unwritten logical block'']"

definition lookup_string :: "u8 \<Rightarrow> u8 \<Rightarrow> string option" where
  "lookup_string status_code_type status_code =
     (if status_code_type = 0x00 then
        if status_code < 0x20 then arr_get generic_status (unat status_code)
        else if 0x80 \<le> status_code \<and> status_code \<le> 0x84
        then arr_get generic_status_nvm_commands (unat (status_code - 0x80))
        else Some ''Unknown generic error''
      else if status_code_type = 0x01 then
        if status_code < 0x23 then arr_get command_specific_status (unat status_code)
        else if 0x80 \<le> status_code \<and> status_code \<le> 0x82
        then arr_get command_specific_status_nvm_commands (unat (status_code - 0x80))
        else Some ''Unknown command specific error''
      else if status_code_type = 0x02 then
        if 0x80 \<le> status_code \<and> status_code \<le> 0x87
        then arr_get media_and_data_integrity_nvm_commands (unat (status_code - 0x80))
        else Some ''Unknown media or data integrity error''
      else Some ''Unknown status code type'')"

text \<open>The C library's \<open>strerror\<close> is a parameter.\<close>

definition nvm_strerror :: "(int \<Rightarrow> string) \<Rightarrow> int \<Rightarrow> string option" where
  "nvm_strerror strerror status =
     (let err = NVM_ERR_UNPACK_ERRNO status;
          sct = word_of_int (NVM_ERR_UNPACK_SCT status);
          sc = word_of_int (NVM_ERR_UNPACK_SC status)
      in if sct \<noteq> 0 \<or> sc \<noteq> 0 then lookup_string sct sc else Some (strerror err))"

section \<open>Packing and unpacking\<close>

lemma pack_byte:
  fixes a b :: int
  assumes "0 \<le> b" "b < 256"
  shows "push_bit 8 a OR b = 256 * a + b"
proof -
  have b: "take_bit 8 b = b" using assms by (simp add: take_bit_int_eq_self)
  have "push_bit 8 a AND b = 0"
    by (subst b [symmetric], rule bit_eqI) (auto simp: bit_simps)
  then have "push_bit 8 a + b = push_bit 8 a OR b" by (simp add: disjunctive_add_eq_or)
  then show ?thesis by (simp add: push_bit_eq_mult mult.commute)
qed

lemma byte_range: "0 \<le> uint b" "uint b < 256" for b :: u8
  using uint_bounded [of b] by simp_all

lemma NVM_ERR_STATUS_Some: "NVM_ERR_STATUS (Some cpl) = - (256 * uint (NVM_ERR_SCT cpl) + uint (NVM_ERR_SC cpl))"
  by (simp add: NVM_ERR_STATUS_def pack_byte byte_range)

lemma and_ff: "(x :: int) AND 0xff = x mod 256"
  using take_bit_eq_mask [of 8 x] by (simp add: take_bit_eq_mod mask_eq_exp_minus_1)

lemma unpack_bytes:
  assumes "0 \<le> a" "a < 256" "0 \<le> b" "b < 256"
  shows "NVM_ERR_UNPACK_SCT (- (256 * a + b)) = a" "NVM_ERR_UNPACK_SC (- (256 * a + b)) = b"
  using assms by (auto simp: NVM_ERR_UNPACK_SCT_def NVM_ERR_UNPACK_SC_def and_ff drop_bit_eq_div)

lemma unpack_status:
  "NVM_ERR_UNPACK_SCT (NVM_ERR_STATUS (Some cpl)) = uint (NVM_ERR_SCT cpl)"
  "NVM_ERR_UNPACK_SC (NVM_ERR_STATUS (Some cpl)) = uint (NVM_ERR_SC cpl)"
  unfolding NVM_ERR_STATUS_Some by (intro unpack_bytes byte_range)+

lemma status_zero: "NVM_ERR_STATUS (Some cpl) = 0 \<longleftrightarrow> NVM_ERR_OK cpl"
proof -
  have "256 * a + b = 0 \<longleftrightarrow> a = 0 \<and> b = 0" if "0 \<le> a" "0 \<le> b" for a b :: int using that by linarith
  from this [OF byte_range(1) byte_range(1)] show ?thesis
    by (simp add: NVM_ERR_STATUS_Some NVM_ERR_OK_def uint_0_iff del: minus_add_distrib)
qed

lemma status_nonpos: "NVM_ERR_STATUS (Some cpl) \<le> 0"
  using byte_range [of "NVM_ERR_SCT cpl"] byte_range [of "NVM_ERR_SC cpl"]
  unfolding NVM_ERR_STATUS_Some by linarith

text \<open>
  C32. Packing loses nothing: a completion's status packed with no errno unpacks to its status code
  type and status code and to errno 0, an errno packs to itself with no status code, and the packed
  value is zero exactly when there is no errno and the completion reports success.
\<close>

theorem err_pack_roundtrip:
  "NVM_ERR_UNPACK_SCT (NVM_ERR_PACK (Some cpl) 0) = uint (NVM_ERR_SCT cpl) \<and>
   NVM_ERR_UNPACK_SC (NVM_ERR_PACK (Some cpl) 0) = uint (NVM_ERR_SC cpl) \<and>
   NVM_ERR_UNPACK_ERRNO (NVM_ERR_PACK (Some cpl) err) = max err 0 \<and>
   (nvm_ok (NVM_ERR_PACK (Some cpl) err) \<longleftrightarrow> err = 0 \<and> NVM_ERR_OK cpl)"
  using status_nonpos [of cpl]
  by (auto simp: NVM_ERR_PACK_def unpack_status NVM_ERR_UNPACK_ERRNO_def nvm_ok_def status_zero)

text \<open>
  C33. Every status has a message: the lookup of a status string never reads outside its tables, for
  every status value.
\<close>

theorem strerror_total: "\<exists>msg. nvm_strerror strerror status = Some msg"
proof -
  have "\<exists>msg. lookup_string sct sc = Some msg" for sct sc
    by (auto simp: lookup_string_def arr_get_def word_less_nat_alt word_le_nat_alt unat_sub
        generic_status_def generic_status_nvm_commands_def command_specific_status_def
        command_specific_status_nvm_commands_def media_and_data_integrity_nvm_commands_def)
  then show ?thesis by (simp add: nvm_strerror_def Let_def)
qed

end
