(* ===== verification/Nvm_Queue.thy ===== *)
theory Nvm_Queue
  imports Nvm_Error
begin

text \<open>
  NVMe queues (\<open>include/libnvm/nvm_types.h\<close>, \<open>include/libnvm/nvm_queue.h\<close>,
  \<open>src/libnvm/queue.cpp\<close>): the queue descriptor, submission and completion rings, doorbells and the
  blocking dequeue.

  The NVMe controller is a parameter. What the host sees of it is the memory of the completion
  queue, which the controller writes; a \<open>device\<close> gives that memory as a function of everything
  the host has done to the queue pair so far: the doorbells it rang, with the memory the controller
  can then fetch, and the polls it made (so that time passes).
\<close>

section \<open>Descriptors\<close>

record nvm_ctrl =
  page_size :: u64
  dstrd :: u8
  timeout :: u64
  max_qs :: u32
  mm_size :: u64
  mm_ptr :: u64

record nvm_queue =
  head_lock :: u32
  tail_lock :: u32
  head :: u32
  tail :: u32
  in_ticket :: u32
  cid_ticket :: u32
  q_no :: u16
  q_es :: u16
  qs :: u32
  phase :: bool
  q_local :: bool
  q_last :: u32
  db :: u64
  q_vaddr :: u64
  q_ioaddr :: u64

definition nvm_queue_clear :: "nvm_queue \<Rightarrow> nvm_ctrl \<Rightarrow> bool \<Rightarrow> u16 \<Rightarrow> u32 \<Rightarrow> bool \<Rightarrow> u64 \<Rightarrow> u64 \<Rightarrow> int \<times> nvm_queue" where
  "nvm_queue_clear queue ctrl cq no n local vaddr ioaddr =
     (if n < 2 \<or> n > 0x10000 \<or> n > max_qs ctrl then (EINVAL, queue)
      else (0, queue\<lparr>q_no := no, qs := n, q_es := (if cq then 16 else 64), head := 0, tail := 0, q_last := 0,
        phase := True, q_local := local, head_lock := 0, tail_lock := 0, in_ticket := 0, cid_ticket := 0,
        db := (if cq then CQ_DBL (mm_ptr ctrl) no (dstrd ctrl) else SQ_DBL (mm_ptr ctrl) no (dstrd ctrl)),
        q_vaddr := vaddr, q_ioaddr := ioaddr\<rparr>))"

definition nvm_queue_reset :: "nvm_queue \<Rightarrow> nvm_queue" where
  "nvm_queue_reset queue = queue\<lparr>head := 0, tail := 0, q_last := 0, phase := True\<rparr>"

section \<open>Submission queue\<close>

text \<open>The slot taken is given by its index; its address is \<open>slot_addr\<close>.\<close>

definition slot_addr :: "nvm_queue \<Rightarrow> u32 \<Rightarrow> u64" where
  "slot_addr q i = q_vaddr q + ucast (ucast (q_es q) * i)"

definition nvm_sq_enqueue :: "nvm_queue \<Rightarrow> u32 option \<times> nvm_queue" where
  "nvm_sq_enqueue sq =
     (if ucast (ucast (tail sq - head sq) :: u16) mod qs sq = qs sq - 1 then (None, sq)
      else
        let slot = tail sq; sq = sq\<lparr>tail := tail sq + 1\<rparr> in
        (Some slot, if tail sq = qs sq then sq\<lparr>phase := \<not> phase sq, tail := 0\<rparr> else sq))"

text \<open>The doorbell write, if there is one, is the first component.\<close>

definition nvm_sq_submit :: "nvm_queue \<Rightarrow> u32 option \<times> nvm_queue" where
  "nvm_sq_submit sq =
     (if q_last sq \<noteq> tail sq \<and> db sq \<noteq> 0 then (Some (tail sq), sq\<lparr>q_last := tail sq\<rparr>) else (None, sq))"

definition nvm_sq_update :: "nvm_queue \<Rightarrow> nvm_queue" where
  "nvm_sq_update sq =
     (if db sq \<noteq> 0
      then let sq = sq\<lparr>head := head sq + 1\<rparr> in if head sq = qs sq then sq\<lparr>head := 0\<rparr> else sq
      else sq)"

definition NVM_DEFAULT_CID :: "nvm_queue \<Rightarrow> u16" where
  "NVM_DEFAULT_CID sq = ucast (tail sq + (if \<not> phase sq then 1 else 0) * qs sq)"

section \<open>Completion queue\<close>

definition nvm_cq_poll :: "nvm_queue \<Rightarrow> nvm_cpl list \<Rightarrow> nvm_cpl option option" where
  "nvm_cq_poll cq mem = do {
     cpl \<leftarrow> arr_get mem (unat (head cq));
     if (RB (ucast (NVM_CPL_STATUS cpl)) 0 0 = 0) \<noteq> (\<not> phase cq) then Some None else Some (Some cpl) }"

definition nvm_cq_dequeue :: "nvm_queue \<Rightarrow> nvm_cpl list \<Rightarrow> (nvm_cpl option \<times> nvm_queue) option" where
  "nvm_cq_dequeue cq mem = do {
     r \<leftarrow> nvm_cq_poll cq mem;
     case r of
       None \<Rightarrow> Some (None, cq)
     | Some cpl \<Rightarrow>
         let cq = cq\<lparr>head := head cq + 1\<rparr> in
         Some (Some cpl, if head cq = qs cq then cq\<lparr>head := 0, phase := \<not> phase cq\<rparr> else cq) }"

definition nvm_cq_update :: "nvm_queue \<Rightarrow> u32 option \<times> nvm_queue" where
  "nvm_cq_update cq =
     (if q_last cq \<noteq> head cq \<and> db cq \<noteq> 0
      then (Some (head cq), cq\<lparr>tail := head cq, q_last := head cq\<rparr>) else (None, cq))"

section \<open>Queue pairs and the controller\<close>

type_synonym nvm_cmd = "u32 list"

datatype hw_event = Poll | SQ_doorbell u32 "nvm_cmd list" "u64 list" | CQ_doorbell u32

type_synonym device = "hw_event list \<Rightarrow> nvm_cpl list"

text \<open>
  A queue pair: both descriptors, the memory of the submission queue, the page for a PRP list with its
  bus address, and the history of what the host did to it.
\<close>

record qpair =
  sq :: nvm_queue
  cq :: nvm_queue
  sq_mem :: "nvm_cmd list"
  prp_mem :: "u64 list"
  prp_ioaddr :: u64
  events :: "hw_event list"

definition qp_submit :: "qpair \<Rightarrow> qpair" where
  "qp_submit qp = (let (ring, q) = nvm_sq_submit (sq qp) in
     qp\<lparr>sq := q, events := events qp @
       (case ring of None \<Rightarrow> [] | Some t \<Rightarrow> [SQ_doorbell t (sq_mem qp) (prp_mem qp)])\<rparr>)"

definition qp_sq_update :: "qpair \<Rightarrow> qpair" where
  "qp_sq_update qp = qp\<lparr>sq := nvm_sq_update (sq qp)\<rparr>"

definition qp_cq_update :: "qpair \<Rightarrow> qpair" where
  "qp_cq_update qp = (let (ring, q) = nvm_cq_update (cq qp) in
     qp\<lparr>cq := q, events := events qp @ (case ring of None \<Rightarrow> [] | Some h \<Rightarrow> [CQ_doorbell h])\<rparr>)"

definition qp_dequeue :: "device \<Rightarrow> qpair \<Rightarrow> (nvm_cpl option \<times> qpair) option" where
  "qp_dequeue dev qp = do {
     (cpl, q) \<leftarrow> nvm_cq_dequeue (cq qp) (dev (events qp));
     Some (cpl, qp\<lparr>cq := q, events := events qp @ [Poll]\<rparr>) }"

text \<open>\<open>nvm_cq_dequeue_block\<close>: one poll, then one more after each millisecond of the timeout.\<close>

function dequeue_block_loop :: "device \<Rightarrow> u64 \<Rightarrow> nvm_cpl option \<Rightarrow> qpair \<Rightarrow> (nvm_cpl option \<times> qpair) option" where
  "dequeue_block_loop dev nsecs cpl qp =
     (if cpl = None \<and> nsecs > 0
      then do {
        (cpl, qp) \<leftarrow> qp_dequeue dev qp;
        dequeue_block_loop dev (nvm_delay_remain nsecs) cpl qp }
      else Some (cpl, qp))"
  by pat_completeness auto
termination
  by (relation "measure (\<lambda>(_, nsecs, _). unat nsecs)") (auto simp: delay_remain_less)

declare dequeue_block_loop.simps [simp del]

definition nvm_cq_dequeue_block :: "device \<Rightarrow> u64 \<Rightarrow> qpair \<Rightarrow> (nvm_cpl option \<times> qpair) option" where
  "nvm_cq_dequeue_block dev time qp = do {
     (cpl, qp) \<leftarrow> qp_dequeue dev qp;
     dequeue_block_loop dev (time * 1000000) cpl qp }"

end
