(* ===== verification/Lib_State.thy ===== *)
theory Lib_State
  imports Nvm_Queue "HOL-Library.Multiset"
begin

text \<open>
  The state of the user-space library: the structures of \<open>internal/lib_ctrl.h\<close>,
  \<open>internal/dma.h\<close>, \<open>internal/map.h\<close> and \<open>libnvm/dma.cpp\<close> in typed heaps, the
  addresses the allocator has handed out, and the log of the system calls that acquire or release
  something. Operating system and controller are parameters: the record \<open>uapi\<close> gives the result of
  every call as a function of the state at the call, and the GPU backend the library is built for. Reading a register through a pointer that maps
  no controller is a fault.

  A user handle (\<open>nvm_ctrl_t*\<close>, \<open>nvm_dma_t*\<close>) is embedded in its container
  (\<open>struct controller\<close>, \<open>struct container\<close>), and \<open>_nvm_container_of\<close> is its inverse; both are
  the same address of the model. Functions that take a mutex for their whole body are atomic steps of the
  sequential model, in which locking always succeeds.
\<close>

section \<open>Structures\<close>

datatype device_type = DEVICE_TYPE_UNKNOWN | DEVICE_TYPE_IOCTL | DEVICE_TYPE_SMARTIO

text \<open>Callbacks are named; the null pointer is \<open>None\<close>.\<close>

datatype release_fn = Release_device
datatype map_fn = Ioctl_map
datatype unmap_fn = Ioctl_unmap
datatype va_free = Free_va | Release_mapping_descriptor

record device_ops =
  op_release :: "release_fn option"
  op_map :: "map_fn option"
  op_unmap :: "unmap_fn option"

record controller =
  c_count :: u32
  c_type :: device_type
  c_device :: ptr
  c_ops :: device_ops
  c_handle :: nvm_ctrl

record va_range =
  va_remote :: bool
  va_vaddr :: u64
  va_page_size :: u64
  va_n_pages :: u64

datatype mapping_type = MAP_TYPE_CUDA | MAP_TYPE_HOST | MAP_TYPE_API | MAP_TYPE_DMABUF

record ioctl_mapping =
  im_type :: mapping_type
  im_buffer :: u64
  im_range :: va_range
  im_dmabuf_fd :: int
  im_dmabuf_offset :: u64

text \<open>A range is allocated on its own or inside an \<open>ioctl_mapping\<close>.\<close>

datatype va_object = Plain_range va_range | Mapping ioctl_mapping

fun range_of :: "va_object \<Rightarrow> va_range" where
  "range_of (Plain_range r) = r"
| "range_of (Mapping m) = im_range m"

record dma_desc =
  dm_count :: u32
  dm_ctrl :: ptr
  dm_va :: ptr
  dm_release :: va_free
  dm_unmap :: "unmap_fn option"

record nvm_dma =
  dma_vaddr :: u64
  dma_local :: bool
  dma_contiguous :: bool
  dma_page_size :: u64
  dma_n_ioaddrs :: u64
  dma_ioaddrs :: "u64 list"

record dma_container =
  dc_map :: ptr
  dc_handle :: nvm_dma

text \<open>
  The descriptor of the admin queues, a queue pair of which the controller sees the history; and the
  reference to it, with the bindings of a server as the list of their nodes.
\<close>

record local_admin =
  la_qmem :: ptr
  la_timeout :: u64
  la_qp :: qpair

record rpc_handle =
  rh_addr :: ptr
  rh_key :: u32
  rh_data :: ptr

datatype binding_free = Remove_admin | Free_binding
datatype rpc_stub = Execute_command | Remote_stub

record admin_ref =
  ar_ctrl :: ptr
  ar_handles :: "rpc_handle list"
  ar_data :: ptr
  ar_release :: "binding_free option"
  ar_stub :: "rpc_stub option"

text \<open>Accesses to the controller's configuration registers.\<close>

datatype reg_event = W_CC u32 | W_AQA u32 | W_ACQ u64 | W_ASQ u64 | R_CSTS

section \<open>The library's state\<close>

datatype ucall =
    U_dup int | U_close int
  | U_mmap u64 u64 | U_munmap u64 u64
  | U_map u64 | U_unmap u64
  | U_export_dmabuf int | U_close_dmabuf int
  | U_release_handle u32 ptr | U_release_binding ptr

text \<open>The allocator's book records what each live address holds.\<close>

datatype kind = K_dev | K_ctrl | K_va | K_map | K_dma | K_admin | K_ref | K_rpc

record ustate =
  u_live :: "(ptr \<times> kind) list"
  u_bufs :: "u64 list"
  u_devs :: "ptr \<rightharpoonup> int"
  u_ctrls :: "ptr \<rightharpoonup> controller"
  u_vas :: "ptr \<rightharpoonup> va_object"
  u_maps :: "ptr \<rightharpoonup> dma_desc"
  u_dmas :: "ptr \<rightharpoonup> dma_container"
  u_admins :: "ptr \<rightharpoonup> local_admin"
  u_refs :: "ptr \<rightharpoonup> admin_ref"
  u_regs :: "reg_event list"
  u_calls :: "ucall list"

datatype mem_ioctl = Map_host u64 u64 | Map_device u64 u64 | Map_dmabuf u64 int u64 u64 u64 | Unmap u64

datatype gpu_backend = CUDA_backend | HIP_backend | No_backend

record 's uapi =
  malloc :: "'s \<Rightarrow> ptr"
  posix_memalign :: "'s \<Rightarrow> u64 \<Rightarrow> u64 \<Rightarrow> int \<times> u64"
  mutex_init :: "'s \<Rightarrow> int"
  dup :: "'s \<Rightarrow> int \<Rightarrow> int"
  fcntl_setfd :: "'s \<Rightarrow> int \<Rightarrow> int"
  mmap :: "'s \<Rightarrow> int \<Rightarrow> u64 \<Rightarrow> u64"
  ioctl_mem :: "'s \<Rightarrow> int \<Rightarrow> mem_ioctl \<Rightarrow> int \<times> u64 list"
  errno :: "'s \<Rightarrow> int"
  sc_pagesize :: u64
  reg_cap :: "u64 \<Rightarrow> u64 option"
  reg_ver :: u32
  reg_cc :: "reg_event list \<Rightarrow> u32"
  reg_csts :: "reg_event list \<Rightarrow> u32"
  admin_device :: device
  dma_bytes :: "hw_event list \<Rightarrow> u64 \<Rightarrow> u8 list"
  junk_queue :: nvm_queue
  remote_stub :: "'s \<Rightarrow> ptr \<Rightarrow> nvm_cmd \<Rightarrow> int \<times> nvm_cpl"
  backend :: gpu_backend
  hip_device_memory :: "u64 \<Rightarrow> bool"
  hip_address_range :: "u64 \<Rightarrow> (u64 \<times> u64) option"
  hsa_export_dmabuf :: "'s \<Rightarrow> u64 \<Rightarrow> u64 \<Rightarrow> bool \<times> int \<times> u64"

section \<open>Allocation\<close>

text \<open>Freeing an address that is not live is a fault.\<close>

definition take_mem :: "kind \<Rightarrow> ptr \<Rightarrow> ustate \<Rightarrow> ustate" where
  "take_mem k p s = s\<lparr>u_live := (p, k) # u_live s\<rparr>"

definition free_mem :: "ptr \<Rightarrow> ustate \<Rightarrow> ustate option" where
  "free_mem p s = (if p \<in> fst ` set (u_live s) then Some (s\<lparr>u_live := filter (\<lambda>e. fst e \<noteq> p) (u_live s)\<rparr>) else None)"

text \<open>\<open>free\<close> of a buffer, which may be \<open>NULL\<close>.\<close>

definition free_buf :: "u64 \<Rightarrow> ustate \<Rightarrow> ustate option" where
  "free_buf b s = (if b = 0 then Some s
     else if b \<in> set (u_bufs s) then Some (s\<lparr>u_bufs := remove1 b (u_bufs s)\<rparr>) else None)"

definition ulog :: "ucall list \<Rightarrow> ustate \<Rightarrow> ustate" where
  "ulog cs s = s\<lparr>u_calls := u_calls s @ cs\<rparr>"

text \<open>
  What the standard requires of the allocator: an address it returns is not one it has handed out
  and not yet got back.
\<close>

definition fresh_alloc :: "ustate uapi \<Rightarrow> bool" where
  "fresh_alloc api \<longleftrightarrow>
     (\<forall>s. malloc api s \<noteq> NULL \<longrightarrow> malloc api s \<notin> fst ` set (u_live s)) \<and>
     (\<forall>s a n. fst (posix_memalign api s a n) = 0 \<longrightarrow>
        snd (posix_memalign api s a n) \<notin> set (u_bufs s) \<and> snd (posix_memalign api s a n) \<noteq> 0)"

section \<open>Counting references\<close>

definition refs :: "('k \<rightharpoonup> 'a) \<Rightarrow> ('a \<Rightarrow> 'b) \<Rightarrow> 'b \<Rightarrow> nat" where
  "refs h f p = card {k. \<exists>d. h k = Some d \<and> f d = p}"

lemma refs_empty [simp]: "refs Map.empty f p = 0"
  by (simp add: refs_def)

lemma refs_finite: "finite (dom h) \<Longrightarrow> finite {k. \<exists>d. h k = Some d \<and> f d = p}"
  by (rule finite_subset [of _ "dom h"]) auto

lemma refs_new:
  assumes "finite (dom h)" "h k = None"
  shows "refs (h(k \<mapsto> d)) f p = refs h f p + (if f d = p then 1 else 0)"
proof -
  have "{j. \<exists>e. (h(k \<mapsto> d)) j = Some e \<and> f e = p} = {j. \<exists>e. h j = Some e \<and> f e = p} \<union> (if f d = p then {k} else {})"
    using assms(2) by auto
  then show ?thesis using assms(2) refs_finite [OF assms(1), of f p] by (simp add: refs_def)
qed

lemma refs_same:
  assumes "h k = Some c" "f d = f c"
  shows "refs (h(k \<mapsto> d)) f p = refs h f p"
  using assms by (auto simp: refs_def intro!: arg_cong [where f = card])

lemma refs_drop:
  assumes "finite (dom h)" "h k = Some d"
  shows "refs (h(k := None)) f p = refs h f p - (if f d = p then 1 else 0)"
proof -
  have "{j. \<exists>e. (h(k := None)) j = Some e \<and> f e = p} = {j. \<exists>e. h j = Some e \<and> f e = p} - {k}" by auto
  then show ?thesis using assms(2) by (auto simp: refs_def intro!: arg_cong [where f = card])
qed

lemma refs_pos: "finite (dom h) \<Longrightarrow> h k = Some d \<Longrightarrow> 0 < refs h f (f d)"
  unfolding refs_def by (subst card_gt_0_iff) (auto intro: refs_finite)

lemma refs_zero: "finite (dom h) \<Longrightarrow> refs h f p = 0 \<longleftrightarrow> (\<forall>k d. h k = Some d \<longrightarrow> f d \<noteq> p)"
  by (auto simp: refs_def refs_finite)

lemma refs_le: "finite (dom h) \<Longrightarrow> refs h f p \<le> card (dom h)"
  unfolding refs_def by (rule card_mono) auto

lemma refs_cong: "(\<And>k d. h k = Some d \<Longrightarrow> f d = p \<longleftrightarrow> g d = p) \<Longrightarrow> refs h f p = refs h g p"
  unfolding refs_def by (rule arg_cong [where f = card]) auto

end
