(* ===== verification/Nvm_Pages.thy ===== *)
theory Nvm_Pages
  imports Lib_State
begin

text \<open>
  The macros of \<open>include/libnvm/nvm_util.h\<close> that take a controller or a DMA handle, and the small helpers of
  \<open>src/libnvm/internal/lib_util.h\<close>: sizes in controller pages, and the number of entries of a queue that fills
  a page.
\<close>

section \<open>Sizes in pages\<close>

definition NVM_PTR_OFFSET :: "u64 \<Rightarrow> u64 \<Rightarrow> u64 \<Rightarrow> u64" where
  "NVM_PTR_OFFSET p ps pageno = p + ps * pageno"

definition NVM_CTRL_ALIGN :: "nvm_ctrl \<Rightarrow> u64 \<Rightarrow> u64" where
  "NVM_CTRL_ALIGN ctrl sz = NVM_PAGE_ALIGN sz (page_size ctrl)"

definition NVM_CTRL_PAGES :: "nvm_ctrl \<Rightarrow> u64 \<Rightarrow> u64" where
  "NVM_CTRL_PAGES ctrl sz = NVM_CTRL_ALIGN ctrl sz div page_size ctrl"

definition NVM_DMA_ALIGN :: "nvm_dma \<Rightarrow> u64 \<Rightarrow> u64" where
  "NVM_DMA_ALIGN dma sz = NVM_PAGE_ALIGN sz (dma_page_size dma)"

text \<open>The number of pages is an argument of the macros that they do not use.\<close>

definition NVM_SQ_SIZE :: "nvm_ctrl \<Rightarrow> u64 \<Rightarrow> u64" where
  "NVM_SQ_SIZE ctrl num_pages = page_size ctrl div 64"

definition NVM_CQ_SIZE :: "nvm_ctrl \<Rightarrow> u64 \<Rightarrow> u64" where
  "NVM_CQ_SIZE ctrl num_pages = page_size ctrl div 16"

text \<open>
  The value of \<open>sysconf(_SC_PAGESIZE)\<close> is the argument; a negative one is caught in debug builds only.
\<close>

definition nvm_host_page_size :: "bool \<Rightarrow> int \<Rightarrow> u64" where
  "nvm_host_page_size ndebug sysconf = (if \<not> ndebug \<and> sysconf < 0 then 0 else word_of_int sysconf)"

definition nvm_MIN :: "u64 \<Rightarrow> u64 \<Rightarrow> u64" where
  "nvm_MIN a b = (if a \<le> b then a else b)"

lemma delay_remain_min: "nvm_delay_remain r = r - nvm_MIN 1000000 r"
  by (simp add: nvm_delay_remain_def nvm_MIN_def)

lemma unat_div_pow2:
  assumes "k < 64"
  shows "unat (w div 2 ^ k :: u64) = unat w div 2 ^ k"
  using unat_pow2 [where 'a = 64, of k] assms by (simp add: unat_div_distrib)

lemma ctrl_pages_ceil:
  assumes "page_size ctrl = 2 ^ k" "k < 64" "unat sz + 2 ^ k \<le> 2 ^ 64"
  shows "unat (NVM_CTRL_PAGES ctrl sz) = (unat sz + 2 ^ k - 1) div 2 ^ k"
  using assms by (simp add: NVM_CTRL_PAGES_def NVM_CTRL_ALIGN_def unat_div_pow2 NVM_PAGE_ALIGN_pow2)

lemma host_page_cases:
  assumes "12 \<le> k" "k \<le> (16 :: nat)"
  shows "(2 :: u64) ^ k \<in> {0x1000, 0x2000, 0x4000, 0x8000, 0x10000}"
proof -
  from assms consider "k = 12" | "k = 13" | "k = 14" | "k = 15" | "k = 16" by linarith
  then show ?thesis by cases simp_all
qed

text \<open>
  C39. Sizes in controller pages: for every page size that a host can have, the pages counted for a size hold it and
  one page less does not, and queues of as many entries as the macros give occupy exactly one page.
\<close>

theorem pages_and_entries:
  assumes "page_size ctrl = 2 ^ k" "12 \<le> k" "k \<le> 16" "sz \<noteq> 0" "unat sz + 2 ^ k \<le> 2 ^ 64"
  shows "unat sz \<le> unat (NVM_CTRL_PAGES ctrl sz) * 2 ^ k \<and> (unat (NVM_CTRL_PAGES ctrl sz) - 1) * 2 ^ k < unat sz \<and>
    NVM_SQ_PAGES (page_size ctrl) (NVM_SQ_SIZE ctrl n) = 1 \<and> NVM_CQ_PAGES (page_size ctrl) (NVM_CQ_SIZE ctrl n) = 1"
proof -
  let ?p = "(2 :: nat) ^ k" and ?s = "unat sz"
  have s: "0 < ?s" using assms(4) by (simp add: unat_gt_0)
  have n: "unat (NVM_CTRL_PAGES ctrl sz) = (?s + ?p - 1) div ?p" using ctrl_pages_ceil [OF assms(1) _ assms(5)] assms(3) by simp
  have d: "(?s + ?p - 1) div ?p = Suc ((?s - 1) div ?p)"
  proof -
    have "?s + ?p - 1 = (?s - 1) + ?p" using s by simp
    moreover have "(?s - 1 + ?p) div ?p = (?s - 1) div ?p + 1" by (rule div_add_self2) simp
    ultimately show ?thesis by simp
  qed
  have "(?s - 1) div ?p * ?p \<le> ?s - 1" by (rule div_times_less_eq_dividend)
  moreover have "?s - 1 < Suc ((?s - 1) div ?p) * ?p" using dividend_less_div_times [of ?p "?s - 1"] by simp
  moreover have "NVM_SQ_PAGES (page_size ctrl) (NVM_SQ_SIZE ctrl n) = 1" "NVM_CQ_PAGES (page_size ctrl) (NVM_CQ_SIZE ctrl n) = 1"
    using host_page_cases [OF assms(2,3)] unfolding assms(1) [symmetric]
    by (auto simp: NVM_SQ_PAGES_def NVM_CQ_PAGES_def NVM_SQ_SIZE_def NVM_CQ_SIZE_def)
  ultimately show ?thesis unfolding n d diff_Suc_1 using s by (intro conjI) linarith+
qed

definition example_page_ctrl :: nvm_ctrl where
  "example_page_ctrl = \<lparr>page_size = 0x1000, dstrd = 0, timeout = 500, max_qs = 256, mm_size = 0x2000, mm_ptr = 0x10000\<rparr>"

theorem pages_and_entries_witness: "5000 \<le> unat (NVM_CTRL_PAGES example_page_ctrl 5000) * 4096 \<and> NVM_SQ_PAGES 0x1000 (NVM_SQ_SIZE example_page_ctrl 1) = 1"
  using pages_and_entries [of example_page_ctrl 12 5000 1] by (simp add: example_page_ctrl_def)

end
