(* ===== verification/Lib_Ctrl.thy ===== *)
theory Lib_Ctrl
  imports Lib_State
begin

text \<open>
  Controller handles of the library (\<open>libnvm/ctrl.cpp\<close>, \<open>libnvm/linux_device.cpp\<close>): creation from
  the capability register, reference counting, and the callbacks into the kernel module. Resetting the
  controller is in \<open>Lib_Reset\<close>.
\<close>

section \<open>Reference counting\<close>

definition encode_page_size :: "u64 \<Rightarrow> u32" where
  "encode_page_size ps = nvm_b2log (ucast (drop_bit 12 ps))"

definition no_ops :: device_ops where
  "no_ops = \<lparr>op_release = None, op_map = None, op_unmap = None\<rparr>"

definition zero_ctrl :: nvm_ctrl where
  "zero_ctrl = \<lparr>page_size = 0, dstrd = 0, timeout = 0, max_qs = 0, mm_size = 0, mm_ptr = 0\<rparr>"

definition create_handle :: "ustate uapi \<Rightarrow> ptr \<Rightarrow> device_ops option \<Rightarrow> device_type \<Rightarrow> ustate \<Rightarrow> (ptr \<times> ustate) option" where
  "create_handle api dev ops ty s =
     (if dev \<noteq> NULL \<and> (case ops of None \<Rightarrow> True | Some ops \<Rightarrow> op_release ops = None) then Some (NULL, s)
      else
        let handle = malloc api s in
        if handle = NULL then Some (NULL, s)
        else
          let s = take_mem K_ctrl handle s in
          if mutex_init api s \<noteq> 0 then do { s \<leftarrow> free_mem handle s; Some (NULL, s) }
          else Some (handle, s\<lparr>u_ctrls := (u_ctrls s)(handle \<mapsto>
            \<lparr>c_count = 1, c_type = ty, c_device = dev, c_ops = (case ops of Some ops \<Rightarrow> ops | None \<Rightarrow> no_ops), c_handle = zero_ctrl\<rparr>)\<rparr>))"

text \<open>The mutex is not held when the handle is removed, so destroying it succeeds at once.\<close>

definition remove_handle :: "ptr \<Rightarrow> ustate \<Rightarrow> ustate option" where
  "remove_handle handle s = do {
     c \<leftarrow> u_ctrls s handle;
     free_mem handle (s\<lparr>u_ctrls := (u_ctrls s)(handle := None)\<rparr>) }"

definition nvm_ctrl_get :: "ptr \<Rightarrow> ustate \<Rightarrow> (ptr \<times> ustate) option" where
  "nvm_ctrl_get ctrl s =
     (if ctrl \<noteq> NULL
      then do {
        c \<leftarrow> u_ctrls s ctrl;
        Some (ctrl, s\<lparr>u_ctrls := (u_ctrls s)(ctrl \<mapsto> c\<lparr>c_count := c_count c + 1\<rparr>)\<rparr>) }
      else Some (NULL, s))"

definition release_device :: "ptr \<Rightarrow> u64 \<Rightarrow> u64 \<Rightarrow> ustate \<Rightarrow> ustate option" where
  "release_device dev mm size_mm s = do {
     fd \<leftarrow> u_devs s dev;
     free_mem dev ((ulog [U_munmap mm size_mm, U_close fd] s)\<lparr>u_devs := (u_devs s)(dev := None)\<rparr>) }"

definition nvm_ctrl_put :: "ptr \<Rightarrow> ustate \<Rightarrow> ustate option" where
  "nvm_ctrl_put p s =
     (if p \<noteq> NULL
      then do {
        c \<leftarrow> u_ctrls s p;
        let c = c\<lparr>c_count := c_count c - 1\<rparr>;
        if c_count c = 0
        then do {
          s \<leftarrow> (if c_device c \<noteq> NULL
               then case op_release (c_ops c) of
                   Some Release_device \<Rightarrow> release_device (c_device c) (mm_ptr (c_handle c)) (mm_size (c_handle c)) s
                 | None \<Rightarrow> None
               else Some s);
          remove_handle p (s\<lparr>u_ctrls := (u_ctrls s)(p \<mapsto> c\<lparr>c_device := NULL\<rparr>)\<rparr>) }
        else Some (s\<lparr>u_ctrls := (u_ctrls s)(p \<mapsto> c)\<rparr>) }
      else Some s)"

definition nvm_ctrl_free :: "ptr \<Rightarrow> ustate \<Rightarrow> ustate option" where
  "nvm_ctrl_free ctrl s = (if ctrl \<noteq> NULL then nvm_ctrl_put ctrl s else Some s)"

section \<open>Initialisation\<close>

definition NVM_CTRL_MEM_MINSIZE :: u64 where
  "NVM_CTRL_MEM_MINSIZE = 0x2000"

text \<open>\<open>Inl\<close> is an error number. The handle is filled in from the capability register.\<close>

definition nvm_ctrl_setup ::
  "ustate uapi \<Rightarrow> ptr \<Rightarrow> device_ops option \<Rightarrow> device_type \<Rightarrow> u64 \<Rightarrow> u64 \<Rightarrow> ustate \<Rightarrow> ((int + ptr) \<times> ustate) option" where
  "nvm_ctrl_setup api dev ops ty mm size_mm s = do {
     (container, s) \<leftarrow> create_handle api dev ops ty s;
     if container = NULL then Some (Inl ENOMEM, s)
     else if size_mm < NVM_CTRL_MEM_MINSIZE then do { s \<leftarrow> remove_handle container s; Some (Inl EINVAL, s) }
     else if sc_pagesize api = 0 then do { s \<leftarrow> remove_handle container s; Some (Inl ENOMEM, s) }
     else do {
       cap \<leftarrow> reg_cap api mm;
       let host_page_size = (ucast (encode_page_size (sc_pagesize api)) :: u8);
       let max_page_size = (ucast (CAP_MPSMAX cap) :: u8);
       let min_page_size = (ucast (CAP_MPSMIN cap) :: u8);
       if \<not> (min_page_size \<le> host_page_size \<and> host_page_size \<le> max_page_size)
       then do { s \<leftarrow> remove_handle container s; Some (Inl ERANGE, s) }
       else do {
         c \<leftarrow> u_ctrls s container;
         Some (Inr container, s\<lparr>u_ctrls := (u_ctrls s)(container \<mapsto> c\<lparr>c_handle :=
           \<lparr>page_size = sc_pagesize api, dstrd = ucast (CAP_DSTRD cap), timeout = CAP_TO cap * 500,
            max_qs = ucast (CAP_MQES cap) + 1, mm_size = size_mm, mm_ptr = mm\<rparr>\<rparr>)\<rparr>) } } }"

definition nvm_raw_ctrl_init :: "ustate uapi \<Rightarrow> u64 \<Rightarrow> u64 \<Rightarrow> ustate \<Rightarrow> ((int + ptr) \<times> ustate) option" where
  "nvm_raw_ctrl_init api mm size_mm s = nvm_ctrl_setup api NULL None DEVICE_TYPE_UNKNOWN mm size_mm s"

definition linux_ops :: device_ops where
  "linux_ops = \<lparr>op_release = Some Release_device, op_map = Some Ioctl_map, op_unmap = Some Ioctl_unmap\<rparr>"

definition nvm_ctrl_init :: "ustate uapi \<Rightarrow> int \<Rightarrow> ustate \<Rightarrow> ((int + ptr) \<times> ustate) option" where
  "nvm_ctrl_init api filedes s =
     (let dev = malloc api s in
      if dev = NULL then Some (Inl ENOMEM, s)
      else
        let s = take_mem K_dev dev s; fd = dup api s filedes in
        if fd < 0 then do { s' \<leftarrow> free_mem dev s; Some (Inl (errno api s), s') }
        else
          let s = ulog [U_dup fd] (s\<lparr>u_devs := (u_devs s)(dev \<mapsto> fd)\<rparr>) in
          if fcntl_setfd api s fd = -1
          then do { s' \<leftarrow> free_mem dev ((ulog [U_close fd] s)\<lparr>u_devs := (u_devs s)(dev := None)\<rparr>); Some (Inl (errno api s), s') }
          else
            let size_mm = NVM_CTRL_MEM_MINSIZE; mm = mmap api s fd size_mm in
            if mm = 0
            then do { s' \<leftarrow> free_mem dev ((ulog [U_close fd] s)\<lparr>u_devs := (u_devs s)(dev := None)\<rparr>); Some (Inl (errno api s), s') }
            else do {
              let s = ulog [U_mmap mm size_mm] s;
              (r, s) \<leftarrow> nvm_ctrl_setup api dev (Some linux_ops) DEVICE_TYPE_IOCTL mm size_mm s;
              case r of
                Inl err \<Rightarrow> do { s \<leftarrow> release_device dev mm size_mm s; Some (Inl err, s) }
              | Inr ctrl \<Rightarrow> Some (Inr ctrl, s) })"

section \<open>Kernel requests\<close>

definition ioctl_request :: "ustate uapi \<Rightarrow> ioctl_mapping \<Rightarrow> mem_ioctl option" where
  "ioctl_request api m =
     (let n = va_n_pages (im_range m) in
      case im_type m of
        MAP_TYPE_API \<Rightarrow> Some (Map_host (im_buffer m) n)
      | MAP_TYPE_HOST \<Rightarrow> Some (Map_host (im_buffer m) n)
      | MAP_TYPE_CUDA \<Rightarrow> Some (Map_device (im_buffer m) n)
      | MAP_TYPE_DMABUF \<Rightarrow>
          if backend api = HIP_backend
          then Some (Map_dmabuf (im_buffer m) (im_dmabuf_fd m) (im_dmabuf_offset m) (va_page_size (im_range m) * n) n)
          else None)"

definition ioctl_map :: "ustate uapi \<Rightarrow> ptr \<Rightarrow> ioctl_mapping \<Rightarrow> ustate \<Rightarrow> ((int + u64 list) \<times> ustate) option" where
  "ioctl_map api dev m s = (case ioctl_request api m of
     None \<Rightarrow> Some (Inl EINVAL, s)
   | Some request \<Rightarrow> do {
       fd \<leftarrow> u_devs s dev;
       let (err, addrs) = ioctl_mem api s fd request;
       if err < 0 then Some (Inl (errno api s), s)
       else do {
         ioaddrs \<leftarrow> arr_store (replicate (unat (va_n_pages (im_range m))) 0) addrs;
         Some (Inr ioaddrs, ulog [U_map (im_buffer m)] s) } })"

definition ioctl_unmap :: "ptr \<Rightarrow> ioctl_mapping \<Rightarrow> ustate \<Rightarrow> ustate option" where
  "ioctl_unmap dev m s = do {
     fd \<leftarrow> u_devs s dev;
     Some (ulog [U_unmap (im_buffer m)] s) }"

end
