(* ===== verification/Lib_Dma.thy ===== *)
theory Lib_Dma
  imports Lib_Ctrl
begin

text \<open>
  DMA mappings of the library (\<open>libnvm/dma.cpp\<close>, \<open>libnvm/linux_dma.cpp\<close>): a mapping descriptor is
  shared, by counting, between the handles made from it; it holds a reference to the controller and owns
  the description of the address range.
\<close>

section \<open>Releasing\<close>

definition free_va_object :: "ptr \<Rightarrow> ustate \<Rightarrow> ustate option" where
  "free_va_object va s = do {
     v \<leftarrow> u_vas s va;
     free_mem va (s\<lparr>u_vas := (u_vas s)(va := None)\<rparr>) }"

definition remove_mapping_descriptor :: "ptr \<Rightarrow> ustate \<Rightarrow> ustate option" where
  "remove_mapping_descriptor md s = do {
     v \<leftarrow> u_vas s md;
     case v of
       Plain_range _ \<Rightarrow> None
     | Mapping m \<Rightarrow> do {
         s \<leftarrow> (if im_type m = MAP_TYPE_API then free_buf (im_buffer m) s else Some s);
         free_va_object md s } }"

definition remove_map :: "ptr \<Rightarrow> ustate \<Rightarrow> ustate option" where
  "remove_map md s = do {
     m \<leftarrow> u_maps s md;
     s \<leftarrow> nvm_ctrl_put (dm_ctrl m) s;
     free_mem md (s\<lparr>u_maps := (u_maps s)(md := None)\<rparr>) }"

definition unmap_va :: "ptr \<Rightarrow> ptr \<Rightarrow> ustate \<Rightarrow> ustate option" where
  "unmap_va dev va s = do {
     v \<leftarrow> u_vas s va;
     case v of Plain_range _ \<Rightarrow> None | Mapping m \<Rightarrow> ioctl_unmap dev m s }"

definition release_va :: "va_free \<Rightarrow> ptr \<Rightarrow> ustate \<Rightarrow> ustate option" where
  "release_va f va s = (case f of Free_va \<Rightarrow> free_va_object va s | Release_mapping_descriptor \<Rightarrow> remove_mapping_descriptor va s)"

definition put_map :: "ptr \<Rightarrow> ustate \<Rightarrow> ustate option" where
  "put_map md s =
     (if md = NULL then Some s
      else do {
        m \<leftarrow> u_maps s md;
        let m = m\<lparr>dm_count := dm_count m - 1\<rparr>;
        (m, s) \<leftarrow> (if dm_count m = 0
          then do {
            s \<leftarrow> (if dm_unmap m \<noteq> None
                 then do { c \<leftarrow> u_ctrls s (dm_ctrl m); unmap_va (c_device c) (dm_va m) s }
                 else Some s);
            s \<leftarrow> release_va (dm_release m) (dm_va m) s;
            Some (m\<lparr>dm_va := NULL\<rparr>, s) }
          else Some (m, s));
        let s = s\<lparr>u_maps := (u_maps s)(md \<mapsto> m)\<rparr>;
        if dm_va m = NULL then remove_map md s else Some s })"

definition get_map :: "ptr \<Rightarrow> ustate \<Rightarrow> (int \<times> ustate) option" where
  "get_map md s =
     (if md = NULL then Some (EINVAL, s)
      else do {
        m \<leftarrow> u_maps s md;
        Some (0, s\<lparr>u_maps := (u_maps s)(md \<mapsto> m\<lparr>dm_count := dm_count m + 1\<rparr>)\<rparr>) })"

definition remove_container :: "ptr \<Rightarrow> ustate \<Rightarrow> ustate option" where
  "remove_container c s = do {
     d \<leftarrow> u_dmas s c;
     s \<leftarrow> put_map (dc_map d) s;
     free_mem c (s\<lparr>u_dmas := (u_dmas s)(c := None)\<rparr>) }"

definition nvm_dma_unmap :: "ptr \<Rightarrow> ustate \<Rightarrow> ustate option" where
  "nvm_dma_unmap handle s = (if handle \<noteq> NULL then remove_container handle s else Some s)"

section \<open>Creating\<close>

definition create_map :: "ustate uapi \<Rightarrow> ptr \<Rightarrow> ptr \<Rightarrow> va_free \<Rightarrow> ustate \<Rightarrow> ((int + ptr) \<times> ustate) option" where
  "create_map api ctrl va release s = do {
     (r, s) \<leftarrow> nvm_ctrl_get ctrl s;
     if r = NULL then Some (Inl ENOSPC, s)
     else
       let m = malloc api s in
       if m = NULL then do { s \<leftarrow> nvm_ctrl_put r s; Some (Inl ENOMEM, s) }
       else
         let s = take_mem K_map m s; err = mutex_init api s in
         if err \<noteq> 0 then do { s \<leftarrow> free_mem m s; s \<leftarrow> nvm_ctrl_put r s; Some (Inl err, s) }
         else Some (Inr m, s\<lparr>u_maps := (u_maps s)(m \<mapsto>
           \<lparr>dm_count = 1, dm_ctrl = r, dm_va = va, dm_release = release, dm_unmap = None\<rparr>)\<rparr>) }"

definition n_ctrl_pages :: "nvm_ctrl \<Rightarrow> u64 \<Rightarrow> u64 \<Rightarrow> u64" where
  "n_ctrl_pages ctrl ps n_pages = (ps * n_pages) div page_size ctrl"

text \<open>The loop of \<open>populate_handle\<close>: \<open>done\<close> are the addresses written so far.\<close>

function populate_loop :: "u64 list \<Rightarrow> u64 \<Rightarrow> u64 \<Rightarrow> u64 \<Rightarrow> u64 \<Rightarrow> u64 list \<Rightarrow> bool \<Rightarrow> (u64 list \<times> bool) option" where
  "populate_loop ioaddrs ps cps n i done contiguous =
     (if i < n
      then do {
        let current_page = (i * cps) div ps;
        let offset_within_page = (i * cps) mod ps;
        a \<leftarrow> arr_get ioaddrs (unat current_page);
        let a = a + offset_within_page;
        contiguous \<leftarrow> (if i > 0 then do { prev \<leftarrow> arr_get done (unat (i - 1)); Some (contiguous \<and> prev + cps = a) } else Some contiguous);
        populate_loop ioaddrs ps cps n (i + 1) (done @ [a]) contiguous }
      else Some (done, contiguous))"
  by pat_completeness auto
termination
  by (relation "measure (\<lambda>(_, _, _, n, i, _). unat n - unat i)") (auto simp: unat_inc word_less_nat_alt)

declare populate_loop.simps [simp del]

definition populate_handle :: "nvm_dma \<Rightarrow> va_range \<Rightarrow> nvm_ctrl \<Rightarrow> u64 list \<Rightarrow> nvm_dma option" where
  "populate_handle handle va ctrl ioaddrs =
     (let ps = va_page_size va; n = n_ctrl_pages ctrl ps (va_n_pages va) in do {
        (addrs, contiguous) \<leftarrow> populate_loop ioaddrs ps (page_size ctrl) n 0 [] True;
        Some (handle\<lparr>dma_vaddr := va_vaddr va, dma_page_size := page_size ctrl, dma_n_ioaddrs := n,
          dma_contiguous := contiguous, dma_ioaddrs := addrs\<rparr>) })"

definition create_container :: "ustate uapi \<Rightarrow> ptr \<Rightarrow> ustate \<Rightarrow> ((int + ptr) \<times> ustate) option" where
  "create_container api md s = do {
     m \<leftarrow> u_maps s md;
     ctrl \<leftarrow> u_ctrls s (dm_ctrl m);
     v \<leftarrow> u_vas s (dm_va m);
     let ps = va_page_size (range_of v);
     let n_pages = va_n_pages (range_of v);
     if ps = 0 \<or> n_pages = 0 \<or> (ps * n_pages) mod page_size (c_handle ctrl) \<noteq> 0 then Some (Inl EINVAL, s)
     else
       let c = malloc api s in
       if c = NULL then Some (Inl ENOMEM, s)
       else Some (Inr c, (take_mem K_dma c s)\<lparr>u_dmas := (u_dmas s)(c \<mapsto> \<lparr>dc_map = md,
         dc_handle = \<lparr>dma_vaddr = 0, dma_local = \<not> va_remote (range_of v), dma_contiguous = True,
           dma_page_size = 0, dma_n_ioaddrs = 0, dma_ioaddrs = []\<rparr>\<rparr>)\<rparr>) }"

text \<open>\<open>free\<close> of a container whose mapping is released separately.\<close>

definition free_container :: "ptr \<Rightarrow> ustate \<Rightarrow> ustate option" where
  "free_container c s = do {
     d \<leftarrow> u_dmas s c;
     free_mem c (s\<lparr>u_dmas := (u_dmas s)(c := None)\<rparr>) }"

definition set_handle :: "ptr \<Rightarrow> (nvm_dma \<Rightarrow> nvm_dma option) \<Rightarrow> ustate \<Rightarrow> ustate option" where
  "set_handle c f s = do {
     d \<leftarrow> u_dmas s c;
     h \<leftarrow> f (dc_handle d);
     Some (s\<lparr>u_dmas := (u_dmas s)(c \<mapsto> d\<lparr>dc_handle := h\<rparr>)\<rparr>) }"

text \<open>The list of bus addresses is allocated and freed within the function.\<close>

definition dma_map :: "ustate uapi \<Rightarrow> ptr \<Rightarrow> ustate \<Rightarrow> (int \<times> ustate) option" where
  "dma_map api c s = do {
     d \<leftarrow> u_dmas s c;
     m \<leftarrow> u_maps s (dc_map d);
     ctrl \<leftarrow> u_ctrls s (dm_ctrl m);
     if op_map (c_ops ctrl) = None then Some (EINVAL, s)
     else if malloc api s = NULL then Some (ENOMEM, s)
     else do {
       v \<leftarrow> u_vas s (dm_va m);
       case v of
         Plain_range _ \<Rightarrow> None
       | Mapping im \<Rightarrow> do {
           (r, s) \<leftarrow> ioctl_map api (c_device ctrl) im s;
           case r of
             Inl err \<Rightarrow> Some (err, s)
           | Inr ioaddrs \<Rightarrow> do {
               let s = s\<lparr>u_maps := (u_maps s)(dc_map d \<mapsto> m\<lparr>dm_unmap := op_unmap (c_ops ctrl)\<rparr>)\<rparr>;
               s \<leftarrow> set_handle c (\<lambda>h. populate_handle h (im_range im) (c_handle ctrl) ioaddrs) s;
               Some (0, s) } } } }"

definition nvm_dma_init :: "ustate uapi \<Rightarrow> ptr \<Rightarrow> ptr \<Rightarrow> va_free \<Rightarrow> ustate \<Rightarrow> ((int + ptr) \<times> ustate) option" where
  "nvm_dma_init api ctrl va release s = do {
     (r, s) \<leftarrow> create_map api ctrl va release s;
     case r of
       Inl err \<Rightarrow> Some (Inl err, s)
     | Inr md \<Rightarrow> do {
         (r, s) \<leftarrow> create_container api md s;
         case r of
           Inl err \<Rightarrow> do { s \<leftarrow> remove_map md s; Some (Inl err, s) }
         | Inr c \<Rightarrow> do {
             (err, s) \<leftarrow> dma_map api c s;
             if err \<noteq> 0 then do { s \<leftarrow> remove_map md s; s \<leftarrow> free_container c s; Some (Inl err, s) }
             else Some (Inr c, s) } } }"

definition nvm_dma_map :: "ustate uapi \<Rightarrow> ptr \<Rightarrow> u64 \<Rightarrow> u64 \<Rightarrow> u64 \<Rightarrow> u64 list option \<Rightarrow> ustate \<Rightarrow> ((int + ptr) \<times> ustate) option" where
  "nvm_dma_map api ctrl vaddr ps n_pages ioaddrs s = (case ioaddrs of
     None \<Rightarrow> Some (Inl EINVAL, s)
   | Some ioaddrs \<Rightarrow>
       let va = malloc api s in
       if va = NULL then Some (Inl ENOMEM, s)
       else do {
         let rng = \<lparr>va_remote = False, va_vaddr = vaddr, va_page_size = ps, va_n_pages = n_pages\<rparr>;
         let s = (take_mem K_va va s)\<lparr>u_vas := (u_vas s)(va \<mapsto> Plain_range rng)\<rparr>;
         (r, s) \<leftarrow> create_map api ctrl va Free_va s;
         case r of
           Inl err \<Rightarrow> do { s \<leftarrow> free_va_object va s; Some (Inl err, s) }
         | Inr md \<Rightarrow> do {
             (r, s) \<leftarrow> create_container api md s;
             case r of
               Inl err \<Rightarrow> do { s \<leftarrow> remove_map md s; s \<leftarrow> free_va_object va s; Some (Inl err, s) }
             | Inr c \<Rightarrow> do {
                 cc \<leftarrow> u_ctrls s ctrl;
                 s \<leftarrow> set_handle c (\<lambda>h. populate_handle h rng (c_handle cc) ioaddrs) s;
                 Some (Inr c, s) } } })"

definition nvm_dma_remap :: "ustate uapi \<Rightarrow> ptr \<Rightarrow> ustate \<Rightarrow> ((int + ptr) \<times> ustate) option" where
  "nvm_dma_remap api other s = do {
     d \<leftarrow> u_dmas s other;
     (err, s) \<leftarrow> get_map (dc_map d) s;
     if err \<noteq> 0 then Some (Inl err, s)
     else do {
       (r, s) \<leftarrow> create_container api (dc_map d) s;
       case r of
         Inl err \<Rightarrow> do { s \<leftarrow> put_map (dc_map d) s; Some (Inl err, s) }
       | Inr c \<Rightarrow> do {
           m \<leftarrow> u_maps s (dc_map d);
           v \<leftarrow> u_vas s (dm_va m);
           ctrl \<leftarrow> u_ctrls s (dm_ctrl m);
           let va = \<lparr>va_remote = \<not> dma_local (dc_handle d), va_vaddr = va_vaddr (range_of v),
             va_page_size = dma_page_size (dc_handle d), va_n_pages = dma_n_ioaddrs (dc_handle d)\<rparr>;
           s \<leftarrow> set_handle c (\<lambda>h. populate_handle h va (c_handle ctrl) (dma_ioaddrs (dc_handle d))) s;
           Some (Inr c, s) } } }"

definition nvm_ctrl_from_dma :: "ptr \<Rightarrow> ustate \<Rightarrow> ptr option" where
  "nvm_ctrl_from_dma handle s =
     (if handle \<noteq> NULL then do { d \<leftarrow> u_dmas s handle; m \<leftarrow> u_maps s (dc_map d); Some (dm_ctrl m) } else Some NULL)"

definition nvm_dma_va :: "ptr \<Rightarrow> ustate \<Rightarrow> ptr option" where
  "nvm_dma_va handle s =
     (if handle \<noteq> NULL
      then do { d \<leftarrow> u_dmas s handle; if dc_map d \<noteq> NULL then do { m \<leftarrow> u_maps s (dc_map d); Some (dm_va m) } else Some NULL }
      else Some NULL)"

section \<open>Memory from the system\<close>

definition create_mapping_descriptor :: "ustate uapi \<Rightarrow> u64 \<Rightarrow> mapping_type \<Rightarrow> u64 \<Rightarrow> u64 \<Rightarrow> ustate \<Rightarrow> (int + ptr) \<times> ustate" where
  "create_mapping_descriptor api ps ty buffer sz s =
     (let n_pages = NVM_PAGE_ALIGN sz ps div ps in
      if n_pages = 0 then (Inl EINVAL, s)
      else
        let md = malloc api s in
        if md = NULL then (Inl ENOMEM, s)
        else (Inr md, (take_mem K_va md s)\<lparr>u_vas := (u_vas s)(md \<mapsto> Mapping \<lparr>im_type = ty, im_buffer = buffer,
          im_range = \<lparr>va_remote = False, va_vaddr = buffer, va_page_size = ps, va_n_pages = n_pages\<rparr>,
          im_dmabuf_fd = 0, im_dmabuf_offset = 0\<rparr>)\<rparr>))"

text \<open>The common end of the mapping functions.\<close>

definition init_mapping :: "ustate uapi \<Rightarrow> ptr \<Rightarrow> ptr \<Rightarrow> ustate \<Rightarrow> ((int + ptr) \<times> ustate) option" where
  "init_mapping api ctrl md s = do {
     (r, s) \<leftarrow> nvm_dma_init api ctrl md Release_mapping_descriptor s;
     case r of
       Inl err \<Rightarrow> do { s \<leftarrow> remove_mapping_descriptor md s; Some (Inl err, s) }
     | Inr h \<Rightarrow> Some (Inr h, s) }"

definition nvm_dma_create :: "ustate uapi \<Rightarrow> ptr \<Rightarrow> u64 \<Rightarrow> ustate \<Rightarrow> ((int + ptr) \<times> ustate) option" where
  "nvm_dma_create api ctrl sz s = do {
     c \<leftarrow> u_ctrls s ctrl;
     let sz = NVM_PAGE_ALIGN sz (page_size (c_handle c));
     if sz = 0 then Some (Inl EINVAL, s)
     else if c_type c \<noteq> DEVICE_TYPE_IOCTL then Some (Inl EBADF, s)
     else
       let (err, buffer) = posix_memalign api s (page_size (c_handle c)) sz in
       if err \<noteq> 0 then Some (Inl err, s)
       else
         let s = s\<lparr>u_bufs := buffer # u_bufs s\<rparr>;
             (r, s) = create_mapping_descriptor api (page_size (c_handle c)) MAP_TYPE_API buffer sz s
         in case r of
              Inl err \<Rightarrow> do { s \<leftarrow> free_buf buffer s; Some (Inl err, s) }
            | Inr md \<Rightarrow> init_mapping api ctrl md s }"

definition nvm_dma_map_host :: "ustate uapi \<Rightarrow> ptr \<Rightarrow> u64 \<Rightarrow> u64 \<Rightarrow> ustate \<Rightarrow> ((int + ptr) \<times> ustate) option" where
  "nvm_dma_map_host api ctrl vaddr sz s = do {
     c \<leftarrow> u_ctrls s ctrl;
     let sz = NVM_PAGE_ALIGN sz (page_size (c_handle c));
     if sz = 0 then Some (Inl EINVAL, s)
     else if c_type c \<noteq> DEVICE_TYPE_IOCTL then Some (Inl EBADF, s)
     else
       let (r, s) = create_mapping_descriptor api (page_size (c_handle c)) MAP_TYPE_HOST vaddr sz s
       in case r of
            Inl err \<Rightarrow> Some (Inl err, s)
          | Inr md \<Rightarrow> init_mapping api ctrl md s }"

text \<open>
  The HIP path: the range must lie within the allocation that holds it, on page boundaries; it is
  exported as a DMA-buf, whose descriptor is closed again once the kernel holds its own reference.
  \<open>Inr\<close> is the page-aligned size.
\<close>

definition hip_check :: "ustate uapi \<Rightarrow> u64 \<Rightarrow> u64 \<Rightarrow> int + u64" where
  "hip_check api devptr sz =
     (let hps = sc_pagesize api in
      if sz = 0 then Inl EINVAL
      else if sint hps \<le> 0 then Inl EINVAL
      else if \<not> hip_device_memory api devptr then Inl EIO
      else case hip_address_range api devptr of
          None \<Rightarrow> Inl EIO
        | Some (base, alloc_size) \<Rightarrow>
            let offset_in_alloc = devptr - base in
            if sz > - 1 - hps then Inl EINVAL
            else
              let aligned_size = (sz + hps - 1) AND NOT (hps - 1) in
              if devptr < base \<or> offset_in_alloc > alloc_size \<or> aligned_size > alloc_size - offset_in_alloc then Inl EIO
              else if devptr mod hps \<noteq> 0 then Inl EINVAL
              else Inr aligned_size)"

definition hip_map_device :: "ustate uapi \<Rightarrow> ptr \<Rightarrow> u64 \<Rightarrow> u64 \<Rightarrow> ustate \<Rightarrow> ((int + ptr) \<times> ustate) option" where
  "hip_map_device api ctrl devptr sz s = (case hip_check api devptr sz of
     Inl err \<Rightarrow> Some (Inl err, s)
   | Inr aligned_size \<Rightarrow>
       let (ok, fd, offset) = hsa_export_dmabuf api s devptr aligned_size in
       if \<not> ok \<or> fd < 0 then Some (Inl EIO, s)
       else
         let s = ulog [U_export_dmabuf fd] s in
         if offset mod sc_pagesize api \<noteq> 0 then Some (Inl EINVAL, ulog [U_close_dmabuf fd] s)
         else
           let (r, s) = create_mapping_descriptor api (sc_pagesize api) MAP_TYPE_DMABUF devptr sz s in
           case r of
             Inl err \<Rightarrow> Some (Inl err, ulog [U_close_dmabuf fd] s)
           | Inr md \<Rightarrow> do {
               v \<leftarrow> u_vas s md;
               m \<leftarrow> (case v of Mapping m \<Rightarrow> Some m | Plain_range _ \<Rightarrow> None);
               let s = s\<lparr>u_vas := (u_vas s)(md \<mapsto> Mapping (m\<lparr>im_dmabuf_fd := fd, im_dmabuf_offset := offset\<rparr>))\<rparr>;
               (r, s) \<leftarrow> init_mapping api ctrl md s;
               Some (r, ulog [U_close_dmabuf fd] s) })"

definition nvm_dma_map_device :: "ustate uapi \<Rightarrow> ptr \<Rightarrow> u64 \<Rightarrow> u64 \<Rightarrow> ustate \<Rightarrow> ((int + ptr) \<times> ustate) option" where
  "nvm_dma_map_device api ctrl devptr sz s = do {
     c \<leftarrow> u_ctrls s ctrl;
     if c_type c \<noteq> DEVICE_TYPE_IOCTL then Some (Inl EBADF, s)
     else case backend api of
         HIP_backend \<Rightarrow> hip_map_device api ctrl devptr sz s
       | CUDA_backend \<Rightarrow>
           let (r, s) = create_mapping_descriptor api (2 ^ 16) MAP_TYPE_CUDA devptr sz s in
           (case r of
              Inl err \<Rightarrow> Some (Inl err, s)
            | Inr md \<Rightarrow> init_mapping api ctrl md s)
       | No_backend \<Rightarrow> Some (Inl ENOTSUP, s) }"

end
