(* ===== verification/Nvm_Ring.thy ===== *)
theory Nvm_Ring
  imports Nvm_Queue
begin

text \<open>
  What the rings of \<open>nvm_queue.h\<close> implement. A submission queue whose size is a power of two refines
  a bounded first-in first-out queue of slots; the completion queue with its phase tag hands every
  completion the controller posts to the host exactly once and in order.
\<close>

section \<open>The bounded queue interface\<close>

locale bounded_fifo =
  fixes wf :: "'q \<Rightarrow> bool"
    and slots :: "'q \<Rightarrow> nat list"
    and cap :: "'q \<Rightarrow> nat"
    and enq :: "'q \<Rightarrow> nat option \<times> 'q"
    and deq :: "'q \<Rightarrow> 'q"
  assumes slots_distinct: "wf q \<Longrightarrow> distinct (slots q)"
    and slots_bound: "wf q \<Longrightarrow> length (slots q) \<le> cap q"
    and enq_full: "wf q \<Longrightarrow> length (slots q) = cap q \<Longrightarrow> enq q = (None, q)"
    and enq_room: "wf q \<Longrightarrow> length (slots q) < cap q \<Longrightarrow>
      \<exists>i q'. enq q = (Some i, q') \<and> i \<notin> set (slots q) \<and> slots q' = slots q @ [i] \<and> wf q' \<and> cap q' = cap q"
    and deq_first: "wf q \<Longrightarrow> slots q \<noteq> [] \<Longrightarrow> slots (deq q) = tl (slots q) \<and> wf (deq q) \<and> cap (deq q) = cap q"
begin

lemma enq_cases:
  assumes "wf q" "enq q = (r, q')"
  obtains (full) "r = None" "q' = q" "length (slots q) = cap q"
  | (room) i where "r = Some i" "length (slots q) < cap q" "i \<notin> set (slots q)" "slots q' = slots q @ [i]" "wf q'" "cap q' = cap q"
proof (cases "length (slots q) = cap q")
  case True
  then show ?thesis using enq_full [OF assms(1)] assms(2) full by simp
next
  case False
  with slots_bound [OF assms(1)] have "length (slots q) < cap q" by simp
  with enq_room [OF assms(1) this] assms(2) room show ?thesis by auto
qed

text \<open>One command at a time: on an empty queue a slot is always available, and it is free again afterwards.\<close>

lemma one_at_a_time:
  assumes "wf q" "slots q = []" "0 < cap q"
  shows "\<exists>i q'. enq q = (Some i, q') \<and> wf q' \<and> wf (deq q') \<and> slots (deq q') = [] \<and> cap (deq q') = cap q"
proof -
  from enq_room [OF assms(1)] assms(2,3) obtain i q' where
    q': "enq q = (Some i, q')" "slots q' = [i]" "wf q'" "cap q' = cap q" by auto
  with deq_first [of q'] show ?thesis by auto
qed

end

section \<open>Submission queues\<close>

text \<open>Occupancy of a ring of \<open>n\<close> slots with the given head and tail indices.\<close>

definition occ :: "nat \<Rightarrow> nat \<Rightarrow> nat \<Rightarrow> nat" where
  "occ n h t = (t + n - h) mod n"

lemma occ_cases:
  assumes "h < n" "t < n"
  shows "occ n h t = (if h \<le> t then t - h else t + n - h)"
proof (cases "h \<le> t")
  case True
  then have "t + n - h = t - h + n" by simp
  then show ?thesis using True assms by (simp only: occ_def mod_add_self2) simp
next
  case False
  then show ?thesis using assms by (simp add: occ_def)
qed

lemma wrap_inc: "i < n \<Longrightarrow> (i + 1) mod n = (if i + 1 = n then 0 else i + 1)" for i :: nat
  by auto

lemma occ_inc_tail: "h < n \<Longrightarrow> t < n \<Longrightarrow> occ n h t < n - 1 \<Longrightarrow> occ n h ((t + 1) mod n) = occ n h t + 1"
  by (simp only: wrap_inc) (auto simp: occ_cases split: if_splits)

lemma occ_inc_head: "h < n \<Longrightarrow> t < n \<Longrightarrow> 0 < occ n h t \<Longrightarrow> occ n ((h + 1) mod n) t = occ n h t - 1"
  by (simp only: wrap_inc) (auto simp: occ_cases split: if_splits)

lemma occ_tail: "h < n \<Longrightarrow> t < n \<Longrightarrow> (h + occ n h t) mod n = t"
  by (auto simp: occ_cases)

lemma wrap_inj:
  assumes "(h + i) mod n = (h + j) mod n" "i \<le> j" "j < n"
  shows "i = (j :: nat)"
proof -
  have "n dvd (h + j) - (h + i)" using assms(1,2) by (simp only: mod_eq_dvd_iff_nat [symmetric] add_le_cancel_left)
  then have "n dvd j - i" by simp
  with assms(2,3) show ?thesis using nat_dvd_not_less [of "j - i" n] by fastforce
qed

lemma occ_distinct: "k < n \<Longrightarrow> distinct (map (\<lambda>i. (h + i) mod n) [0..<k])" for n :: nat
  by (auto simp: distinct_map inj_on_def) (metis wrap_inj less_trans nat_le_linear)

definition sq_wf :: "nvm_queue \<Rightarrow> bool" where
  "sq_wf q \<longleftrightarrow> (\<exists>k. 1 \<le> k \<and> k \<le> 16 \<and> unat (qs q) = 2 ^ k) \<and> head q < qs q \<and> tail q < qs q \<and> db q \<noteq> 0"

definition pending :: "nvm_queue \<Rightarrow> nat" where
  "pending q = occ (unat (qs q)) (unat (head q)) (unat (tail q))"

definition sq_slots :: "nvm_queue \<Rightarrow> nat list" where
  "sq_slots q = map (\<lambda>i. (unat (head q) + i) mod unat (qs q)) [0..<pending q]"

definition sq_cap :: "nvm_queue \<Rightarrow> nat" where
  "sq_cap q = unat (qs q) - 1"

definition sq_enq :: "nvm_queue \<Rightarrow> nat option \<times> nvm_queue" where
  "sq_enq q = (let (r, q) = nvm_sq_enqueue q in (map_option unat r, q))"

lemma sq_wfD:
  assumes "sq_wf q"
  shows "2 \<le> unat (qs q)" "unat (qs q) \<le> 65536" "unat (head q) < unat (qs q)" "unat (tail q) < unat (qs q)" "db q \<noteq> 0"
proof -
  from assms obtain k where k: "1 \<le> k" "k \<le> 16" "unat (qs q) = 2 ^ k" by (auto simp: sq_wf_def)
  have "(2::nat) ^ 1 \<le> 2 ^ k" "(2::nat) ^ k \<le> 2 ^ 16" using k by (intro power_increasing; simp)+
  then show "2 \<le> unat (qs q)" "unat (qs q) \<le> 65536" using k(3) by simp_all
  show "unat (head q) < unat (qs q)" "unat (tail q) < unat (qs q)" "db q \<noteq> 0"
    using assms by (simp_all add: sq_wf_def word_less_nat_alt)
qed

lemma pending_less: "sq_wf q \<Longrightarrow> pending q < unat (qs q)"
  using sq_wfD(1) [of q] by (simp add: pending_def occ_def)

text \<open>The 16-bit subtraction of the full test is exact because the size is a power of two.\<close>

lemma mod_pow2_cancel: "k \<le> n \<Longrightarrow> a mod 2 ^ n mod 2 ^ k = a mod (2 ^ k :: nat)"
  by (simp add: mod_mod_cancel le_imp_power_dvd)

lemma diff_mod_pow2:
  assumes "h < 2 ^ k" "t < 2 ^ k" "k \<le> 16" "unat x = h" "unat y = t"
  shows "unat (y - x :: u32) mod 2 ^ 16 mod 2 ^ k = (t + 2 ^ k - h) mod (2 ^ k :: nat)"
proof -
  have le: "(2::nat) ^ k \<le> 2 ^ 16" using assms(3) by (intro power_increasing) auto
  obtain m where m: "(2::nat) ^ 32 = 2 ^ k * Suc m"
  proof
    have "(2::nat) ^ 32 = 2 ^ k * 2 ^ (32 - k)" using assms(3) by (subst power_add [symmetric]) simp
    then show "(2::nat) ^ 32 = 2 ^ k * Suc (2 ^ (32 - k) - 1)" by simp
  qed
  have big: "t < 2 ^ 32" "h < 2 ^ 32" using assms(1,2) le by simp_all
  have u: "unat (y - x) = (t + (2 ^ 32 - h)) mod 2 ^ 32"
  proof (cases "h \<le> t")
    case True
    then have "t + (2 ^ 32 - h) = t - h + 2 ^ 32" using big by simp
    then show ?thesis using True big assms(4,5) by (simp only: unat_sub_if' mod_add_self2) simp
  next
    case False
    then show ?thesis using big assms(4,5) by (simp add: unat_sub_if')
  qed
  have "unat (y - x) mod 2 ^ 16 mod 2 ^ k = (t + (2 ^ 32 - h)) mod 2 ^ 32 mod 2 ^ 16 mod 2 ^ k" by (simp only: u)
  also have "\<dots> = (t + (2 ^ 32 - h)) mod 2 ^ k"
    using mod_pow2_cancel [of 16 32 "t + (2 ^ 32 - h)"] mod_pow2_cancel [OF assms(3)] by simp
  also have "t + (2 ^ 32 - h) = t + 2 ^ k - h + 2 ^ k * m" unfolding m using assms(1) by simp
  finally show ?thesis by (simp only: mod_mult_self2)
qed

lemma full_test:
  assumes "sq_wf q"
  shows "ucast (ucast (tail q - head q) :: u16) mod qs q = qs q - 1 \<longleftrightarrow> pending q = unat (qs q) - 1"
proof -
  from assms obtain k where k: "k \<le> 16" "unat (qs q) = 2 ^ k" by (auto simp: sq_wf_def)
  have "unat (ucast (ucast (tail q - head q) :: u16) mod qs q :: u32) = unat (tail q - head q) mod 2 ^ 16 mod 2 ^ k"
    by (simp add: unat_mod k(2) unsigned_ucast_eq take_bit_eq_mod)
  also have "\<dots> = pending q"
    using diff_mod_pow2 [OF _ _ k(1) refl refl] sq_wfD(3,4) [OF assms] by (simp add: pending_def occ_def k(2))
  finally have "unat (ucast (ucast (tail q - head q) :: u16) mod qs q :: u32) = pending q" .
  moreover have "unat (qs q - 1) = unat (qs q) - 1"
    using sq_wfD(1) [OF assms] by (simp add: unat_sub word_le_nat_alt)
  ultimately show ?thesis by (simp flip: word_unat_eq_iff add: word_unat_eq_iff)
qed


lemma sq_enqueue_room:
  assumes wf: "sq_wf q" and room: "pending q < unat (qs q) - 1"
  shows "\<exists>q'. nvm_sq_enqueue q = (Some (tail q), q') \<and> sq_wf q' \<and> qs q' = qs q \<and> head q' = head q \<and>
    unat (tail q') = (unat (tail q) + 1) mod unat (qs q)"
proof -
  note D = sq_wfD [OF wf]
  have inc: "unat (tail q + 1) = unat (tail q) + 1" using D(2,4) by (simp add: unat_word_ariths)
  have "\<not> ucast (ucast (tail q - head q) :: u16) mod qs q = qs q - 1" using full_test [OF wf] room by simp
  moreover have "tail q + 1 = qs q \<longleftrightarrow> unat (tail q) + 1 = unat (qs q)" using inc by (simp add: word_unat_eq_iff)
  moreover have "0 < qs q" using D(1) by (simp add: word_less_nat_alt)
  ultimately show ?thesis
    using wf D(4) inc wrap_inc [OF D(4)] by (auto simp: nvm_sq_enqueue_def Let_def sq_wf_def word_less_nat_alt)
qed

lemma sq_update_first:
  assumes wf: "sq_wf q"
  shows "sq_wf (nvm_sq_update q) \<and> qs (nvm_sq_update q) = qs q \<and> tail (nvm_sq_update q) = tail q \<and>
    unat (head (nvm_sq_update q)) = (unat (head q) + 1) mod unat (qs q)"
proof -
  note D = sq_wfD [OF wf]
  have inc: "unat (head q + 1) = unat (head q) + 1" using D(2,3) by (simp add: unat_word_ariths)
  moreover have "head q + 1 = qs q \<longleftrightarrow> unat (head q) + 1 = unat (qs q)" using inc by (simp add: word_unat_eq_iff)
  moreover have "0 < qs q" using D(1) by (simp add: word_less_nat_alt)
  ultimately show ?thesis
    using wf D(3,5) wrap_inc [OF D(3)] by (auto simp: nvm_sq_update_def Let_def sq_wf_def word_less_nat_alt)
qed

interpretation sqf: bounded_fifo sq_wf sq_slots sq_cap sq_enq nvm_sq_update
proof unfold_locales
  fix q assume wf: "sq_wf q"
  note D = sq_wfD [OF wf]
  show "distinct (sq_slots q)" using occ_distinct [OF pending_less [OF wf]] by (simp add: sq_slots_def)
  show "length (sq_slots q) \<le> sq_cap q" using pending_less [OF wf] by (simp add: sq_slots_def sq_cap_def)
  show "sq_enq q = (None, q)" if "length (sq_slots q) = sq_cap q"
    using full_test [OF wf] that by (simp add: sq_slots_def sq_cap_def sq_enq_def nvm_sq_enqueue_def)
  show "\<exists>i q'. sq_enq q = (Some i, q') \<and> i \<notin> set (sq_slots q) \<and> sq_slots q' = sq_slots q @ [i] \<and> sq_wf q' \<and> sq_cap q' = sq_cap q"
    if "length (sq_slots q) < sq_cap q"
  proof -
    have room: "pending q < unat (qs q) - 1" using that by (simp add: sq_slots_def sq_cap_def)
    from sq_enqueue_room [OF wf this] obtain q' where q': "nvm_sq_enqueue q = (Some (tail q), q')" "sq_wf q'"
      "qs q' = qs q" "head q' = head q" "unat (tail q') = (unat (tail q) + 1) mod unat (qs q)" by blast
    have "pending q' = pending q + 1"
      using occ_inc_tail [OF D(3,4)] room q'(3-5) by (simp add: pending_def)
    then have sl: "sq_slots q' = sq_slots q @ [unat (tail q)]"
      using occ_tail [OF D(3,4)] q'(3,4) by (simp add: sq_slots_def pending_def)
    moreover have "distinct (sq_slots q')" using occ_distinct [OF pending_less [OF q'(2)]] by (simp add: sq_slots_def)
    ultimately show ?thesis using q'(1-3) by (auto simp: sq_enq_def sq_cap_def)
  qed
  show "sq_slots (nvm_sq_update q) = tl (sq_slots q) \<and> sq_wf (nvm_sq_update q) \<and> sq_cap (nvm_sq_update q) = sq_cap q"
    if "sq_slots q \<noteq> []"
  proof -
    note u = sq_update_first [OF wf]
    have "0 < pending q" using that by (simp add: sq_slots_def)
    then have "pending (nvm_sq_update q) = pending q - 1"
      using occ_inc_head [OF D(3,4)] u by (simp add: pending_def)
    moreover have "((unat (head q) + 1) mod unat (qs q) + i) mod unat (qs q) = (unat (head q) + Suc i) mod unat (qs q)" for i
      by (simp add: mod_add_left_eq)
    moreover have "tl (map f [0..<n]) = map (\<lambda>i. f (Suc i)) [0..<n - 1]" for f :: "nat \<Rightarrow> nat" and n
      by (rule nth_equalityI) (simp_all add: nth_tl)
    ultimately show ?thesis using u by (simp add: sq_slots_def sq_cap_def)
  qed
qed


text \<open>
  C18. A submission queue whose size is a power of two is a bounded first-in first-out queue of slots:
  enqueueing returns no slot exactly when all but one of the entries are pending, and otherwise a slot
  that is not pending, which becomes the last pending one; advancing the head releases the first.
\<close>

theorem sq_refines_fifo:
  assumes "sq_wf q"
  shows "case nvm_sq_enqueue q of
      (None, q') \<Rightarrow> length (sq_slots q) = unat (qs q) - 1 \<and> q' = q
    | (Some i, q') \<Rightarrow> length (sq_slots q) < unat (qs q) - 1 \<and> unat i \<notin> set (sq_slots q) \<and>
        sq_slots q' = sq_slots q @ [unat i] \<and> sq_wf q' \<and>
        sq_slots (nvm_sq_update q') = tl (sq_slots q @ [unat i])"
proof -
  obtain r q' where e: "nvm_sq_enqueue q = (r, q')" by fastforce
  then have "sq_enq q = (map_option unat r, q')" by (simp add: sq_enq_def)
  from assms this show ?thesis
  proof (cases rule: sqf.enq_cases)
    case full
    then show ?thesis using e by (simp add: sq_cap_def)
  next
    case (room i)
    then show ?thesis using e sqf.deq_first [of q'] by (auto simp: sq_cap_def)
  qed
qed

definition example_queue :: nvm_queue where
  "example_queue = \<lparr>head_lock = 0, tail_lock = 0, head = 3, tail = 2, in_ticket = 0, cid_ticket = 0, q_no = 1, q_es = 64,
     qs = 4, phase = True, q_local = True, q_last = 0, db = 0x1008, q_vaddr = 0x5000, q_ioaddr = 0x9000\<rparr>"

lemma example_queue_wf: "sq_wf example_queue"
  by (auto simp: sq_wf_def example_queue_def intro!: exI [of _ 2])

theorem sq_refines_fifo_witness: "fst (nvm_sq_enqueue example_queue) = None \<and> length (sq_slots example_queue) = 3"
proof -
  have "length (sq_slots example_queue) = 3" by (simp add: sq_slots_def pending_def occ_def example_queue_def)
  moreover have "unat (qs example_queue) = 4" by (simp add: example_queue_def)
  ultimately show ?thesis using sq_refines_fifo [OF example_queue_wf] by (auto split: prod.splits option.splits)
qed

section \<open>Completion queues\<close>

text \<open>
  The queue together with a controller that follows the NVMe protocol: it writes completions to
  consecutive slots, inverting the phase tag on every pass, and does not write past the head the host
  has announced through the doorbell. \<open>posted\<close> and \<open>consumed\<close> record what was written and what the
  host took; \<open>announced\<close> counts the completions acknowledged by the last doorbell.
\<close>

record cq_system =
  host :: nvm_queue
  mem :: "nvm_cpl list"
  posted :: "nvm_cpl list"
  consumed :: "nvm_cpl list"
  announced :: nat

definition with_phase :: "bool \<Rightarrow> nvm_cpl \<Rightarrow> nvm_cpl" where
  "with_phase p c = c\<lparr>cpl_dw3 := (if p then set_bit 16 (cpl_dw3 c) else unset_bit 16 (cpl_dw3 c))\<rparr>"

definition phase_of :: "nvm_cpl \<Rightarrow> bool" where
  "phase_of c \<longleftrightarrow> bit (cpl_dw3 c) 16"

definition zero_cpl :: nvm_cpl where
  "zero_cpl = \<lparr>cpl_dw0 = 0, cpl_dw1 = 0, cpl_dw2 = 0, cpl_dw3 = 0\<rparr>"

lemma poll_phase: "RB (ucast (NVM_CPL_STATUS c)) 0 0 = 0 \<longleftrightarrow> \<not> phase_of c"
proof -
  have "RB (ucast (NVM_CPL_STATUS c)) 0 0 = (if phase_of c then 1 else 0)"
    by (rule bit_word_eqI) (auto simp: bit_RB NVM_CPL_STATUS_def phase_of_def bit_simps bit_1_iff)
  then show ?thesis by simp
qed

inductive cq_reach :: "nvm_queue \<Rightarrow> cq_system \<Rightarrow> bool" for q where
  init: "cq_reach q \<lparr>host = nvm_queue_reset q, mem = replicate (unat (qs q)) zero_cpl, posted = [], consumed = [], announced = 0\<rparr>"
| post: "cq_reach q s \<Longrightarrow> length (posted s) - announced s < unat (qs q) - 1 \<Longrightarrow>
    c' = with_phase (even (length (posted s) div unat (qs q))) c \<Longrightarrow>
    cq_reach q (s\<lparr>mem := (mem s)[length (posted s) mod unat (qs q) := c'], posted := posted s @ [c']\<rparr>)"
| dequeue: "cq_reach q s \<Longrightarrow> nvm_cq_dequeue (host s) (mem s) = Some (r, h) \<Longrightarrow>
    cq_reach q (s\<lparr>host := h, consumed := consumed s @ (case r of None \<Rightarrow> [] | Some c \<Rightarrow> [c])\<rparr>)"
| update: "cq_reach q s \<Longrightarrow> nvm_cq_update (host s) = (ring, h) \<Longrightarrow>
    cq_reach q (s\<lparr>host := h, announced := (case ring of None \<Rightarrow> announced s | Some _ \<Rightarrow> length (consumed s))\<rparr>)"


text \<open>
  The invariant, in terms of the number of completions posted and consumed. Position \<open>J\<close> counts slots
  from one ring size before the first completion, so that the memory always holds the positions from
  the number posted up to one ring size further.
\<close>

definition cq_mem_inv :: "nat \<Rightarrow> cq_system \<Rightarrow> bool" where
  "cq_mem_inv n s \<longleftrightarrow> length (mem s) = n \<and>
     (\<forall>J. length (posted s) \<le> J \<and> J < length (posted s) + n \<longrightarrow>
        phase_of (mem s ! (J mod n)) = odd (J div n) \<and> (n \<le> J \<longrightarrow> mem s ! (J mod n) = posted s ! (J - n)))"

definition cq_host_inv :: "nat \<Rightarrow> cq_system \<Rightarrow> bool" where
  "cq_host_inv n s \<longleftrightarrow> unat (qs (host s)) = n \<and> db (host s) \<noteq> 0 \<and>
     unat (head (host s)) = length (consumed s) mod n \<and> phase (host s) = even (length (consumed s) div n) \<and>
     unat (q_last (host s)) = announced s mod n"

definition cq_inv :: "nat \<Rightarrow> cq_system \<Rightarrow> bool" where
  "cq_inv n s \<longleftrightarrow> 2 \<le> n \<and> n \<le> 65536 \<and> cq_mem_inv n s \<and> cq_host_inv n s \<and>
     announced s \<le> length (consumed s) \<and> length (consumed s) \<le> length (posted s) \<and>
     length (posted s) - announced s < n \<and> consumed s = take (length (consumed s)) (posted s)"

lemma phase_of_with_phase [simp]: "phase_of (with_phase p c) = p"
  by (simp add: phase_of_def with_phase_def bit_simps)

lemma odd_lap: "0 < n \<Longrightarrow> odd ((a + n) div n) = even (a div n)" for a n :: nat
  by (simp add: div_add_self2)

lemma cq_mem_inv_post:
  assumes "cq_mem_inv n s" "0 < n" "c' = with_phase (even (length (posted s) div n)) c"
  shows "cq_mem_inv n (s\<lparr>mem := (mem s)[length (posted s) mod n := c'], posted := posted s @ [c']\<rparr>)"
proof -
  let ?N = "length (posted s)"
  have "phase_of ((mem s)[?N mod n := c'] ! (J mod n)) = odd (J div n) \<and>
      (n \<le> J \<longrightarrow> (mem s)[?N mod n := c'] ! (J mod n) = (posted s @ [c']) ! (J - n))"
    if J: "?N + 1 \<le> J" "J < ?N + 1 + n" for J
  proof (cases "J = ?N + n")
    case True
    then show ?thesis using assms odd_lap [of n ?N] by (simp add: cq_mem_inv_def)
  next
    case False
    then have "(?N + 0) mod n \<noteq> (?N + (J - ?N)) mod n" using J wrap_inj [of ?N 0 n "J - ?N"] by force
    then have "?N mod n \<noteq> J mod n" using J by simp
    with False J assms(1) show ?thesis by (auto simp: cq_mem_inv_def nth_append)
  qed
  then show ?thesis using assms(1) by (simp add: cq_mem_inv_def)
qed

lemma cq_dequeue_inv:
  assumes inv: "cq_inv n s"
  shows "\<exists>h. nvm_cq_dequeue (host s) (mem s) =
      Some (if length (consumed s) < length (posted s) then Some (posted s ! length (consumed s)) else None, h) \<and>
    cq_host_inv n (s\<lparr>host := h, consumed := take (length (consumed s) + 1) (posted s)\<rparr>)"
proof -
  let ?M = "length (consumed s)" and ?N = "length (posted s)" and ?h = "host s"
  have D: "2 \<le> n" "n \<le> 65536" "?M \<le> ?N" "?N \<le> ?M + n" "length (mem s) = n" "unat (qs ?h) = n"
    "unat (head ?h) = ?M mod n" "phase ?h = even (?M div n)" "db ?h \<noteq> 0" "unat (q_last ?h) = announced s mod n"
    using inv by (auto simp: cq_inv_def cq_mem_inv_def cq_host_inv_def)
  have lt: "?M mod n < n" using D(1) by simp
  have inc: "unat (head ?h + 1) = ?M mod n + 1" using D(2,7) lt by (simp add: unat_word_ariths)
  have wrap: "head ?h + 1 = qs ?h \<longleftrightarrow> Suc (?M mod n) = n" using inc D(6) by (simp add: word_unat_eq_iff)
  show ?thesis
  proof (cases "?M < ?N")
    case True
    then have c: "mem s ! (?M mod n) = posted s ! ?M" "phase_of (mem s ! (?M mod n)) = even (?M div n)"
      using inv D(1,4) odd_lap [of n ?M] unfolding cq_inv_def cq_mem_inv_def by (auto dest: spec [of _ "?M + n"])
    have t: "length (take (?M + 1) (posted s)) = ?M + 1" using True by simp
    show ?thesis using True D c inc wrap lt t
      by (auto simp: nvm_cq_dequeue_def nvm_cq_poll_def arr_get_def poll_phase Let_def cq_host_inv_def mod_Suc div_Suc)
  next
    case False
    then have "?N = ?M" "consumed s = posted s" using D(3) inv by (auto simp: cq_inv_def)
    moreover have "phase_of (mem s ! (?M mod n)) = odd (?M div n)"
      using inv D(1) calculation(1) unfolding cq_inv_def cq_mem_inv_def by (auto dest: spec [of _ ?M])
    ultimately show ?thesis using D lt
      by (auto simp: nvm_cq_dequeue_def nvm_cq_poll_def arr_get_def poll_phase cq_host_inv_def)
  qed
qed


lemma cq_reach_inv:
  assumes "cq_reach q s" "2 \<le> unat (qs q)" "unat (qs q) \<le> 65536" "db q \<noteq> 0"
  shows "cq_inv (unat (qs q)) s"
  using assms(1)
proof induction
  case init
  have "phase_of zero_cpl = False" by (simp add: phase_of_def zero_cpl_def)
  then show ?case using assms(2-) by (auto simp: cq_inv_def cq_mem_inv_def cq_host_inv_def nvm_queue_reset_def)
next
  case (post s c' c)
  then have "cq_mem_inv (unat (qs q)) (s\<lparr>mem := (mem s)[length (posted s) mod unat (qs q) := c'], posted := posted s @ [c']\<rparr>)"
    using assms(2) by (intro cq_mem_inv_post) (auto simp: cq_inv_def)
  with post show ?case by (auto simp: cq_inv_def cq_host_inv_def)
next
  case (dequeue s r h)
  from cq_dequeue_inv [OF dequeue.IH] dequeue.hyps obtain h' where
    h: "r = (if length (consumed s) < length (posted s) then Some (posted s ! length (consumed s)) else None)"
    "cq_host_inv (unat (qs q)) (s\<lparr>host := h, consumed := take (length (consumed s) + 1) (posted s)\<rparr>)" by auto
  moreover have "consumed s @ (case r of None \<Rightarrow> [] | Some c \<Rightarrow> [c]) = take (length (consumed s) + 1) (posted s)"
    using dequeue.IH h(1) by (auto simp: cq_inv_def take_Suc_conv_app_nth)
  ultimately show ?case using dequeue.IH by (auto simp: cq_inv_def cq_mem_inv_def min_def)
next
  case (update s ring h)
  then show ?case
    by (auto simp: cq_inv_def cq_mem_inv_def cq_host_inv_def nvm_cq_update_def split: if_splits)
qed

text \<open>
  C17. Completions are delivered exactly once and in order: whatever the interleaving of the controller
  posting completions, the host dequeuing and the host ringing the doorbell, what the host has consumed
  is always a prefix of what the controller posted; dequeuing never reads outside the queue memory, and
  it returns the oldest completion not yet consumed when there is one and nothing otherwise, so a stale
  entry of an earlier pass is never taken for a new one.
\<close>

theorem cq_exactly_once:
  assumes "cq_reach q s" "2 \<le> unat (qs q)" "unat (qs q) \<le> 65536" "db q \<noteq> 0"
  shows "consumed s = take (length (consumed s)) (posted s) \<and>
    (\<exists>h. nvm_cq_dequeue (host s) (mem s) =
       Some (if length (consumed s) < length (posted s) then Some (posted s ! length (consumed s)) else None, h))"
  using cq_reach_inv [OF assms] cq_dequeue_inv [OF cq_reach_inv [OF assms]] by (auto simp: cq_inv_def)

theorem cq_exactly_once_witness:
  "nvm_cq_dequeue (nvm_queue_reset example_queue) ((replicate 4 zero_cpl)[0 := with_phase True zero_cpl]) \<noteq> None"
proof -
  let ?s = "\<lparr>host = nvm_queue_reset example_queue, mem = replicate (unat (qs example_queue)) zero_cpl, posted = [], consumed = [], announced = 0\<rparr>"
  have "cq_reach example_queue (?s\<lparr>mem := (mem ?s)[length (posted ?s) mod unat (qs example_queue) := with_phase True zero_cpl],
      posted := posted ?s @ [with_phase True zero_cpl]\<rparr>)"
    by (rule cq_reach.post [OF cq_reach.init]) (simp_all add: example_queue_def)
  from cq_exactly_once [OF this] show ?thesis by (auto simp: example_queue_def nvm_queue_reset_def)
qed

section \<open>Waiting for completions\<close>

definition cq_wf :: "nvm_queue \<Rightarrow> bool" where
  "cq_wf q \<longleftrightarrow> head q < qs q \<and> qs q \<le> 0x10000"

text \<open>The memory of the completion queue that the device writes has room for the entries of the queue.\<close>

definition dev_ok :: "device \<Rightarrow> qpair \<Rightarrow> bool" where
  "dev_ok dev qp \<longleftrightarrow> cq_wf (cq qp) \<and> (\<forall>es. unat (qs (cq qp)) \<le> length (dev es))"

lemma cq_dequeue_wf:
  assumes "cq_wf q" "unat (qs q) \<le> length m"
  shows "\<exists>c q'. nvm_cq_dequeue q m = Some (c, q') \<and> cq_wf q' \<and> qs q' = qs q \<and> db q' = db q \<and> q_last q' = q_last q \<and>
    tail q' = tail q \<and> (c = None \<longrightarrow> q' = q)"
proof -
  have q: "unat (head q) < unat (qs q)" "unat (qs q) \<le> 65536"
    using assms(1) by (simp_all add: cq_wf_def word_less_nat_alt word_le_nat_alt)
  then have "unat (head q + 1) = unat (head q) + 1" by (simp add: unat_word_ariths)
  then have "head q + 1 \<noteq> qs q \<Longrightarrow> head q + 1 < qs q" using q(1) by (simp add: word_less_nat_alt word_unat_eq_iff)
  moreover have "0 < qs q" using q by (simp add: word_less_nat_alt)
  ultimately show ?thesis
    using assms q by (auto simp: nvm_cq_dequeue_def nvm_cq_poll_def arr_get_def cq_wf_def Let_def)
qed

lemma qp_dequeue_ok:
  assumes "dev_ok dev qp"
  shows "\<exists>c q'. qp_dequeue dev qp = Some (c, qp\<lparr>cq := q', events := events qp @ [Poll]\<rparr>) \<and> cq_wf q' \<and> qs q' = qs (cq qp) \<and>
    db q' = db (cq qp) \<and> q_last q' = q_last (cq qp) \<and> tail q' = tail (cq qp) \<and> (c = None \<longrightarrow> q' = cq qp)"
proof -
  from cq_dequeue_wf [of "cq qp" "dev (events qp)"] assms obtain c q' where
    "nvm_cq_dequeue (cq qp) (dev (events qp)) = Some (c, q')" "cq_wf q'" "qs q' = qs (cq qp)" "db q' = db (cq qp)"
    "q_last q' = q_last (cq qp)" "tail q' = tail (cq qp)" "c = None \<longrightarrow> q' = cq qp"
    unfolding dev_ok_def by blast
  then show ?thesis by (intro exI [of _ c] exI [of _ q']) (simp add: qp_dequeue_def)
qed

text \<open>What waiting may do to a queue pair: poll some number of times and take at most one completion.\<close>

definition polled :: "nat \<Rightarrow> nvm_cpl option \<Rightarrow> qpair \<Rightarrow> qpair \<Rightarrow> bool" where
  "polled n c qp qp' \<longleftrightarrow> (\<exists>q'. qp' = qp\<lparr>cq := q', events := events qp @ replicate n Poll\<rparr> \<and> cq_wf q' \<and> qs q' = qs (cq qp) \<and>
     db q' = db (cq qp) \<and> q_last q' = q_last (cq qp) \<and> tail q' = tail (cq qp) \<and> (c = None \<longrightarrow> q' = cq qp))"

lemma polled_one:
  assumes "dev_ok dev qp"
  obtains c qp' where "qp_dequeue dev qp = Some (c, qp')" "polled 1 c qp qp'" "dev_ok dev qp'"
proof -
  from qp_dequeue_ok [OF assms] obtain c q' where
    q': "qp_dequeue dev qp = Some (c, qp\<lparr>cq := q', events := events qp @ [Poll]\<rparr>)" "cq_wf q'" "qs q' = qs (cq qp)"
      "db q' = db (cq qp)" "q_last q' = q_last (cq qp)" "tail q' = tail (cq qp)" "c = None \<longrightarrow> q' = cq qp" by blast
  then have "polled 1 c qp (qp\<lparr>cq := q', events := events qp @ [Poll]\<rparr>)"
    unfolding polled_def by (intro exI [of _ q']) simp
  then show ?thesis using that [OF q'(1)] assms q'(2,3) by (simp add: dev_ok_def)
qed

lemma polled_trans: "polled m None qp qp' \<Longrightarrow> polled n c qp' qp'' \<Longrightarrow> polled (m + n) c qp qp''"
  by (auto simp: polled_def replicate_add)

lemma polled_dev_ok: "polled n c qp qp' \<Longrightarrow> dev_ok dev qp \<Longrightarrow> dev_ok dev qp'"
  by (auto simp: polled_def dev_ok_def)

lemma polled_refl: "cq_wf (cq qp) \<Longrightarrow> polled 0 c qp qp"
  by (auto simp: polled_def intro!: exI [of _ "cq qp"])

text \<open>Milliseconds covered by a number of nanoseconds, rounded up.\<close>

definition ms :: "u64 \<Rightarrow> nat" where
  "ms nsecs = (unat nsecs + 999999) div 1000000"

lemma ms_delay: "0 < nsecs \<Longrightarrow> ms nsecs = ms (nvm_delay_remain nsecs) + 1"
proof (cases "1000000 \<le> unat nsecs")
  case True
  then have "unat nsecs + 999999 = unat nsecs - 1000000 + 999999 + 1000000" by simp
  then show ?thesis unfolding ms_def unat_delay_remain by (simp only: div_add_self2)
next
  case False
  assume "0 < nsecs"
  then have "0 < unat nsecs" by (simp add: word_less_nat_alt)
  then have "(unat nsecs + 999999) div 1000000 = 1" using False by (intro div_nat_eqI) auto
  then show ?thesis using False by (simp add: ms_def unat_delay_remain)
qed

lemma dequeue_block_loop_ends:
  "dev_ok dev qp \<Longrightarrow> \<exists>c qp' n. dequeue_block_loop dev nsecs None qp = Some (c, qp') \<and> polled n c qp qp' \<and> n \<le> ms nsecs \<and>
     (c = None \<longrightarrow> n = ms nsecs)"
proof (induction "unat nsecs" arbitrary: nsecs qp rule: less_induct)
  case less
  show ?case
  proof (cases "0 < nsecs")
    case False
    then have "nsecs = 0" by (simp add: word_gt_0)
    then show ?thesis using polled_refl less.prems
      by (auto simp: dequeue_block_loop.simps [of _ 0] ms_def dev_ok_def intro!: exI [of _ 0])
  next
    case True
    from polled_one [OF less.prems] obtain c qp1 where
      c: "qp_dequeue dev qp = Some (c, qp1)" "polled 1 c qp qp1" "dev_ok dev qp1" .
    show ?thesis
    proof (cases c)
      case None
      from less.hyps [OF delay_remain_less [OF True] c(3)] obtain c' qp' n where
        r: "dequeue_block_loop dev (nvm_delay_remain nsecs) None qp1 = Some (c', qp')" "polled n c' qp1 qp'"
        "n \<le> ms (nvm_delay_remain nsecs)" "c' = None \<longrightarrow> n = ms (nvm_delay_remain nsecs)" by blast
      have "polled (1 + n) c' qp qp'" using polled_trans c(2) r(2) None by blast
      with c(1) r None True ms_delay [OF True] show ?thesis
        by (intro exI [of _ c'] exI [of _ qp'] exI [of _ "1 + n"]) (simp add: dequeue_block_loop.simps [of _ nsecs])
    next
      case (Some x)
      with c True ms_delay [OF True] show ?thesis
        by (intro exI [of _ c] exI [of _ qp1] exI [of _ 1]) (simp add: dequeue_block_loop.simps)
    qed
  qed
qed

lemma dequeue_block_ends:
  assumes "dev_ok dev qp"
  shows "\<exists>c qp' n. nvm_cq_dequeue_block dev time qp = Some (c, qp') \<and> polled n c qp qp' \<and> n \<le> ms (time * 1000000) + 1 \<and>
     (c = None \<longrightarrow> n = ms (time * 1000000) + 1)"
proof -
  from polled_one [OF assms] obtain c qp1 where
    c: "qp_dequeue dev qp = Some (c, qp1)" "polled 1 c qp qp1" "dev_ok dev qp1" .
  show ?thesis
  proof (cases c)
    case None
    from dequeue_block_loop_ends [OF c(3), of "time * 1000000"] obtain c' qp' n where
      r: "dequeue_block_loop dev (time * 1000000) None qp1 = Some (c', qp')" "polled n c' qp1 qp'"
      "n \<le> ms (time * 1000000)" "c' = None \<longrightarrow> n = ms (time * 1000000)" by blast
    have "polled (1 + n) c' qp qp'" using polled_trans c(2) r(2) None by blast
    with c(1) r None show ?thesis
      by (intro exI [of _ c'] exI [of _ qp'] exI [of _ "1 + n"]) (simp add: nvm_cq_dequeue_block_def)
  next
    case (Some x)
    with c show ?thesis
      by (intro exI [of _ c] exI [of _ qp1] exI [of _ 1]) (simp add: nvm_cq_dequeue_block_def dequeue_block_loop.simps)
  qed
qed

text \<open>
  C34. The blocking dequeue ends, whatever the controller does: it polls at most once per millisecond of
  the timeout and once more, takes at most one completion, and returns nothing only after all of these
  polls came back empty.
\<close>

theorem dequeue_block_terminates:
  assumes "dev_ok dev qp" "unat time * 1000000 < 2 ^ 64"
  shows "\<exists>c qp' n. nvm_cq_dequeue_block dev time qp = Some (c, qp') \<and> events qp' = events qp @ replicate n Poll \<and>
    n \<le> unat time + 1 \<and> (c = None \<longrightarrow> n = unat time + 1 \<and> cq qp' = cq qp)"
proof -
  have "unat (time * 1000000) = unat time * 1000000" using assms(2) by (simp add: unat_word_ariths)
  then have "ms (time * 1000000) = unat time" by (simp add: ms_def)
  with dequeue_block_ends [OF assms(1), of time] obtain c qp' n where
    "nvm_cq_dequeue_block dev time qp = Some (c, qp')" "polled n c qp qp'" "n \<le> unat time + 1" "c = None \<longrightarrow> n = unat time + 1"
    by auto
  then show ?thesis by (intro exI [of _ c] exI [of _ qp'] exI [of _ n]) (auto simp: polled_def)
qed

definition example_qpair :: qpair where
  "example_qpair = \<lparr>sq = example_queue, cq = example_queue, sq_mem = [], prp_mem = [], prp_ioaddr = 0, events = []\<rparr>"

theorem dequeue_block_terminates_witness:
  "\<exists>c qp'. nvm_cq_dequeue_block (\<lambda>_. replicate 4 zero_cpl) 5 example_qpair = Some (c, qp')"
  using dequeue_block_terminates [of "\<lambda>_. replicate 4 zero_cpl" example_qpair 5]
  by (auto simp: dev_ok_def cq_wf_def example_qpair_def example_queue_def)

end
