(* ===== verification/Lib_Reset.thy ===== *)
theory Lib_Reset
  imports Lib_State Nvm_Ring
begin

text \<open>
  Resetting the controller (\<open>nvm_raw_ctrl_reset\<close> of \<open>libnvm/ctrl.cpp\<close>). The registers the
  controller changes on its own are functions of the accesses made so far.
\<close>

section \<open>Definition\<close>

text \<open>Both wait loops: until \<open>CSTS.RDY\<close> has the wanted value, or the time is used up.\<close>

function rdy_wait :: "(reg_event list \<Rightarrow> u32) \<Rightarrow> u64 \<Rightarrow> u64 \<Rightarrow> reg_event list \<Rightarrow> int \<times> reg_event list" where
  "rdy_wait csts want remaining es =
     (let rdy = CSTS_RDY (csts es); es = es @ [R_CSTS] in
      if rdy \<noteq> want
      then if remaining = 0 then (ETIME, es) else rdy_wait csts want (nvm_delay_remain remaining) es
      else (0, es))"
  by pat_completeness auto
termination
  by (relation "measure (\<lambda>(_, _, remaining, _). unat remaining)") (auto simp: delay_remain_less word_neq_0_conv)

declare rdy_wait.simps [simp del]

definition encode_entry_size :: "u32 \<Rightarrow> u32" where
  "encode_entry_size es = nvm_b2log es"

definition aqa_value :: "nvm_ctrl \<Rightarrow> u32" where
  "aqa_value ctrl =
     (let cq_max_entries = ucast (page_size ctrl div 16 - 1);
          sq_max_entries = ucast (page_size ctrl div 64 - 1)
      in ucast (AQA_ACQS cq_max_entries OR AQA_ASQS sq_max_entries))"

definition cc_value :: "nvm_ctrl \<Rightarrow> u32" where
  "cc_value ctrl =
     (let cqes = encode_entry_size 16; sqes = encode_entry_size 64 in
      ucast (CC_IOCQES cqes OR CC_IOSQES sqes OR CC_MPS (nvm_b2log (ucast (drop_bit 12 (page_size ctrl)))) OR CC_CSS 0 OR CC_EN 1))"

definition nvm_raw_ctrl_reset ::
  "(reg_event list \<Rightarrow> u32) \<Rightarrow> (reg_event list \<Rightarrow> u32) \<Rightarrow> nvm_ctrl \<Rightarrow> u64 \<Rightarrow> u64 \<Rightarrow> reg_event list \<Rightarrow> int \<times> reg_event list" where
  "nvm_raw_ctrl_reset cc csts ctrl acq_addr asq_addr es =
     (let es = es @ [W_CC (cc es AND NOT 1)];
          timeout = timeout ctrl * 1000000;
          (err, es) = rdy_wait csts 0 (nvm_delay_remain timeout) es
      in if err \<noteq> 0 then (err, es)
         else
           let es = es @ [W_AQA (aqa_value ctrl), W_ACQ acq_addr, W_ASQ asq_addr, W_CC (cc_value ctrl)]
           in rdy_wait csts 1 (nvm_delay_remain timeout) es)"

section \<open>The protocol\<close>

lemma rdy_wait_ends:
  "\<exists>n. snd (rdy_wait csts want remaining es) = es @ replicate n R_CSTS \<and> 0 < n \<and> n \<le> ms remaining + 1 \<and>
     (fst (rdy_wait csts want remaining es) = 0 \<and> CSTS_RDY (csts (es @ replicate (n - 1) R_CSTS)) = want \<or>
      fst (rdy_wait csts want remaining es) = ETIME \<and> n = ms remaining + 1 \<and>
      (\<forall>i<n. CSTS_RDY (csts (es @ replicate i R_CSTS)) \<noteq> want))"
proof (induction csts want remaining es rule: rdy_wait.induct)
  case (1 csts want remaining es)
  consider "CSTS_RDY (csts es) = want" | "CSTS_RDY (csts es) \<noteq> want" "remaining = 0" | "CSTS_RDY (csts es) \<noteq> want" "remaining \<noteq> 0" by blast
  then show ?case
  proof cases
    case 1
    then show ?thesis by (intro exI [of _ 1]) (simp add: rdy_wait.simps)
  next
    case 2
    then show ?thesis by (intro exI [of _ 1]) (simp add: rdy_wait.simps ms_def)
  next
    case 3
    let ?es = "es @ [R_CSTS]" and ?r = "nvm_delay_remain remaining"
    from 1 [OF refl refl 3] obtain n where I: "snd (rdy_wait csts want ?r ?es) = ?es @ replicate n R_CSTS \<and> 0 < n \<and> n \<le> ms ?r + 1 \<and>
      (fst (rdy_wait csts want ?r ?es) = 0 \<and> CSTS_RDY (csts (?es @ replicate (n - 1) R_CSTS)) = want \<or>
       fst (rdy_wait csts want ?r ?es) = ETIME \<and> n = ms ?r + 1 \<and> (\<forall>i<n. CSTS_RDY (csts (?es @ replicate i R_CSTS)) \<noteq> want))" ..
    have step: "rdy_wait csts want remaining es = rdy_wait csts want ?r ?es" using 3 by (subst rdy_wait.simps) (simp add: Let_def)
    have m: "ms remaining = ms ?r + 1" using 3(2) by (intro ms_delay) (simp add: word_gt_0)
    have last: "?es @ replicate (n - 1) R_CSTS = es @ replicate (Suc n - 1) R_CSTS" using I by (cases n) simp_all
    have "CSTS_RDY (csts (es @ replicate i R_CSTS)) \<noteq> want"
      if "\<forall>i<n. CSTS_RDY (csts (?es @ replicate i R_CSTS)) \<noteq> want" "i < Suc n" for i
    proof (cases i)
      case 0
      then show ?thesis using 3(1) by simp
    next
      case (Suc j)
      then show ?thesis using that(2) that(1) [rule_format, of j] by simp
    qed
    then show ?thesis using I m unfolding step last by (intro exI [of _ "Suc n"]) auto
  qed
qed

text \<open>The values written, field by field, for the page sizes that the queue attributes can express.\<close>

lemma page_cases:
  assumes "page_size ctrl = 2 ^ (12 + k)" "k \<le> 4"
  obtains "k = 0" "page_size ctrl = 0x1000" | "k = 1" "page_size ctrl = 0x2000" | "k = 2" "page_size ctrl = 0x4000"
    | "k = 3" "page_size ctrl = 0x8000" | "k = 4" "page_size ctrl = 0x10000"
proof -
  consider "k = 0" | "k = 1" | "k = 2" | "k = 3" | "k = 4" using assms(2) by linarith
  then show thesis using assms(1) that by cases (simp_all add: numeral_eq_Suc)
qed

lemma b2log_values: "nvm_b2log 1 = 0" "nvm_b2log 2 = 1" "nvm_b2log 4 = 2" "nvm_b2log 8 = 3" "nvm_b2log 16 = 4" "nvm_b2log 64 = 6"
  by (simp_all add: nvm_b2log_def b2log_loop.simps)

lemma cc_fields:
  assumes "page_size ctrl = 2 ^ (12 + k)" "k \<le> 4"
  shows "RB (ucast (cc_value ctrl)) 23 20 = 4" "RB (ucast (cc_value ctrl)) 19 16 = 6" "RB (ucast (cc_value ctrl)) 10 7 = of_nat k"
    "RB (ucast (cc_value ctrl)) 3 1 = 0" "RB (ucast (cc_value ctrl)) 0 0 = 1"
  by (rule page_cases [OF assms];
      simp add: cc_value_def encode_entry_size_def b2log_values CC_IOCQES_def CC_IOSQES_def CC_MPS_def CC_CSS_def CC_EN_def WB_def RB_def
        NVM_MASK_PART_def NVM_MASK_def Let_def)+

lemma aqa_fields:
  assumes "page_size ctrl = 2 ^ (12 + k)" "k \<le> 4"
  shows "unat (RB (ucast (aqa_value ctrl)) 27 16) + 1 = unat (page_size ctrl) div 16" "unat (RB (ucast (aqa_value ctrl)) 11 0) + 1 = unat (page_size ctrl) div 64"
  by (rule page_cases [OF assms];
      simp add: aqa_value_def AQA_ACQS_def AQA_ASQS_def WB_def RB_def NVM_MASK_PART_def NVM_MASK_def Let_def)+

text \<open>
  C35. The reset follows the protocol of the specification: it always ends, after at most one status read
  per millisecond of the timeout and one more in each phase. It first clears the enable bit; the admin
  queue registers are written and the controller enabled only after a status read said not ready, and
  success is reported only after a later read said ready. Running out of time is \<open>ETIME\<close>. The values
  written describe queues of one page each, the entry sizes 16 and 64, and the page size.
\<close>

theorem reset_protocol:
  assumes "page_size ctrl = 2 ^ (12 + k)" "k \<le> 4"
  shows "\<exists>a b. let e1 = es @ [W_CC (cc es AND NOT 1)];
      e2 = e1 @ replicate a R_CSTS @ [W_AQA (aqa_value ctrl), W_ACQ acq, W_ASQ asq, W_CC (cc_value ctrl)];
      (r, es') = nvm_raw_ctrl_reset cc csts ctrl acq asq es in
    0 < a \<and> a \<le> ms (timeout ctrl * 1000000) + 1 \<and> b \<le> ms (timeout ctrl * 1000000) + 1 \<and>
    (r = 0 \<and> es' = e2 @ replicate b R_CSTS \<and> CSTS_RDY (csts (e1 @ replicate (a - 1) R_CSTS)) = 0 \<and>
       CSTS_RDY (csts (e2 @ replicate (b - 1) R_CSTS)) = 1 \<or>
     r = ETIME \<and> es' = e1 @ replicate a R_CSTS \<or>
     r = ETIME \<and> es' = e2 @ replicate b R_CSTS \<and> CSTS_RDY (csts (e1 @ replicate (a - 1) R_CSTS)) = 0) \<and>
    RB (ucast (cc_value ctrl)) 23 20 = 4 \<and> RB (ucast (cc_value ctrl)) 19 16 = 6 \<and> RB (ucast (cc_value ctrl)) 10 7 = of_nat k \<and>
    RB (ucast (cc_value ctrl)) 3 1 = 0 \<and> RB (ucast (cc_value ctrl)) 0 0 = 1 \<and>
    unat (RB (ucast (aqa_value ctrl)) 27 16) + 1 = unat (page_size ctrl) div 16 \<and>
    unat (RB (ucast (aqa_value ctrl)) 11 0) + 1 = unat (page_size ctrl) div 64"
proof -
  let ?t = "timeout ctrl * 1000000" and ?e1 = "es @ [W_CC (cc es AND NOT 1)]"
  let ?w = "[W_AQA (aqa_value ctrl), W_ACQ acq, W_ASQ asq, W_CC (cc_value ctrl)]"
  note f = cc_fields [OF assms] aqa_fields [OF assms]
  have le: "ms (nvm_delay_remain ?t) \<le> ms ?t" by (simp add: ms_def unat_delay_remain div_le_mono)
  obtain r1 f1 where w1: "rdy_wait csts 0 (nvm_delay_remain ?t) ?e1 = (r1, f1)" by fastforce
  from rdy_wait_ends [of csts 0 "nvm_delay_remain ?t" ?e1] obtain a where a: "f1 = ?e1 @ replicate a R_CSTS" "0 < a" "a \<le> ms ?t + 1"
    "r1 = 0 \<and> CSTS_RDY (csts (?e1 @ replicate (a - 1) R_CSTS)) = 0 \<or> r1 = ETIME" using w1 le by auto
  obtain r2 f2 where w2: "rdy_wait csts 1 (nvm_delay_remain ?t) (f1 @ ?w) = (r2, f2)" by fastforce
  from rdy_wait_ends [of csts 1 "nvm_delay_remain ?t" "f1 @ ?w"] obtain b where b: "f2 = (f1 @ ?w) @ replicate b R_CSTS" "b \<le> ms ?t + 1"
    "r2 = 0 \<and> CSTS_RDY (csts ((f1 @ ?w) @ replicate (b - 1) R_CSTS)) = 1 \<or> r2 = ETIME" using w2 le by auto
  have run: "nvm_raw_ctrl_reset cc csts ctrl acq asq es = (if r1 \<noteq> 0 then (r1, f1) else (r2, f2))"
    unfolding nvm_raw_ctrl_reset_def Let_def w1 prod.case w2 ..
  from a(4) show ?thesis
  proof
    assume "r1 = 0 \<and> CSTS_RDY (csts (?e1 @ replicate (a - 1) R_CSTS)) = 0"
    with b show ?thesis using a(2,3) f unfolding run a(1) by (intro exI [of _ a] exI [of _ b]) auto
  next
    assume "r1 = ETIME"
    then show ?thesis using a(2,3) f unfolding run a(1) by (intro exI [of _ a] exI [of _ 0]) simp
  qed
qed

definition example_ctrl :: nvm_ctrl where
  "example_ctrl = \<lparr>page_size = 0x1000, dstrd = 0, timeout = 500, max_qs = 1024, mm_size = 0x2000, mm_ptr = 0x7000\<rparr>"

theorem reset_protocol_witness:
  "\<exists>r es'. nvm_raw_ctrl_reset (\<lambda>_. 0) (\<lambda>es. of_nat (length es div 4)) example_ctrl 0x9000 0xa000 [] = (r, es') \<and> (r = 0 \<or> r = ETIME)"
proof -
  obtain r es' where run: "nvm_raw_ctrl_reset (\<lambda>_. 0) (\<lambda>es. of_nat (length es div 4)) example_ctrl 0x9000 0xa000 [] = (r, es')" by fastforce
  have "page_size example_ctrl = 2 ^ (12 + 0)" by (simp add: example_ctrl_def)
  from reset_protocol [OF this, of "[]" "\<lambda>_. 0" "0x9000" "0xa000" "\<lambda>es. of_nat (length es div 4)"] run show ?thesis
    by (auto simp: Let_def)
qed

end
