(* ===== verification/Nvm_Cmd.thy ===== *)
theory Nvm_Cmd
  imports Nvm_Queue
begin

text \<open>
  Building commands (\<open>include/libnvm/nvm_cmd.h\<close>): the header, data pointer and block fields of a
  64-byte command, and the physical region page (PRP) lists that describe larger transfers. What a
  command means is given by decoding it the way an NVMe controller does, which includes following the
  chain of PRP lists.
\<close>

section \<open>Opcodes\<close>

definition NVM_CMD_OPCODE :: "u64 \<Rightarrow> u64 \<Rightarrow> u64 \<Rightarrow> u64" where
  "NVM_CMD_OPCODE gen fn data = WB gen 7 7 OR WB fn 6 2 OR WB data 1 0"

definition NVM_IO_FLUSH :: u8 where "NVM_IO_FLUSH = ucast (NVM_CMD_OPCODE 0 0 0)"
definition NVM_IO_WRITE :: u8 where "NVM_IO_WRITE = ucast (NVM_CMD_OPCODE 0 0 1)"
definition NVM_IO_READ :: u8 where "NVM_IO_READ = ucast (NVM_CMD_OPCODE 0 0 2)"
definition NVM_IO_WRITE_ZEROES :: u8 where "NVM_IO_WRITE_ZEROES = ucast (NVM_CMD_OPCODE 0 2 0)"
definition NVM_ADMIN_DELETE_SQ :: u8 where "NVM_ADMIN_DELETE_SQ = ucast (NVM_CMD_OPCODE 0 0 0)"
definition NVM_ADMIN_CREATE_SQ :: u8 where "NVM_ADMIN_CREATE_SQ = ucast (NVM_CMD_OPCODE 0 0 1)"
definition NVM_ADMIN_GET_LOG_PAGE :: u8 where "NVM_ADMIN_GET_LOG_PAGE = ucast (NVM_CMD_OPCODE 0 0 2)"
definition NVM_ADMIN_DELETE_CQ :: u8 where "NVM_ADMIN_DELETE_CQ = ucast (NVM_CMD_OPCODE 0 1 0)"
definition NVM_ADMIN_CREATE_CQ :: u8 where "NVM_ADMIN_CREATE_CQ = ucast (NVM_CMD_OPCODE 0 1 1)"
definition NVM_ADMIN_IDENTIFY :: u8 where "NVM_ADMIN_IDENTIFY = ucast (NVM_CMD_OPCODE 0 1 2)"
definition NVM_ADMIN_ABORT :: u8 where "NVM_ADMIN_ABORT = ucast (NVM_CMD_OPCODE 0 2 0)"
definition NVM_ADMIN_SET_FEATURES :: u8 where "NVM_ADMIN_SET_FEATURES = ucast (NVM_CMD_OPCODE 0 2 1)"
definition NVM_ADMIN_GET_FEATURES :: u8 where "NVM_ADMIN_GET_FEATURES = ucast (NVM_CMD_OPCODE 0 2 2)"

section \<open>Command fields\<close>

definition zero_cmd :: nvm_cmd where
  "zero_cmd = replicate 16 0"

definition nvm_cmd_header :: "nvm_cmd \<Rightarrow> u16 \<Rightarrow> u8 \<Rightarrow> u32 \<Rightarrow> nvm_cmd" where
  "nvm_cmd_header cmd cid opcode ns_id =
     cmd[0 := push_bit 16 (ucast cid) OR (ucast opcode AND 0x7f), 1 := ns_id]"

definition nvm_cmd_data_ptr :: "nvm_cmd \<Rightarrow> u64 \<Rightarrow> u64 \<Rightarrow> nvm_cmd" where
  "nvm_cmd_data_ptr cmd prp1 prp2 =
     cmd[0 := cmd ! 0 AND NOT (push_bit 14 0x03 OR push_bit 8 0x03),
         6 := ucast prp1, 7 := ucast (drop_bit 32 prp1),
         8 := ucast prp2, 9 := ucast (drop_bit 32 prp2)]"

definition nvm_cmd_rw_blks :: "nvm_cmd \<Rightarrow> u64 \<Rightarrow> u16 \<Rightarrow> nvm_cmd" where
  "nvm_cmd_rw_blks cmd start_lba n_blks =
     cmd[10 := ucast start_lba, 11 := ucast (drop_bit 32 start_lba),
         12 := (cmd ! 12 AND 0xffff0000) OR ((ucast n_blks - 1) AND 0xffff)]"

text \<open>How a controller reads a command.\<close>

definition cmd_cid :: "nvm_cmd \<Rightarrow> u16" where
  "cmd_cid c = ucast (drop_bit 16 (c ! 0))"

definition cmd_opcode :: "nvm_cmd \<Rightarrow> u8" where
  "cmd_opcode c = ucast (c ! 0)"

definition cmd_nsid :: "nvm_cmd \<Rightarrow> u32" where
  "cmd_nsid c = c ! 1"

definition dwords :: "u32 \<Rightarrow> u32 \<Rightarrow> u64" where
  "dwords lo hi = ucast lo OR push_bit 32 (ucast hi)"

definition cmd_prp1 :: "nvm_cmd \<Rightarrow> u64" where
  "cmd_prp1 c = dwords (c ! 6) (c ! 7)"

definition cmd_prp2 :: "nvm_cmd \<Rightarrow> u64" where
  "cmd_prp2 c = dwords (c ! 8) (c ! 9)"

definition cmd_slba :: "nvm_cmd \<Rightarrow> u64" where
  "cmd_slba c = dwords (c ! 10) (c ! 11)"

definition cmd_nlb :: "nvm_cmd \<Rightarrow> nat" where
  "cmd_nlb c = unat (c ! 12 AND 0xffff) + 1"

lemma dwords_split [simp]: "dwords (ucast x) (ucast (drop_bit 32 x)) = x"
  by (rule bit_word_eqI) (auto simp: dwords_def bit_simps)

lemma length_cmd [simp]:
  "length zero_cmd = 16" "length (nvm_cmd_header cmd cid opc ns) = length cmd"
  "length (nvm_cmd_data_ptr cmd p1 p2) = length cmd" "length (nvm_cmd_rw_blks cmd lba n) = length cmd"
  by (simp_all add: zero_cmd_def nvm_cmd_header_def nvm_cmd_data_ptr_def nvm_cmd_rw_blks_def)

text \<open>Fields a builder does not touch, and the field it sets.\<close>

lemma cmd_nth:
  assumes "length cmd = 16"
  shows "i < 16 \<Longrightarrow> nvm_cmd_header cmd cid opc ns ! i =
      (if i = 0 then push_bit 16 (ucast cid) OR (ucast opc AND 0x7f) else if i = 1 then ns else cmd ! i)"
    and "i < 16 \<Longrightarrow> nvm_cmd_data_ptr cmd p1 p2 ! i =
      (if i = 0 then cmd ! 0 AND NOT (push_bit 14 0x03 OR push_bit 8 0x03) else if i = 6 then ucast p1
       else if i = 7 then ucast (drop_bit 32 p1) else if i = 8 then ucast p2
       else if i = 9 then ucast (drop_bit 32 p2) else cmd ! i)"
    and "i < 16 \<Longrightarrow> nvm_cmd_rw_blks cmd lba n ! i =
      (if i = 10 then ucast lba else if i = 11 then ucast (drop_bit 32 lba)
       else if i = 12 then (cmd ! 12 AND 0xffff0000) OR ((ucast n - 1) AND 0xffff) else cmd ! i)"
  using assms by (simp_all add: nvm_cmd_header_def nvm_cmd_data_ptr_def nvm_cmd_rw_blks_def nth_list_update)

lemma masks: "(0x7f :: u32) = mask 7" "(0x03 :: u32) = mask 2" "(0xffff :: u32) = mask 16" "(0xffff0000 :: u32) = NOT (mask 16)"
  by (simp_all add: mask_eq_exp_minus_1)

lemma header_word:
  fixes cid :: u16 and opc :: u8
  defines "w \<equiv> (push_bit 16 (ucast cid) OR (ucast opc AND 0x7f)) AND NOT (push_bit 14 0x03 OR push_bit 8 0x03) :: u32"
  shows "ucast (drop_bit 16 w) = cid" "opc < 0x80 \<Longrightarrow> ucast w = opc"
proof -
  show "ucast (drop_bit 16 w) = cid"
    unfolding w_def masks by (rule bit_word_eqI) (auto simp: bit_simps)
  assume "opc < 0x80"
  then have "unat opc < 2 ^ 7" by (simp add: word_less_nat_alt)
  then have "take_bit 7 opc = opc" by (simp add: word_unat_eq_iff unat_take_bit)
  then have "bit opc i \<Longrightarrow> i < 7" for i by (metis bit_take_bit_iff)
  then show "ucast w = opc"
    unfolding w_def masks by (intro bit_word_eqI) (auto simp: bit_simps)
qed

lemma nlb_word:
  fixes x :: u32 and n :: u16
  assumes "n \<noteq> 0"
  shows "unat ((x AND 0xffff0000 OR (ucast n - 1) AND 0xffff) AND 0xffff) + 1 = unat n"
proof -
  have "(x AND 0xffff0000 OR (ucast n - 1) AND 0xffff) AND 0xffff = take_bit 16 (ucast n - 1 :: u32)"
    unfolding masks by (rule bit_word_eqI) (auto simp: bit_simps)
  moreover have n: "unat (ucast n :: u32) = unat n" "0 < unat n" "unat n < 2 ^ 16"
    using assms unat_bound [of n] by (simp_all add: unsigned_ucast_eq take_bit_nat_eq_self unat_gt_0)
  then have "unat (ucast n - 1 :: u32) = unat n - 1" by (simp add: unat_sub word_le_nat_alt)
  ultimately show ?thesis using n by (simp add: unat_take_bit)
qed

text \<open>The command that the I/O path builds in a zeroed queue entry.\<close>

definition rw_command :: "u16 \<Rightarrow> u8 \<Rightarrow> u32 \<Rightarrow> u64 \<Rightarrow> u64 \<Rightarrow> u64 \<Rightarrow> u16 \<Rightarrow> nvm_cmd" where
  "rw_command cid opc ns p1 p2 lba n = nvm_cmd_rw_blks (nvm_cmd_data_ptr (nvm_cmd_header zero_cmd cid opc ns) p1 p2) lba n"

lemmas cmd_field_defs = cmd_cid_def cmd_opcode_def cmd_nsid_def cmd_prp1_def cmd_prp2_def cmd_slba_def cmd_nlb_def

lemma rw_command_nth:
  "length (rw_command cid opc ns p1 p2 lba n) = 16"
  "rw_command cid opc ns p1 p2 lba n ! 0 =
     (push_bit 16 (ucast cid) OR (ucast opc AND 0x7f)) AND NOT (push_bit 14 0x03 OR push_bit 8 0x03)"
  "rw_command cid opc ns p1 p2 lba n ! 1 = ns"
  "rw_command cid opc ns p1 p2 lba n ! 6 = ucast p1" "rw_command cid opc ns p1 p2 lba n ! 7 = ucast (drop_bit 32 p1)"
  "rw_command cid opc ns p1 p2 lba n ! 8 = ucast p2" "rw_command cid opc ns p1 p2 lba n ! 9 = ucast (drop_bit 32 p2)"
  "rw_command cid opc ns p1 p2 lba n ! 10 = ucast lba" "rw_command cid opc ns p1 p2 lba n ! 11 = ucast (drop_bit 32 lba)"
  "rw_command cid opc ns p1 p2 lba n ! 12 = (zero_cmd ! 12 AND 0xffff0000) OR ((ucast n - 1) AND 0xffff)"
  by (simp_all add: rw_command_def cmd_nth)

lemma rw_command_fields:
  "length (rw_command cid opc ns p1 p2 lba n) = 16" "cmd_cid (rw_command cid opc ns p1 p2 lba n) = cid"
  "opc < 0x80 \<Longrightarrow> cmd_opcode (rw_command cid opc ns p1 p2 lba n) = opc"
  "cmd_nsid (rw_command cid opc ns p1 p2 lba n) = ns"
  "cmd_prp1 (rw_command cid opc ns p1 p2 lba n) = p1" "cmd_prp2 (rw_command cid opc ns p1 p2 lba n) = p2"
  "cmd_slba (rw_command cid opc ns p1 p2 lba n) = lba"
  "n \<noteq> 0 \<Longrightarrow> cmd_nlb (rw_command cid opc ns p1 p2 lba n) = unat n"
  unfolding cmd_field_defs rw_command_nth by (rule refl header_word dwords_split nlb_word | assumption)+

text \<open>
  C31. A read or write command says what it was built from: decoding the command that the header, data
  pointer and block builders make from a zeroed entry gives back the command identifier, opcode,
  namespace, both data pointers, the first block and the number of blocks.
\<close>

theorem cmd_roundtrip:
  assumes "opc < 0x80" "n \<noteq> 0"
  shows "let c = nvm_cmd_rw_blks (nvm_cmd_data_ptr (nvm_cmd_header zero_cmd cid opc ns) p1 p2) lba n in
    length c = 16 \<and> cmd_cid c = cid \<and> cmd_opcode c = opc \<and> cmd_nsid c = ns \<and> cmd_prp1 c = p1 \<and> cmd_prp2 c = p2 \<and>
    cmd_slba c = lba \<and> cmd_nlb c = unat n"
  using rw_command_fields assms by (simp flip: rw_command_def)

theorem cmd_roundtrip_witness:
  "cmd_slba (nvm_cmd_rw_blks (nvm_cmd_data_ptr (nvm_cmd_header zero_cmd 5 2 1) 0x1000 0x2000) 0x123456789 8) = 0x123456789"
  using cmd_roundtrip [of 2 8 5 1 "0x1000" "0x2000" "0x123456789"] by (simp add: Let_def)

section \<open>PRP lists\<close>

record prp_list =
  p_vaddr :: u64
  p_local :: bool
  p_page_size :: u64
  p_ioaddr :: u64

text \<open>The memory of the lists: the entries of the page at a virtual address.\<close>

type_synonym prp_pages = "u64 \<rightharpoonup> u64 list"

definition nvm_prp_list :: "prp_list \<Rightarrow> u64 \<Rightarrow> u64 list \<Rightarrow> prp_pages \<Rightarrow> (u64 \<times> prp_pages) option" where
  "nvm_prp_list list n_pages ioaddrs m =
     (let n_prps = p_page_size list div 8 in
      if n_pages = 0 then Some (0, m)
      else do {
        let n_prps = (if n_pages > n_prps then n_prps - 1 else n_pages);
        entries \<leftarrow> m (p_vaddr list);
        addrs \<leftarrow> arr_prefix ioaddrs (unat n_prps);
        entries \<leftarrow> arr_store entries addrs;
        Some (n_prps, m(p_vaddr list \<mapsto> entries)) })"

text \<open>The loop of \<open>nvm_prp_list_chain\<close> over the lists after the first.\<close>

fun prp_chain_loop :: "prp_list \<Rightarrow> prp_list list \<Rightarrow> u64 \<Rightarrow> u64 \<Rightarrow> u64 \<Rightarrow> u64 list \<Rightarrow> prp_pages \<Rightarrow> (u64 \<times> prp_pages) option" where
  "prp_chain_loop prev [] list_prps n_prps n_pages ioaddrs m = Some (n_prps, m)"
| "prp_chain_loop prev (l # ls) list_prps n_prps n_pages ioaddrs m =
     (if n_prps < n_pages
      then do {
        entries \<leftarrow> m (p_vaddr prev);
        entries \<leftarrow> arr_set entries (unat list_prps) (p_ioaddr l);
        (list_prps, m) \<leftarrow> nvm_prp_list l (n_pages - n_prps) (drop (unat n_prps) ioaddrs) (m(p_vaddr prev \<mapsto> entries));
        prp_chain_loop l ls list_prps (n_prps + list_prps) n_pages ioaddrs m }
      else Some (n_prps, m))"

definition nvm_prp_list_chain :: "prp_list list \<Rightarrow> u64 \<Rightarrow> u64 list \<Rightarrow> prp_pages \<Rightarrow> (u64 \<times> prp_pages) option" where
  "nvm_prp_list_chain pls n_pages ioaddrs m = (case pls of
     [] \<Rightarrow> Some (0, m)
   | l # ls \<Rightarrow> do {
       (list_prps, m) \<leftarrow> nvm_prp_list l n_pages ioaddrs m;
       prp_chain_loop l ls list_prps list_prps n_pages ioaddrs m })"

definition nvm_cmd_data :: "nvm_cmd \<Rightarrow> prp_list list \<Rightarrow> u64 \<Rightarrow> u64 list \<Rightarrow> prp_pages \<Rightarrow> (u64 \<times> nvm_cmd \<times> prp_pages) option" where
  "nvm_cmd_data cmd pls n_pages ioaddrs m =
     (if n_pages = 0 then Some (0, cmd, m)
      else do {
        dptr0 \<leftarrow> arr_get ioaddrs 0;
        if n_pages > 2 \<and> pls \<noteq> []
        then do {
          (n, m) \<leftarrow> nvm_prp_list_chain pls (n_pages - 1) (drop 1 ioaddrs) m;
          Some (1 + n, nvm_cmd_data_ptr cmd dptr0 (p_ioaddr (hd pls)), m) }
        else if n_pages \<ge> 2
        then do {
          dptr1 \<leftarrow> arr_get ioaddrs 1;
          Some (2, nvm_cmd_data_ptr cmd dptr0 dptr1, m) }
        else Some (1, nvm_cmd_data_ptr cmd dptr0 0, m) })"

text \<open>
  How a controller follows the lists: a list page of \<open>e\<close> entries holds the addresses of the remaining
  pages, or all but the last entry does and the last entry is the address of the next list page.
\<close>

function prp_walk :: "nat \<Rightarrow> (u64 \<Rightarrow> u64 list option) \<Rightarrow> u64 \<Rightarrow> nat \<Rightarrow> u64 list option" where
  "prp_walk e page_at a n =
     (if e < 2 then None
      else do {
        entries \<leftarrow> page_at a;
        if n \<le> e then arr_prefix entries n
        else do {
          first \<leftarrow> arr_prefix entries (e - 1);
          next_list \<leftarrow> arr_get entries (e - 1);
          rest \<leftarrow> prp_walk e page_at next_list (n - (e - 1));
          Some (first @ rest) } })"
  by pat_completeness auto
termination
  by (relation "measure (\<lambda>(_, _, _, n). n)") auto

declare prp_walk.simps [simp del]

text \<open>The data pages of a command, as the controller finds them.\<close>

definition cmd_pages :: "nat \<Rightarrow> (u64 \<Rightarrow> u64 list option) \<Rightarrow> nvm_cmd \<Rightarrow> nat \<Rightarrow> u64 list option" where
  "cmd_pages e page_at c n =
     (if n \<le> 1 then Some [cmd_prp1 c]
      else if n = 2 then Some [cmd_prp1 c, cmd_prp2 c]
      else do { rest \<leftarrow> prp_walk e page_at (cmd_prp2 c) (n - 1); Some (cmd_prp1 c # rest) })"

section \<open>Building lists and following them\<close>

fun prp_cap :: "nat \<Rightarrow> prp_list list \<Rightarrow> nat" where
  "prp_cap e [] = 0"
| "prp_cap e [l] = e"
| "prp_cap e (l # ls) = (e - 1) + prp_cap e ls"

text \<open>Lists of one page size whose pages are distinct and hold that many entries.\<close>

definition prp_lists_ok :: "u64 \<Rightarrow> prp_list list \<Rightarrow> prp_pages \<Rightarrow> bool" where
  "prp_lists_ok ps ls m \<longleftrightarrow> 2 \<le> unat (ps div 8) \<and> distinct (map p_vaddr ls) \<and>
     (\<forall>l\<in>set ls. p_page_size l = ps \<and> (\<exists>es. m (p_vaddr l) = Some es \<and> length es = unat (ps div 8)))"

lemma prp_lists_ok_Cons:
  "prp_lists_ok ps (l # ls) m \<longleftrightarrow> p_vaddr l \<notin> p_vaddr ` set ls \<and> p_page_size l = ps \<and> 2 \<le> unat (ps div 8) \<and>
     (\<exists>es. m (p_vaddr l) = Some es \<and> length es = unat (ps div 8)) \<and> prp_lists_ok ps ls m"
  by (auto simp: prp_lists_ok_def)

lemma prp_lists_ok_upd: "v \<notin> p_vaddr ` set ls \<Longrightarrow> prp_lists_ok ps ls (m(v \<mapsto> x)) = prp_lists_ok ps ls m"
  unfolding prp_lists_ok_def by (metis (no_types, lifting) fun_upd_other imageI)

lemma prp_list_fill:
  assumes "p_page_size l = ps" "m (p_vaddr l) = Some es" "length es = unat (ps div 8)" "n \<noteq> 0" "2 \<le> unat (ps div 8)"
    and k: "k = (if unat n > unat (ps div 8) then unat (ps div 8) - 1 else unat n)" and "k \<le> length ios"
  shows "nvm_prp_list l n ios m = Some (of_nat k, m(p_vaddr l \<mapsto> take k ios @ drop k es))"
proof -
  let ?e = "ps div 8"
  have "1 \<le> ?e" using assms(5) by (simp add: word_le_nat_alt)
  then have "unat (?e - 1) = unat ?e - 1" by (simp add: unat_sub)
  then have w: "unat (if n > ?e then ?e - 1 else n) = k" using k by (simp add: word_less_nat_alt)
  have "k \<le> unat ?e" using k by auto
  moreover have "(if n > ?e then ?e - 1 else n) = of_nat k"
    using arg_cong [OF w, of "of_nat :: nat \<Rightarrow> u64"] by simp
  ultimately show ?thesis using w assms
    by (simp add: nvm_prp_list_def arr_prefix_def arr_store_def Let_def)
qed

lemma prp_walk_last:
  "2 \<le> e \<Longrightarrow> page_at a = Some es \<Longrightarrow> length es = e \<Longrightarrow> n \<le> e \<Longrightarrow> prp_walk e page_at a n = Some (take n es)"
  by (simp add: prp_walk.simps [of e] arr_prefix_def)

lemma prp_walk_next:
  assumes "2 \<le> e" "page_at a = Some es" "length es = e" "e < n" "prp_walk e page_at (es ! (e - 1)) (n - (e - 1)) = Some rest"
  shows "prp_walk e page_at a n = Some (take (e - 1) es @ rest)"
  using assms by (simp add: prp_walk.simps [of e _ a] arr_prefix_def arr_get_def)

lemma prp_chain_loop_walk:
  assumes "prp_lists_ok ps (prev # ls) m" "e = unat (ps div 8)" "m (p_vaddr prev) = Some es" "unat lp = e - 1"
    and "unat k < unat n" "unat n - unat k \<le> prp_cap e ls" "unat n \<le> length ios"
  shows "\<exists>m'. prp_chain_loop prev ls lp k n ios m = Some (n, m') \<and> m' (p_vaddr prev) = Some (es[e - 1 := p_ioaddr (hd ls)]) \<and>
    (\<forall>v. v \<notin> p_vaddr ` set (prev # ls) \<longrightarrow> m' v = m v) \<and>
    (\<forall>page_at. (\<forall>l\<in>set ls. page_at (p_ioaddr l) = m' (p_vaddr l)) \<longrightarrow>
       prp_walk e page_at (p_ioaddr (hd ls)) (unat n - unat k) = Some (take (unat n - unat k) (drop (unat k) ios)))"
  using assms
proof (induction ls arbitrary: prev m es lp k)
  case Nil
  then show ?case by simp
next
  case (Cons l ls)
  let ?r = "unat n - unat k" and ?es = "es[e - 1 := p_ioaddr l]"
  let ?m1 = "m(p_vaddr prev \<mapsto> ?es)"
  let ?k' = "if ?r > e then e - 1 else ?r"
  have e: "2 \<le> e" "length es = e" using Cons.prems(1-3) by (auto simp: prp_lists_ok_Cons)
  obtain esl where l: "m (p_vaddr l) = Some esl" "length esl = e" "p_page_size l = ps" "p_vaddr l \<noteq> p_vaddr prev"
    "p_vaddr prev \<notin> p_vaddr ` set (l # ls)" "p_vaddr l \<notin> p_vaddr ` set ls"
    using Cons.prems(1,2) by (auto simp: prp_lists_ok_Cons)
  have sub: "unat (n - k) = ?r" using Cons.prems(5) by (simp add: unat_sub word_le_nat_alt)
  let ?fill = "take ?k' (drop (unat k) ios) @ drop ?k' esl"
  let ?m2 = "?m1(p_vaddr l \<mapsto> ?fill)"
  have fill: "nvm_prp_list l (n - k) (drop (unat k) ios) ?m1 = Some (of_nat ?k', ?m2)"
    using l e(1) Cons.prems(2,5,7) sub by (intro prp_list_fill) (auto simp: unat_eq_zero [symmetric])
  have step: "prp_chain_loop prev (l # ls) lp k n ios m = prp_chain_loop l ls (of_nat ?k') (k + of_nat ?k') n ios ?m2"
    using fill Cons.prems(3,4,5) e by (simp add: arr_set_def word_less_nat_alt)
  have len: "length ?fill = e" using l(2) Cons.prems(7) by auto
  show ?case
  proof (cases "?r > e")
    case False
    then have "k + of_nat ?k' = n" using Cons.prems(5) by (simp add: of_nat_diff)
    then have "prp_chain_loop prev (l # ls) lp k n ios m = Some (n, ?m2)"
      unfolding step by (cases ls) simp_all
    moreover have "prp_walk e page_at (p_ioaddr l) ?r = Some (take ?r (drop (unat k) ios))"
      if "page_at (p_ioaddr l) = ?m2 (p_vaddr l)" for page_at
      using prp_walk_last [OF e(1) _ len, of page_at "p_ioaddr l" ?r] that False Cons.prems(7) by simp
    ultimately show ?thesis using l(4,5) by (intro exI [of _ ?m2]) auto
  next
    case True
    then obtain l2 ls2 where ls: "ls = l2 # ls2" using Cons.prems(6) by (cases ls) auto
    have k': "unat (k + of_nat ?k') = unat k + (e - 1)"
      using True Cons.prems(5) unat_bound [of n] by (simp add: unat_word_ariths unat_of_nat take_bit_nat_eq_self)
    have "prp_lists_ok ps ls ?m2"
      using Cons.prems(1) l(5,6) by (simp add: prp_lists_ok_Cons prp_lists_ok_upd)
    then have ok: "prp_lists_ok ps (l # ls) ?m2"
      using Cons.prems(1,2) l(3,6) len by (simp add: prp_lists_ok_Cons)
    have lp: "unat (of_nat ?k' :: u64) = e - 1"
      using True unat_bound [of n] by (simp add: unat_of_nat take_bit_nat_eq_self)
    have "unat (k + of_nat ?k') < unat n" "unat n - unat (k + of_nat ?k') \<le> prp_cap e ls"
      unfolding k' using True Cons.prems(6) e(1) ls by simp_all
    from Cons.IH [OF ok Cons.prems(2) _ lp this Cons.prems(7), of ?fill] obtain m' where
      m': "prp_chain_loop l ls (of_nat ?k') (k + of_nat ?k') n ios ?m2 = Some (n, m')"
      "m' (p_vaddr l) = Some (?fill[e - 1 := p_ioaddr (hd ls)])" "\<forall>v. v \<notin> p_vaddr ` set (l # ls) \<longrightarrow> m' v = ?m2 v"
      and walk: "\<And>page_at. \<forall>l\<in>set ls. page_at (p_ioaddr l) = m' (p_vaddr l) \<Longrightarrow>
        prp_walk e page_at (p_ioaddr (hd ls)) (?r - (e - 1)) = Some (take (?r - (e - 1)) (drop (unat k + (e - 1)) ios))"
      unfolding k' diff_diff_left [symmetric] by (metis fun_upd_same)
    have "prp_walk e page_at (p_ioaddr l) ?r = Some (take ?r (drop (unat k) ios))"
      if p: "\<forall>x\<in>set (l # ls). page_at (p_ioaddr x) = m' (p_vaddr x)" for page_at
    proof -
      have "prp_walk e page_at (p_ioaddr l) ?r =
          Some (take (e - 1) (?fill[e - 1 := p_ioaddr (hd ls)]) @ take (?r - (e - 1)) (drop (unat k + (e - 1)) ios))"
        using p m'(2) len True e(1) walk by (intro prp_walk_next) auto
      also have "take (e - 1) (?fill[e - 1 := p_ioaddr (hd ls)]) = take (e - 1) (drop (unat k) ios)"
        using True Cons.prems(7) by simp
      also have "drop (unat k + (e - 1)) ios = drop (e - 1) (drop (unat k) ios)" by (simp add: add.commute)
      also have "take (e - 1) (drop (unat k) ios) @ take (?r - (e - 1)) (drop (e - 1) (drop (unat k) ios)) = take ?r (drop (unat k) ios)"
        using take_add [of "e - 1" "?r - (e - 1)" "drop (unat k) ios"] True by simp
      finally show ?thesis .
    qed
    then show ?thesis using m' l(5) unfolding step by (intro exI [of _ m']) auto
  qed
qed


lemma prp_chain_walk:
  assumes "prp_lists_ok ps ls m" "0 < unat n" "unat n \<le> prp_cap (unat (ps div 8)) ls" "unat n \<le> length ios"
  shows "\<exists>m'. nvm_prp_list_chain ls n ios m = Some (n, m') \<and>
    (\<forall>page_at. (\<forall>l\<in>set ls. page_at (p_ioaddr l) = m' (p_vaddr l)) \<longrightarrow>
       prp_walk (unat (ps div 8)) page_at (p_ioaddr (hd ls)) (unat n) = Some (take (unat n) ios))"
proof -
  let ?e = "unat (ps div 8)" and ?n = "unat n"
  obtain l ls' where ls: "ls = l # ls'" using assms(2,3) by (cases ls) auto
  obtain es where l: "m (p_vaddr l) = Some es" "length es = ?e" "p_page_size l = ps" "2 \<le> ?e" "p_vaddr l \<notin> p_vaddr ` set ls'"
    "prp_lists_ok ps ls' m" using assms(1) by (auto simp: ls prp_lists_ok_Cons)
  let ?k = "if ?n > ?e then ?e - 1 else ?n"
  let ?fill = "take ?k ios @ drop ?k es"
  let ?m1 = "m(p_vaddr l \<mapsto> ?fill)"
  have fill: "nvm_prp_list l n ios m = Some (of_nat ?k, ?m1)"
    using l assms(2,4) by (intro prp_list_fill) (auto simp: unat_gt_0)
  have len: "length ?fill = ?e" using l(2) assms(4) by auto
  show ?thesis
  proof (cases "?n > ?e")
    case False
    then have "nvm_prp_list_chain ls n ios m = Some (n, ?m1)"
      using fill by (cases ls') (simp_all add: nvm_prp_list_chain_def ls)
    then show ?thesis using prp_walk_last [OF l(4) _ len] False assms(4) by (auto simp: ls)
  next
    case True
    then have ne: "ls' \<noteq> []" "?n - (?e - 1) \<le> prp_cap ?e ls'" using assms(3) ls by (cases ls'; simp)+
    have kw: "unat (of_nat ?k :: u64) = ?e - 1" using True unat_bound [of n] by (simp add: unat_of_nat take_bit_nat_eq_self)
    have "prp_lists_ok ps ls' ?m1" using l(5,6) by (simp add: prp_lists_ok_upd)
    then have ok: "prp_lists_ok ps (l # ls') ?m1" using l(3-5) len by (simp add: prp_lists_ok_Cons)
    have "unat (of_nat ?k :: u64) < ?n" "?n - unat (of_nat ?k :: u64) \<le> prp_cap ?e ls'" unfolding kw using True ne l(4) by simp_all
    from prp_chain_loop_walk [OF ok refl _ kw this assms(4), of ?fill] obtain m' where
      m': "prp_chain_loop l ls' (of_nat ?k) (of_nat ?k) n ios ?m1 = Some (n, m')" "m' (p_vaddr l) = Some (?fill[?e - 1 := p_ioaddr (hd ls')])"
      and walk: "\<And>page_at. \<forall>l\<in>set ls'. page_at (p_ioaddr l) = m' (p_vaddr l) \<Longrightarrow>
        prp_walk ?e page_at (p_ioaddr (hd ls')) (?n - (?e - 1)) = Some (take (?n - (?e - 1)) (drop (?e - 1) ios))"
      unfolding kw by (metis fun_upd_same)
    have "prp_walk ?e page_at (p_ioaddr l) ?n = Some (take ?n ios)"
      if p: "\<forall>x\<in>set ls. page_at (p_ioaddr x) = m' (p_vaddr x)" for page_at
    proof -
      have "prp_walk ?e page_at (p_ioaddr l) ?n =
          Some (take (?e - 1) (?fill[?e - 1 := p_ioaddr (hd ls')]) @ take (?n - (?e - 1)) (drop (?e - 1) ios))"
        using p m'(2) len True l(4) walk by (intro prp_walk_next) (auto simp: ls)
      also have "take (?e - 1) (?fill[?e - 1 := p_ioaddr (hd ls')]) = take (?e - 1) ios" using True assms(4) by simp
      also have "take (?e - 1) ios @ take (?n - (?e - 1)) (drop (?e - 1) ios) = take ?n ios"
        using take_add [of "?e - 1" "?n - (?e - 1)" ios] True by simp
      finally show ?thesis .
    qed
    then show ?thesis using fill m'(1) by (intro exI [of _ m']) (simp add: nvm_prp_list_chain_def ls)
  qed
qed

text \<open>
  C19. A controller that follows the data pointers finds exactly the pages of the transfer: for any
  number of pages that the given PRP lists can hold, \<open>nvm_cmd_data\<close> returns that all of them were used,
  does not run past a list page, and decoding the command and walking the chain of lists in the memory
  it has written yields the page addresses in order.
\<close>

theorem cmd_data_describes:
  assumes "prp_lists_ok ps ls m" "length cmd = 16" "0 < unat n" "unat n \<le> prp_cap (unat (ps div 8)) ls + 1" "unat n \<le> length ios"
  shows "\<exists>c m'. nvm_cmd_data cmd ls n ios m = Some (n, c, m') \<and>
    (\<forall>page_at. (\<forall>l\<in>set ls. page_at (p_ioaddr l) = m' (p_vaddr l)) \<longrightarrow>
       cmd_pages (unat (ps div 8)) page_at c (unat n) = Some (take (unat n) ios))"
proof -
  have prp: "cmd_prp1 (nvm_cmd_data_ptr cmd p1 p2) = p1" "cmd_prp2 (nvm_cmd_data_ptr cmd p1 p2) = p2" for p1 p2
    using assms(2) by (simp_all add: cmd_prp1_def cmd_prp2_def cmd_nth)
  consider "unat n = 1" | "unat n = 2" | "2 < unat n" using assms(3) by linarith
  then show ?thesis
  proof cases
    case 1
    then have n: "n = 1" by (simp add: word_unat_eq_iff)
    obtain a ios' where "ios = a # ios'" using assms(5) 1 by (cases ios) auto
    then show ?thesis using n by (simp add: nvm_cmd_data_def arr_get_def cmd_pages_def prp word_le_nat_alt)
  next
    case 2
    then have n: "n = 2" by (simp add: word_unat_eq_iff)
    obtain a b ios' where "ios = a # b # ios'" using assms(5) 2 by (cases ios; cases "tl ios") auto
    then show ?thesis using n by (simp add: nvm_cmd_data_def arr_get_def cmd_pages_def prp)
  next
    case 3
    then have ls: "ls \<noteq> []" using assms(4) by auto
    obtain a ios' where ios: "ios = a # ios'" using assms(5) 3 by (cases ios) auto
    have n1: "unat (n - 1) = unat n - 1" using 3 by (simp add: unat_sub word_le_nat_alt)
    have "0 < unat (n - 1)" "unat (n - 1) \<le> prp_cap (unat (ps div 8)) ls" "unat (n - 1) \<le> length ios'"
      unfolding n1 using 3 assms(4,5) ios by simp_all
    from prp_chain_walk [OF assms(1) this] obtain m' where m': "nvm_prp_list_chain ls (n - 1) ios' m = Some (n - 1, m')"
      "\<And>page_at. \<forall>l\<in>set ls. page_at (p_ioaddr l) = m' (p_vaddr l) \<Longrightarrow>
         prp_walk (unat (ps div 8)) page_at (p_ioaddr (hd ls)) (unat n - 1) = Some (take (unat n - 1) ios')"
      unfolding n1 by blast
    have "take (unat n) ios = a # take (unat n - 1) ios'" using 3 ios by (cases "unat n") simp_all
    with m' 3 ls ios show ?thesis
      by (auto simp: nvm_cmd_data_def arr_get_def cmd_pages_def prp word_less_nat_alt)
  qed
qed


theorem cmd_data_describes_witness:
  "\<exists>c m'. nvm_cmd_data zero_cmd [\<lparr>p_vaddr = 0x100, p_local = True, p_page_size = 16, p_ioaddr = 0x9000\<rparr>,
      \<lparr>p_vaddr = 0x200, p_local = True, p_page_size = 16, p_ioaddr = 0xa000\<rparr>] 4 [0x1000, 0x2000, 0x3000, 0x4000]
      [0x100 \<mapsto> [0, 0], 0x200 \<mapsto> [0, 0]] = Some (4, c, m')"
proof -
  have "prp_lists_ok 16 [\<lparr>p_vaddr = 0x100, p_local = True, p_page_size = 16, p_ioaddr = 0x9000\<rparr>,
      \<lparr>p_vaddr = 0x200, p_local = True, p_page_size = 16, p_ioaddr = 0xa000\<rparr>] [0x100 \<mapsto> [0, 0], 0x200 \<mapsto> [0, 0]]"
    by (simp add: prp_lists_ok_def)
  from cmd_data_describes [OF this, of zero_cmd 4 "[0x1000, 0x2000, 0x3000, 0x4000]"] show ?thesis by auto
qed

end
