(* ===== verification/Lib_Rpc.thy ===== *)
theory Lib_Rpc
  imports Lib_Dma Lib_Reset Nvm_Cmd
begin

text \<open>
  Admin queue references (\<open>libnvm/rpc.cpp\<close>): creation of the admin queues in a DMA window, execution
  of admin commands through the reference, the bindings of an RPC server, and release. A remote binding
  is code outside the repository; its stub is a parameter.
\<close>

section \<open>Executing commands\<close>

text \<open>The command identifier is the upper half of the first word (\<open>NVM_CMD_CID\<close>).\<close>

definition set_cid :: "nvm_cmd \<Rightarrow> u16 \<Rightarrow> nvm_cmd" where
  "set_cid cmd cid = cmd[0 := (cmd ! 0 AND 0xffff) OR push_bit 16 (ucast cid)]"

definition execute_command :: "device \<Rightarrow> local_admin \<Rightarrow> nvm_cmd \<Rightarrow> nvm_cpl \<Rightarrow> (int \<times> nvm_cpl \<times> local_admin) option" where
  "execute_command dev admin cmd cpl = (case nvm_sq_enqueue (sq (la_qp admin)) of
     (None, q) \<Rightarrow> Some (EAGAIN, cpl, admin)
   | (Some slot, q) \<Rightarrow> do {
       let qp = (la_qp admin)\<lparr>sq := q\<rparr>;
       m \<leftarrow> arr_set (sq_mem qp) (unat slot) (set_cid cmd (NVM_DEFAULT_CID q));
       let qp = qp_submit (qp\<lparr>sq_mem := m\<rparr>);
       (in_queue_cpl, qp) \<leftarrow> nvm_cq_dequeue_block dev (la_timeout admin) qp;
       case in_queue_cpl of
         None \<Rightarrow> Some (ETIME, cpl, admin\<lparr>la_qp := qp\<rparr>)
       | Some c \<Rightarrow> Some (0, c, admin\<lparr>la_qp := qp_cq_update (qp_sq_update qp)\<rparr>) })"

definition run_stub :: "ustate uapi \<Rightarrow> rpc_stub \<Rightarrow> ptr \<Rightarrow> nvm_cmd \<Rightarrow> nvm_cpl \<Rightarrow> ustate \<Rightarrow> ((int \<times> nvm_cpl) \<times> ustate) option" where
  "run_stub api stub data cmd cpl s = (case stub of
     Execute_command \<Rightarrow> do {
       admin \<leftarrow> u_admins s data;
       (err, cpl, admin) \<leftarrow> execute_command (admin_device api) admin cmd cpl;
       Some ((err, cpl), s\<lparr>u_admins := (u_admins s)(data \<mapsto> admin)\<rparr>) }
   | Remote_stub \<Rightarrow> let (err, c) = remote_stub api s data cmd in Some ((err, if err = 0 then c else cpl), s))"

definition nvm_raw_rpc :: "ustate uapi \<Rightarrow> ptr \<Rightarrow> nvm_cmd \<Rightarrow> nvm_cpl \<Rightarrow> ustate \<Rightarrow> ((int \<times> nvm_cpl) \<times> ustate) option" where
  "nvm_raw_rpc api r cmd cpl s = do {
     a \<leftarrow> u_refs s r;
     case ar_stub a of
       None \<Rightarrow> Some ((NVM_ERR_PACK None EINVAL, cpl), s)
     | Some stub \<Rightarrow> do {
         ((err, cpl), s) \<leftarrow> run_stub api stub (ar_data a) cmd cpl s;
         Some ((NVM_ERR_PACK (Some cpl) err, cpl), s) } }"

definition nvm_local_admin :: "ustate uapi \<Rightarrow> ptr \<Rightarrow> nvm_cmd \<Rightarrow> nvm_cpl \<Rightarrow> ustate \<Rightarrow> ((int \<times> nvm_cpl) \<times> ustate) option" where
  "nvm_local_admin api r cmd cpl s = do {
     a \<leftarrow> u_refs s r;
     if ar_stub a \<noteq> Some Execute_command then Some ((NVM_ERR_PACK None EINVAL, cpl), s)
     else do {
       ((err, cpl), s) \<leftarrow> run_stub api Execute_command (ar_data a) cmd cpl s;
       Some ((NVM_ERR_PACK None err, cpl), s) } }"

section \<open>Bindings of a server\<close>

text \<open>The walk along the list ends at a node with the same key, or appends the new one.\<close>

fun insert_walk :: "rpc_handle \<Rightarrow> rpc_handle list \<Rightarrow> rpc_handle list option" where
  "insert_walk h [] = Some [h]"
| "insert_walk h (cur # rest) =
     (if rh_key cur = rh_key h then None
      else case insert_walk h rest of None \<Rightarrow> None | Some hs \<Rightarrow> Some (cur # hs))"

definition nvm_rpc_handle_insert :: "ustate uapi \<Rightarrow> ptr \<Rightarrow> u32 \<Rightarrow> ptr \<Rightarrow> ustate \<Rightarrow> (int \<times> ustate) option" where
  "nvm_rpc_handle_insert api r key data s =
     (if data = NULL then Some (EINVAL, s)
      else
        let h = malloc api s in
        if h = NULL then Some (ENOMEM, s)
        else do {
          let s' = take_mem K_rpc h s;
          a \<leftarrow> u_refs s r;
          case insert_walk \<lparr>rh_addr = h, rh_key = key, rh_data = data\<rparr> (ar_handles a) of
            None \<Rightarrow> do { s' \<leftarrow> free_mem h s'; Some (EINVAL, s') }
          | Some hs \<Rightarrow> Some (0, s'\<lparr>u_refs := (u_refs s')(r \<mapsto> a\<lparr>ar_handles := hs\<rparr>)\<rparr>) })"

text \<open>
  Removal: when no node has the key the walk ends with a null \<open>curr\<close>, whose \<open>next\<close> is then read.
\<close>

fun remove_walk :: "u32 \<Rightarrow> rpc_handle list \<Rightarrow> (rpc_handle \<times> rpc_handle list) option" where
  "remove_walk key [] = None"
| "remove_walk key (cur # rest) =
     (if rh_key cur = key then Some (cur, rest)
      else case remove_walk key rest of None \<Rightarrow> None | Some (h, hs) \<Rightarrow> Some (h, cur # hs))"

definition nvm_rpc_handle_remove :: "ptr \<Rightarrow> u32 \<Rightarrow> ustate \<Rightarrow> ustate option" where
  "nvm_rpc_handle_remove r key s = do {
     a \<leftarrow> u_refs s r;
     (h, hs) \<leftarrow> remove_walk key (ar_handles a);
     free_mem (rh_addr h) (ulog [U_release_handle (rh_key h) (rh_data h)] (s\<lparr>u_refs := (u_refs s)(r \<mapsto> a\<lparr>ar_handles := hs\<rparr>)\<rparr>)) }"

fun release_handle_nodes :: "rpc_handle list \<Rightarrow> ustate \<Rightarrow> ustate option" where
  "release_handle_nodes [] s = Some s"
| "release_handle_nodes (h # hs) s = do {
     s \<leftarrow> free_mem (rh_addr h) (ulog [U_release_handle (rh_key h) (rh_data h)] s);
     release_handle_nodes hs s }"

definition release_handles :: "ptr \<Rightarrow> ustate \<Rightarrow> ustate option" where
  "release_handles r s =
     (if r \<noteq> NULL
      then do {
        a \<leftarrow> u_refs s r;
        s \<leftarrow> release_handle_nodes (ar_handles a) s;
        Some (s\<lparr>u_refs := (u_refs s)(r \<mapsto> a\<lparr>ar_handles := []\<rparr>)\<rparr>) }
      else Some s)"

definition nvm_rpc_bind :: "ptr \<Rightarrow> ptr \<Rightarrow> binding_free option \<Rightarrow> rpc_stub option \<Rightarrow> ustate \<Rightarrow> (int \<times> ustate) option" where
  "nvm_rpc_bind r data release stub s = do {
     a \<leftarrow> u_refs s r;
     if ar_data a \<noteq> NULL \<or> ar_stub a \<noteq> None then Some (EINVAL, s)
     else Some (0, s\<lparr>u_refs := (u_refs s)(r \<mapsto> a\<lparr>ar_data := data, ar_release := release, ar_stub := stub\<rparr>)\<rparr>) }"

section \<open>References\<close>

definition nvm_ref_get :: "ustate uapi \<Rightarrow> ptr \<Rightarrow> ustate \<Rightarrow> ((int + ptr) \<times> ustate) option" where
  "nvm_ref_get api ctrl s = do {
     (cref, s) \<leftarrow> nvm_ctrl_get ctrl s;
     if cref = NULL then Some (Inl ENOTTY, s)
     else
       let r = malloc api s in
       if r = NULL then do { s \<leftarrow> nvm_ctrl_put cref s; Some (Inl ENOMEM, s) }
       else
         let s = take_mem K_ref r s; err = mutex_init api s in
         if err \<noteq> 0 then do { s \<leftarrow> nvm_ctrl_put cref s; s \<leftarrow> free_mem r s; Some (Inl err, s) }
         else Some (Inr r, s\<lparr>u_refs := (u_refs s)(r \<mapsto>
           \<lparr>ar_ctrl = cref, ar_handles = [], ar_data = NULL, ar_release = None, ar_stub = None\<rparr>)\<rparr>) }"

definition remove_admin :: "ptr \<Rightarrow> ustate \<Rightarrow> ustate option" where
  "remove_admin admin s =
     (if admin \<noteq> NULL
      then do {
        a \<leftarrow> u_admins s admin;
        s \<leftarrow> nvm_dma_unmap (la_qmem a) s;
        free_mem admin (s\<lparr>u_admins := (u_admins s)(admin := None)\<rparr>) }
      else Some s)"

definition nvm_ref_put :: "ptr \<Rightarrow> ustate \<Rightarrow> ustate option" where
  "nvm_ref_put r s =
     (if r \<noteq> NULL
      then do {
        s \<leftarrow> release_handles r s;
        a \<leftarrow> u_refs s r;
        s \<leftarrow> (case ar_release a of
             None \<Rightarrow> Some s
           | Some Remove_admin \<Rightarrow> remove_admin (ar_data a) s
           | Some Free_binding \<Rightarrow> Some (ulog [U_release_binding (ar_data a)] s));
        s \<leftarrow> nvm_ctrl_put (ar_ctrl a) s;
        free_mem r (s\<lparr>u_refs := (u_refs s)(r := None)\<rparr>) }
      else Some s)"

text \<open>
  The admin queues: both rings are cleared and described for queue number 0. The results of
  \<open>nvm_queue_clear\<close> are not examined; when it fails, the queue keeps the content of the fresh memory.
\<close>

definition admin_queues :: "ustate uapi \<Rightarrow> nvm_ctrl \<Rightarrow> nvm_dma \<Rightarrow> u64 \<Rightarrow> u64 \<Rightarrow> qpair" where
  "admin_queues api ctrl qmem a0 a1 =
     (let acq = snd (nvm_queue_clear (junk_queue api) ctrl True 0 (ucast (page_size ctrl div 16)) (dma_local qmem) (dma_vaddr qmem) a0);
          asq = snd (nvm_queue_clear (junk_queue api) ctrl False 0 (ucast (page_size ctrl div 64)) (dma_local qmem)
            (NVM_ADDR_OFFSET (dma_vaddr qmem) (dma_page_size qmem) 1) a1)
      in \<lparr>sq = asq, cq = acq, sq_mem = replicate (unat (page_size ctrl div 64)) zero_cmd, prp_mem = [], prp_ioaddr = 0, events = []\<rparr>)"

definition create_admin :: "ustate uapi \<Rightarrow> ptr \<Rightarrow> ptr \<Rightarrow> ustate \<Rightarrow> ((int + ptr) \<times> ustate) option" where
  "create_admin api ctrl window s = do {
     c \<leftarrow> u_ctrls s ctrl;
     w \<leftarrow> u_dmas s window;
     if page_size (c_handle c) \<noteq> dma_page_size (dc_handle w) then Some (Inl EINVAL, s)
     else if dma_n_ioaddrs (dc_handle w) < 2 then Some (Inl ERANGE, s)
     else if dma_vaddr (dc_handle w) = 0 then Some (Inl EINVAL, s)
     else do {
       (r, s) \<leftarrow> nvm_dma_remap api window s;
       case r of
         Inl err \<Rightarrow> Some (Inl err, s)
       | Inr copy \<Rightarrow>
           let admin = malloc api s in
           if admin = NULL then do { s \<leftarrow> nvm_dma_unmap copy s; Some (Inl ENOMEM, s) }
           else do {
             q \<leftarrow> u_dmas s copy;
             a0 \<leftarrow> arr_get (dma_ioaddrs (dc_handle q)) 0;
             a1 \<leftarrow> arr_get (dma_ioaddrs (dc_handle q)) 1;
             Some (Inr admin, (take_mem K_admin admin s)\<lparr>u_admins := (u_admins s)(admin \<mapsto>
               \<lparr>la_qmem = copy, la_timeout = timeout (c_handle c), la_qp = admin_queues api (c_handle c) (dc_handle q) a0 a1\<rparr>)\<rparr>) } } }"

definition nvm_aq_create :: "ustate uapi \<Rightarrow> ptr \<Rightarrow> ptr \<Rightarrow> ustate \<Rightarrow> ((int + ptr) \<times> ustate) option" where
  "nvm_aq_create api ctrl window s = do {
     (r, s) \<leftarrow> nvm_ref_get api ctrl s;
     case r of
       Inl err \<Rightarrow> Some (Inl err, s)
     | Inr r \<Rightarrow> do {
         a \<leftarrow> u_refs s r;
         (x, s) \<leftarrow> create_admin api (ar_ctrl a) window s;
         case x of
           Inl err \<Rightarrow> do { s \<leftarrow> nvm_ref_put r s; Some (Inl err, s) }
         | Inr data \<Rightarrow> do {
             let s = s\<lparr>u_refs := (u_refs s)(r \<mapsto> a\<lparr>ar_data := data, ar_stub := Some Execute_command, ar_release := Some Remove_admin\<rparr>)\<rparr>;
             c \<leftarrow> u_ctrls s ctrl;
             admin \<leftarrow> u_admins s data;
             q \<leftarrow> u_dmas s (la_qmem admin);
             a0 \<leftarrow> arr_get (dma_ioaddrs (dc_handle q)) 0;
             a1 \<leftarrow> arr_get (dma_ioaddrs (dc_handle q)) 1;
             let (_, es) = nvm_raw_ctrl_reset (reg_cc api) (reg_csts api) (c_handle c) a0 a1 (u_regs s);
             Some (Inr r, s\<lparr>u_regs := es\<rparr>) } } }"

definition nvm_aq_destroy :: "ptr \<Rightarrow> ustate \<Rightarrow> ustate option" where
  "nvm_aq_destroy r s = (if r \<noteq> NULL then nvm_ref_put r s else Some s)"

definition nvm_rpc_unbind :: "ptr \<Rightarrow> ustate \<Rightarrow> ustate option" where
  "nvm_rpc_unbind r s = (if r \<noteq> NULL then nvm_ref_put r s else Some s)"

definition nvm_ctrl_from_aq_ref :: "ptr \<Rightarrow> ustate \<Rightarrow> ptr option" where
  "nvm_ctrl_from_aq_ref r s = (if r \<noteq> NULL then do { a \<leftarrow> u_refs s r; Some (ar_ctrl a) } else Some NULL)"

end
