(* ===== verification/Lib_Exact.thy ===== *)
theory Lib_Exact
  imports Lib_Rpc
begin

text \<open>
  What each operation of the library does to the state, exactly: a failed operation leaves the state
  as it was, and a successful one adds just its own objects. The conditions are on the objects involved
  only.
\<close>

section \<open>The address list of a handle\<close>

definition page_addr :: "u64 list \<Rightarrow> nat \<Rightarrow> nat \<Rightarrow> nat \<Rightarrow> u64" where
  "page_addr addrs ps cps i = addrs ! (i * cps div ps) + of_nat (i * cps mod ps)"

lemma populate_step:
  assumes "unat cps \<noteq> 0" "unat n * unat cps \<le> unat ps * length addrs" "unat n * unat cps < 2 ^ 64" "i < n"
  shows "arr_get addrs (unat ((i * cps) div ps)) = Some (addrs ! (unat i * unat cps div unat ps))"
    "addrs ! (unat i * unat cps div unat ps) + (i * cps) mod ps = page_addr addrs (unat ps) (unat cps) (unat i)"
proof -
  have "unat i < unat n" using assms(4) by (simp add: word_less_nat_alt)
  then have lt: "unat i * unat cps < unat n * unat cps" using assms(1) by simp
  have "unat i * unat cps < 2 ^ 64" using lt assms(3) by (rule less_trans)
  then have u: "unat (i * cps) = unat i * unat cps" by (simp add: unat_word_ariths)
  have "unat i * unat cps < unat ps * length addrs" using lt assms(2) by (rule less_le_trans)
  then have "unat i * unat cps div unat ps < length addrs" by (simp add: less_mult_imp_div_less mult.commute)
  then show "arr_get addrs (unat ((i * cps) div ps)) = Some (addrs ! (unat i * unat cps div unat ps))"
    by (simp add: arr_get_def unat_div u)
  have "(i * cps) mod ps = of_nat (unat ((i * cps) mod ps))" by simp
  also have "unat ((i * cps) mod ps) = unat i * unat cps mod unat ps" unfolding unat_mod u ..
  finally show "addrs ! (unat i * unat cps div unat ps) + (i * cps) mod ps = page_addr addrs (unat ps) (unat cps) (unat i)"
    by (simp only: page_addr_def)
qed

lemma populate_loop_ok:
  assumes "unat cps \<noteq> 0" "unat n * unat cps \<le> unat ps * length addrs" "unat n * unat cps < 2 ^ 64"
  defines "a \<equiv> page_addr addrs (unat ps) (unat cps)"
  shows "unat i \<le> unat n \<Longrightarrow>
    populate_loop addrs ps cps n i (map a [0..<unat i]) cont = Some (map a [0..<unat n],
      cont \<and> (\<forall>j. unat i \<le> j \<and> 0 < j \<and> j < unat n \<longrightarrow> a (j - 1) + cps = a j))"
proof (induction "unat n - unat i" arbitrary: i cont rule: less_induct)
  case less
  show ?case
  proof (cases "i < n")
    case False
    then have "unat i = unat n" using less.prems by (simp add: word_less_nat_alt)
    then show ?thesis using False by (subst populate_loop.simps) auto
  next
    case True
    then have lt: "unat i < unat n" by (simp add: word_less_nat_alt)
    note st = populate_step [OF assms(1-3) True, folded a_def]
    let ?c = "if 0 < i then cont \<and> a (unat i - 1) + cps = a (unat i) else cont"
    have "arr_get (map a [0..<unat i]) (unat (i - 1)) = Some (a (unat i - 1))" if "0 < i"
    proof -
      have "0 < unat i" using that by (simp add: word_less_nat_alt)
      then have "unat (i - 1) = unat i - 1" by (simp add: unat_sub word_le_nat_alt)
      then show ?thesis using \<open>0 < unat i\<close> by (simp add: arr_get_def)
    qed
    then have "populate_loop addrs ps cps n i (map a [0..<unat i]) cont = populate_loop addrs ps cps n (i + 1) (map a [0..<unat i] @ [a (unat i)]) ?c"
      using True st by (subst populate_loop.simps) (simp add: Let_def)
    also have "map a [0..<unat i] @ [a (unat i)] = map a [0..<unat (i + 1)]" using unat_inc [OF True] by simp
    also have "populate_loop addrs ps cps n (i + 1) (map a [0..<unat (i + 1)]) ?c = Some (map a [0..<unat n],
      ?c \<and> (\<forall>j. unat (i + 1) \<le> j \<and> 0 < j \<and> j < unat n \<longrightarrow> a (j - 1) + cps = a j))"
      using unat_inc [OF True] lt by (intro less.hyps) simp_all
    also have "(?c \<and> (\<forall>j. unat (i + 1) \<le> j \<and> 0 < j \<and> j < unat n \<longrightarrow> a (j - 1) + cps = a j)) \<longleftrightarrow>
      cont \<and> (\<forall>j. unat i \<le> j \<and> 0 < j \<and> j < unat n \<longrightarrow> a (j - 1) + cps = a j)"
    proof -
      have "unat i \<le> j \<longleftrightarrow> j = unat i \<or> unat (i + 1) \<le> j" for j using unat_inc [OF True] by auto
      moreover have "0 < i \<longleftrightarrow> 0 < unat i" by (simp add: word_less_nat_alt)
      ultimately show ?thesis using lt by (auto simp: unat_inc [OF True])
    qed
    finally show ?thesis .
  qed
qed

definition handle_of :: "nvm_dma \<Rightarrow> va_range \<Rightarrow> nvm_ctrl \<Rightarrow> u64 list \<Rightarrow> nvm_dma" where
  "handle_of h va ctrl addrs =
     (let n = n_ctrl_pages ctrl (va_page_size va) (va_n_pages va);
          a = page_addr addrs (unat (va_page_size va)) (unat (page_size ctrl)) in
      h\<lparr>dma_vaddr := va_vaddr va, dma_page_size := page_size ctrl, dma_n_ioaddrs := n,
        dma_contiguous := (\<forall>j. 0 < j \<and> j < unat n \<longrightarrow> a (j - 1) + page_size ctrl = a j), dma_ioaddrs := map a [0..<unat n]\<rparr>)"

lemma n_ctrl_pages_le:
  "unat (n_ctrl_pages ctrl ps np) * unat (page_size ctrl) \<le> unat ps * unat np"
  "unat (n_ctrl_pages ctrl ps np) * unat (page_size ctrl) < 2 ^ 64"
proof -
  have le: "unat (n_ctrl_pages ctrl ps np) * unat (page_size ctrl) \<le> unat (ps * np)"
    unfolding n_ctrl_pages_def unat_div by (rule div_times_less_eq_dividend)
  also have "unat (ps * np) \<le> unat ps * unat np" by (simp add: unat_word_ariths)
  finally show "unat (n_ctrl_pages ctrl ps np) * unat (page_size ctrl) \<le> unat ps * unat np" .
  show "unat (n_ctrl_pages ctrl ps np) * unat (page_size ctrl) < 2 ^ 64"
    using le unat_bound [of "ps * np"] by simp
qed

lemma populate_handle_ok:
  assumes "page_size ctrl \<noteq> 0" "unat (va_n_pages va) \<le> length addrs"
  shows "populate_handle h va ctrl addrs = Some (handle_of h va ctrl addrs)"
proof -
  let ?n = "n_ctrl_pages ctrl (va_page_size va) (va_n_pages va)"
  have "unat (page_size ctrl) \<noteq> 0" using assms(1) by (simp add: unat_eq_0)
  moreover have "unat (va_page_size va) * unat (va_n_pages va) \<le> unat (va_page_size va) * length addrs"
    using assms(2) by (rule mult_le_mono2)
  then have "unat ?n * unat (page_size ctrl) \<le> unat (va_page_size va) * length addrs"
    by (rule order_trans [OF n_ctrl_pages_le(1)])
  ultimately have "populate_loop addrs (va_page_size va) (page_size ctrl) ?n 0 (map (page_addr addrs (unat (va_page_size va)) (unat (page_size ctrl))) [0..<unat (0 :: u64)]) True =
    Some (map (page_addr addrs (unat (va_page_size va)) (unat (page_size ctrl))) [0..<unat ?n],
      True \<and> (\<forall>j. unat (0 :: u64) \<le> j \<and> 0 < j \<and> j < unat ?n \<longrightarrow>
        page_addr addrs (unat (va_page_size va)) (unat (page_size ctrl)) (j - 1) + page_size ctrl =
        page_addr addrs (unat (va_page_size va)) (unat (page_size ctrl)) j))"
    by (intro populate_loop_ok n_ctrl_pages_le) simp_all
  then show ?thesis by (simp add: populate_handle_def handle_of_def Let_def)
qed

lemma handle_of_simps [simp]:
  "dma_local (handle_of h va ctrl addrs) = dma_local h" "dma_vaddr (handle_of h va ctrl addrs) = va_vaddr va"
  "dma_page_size (handle_of h va ctrl addrs) = page_size ctrl"
  "dma_n_ioaddrs (handle_of h va ctrl addrs) = n_ctrl_pages ctrl (va_page_size va) (va_n_pages va)"
  "length (dma_ioaddrs (handle_of h va ctrl addrs)) = unat (n_ctrl_pages ctrl (va_page_size va) (va_n_pages va))"
  by (simp_all add: handle_of_def Let_def)

lemma page_addr_byte:
  assumes "cps dvd ps" "0 < cps" "0 < ps"
  shows "page_addr addrs ps cps (x div cps) + of_nat (x mod cps) = addrs ! (x div ps) + of_nat (x mod ps)"
proof -
  obtain k where k: "ps = cps * k" using assms(1) by (rule dvdE)
  then have "0 < k" using assms(3) by (simp add: gr0_conv_Suc) (metis gr0_implies_Suc mult_0_right neq0_conv)
  have d: "x div cps * cps div ps = x div ps" unfolding k using assms(2) by (simp add: div_mult2_eq)
  have "x mod ps = cps * (x div cps mod k) + x mod cps" unfolding k by (rule mod_mult2_eq)
  also have "cps * (x div cps mod k) = cps * (x div cps) mod ps" unfolding k by (rule mult_mod_right)
  finally have "x mod ps = x div cps * cps mod ps + x mod cps" by (simp only: mult.commute)
  then have "of_nat (x div cps * cps mod ps) + of_nat (x mod cps) = (of_nat (x mod ps) :: u64)" by (simp only: of_nat_add)
  then show ?thesis by (simp add: page_addr_def d add.assoc)
qed

text \<open>
  C36. A handle addresses the memory it was made for: for a controller page that divides the mapping's
  page, the handle has one address for every controller page of the range, and every byte of the range
  has, through the handle, the bus address that the kernel gave for it.
\<close>

theorem handle_addresses_bytes:
  assumes "page_size ctrl \<noteq> 0" "unat (page_size ctrl) dvd unat (va_page_size va)"
    and "unat (va_n_pages va) \<le> length addrs" "unat (va_page_size va) * unat (va_n_pages va) < 2 ^ 64"
  shows "\<exists>h'. populate_handle h va ctrl addrs = Some h' \<and>
    unat (dma_n_ioaddrs h') * unat (page_size ctrl) = unat (va_page_size va) * unat (va_n_pages va) \<and>
    (\<forall>x < unat (va_page_size va) * unat (va_n_pages va).
       dma_ioaddrs h' ! (x div unat (page_size ctrl)) + of_nat (x mod unat (page_size ctrl)) =
       addrs ! (x div unat (va_page_size va)) + of_nat (x mod unat (va_page_size va)))"
proof -
  let ?cps = "unat (page_size ctrl)" and ?ps = "unat (va_page_size va)" and ?np = "unat (va_n_pages va)"
  have c: "0 < ?cps" using assms(1) by (simp add: unat_gt_0)
  have "unat (va_page_size va * va_n_pages va) = ?ps * ?np" using assms(4) by (simp add: unat_word_ariths)
  then have n: "unat (n_ctrl_pages ctrl (va_page_size va) (va_n_pages va)) = ?ps * ?np div ?cps" by (simp add: n_ctrl_pages_def unat_div)
  have "map (page_addr addrs ?ps ?cps) [0..<?ps * ?np div ?cps] ! (x div ?cps) + of_nat (x mod ?cps) = addrs ! (x div ?ps) + of_nat (x mod ?ps)"
    if x: "x < ?ps * ?np" for x
  proof -
    have "0 < ?ps" using x by (cases "?ps = 0") simp_all
    moreover have "x div ?cps < ?ps * ?np div ?cps"
      using x c assms(2) by (simp add: div_less_iff_less_mult)
    ultimately show ?thesis using page_addr_byte [OF assms(2) c] by simp
  qed
  then show ?thesis using assms(2) n
    by (intro exI [of _ "handle_of h va ctrl addrs"]) (simp add: populate_handle_ok assms handle_of_def Let_def)
qed

definition example_range :: va_range where
  "example_range = \<lparr>va_remote = False, va_vaddr = 0x7f0000000000, va_page_size = 0x10000, va_n_pages = 2\<rparr>"

theorem handle_addresses_bytes_witness:
  "\<exists>h'. populate_handle \<lparr>dma_vaddr = 0, dma_local = True, dma_contiguous = False, dma_page_size = 0, dma_n_ioaddrs = 0, dma_ioaddrs = []\<rparr> example_range example_ctrl [0x30000, 0x90000] = Some h' \<and>
     unat (dma_n_ioaddrs h') = 32 \<and> dma_ioaddrs h' ! 0x12 + 0x345 = 0x92345"
proof -
  have "0x12345 < unat (va_page_size example_range) * unat (va_n_pages example_range)" by (simp add: example_range_def)
  then show ?thesis
    using handle_addresses_bytes [of example_ctrl example_range "[0x30000, 0x90000]"
      "\<lparr>dma_vaddr = 0, dma_local = True, dma_contiguous = False, dma_page_size = 0, dma_n_ioaddrs = 0, dma_ioaddrs = []\<rparr>"]
    by (auto simp: example_ctrl_def example_range_def dest!: spec [of _ "0x12345 :: nat"])
qed

section \<open>The operating system\<close>

text \<open>
  What the library relies on: fresh memory, which is exhausted before a reference count of 32 bits could
  overflow; a positive error number after a failure; and a kernel that returns as many addresses as
  pages were mapped.
\<close>

fun request_pages :: "mem_ioctl \<Rightarrow> nat" where
  "request_pages (Map_host b n) = unat n"
| "request_pages (Map_device b n) = unat n"
| "request_pages (Map_dmabuf b fd off sz n) = unat n"
| "request_pages (Unmap b) = 0"

definition os_ok :: "ustate uapi \<Rightarrow> bool" where
  "os_ok api \<longleftrightarrow> fresh_alloc api \<and> (\<forall>s. malloc api s \<noteq> NULL \<longrightarrow> length (u_live s) + 2 < 2 ^ 32) \<and> (\<forall>s. 0 < errno api s) \<and>
     (\<forall>s fd req. 0 \<le> fst (ioctl_mem api s fd req) \<longrightarrow> length (snd (ioctl_mem api s fd req)) = request_pages req)"

lemma os_okD:
  assumes "os_ok api"
  shows "malloc api s \<noteq> NULL \<Longrightarrow> malloc api s \<notin> fst ` set (u_live s)" "0 < errno api s"
    "0 \<le> fst (ioctl_mem api s fd req) \<Longrightarrow> length (snd (ioctl_mem api s fd req)) = request_pages req"
    "malloc api s \<noteq> NULL \<Longrightarrow> length (u_live s) + 2 < 2 ^ 32"
  using assms by (auto simp: os_ok_def fresh_alloc_def)

lemma filter_fresh [simp]: "p \<notin> fst ` set xs \<Longrightarrow> filter (\<lambda>e. fst e \<noteq> p) xs = xs"
  by (rule filter_True) auto

section \<open>Controllers\<close>

lemma ctrl_put_undo:
  "p \<noteq> NULL \<Longrightarrow> u_ctrls t p = Some (c\<lparr>c_count := c_count c + 1\<rparr>) \<Longrightarrow> c_count c \<noteq> 0 \<Longrightarrow>
   nvm_ctrl_put p t = Some (t\<lparr>u_ctrls := (u_ctrls t)(p \<mapsto> c)\<rparr>)"
  by (simp add: nvm_ctrl_put_def Let_def)

section \<open>Mappings\<close>

definition added_map :: "ptr \<Rightarrow> controller \<Rightarrow> ptr \<Rightarrow> dma_desc \<Rightarrow> ustate \<Rightarrow> ustate" where
  "added_map ctrl c m md s = s\<lparr>u_live := (m, K_map) # u_live s,
     u_ctrls := (u_ctrls s)(ctrl \<mapsto> c\<lparr>c_count := c_count c + 1\<rparr>), u_maps := (u_maps s)(m \<mapsto> md)\<rparr>"

abbreviation new_map :: "ptr \<Rightarrow> ptr \<Rightarrow> va_free \<Rightarrow> dma_desc" where
  "new_map ctrl va release \<equiv> \<lparr>dm_count = 1, dm_ctrl = ctrl, dm_va = va, dm_release = release, dm_unmap = None\<rparr>"

lemma create_map_cases:
  assumes "os_ok api" "ctrl \<noteq> NULL" "u_ctrls s ctrl = Some c" "c_count c \<noteq> 0"
  obtains e where "create_map api ctrl va release s = Some (Inl e, s)" "e \<noteq> 0"
  | m where "create_map api ctrl va release s = Some (Inr m, added_map ctrl c m (new_map ctrl va release) s)"
    "m \<noteq> NULL" "m \<notin> fst ` set (u_live s)" "length (u_live s) + 2 < 2 ^ 32"
proof -
  let ?s1 = "s\<lparr>u_ctrls := (u_ctrls s)(ctrl \<mapsto> c\<lparr>c_count := c_count c + 1\<rparr>)\<rparr>"
  let ?m = "malloc api ?s1" and ?e = "mutex_init api (take_mem K_map (malloc api ?s1) ?s1)"
  have undo: "?s1\<lparr>u_ctrls := (u_ctrls ?s1)(ctrl \<mapsto> c)\<rparr> = s" using assms(3) by (simp add: map_upd_triv)
  have put: "nvm_ctrl_put ctrl ?s1 = Some s" using undo assms by (subst ctrl_put_undo [of _ _ c]) simp_all
  have fresh: "?m \<noteq> NULL \<Longrightarrow> ?m \<notin> fst ` set (u_live s)" using os_okD(1) [OF assms(1), of ?s1] by simp
  consider "?m = NULL" | "?m \<noteq> NULL" "?e \<noteq> 0" | "?m \<noteq> NULL" "?e = 0" by blast
  then show thesis
  proof cases
    case 1
    then show thesis using assms put by (intro that(1) [of ENOMEM]) (simp_all add: create_map_def nvm_ctrl_get_def)
  next
    case 2
    then have "free_mem ?m (take_mem K_map ?m ?s1) = Some ?s1" using fresh by (simp add: free_mem_def take_mem_def)
    with 2 show thesis using assms put by (intro that(1) [of ?e]) (simp_all add: create_map_def nvm_ctrl_get_def)
  next
    case 3
    then show thesis using assms fresh os_okD(4) [OF assms(1), of ?s1]
      by (intro that(2) [of ?m]) (simp_all add: create_map_def nvm_ctrl_get_def added_map_def take_mem_def Let_def)
  qed
qed

lemma remove_map_undo:
  assumes "ctrl \<noteq> NULL" "u_ctrls s ctrl = Some c" "c_count c \<noteq> 0" "m \<notin> fst ` set (u_live s)" "u_maps s m = None" "dm_ctrl md = ctrl"
  shows "remove_map m (added_map ctrl c m md s) = Some s"
proof -
  let ?s1 = "added_map ctrl c m md s"
  have "nvm_ctrl_put ctrl ?s1 = Some (?s1\<lparr>u_ctrls := (u_ctrls ?s1)(ctrl \<mapsto> c)\<rparr>)"
    using assms by (intro ctrl_put_undo) (simp_all add: added_map_def)
  then show ?thesis using assms
    by (simp add: remove_map_def free_mem_def added_map_def map_upd_triv fun_upd_idem)
qed

definition added_dma :: "ptr \<Rightarrow> dma_container \<Rightarrow> ustate \<Rightarrow> ustate" where
  "added_dma d x s = s\<lparr>u_live := (d, K_dma) # u_live s, u_dmas := (u_dmas s)(d \<mapsto> x)\<rparr>"

abbreviation blank_handle :: "va_range \<Rightarrow> nvm_dma" where
  "blank_handle va \<equiv> \<lparr>dma_vaddr = 0, dma_local = \<not> va_remote va, dma_contiguous = True, dma_page_size = 0, dma_n_ioaddrs = 0, dma_ioaddrs = []\<rparr>"

definition whole_pages :: "nvm_ctrl \<Rightarrow> va_range \<Rightarrow> bool" where
  "whole_pages ctrl va \<longleftrightarrow> va_page_size va \<noteq> 0 \<and> va_n_pages va \<noteq> 0 \<and> (va_page_size va * va_n_pages va) mod page_size ctrl = 0"

lemma create_container_cases:
  assumes "os_ok api" "u_maps s md = Some m" "u_ctrls s (dm_ctrl m) = Some c" "u_vas s (dm_va m) = Some v"
  obtains e where "create_container api md s = Some (Inl e, s)" "e \<noteq> 0"
  | d where "create_container api md s = Some (Inr d, added_dma d \<lparr>dc_map = md, dc_handle = blank_handle (range_of v)\<rparr> s)"
    "d \<noteq> NULL" "d \<notin> fst ` set (u_live s)" "whole_pages (c_handle c) (range_of v)" "length (u_live s) + 2 < 2 ^ 32"
proof -
  let ?d = "malloc api s"
  have fresh: "?d \<noteq> NULL \<Longrightarrow> ?d \<notin> fst ` set (u_live s)" by (rule os_okD(1) [OF assms(1)])
  consider "\<not> whole_pages (c_handle c) (range_of v)" | "whole_pages (c_handle c) (range_of v)" "?d = NULL" | "whole_pages (c_handle c) (range_of v)" "?d \<noteq> NULL"
    by blast
  then show thesis
  proof cases
    case 1
    then show thesis using assms by (intro that(1) [of EINVAL]) (simp_all add: create_container_def Let_def whole_pages_def)
  next
    case 2
    then show thesis using assms by (intro that(1) [of ENOMEM]) (simp_all add: create_container_def Let_def whole_pages_def)
  next
    case 3
    then show thesis using assms fresh os_okD(4) [OF assms(1), of s]
      by (intro that(2) [of ?d]) (simp_all add: create_container_def Let_def whole_pages_def added_dma_def take_mem_def)
  qed
qed

lemma ioctl_request_pages: "ioctl_request api im = Some req \<Longrightarrow> request_pages req = unat (va_n_pages (im_range im))"
  by (cases "im_type im") (auto simp: ioctl_request_def Let_def split: if_splits)

lemma ioctl_map_cases:
  assumes "os_ok api" "u_devs s dev = Some fd"
  obtains e where "ioctl_map api dev im s = Some (Inl e, s)" "e \<noteq> 0"
  | addrs where "ioctl_map api dev im s = Some (Inr addrs, ulog [U_map (im_buffer im)] s)" "length addrs = unat (va_n_pages (im_range im))"
proof (cases "ioctl_request api im")
  case None
  then show thesis by (intro that(1) [of EINVAL]) (simp_all add: ioctl_map_def)
next
  case (Some req)
  obtain err addrs where r: "ioctl_mem api s fd req = (err, addrs)" by fastforce
  show thesis
  proof (cases "err < 0")
    case True
    then show thesis using assms Some r os_okD(2) [OF assms(1), of s]
      by (intro that(1) [of "errno api s"]) (simp_all add: ioctl_map_def)
  next
    case False
    then have "length addrs = unat (va_n_pages (im_range im))"
      using os_okD(3) [OF assms(1), of s fd req] r ioctl_request_pages [OF Some] by simp
    with False show thesis using assms Some r by (intro that(2) [of addrs]) (simp_all add: ioctl_map_def arr_store_def)
  qed
qed

definition ctrl_ready :: "ustate \<Rightarrow> ptr \<Rightarrow> controller \<Rightarrow> bool" where
  "ctrl_ready s ctrl c \<longleftrightarrow> ctrl \<noteq> NULL \<and> u_ctrls s ctrl = Some c \<and> c_count c \<noteq> 0 \<and> page_size (c_handle c) \<noteq> 0 \<and>
     (op_map (c_ops c) \<noteq> None \<longrightarrow> u_devs s (c_device c) \<noteq> None)"

definition typed :: "ustate \<Rightarrow> bool" where
  "typed s \<longleftrightarrow> dom (u_devs s) \<union> dom (u_ctrls s) \<union> dom (u_vas s) \<union> dom (u_maps s) \<union> dom (u_dmas s) \<union> dom (u_admins s) \<union> dom (u_refs s) \<subseteq> fst ` set (u_live s)"

lemma typed_fresh:
  assumes "typed s" "p \<notin> fst ` set (u_live s)"
  shows "u_devs s p = None" "u_ctrls s p = None" "u_vas s p = None" "u_maps s p = None" "u_dmas s p = None" "u_admins s p = None" "u_refs s p = None"
  using assms by (auto simp: typed_def dom_def)

text \<open>The state after an address range of the kernel was mapped for a new handle.\<close>

definition mapped :: "ptr \<Rightarrow> controller \<Rightarrow> ptr \<Rightarrow> ioctl_mapping \<Rightarrow> ptr \<Rightarrow> ptr \<Rightarrow> u64 list \<Rightarrow> ustate \<Rightarrow> ustate" where
  "mapped ctrl c va im m d addrs s = ulog [U_map (im_buffer im)]
     (added_dma d \<lparr>dc_map = m, dc_handle = handle_of (blank_handle (im_range im)) (im_range im) (c_handle c) addrs\<rparr>
       (added_map ctrl c m ((new_map ctrl va Release_mapping_descriptor)\<lparr>dm_unmap := op_unmap (c_ops c)\<rparr>) s))"

lemma drop_dma_map:
  assumes "ctrl \<noteq> NULL" "u_ctrls s ctrl = Some c" "c_count c \<noteq> 0" "typed s"
    and fresh: "m \<notin> fst ` set (u_live s)" "d \<notin> fst ` set (u_live s)" "d \<noteq> m" and md: "dm_ctrl md = ctrl"
  shows "do { s \<leftarrow> remove_map m (added_dma d x (added_map ctrl c m md s)); free_container d s } = Some s"
proof -
  let ?t = "added_dma d x (added_map ctrl c m md s)"
  have "nvm_ctrl_put ctrl ?t = Some (?t\<lparr>u_ctrls := (u_ctrls ?t)(ctrl \<mapsto> c)\<rparr>)"
    using assms by (intro ctrl_put_undo) (simp_all add: added_map_def added_dma_def)
  then show ?thesis using assms typed_fresh [OF assms(4)] fresh
    by (simp add: remove_map_def free_container_def free_mem_def added_map_def added_dma_def map_upd_triv fun_upd_idem)
qed

lemma nvm_dma_init_cases:
  assumes os: "os_ok api" and rdy: "ctrl_ready s ctrl c" and ty: "typed s" and va: "u_vas s va = Some (Mapping im)"
  obtains e where "nvm_dma_init api ctrl va Release_mapping_descriptor s = Some (Inl e, s)" "e \<noteq> 0"
  | m d addrs where "nvm_dma_init api ctrl va Release_mapping_descriptor s = Some (Inr d, mapped ctrl c va im m d addrs s)"
    "m \<noteq> NULL" "d \<noteq> NULL" "m \<notin> fst ` set (u_live s)" "d \<notin> fst ` set (u_live s)" "d \<noteq> m" "whole_pages (c_handle c) (im_range im)"
    "length addrs = unat (va_n_pages (im_range im))" "op_map (c_ops c) \<noteq> None" "length (u_live s) + 2 < 2 ^ 32"
proof -
  note fails = that(1) and works = that(2)
  have rd: "ctrl \<noteq> NULL" "u_ctrls s ctrl = Some c" "c_count c \<noteq> 0" "page_size (c_handle c) \<noteq> 0" using rdy by (simp_all add: ctrl_ready_def)
  show thesis
  proof (rule create_map_cases [OF os rd(1-3), of va Release_mapping_descriptor])
    fix e assume "create_map api ctrl va Release_mapping_descriptor s = Some (Inl e, s)" "e \<noteq> 0"
    then show thesis by (intro fails [of e]) (simp_all add: nvm_dma_init_def)
  next
    fix m
    let ?md = "new_map ctrl va Release_mapping_descriptor"
    let ?s1 = "added_map ctrl c m ?md s"
    assume m: "create_map api ctrl va Release_mapping_descriptor s = Some (Inr m, ?s1)" "m \<noteq> NULL" "m \<notin> fst ` set (u_live s)" "length (u_live s) + 2 < 2 ^ 32"
    have s1: "u_maps ?s1 m = Some ?md" "u_ctrls ?s1 (dm_ctrl ?md) = Some (c\<lparr>c_count := c_count c + 1\<rparr>)" "u_vas ?s1 (dm_va ?md) = Some (Mapping im)"
      using va by (simp_all add: added_map_def)
    show thesis
    proof (rule create_container_cases [OF os s1])
      fix e assume "create_container api m ?s1 = Some (Inl e, ?s1)" "e \<noteq> 0"
      then show thesis using m rd typed_fresh [OF ty m(3)]
        by (intro fails [of e]) (simp_all add: nvm_dma_init_def remove_map_undo)
    next
      fix d
      let ?x = "\<lparr>dc_map = m, dc_handle = blank_handle (im_range im)\<rparr>"
      let ?s2 = "added_dma d ?x ?s1"
      assume d: "create_container api m ?s1 = Some (Inr d, added_dma d \<lparr>dc_map = m, dc_handle = blank_handle (range_of (Mapping im))\<rparr> ?s1)"
        "d \<noteq> NULL" "d \<notin> fst ` set (u_live ?s1)" "whole_pages (c_handle (c\<lparr>c_count := c_count c + 1\<rparr>)) (range_of (Mapping im))"
      have fresh: "d \<notin> fst ` set (u_live s)" "d \<noteq> m" using d(3) by (auto simp: added_map_def)
      have fail: thesis if "dma_map api d ?s2 = Some (e, ?s2)" "e \<noteq> 0" for e
        using that drop_dma_map [OF rd(1-3) ty m(3) fresh, of ?md ?x] m d(1) by (intro fails [of e]) (simp_all add: nvm_dma_init_def)
      have heaps: "u_dmas ?s2 d = Some ?x" "u_maps ?s2 m = Some ?md" "u_ctrls ?s2 ctrl = Some (c\<lparr>c_count := c_count c + 1\<rparr>)"
        "u_vas ?s2 va = Some (Mapping im)" "u_devs ?s2 = u_devs s"
        using va by (simp_all add: added_dma_def added_map_def)
      consider "op_map (c_ops c) = None" | "op_map (c_ops c) \<noteq> None" "malloc api ?s2 = NULL" | "op_map (c_ops c) \<noteq> None" "malloc api ?s2 \<noteq> NULL" by blast
      then show thesis
      proof cases
        case 1
        then show thesis using heaps by (intro fail [of EINVAL]) (simp_all add: dma_map_def)
      next
        case 2
        then show thesis using heaps by (intro fail [of ENOMEM]) (simp_all add: dma_map_def)
      next
        case 3
        then obtain fd where "u_devs ?s2 (c_device c) = Some fd" using rdy heaps(5) by (auto simp: ctrl_ready_def)
        from ioctl_map_cases [OF os this, of im] show thesis
        proof cases
          case (1 e)
          then show thesis using heaps 3 by (intro fail [of e]) (auto simp: dma_map_def)
        next
          case (2 addrs)
          let ?h = "handle_of (blank_handle (im_range im)) (im_range im) (c_handle c) addrs"
          have "populate_handle (blank_handle (im_range im)) (im_range im) (c_handle c) addrs = Some ?h"
            using rd(4) 2(2) by (intro populate_handle_ok) simp_all
          then have "dma_map api d ?s2 = Some (0, mapped ctrl c va im m d addrs s)"
            using heaps 3 2(1) by (auto simp: dma_map_def set_handle_def mapped_def ulog_def added_dma_def added_map_def)
          then show thesis using m d(1,2,4) fresh 2(2) 3(1) by (intro works [of d m addrs]) (simp_all add: nvm_dma_init_def)
        qed
      qed
    qed
  qed
qed

section \<open>Memory from the system\<close>

definition added_va :: "ptr \<Rightarrow> va_object \<Rightarrow> ustate \<Rightarrow> ustate" where
  "added_va v x s = s\<lparr>u_live := (v, K_va) # u_live s, u_vas := (u_vas s)(v \<mapsto> x)\<rparr>"

text \<open>
  The two outcomes of a mapping function: an error with one of the states \<open>es\<close>, or a handle, with its
  mapping and address range added to the state \<open>base\<close> and the calls \<open>post\<close> made at the end.
\<close>

definition map_result :: "ustate set \<Rightarrow> ustate \<Rightarrow> ucall list \<Rightarrow> ptr \<Rightarrow> controller \<Rightarrow> (ioctl_mapping \<Rightarrow> bool) \<Rightarrow> ((int + ptr) \<times> ustate) option \<Rightarrow> bool" where
  "map_result es base post ctrl c P r \<longleftrightarrow>
     (\<exists>e t. r = Some (Inl e, t) \<and> e \<noteq> 0 \<and> t \<in> es) \<or>
     (\<exists>v im m d addrs. r = Some (Inr d, ulog post (mapped ctrl c v im m d addrs (added_va v (Mapping im) base))) \<and> P im \<and>
        v \<noteq> NULL \<and> m \<noteq> NULL \<and> d \<noteq> NULL \<and> distinct [v, m, d] \<and> {v, m, d} \<inter> fst ` set (u_live base) = {} \<and>
        whole_pages (c_handle c) (im_range im) \<and> length addrs = unat (va_n_pages (im_range im)) \<and> op_map (c_ops c) \<noteq> None \<and> length (u_live base) + 2 < 2 ^ 32)"

lemma map_resultE:
  assumes "map_result es base post ctrl c P r"
  obtains e t where "r = Some (Inl e, t)" "e \<noteq> 0" "t \<in> es"
  | v im m d addrs where "r = Some (Inr d, ulog post (mapped ctrl c v im m d addrs (added_va v (Mapping im) base)))" "P im"
    "v \<noteq> NULL" "m \<noteq> NULL" "d \<noteq> NULL" "distinct [v, m, d]" "{v, m, d} \<inter> fst ` set (u_live base) = {}"
    "whole_pages (c_handle c) (im_range im)" "length addrs = unat (va_n_pages (im_range im))" "op_map (c_ops c) \<noteq> None" "length (u_live base) + 2 < 2 ^ 32"
proof -
  from assms show thesis unfolding map_result_def
  proof (elim disjE exE conjE)
    fix e t assume "r = Some (Inl e, t)" "e \<noteq> 0" "t \<in> es"
    then show thesis by (rule that(1))
  qed (rule that(2))
qed

lemma map_result_error: "t \<in> es \<Longrightarrow> e \<noteq> 0 \<Longrightarrow> map_result es base post ctrl c P (Some (Inl e, t))"
  unfolding map_result_def by simp

lemma map_result_handle:
  assumes "P im" "v \<noteq> NULL" "m \<noteq> NULL" "d \<noteq> NULL" "distinct [v, m, d]" "{v, m, d} \<inter> fst ` set (u_live base) = {}"
    "whole_pages (c_handle c) (im_range im)" "length addrs = unat (va_n_pages (im_range im))" "op_map (c_ops c) \<noteq> None" "length (u_live base) + 2 < 2 ^ 32"
  shows "map_result es base post ctrl c P (Some (Inr d, ulog post (mapped ctrl c v im m d addrs (added_va v (Mapping im) base))))"
  unfolding map_result_def using assms
  by (intro disjI2 exI [of _ v] exI [of _ im] exI [of _ m] exI [of _ d] exI [of _ addrs] conjI) simp_all

lemma typed_added_va: "typed s \<Longrightarrow> typed (added_va v x s)"
  by (auto simp: typed_def added_va_def)

lemma init_mapping_result:
  assumes os: "os_ok api" and rdy: "ctrl_ready s ctrl c" and ty: "typed s" and v: "v \<noteq> NULL" "v \<notin> fst ` set (u_live s)" and P: "P im"
    and buf: "im_type im = MAP_TYPE_API \<Longrightarrow> im_buffer im \<noteq> 0 \<and> im_buffer im \<in> set (u_bufs s)"
    and t: "t = (if im_type im = MAP_TYPE_API then s\<lparr>u_bufs := remove1 (im_buffer im) (u_bufs s)\<rparr> else s)"
  shows "map_result {t} s [] ctrl c P (init_mapping api ctrl v (added_va v (Mapping im) s))"
proof -
  let ?s = "added_va v (Mapping im) s"
  have rdy': "ctrl_ready ?s ctrl c" using rdy by (simp add: ctrl_ready_def added_va_def)
  have look: "u_vas ?s v = Some (Mapping im)" by (simp add: added_va_def)
  have remove: "remove_mapping_descriptor v ?s = Some t"
    using v(2) typed_fresh(3) [OF ty v(2)] buf
    by (simp add: remove_mapping_descriptor_def free_va_object_def free_mem_def free_buf_def added_va_def t fun_upd_idem)
  show ?thesis
  proof (rule nvm_dma_init_cases [OF os rdy' typed_added_va [OF ty] look])
    fix e assume "nvm_dma_init api ctrl v Release_mapping_descriptor ?s = Some (Inl e, ?s)" "e \<noteq> 0"
    then have "init_mapping api ctrl v ?s = Some (Inl e, t)" using remove by (simp add: init_mapping_def)
    then show ?thesis using \<open>e \<noteq> 0\<close> by (simp add: map_result_error)
  next
    fix m d addrs
    assume A: "nvm_dma_init api ctrl v Release_mapping_descriptor ?s = Some (Inr d, mapped ctrl c v im m d addrs ?s)"
      "m \<noteq> NULL" "d \<noteq> NULL" "m \<notin> fst ` set (u_live ?s)" "d \<notin> fst ` set (u_live ?s)" "d \<noteq> m" "whole_pages (c_handle c) (im_range im)"
      "length addrs = unat (va_n_pages (im_range im))" "op_map (c_ops c) \<noteq> None" "length (u_live ?s) + 2 < 2 ^ 32"
    then have run: "init_mapping api ctrl v ?s = Some (Inr d, ulog [] (mapped ctrl c v im m d addrs ?s))" by (simp add: init_mapping_def ulog_def)
    have "distinct [v, m, d]" "{v, m, d} \<inter> fst ` set (u_live s) = {}" using A(4-6) v(2) by (auto simp: added_va_def)
    moreover have "length (u_live s) + 2 < 2 ^ 32" using A(10) by (simp add: added_va_def)
    ultimately show ?thesis unfolding run using A(2,3,7-9) v(1) P by (intro map_result_handle)
  qed
qed

lemma map_result_mono: "map_result es base post ctrl c P r \<Longrightarrow> es \<subseteq> es' \<Longrightarrow> map_result es' base post ctrl c P r"
  by (erule map_resultE) (auto intro: map_result_error map_result_handle)

abbreviation is_mapping :: "mapping_type \<Rightarrow> u64 \<Rightarrow> u64 \<Rightarrow> u64 \<Rightarrow> ioctl_mapping \<Rightarrow> bool" where
  "is_mapping ty ps buffer sz im \<equiv> im_type im = ty \<and> im_buffer im = buffer \<and>
     im_range im = \<lparr>va_remote = False, va_vaddr = buffer, va_page_size = ps, va_n_pages = NVM_PAGE_ALIGN sz ps div ps\<rparr>"

lemma create_mapping_descriptor_cases:
  assumes "os_ok api"
  obtains e where "create_mapping_descriptor api ps ty buffer sz s = (Inl e, s)" "e \<noteq> 0"
  | v im where "create_mapping_descriptor api ps ty buffer sz s = (Inr v, added_va v (Mapping im) s)" "is_mapping ty ps buffer sz im"
    "v \<noteq> NULL" "v \<notin> fst ` set (u_live s)"
proof -
  let ?v = "malloc api s"
  have fresh: "?v \<noteq> NULL \<Longrightarrow> ?v \<notin> fst ` set (u_live s)" by (rule os_okD(1) [OF assms])
  consider "NVM_PAGE_ALIGN sz ps div ps = 0" | "NVM_PAGE_ALIGN sz ps div ps \<noteq> 0" "?v = NULL" | "NVM_PAGE_ALIGN sz ps div ps \<noteq> 0" "?v \<noteq> NULL" by blast
  then show thesis
  proof cases
    case 1
    then show thesis by (intro that(1) [of EINVAL]) (simp_all add: create_mapping_descriptor_def)
  next
    case 2
    then show thesis by (intro that(1) [of ENOMEM]) (simp_all add: create_mapping_descriptor_def)
  next
    case 3
    then show thesis using fresh
      by (intro that(2) [of ?v "\<lparr>im_type = ty, im_buffer = buffer, im_range = \<lparr>va_remote = False, va_vaddr = buffer, va_page_size = ps,
          va_n_pages = NVM_PAGE_ALIGN sz ps div ps\<rparr>, im_dmabuf_fd = 0, im_dmabuf_offset = 0\<rparr>"])
        (simp_all add: create_mapping_descriptor_def added_va_def take_mem_def Let_def)
  qed
qed

lemma map_new_range:
  assumes os: "os_ok api" and rdy: "ctrl_ready s ctrl c" and ty: "typed s" and api: "ty \<noteq> MAP_TYPE_API"
  shows "map_result {s} s [] ctrl c (is_mapping ty ps buffer sz)
    (let (r, s) = create_mapping_descriptor api ps ty buffer sz s in
     case r of Inl err \<Rightarrow> Some (Inl err, s) | Inr md \<Rightarrow> init_mapping api ctrl md s)"
proof (rule create_mapping_descriptor_cases [OF os, of ps ty buffer sz s])
  fix e assume "create_mapping_descriptor api ps ty buffer sz s = (Inl e, s)" "e \<noteq> 0"
  then show ?thesis by (simp add: map_result_error)
next
  fix v im assume A: "create_mapping_descriptor api ps ty buffer sz s = (Inr v, added_va v (Mapping im) s)" "is_mapping ty ps buffer sz im"
    "v \<noteq> NULL" "v \<notin> fst ` set (u_live s)"
  have "map_result {s} s [] ctrl c (is_mapping ty ps buffer sz) (init_mapping api ctrl v (added_va v (Mapping im) s))"
    using A(2) api by (intro init_mapping_result os rdy ty A) auto
  then show ?thesis using A(1) by simp
qed

lemma nvm_dma_map_host_result:
  assumes "os_ok api" "ctrl_ready s ctrl c" "typed s"
  shows "map_result {s} s [] ctrl c (is_mapping MAP_TYPE_HOST (page_size (c_handle c)) vaddr (NVM_PAGE_ALIGN sz (page_size (c_handle c))))
    (nvm_dma_map_host api ctrl vaddr sz s)"
proof -
  have c: "u_ctrls s ctrl = Some c" using assms(2) by (simp add: ctrl_ready_def)
  consider "NVM_PAGE_ALIGN sz (page_size (c_handle c)) = 0" | "NVM_PAGE_ALIGN sz (page_size (c_handle c)) \<noteq> 0" "c_type c \<noteq> DEVICE_TYPE_IOCTL"
    | "NVM_PAGE_ALIGN sz (page_size (c_handle c)) \<noteq> 0" "c_type c = DEVICE_TYPE_IOCTL" by blast
  then show ?thesis
  proof cases
    case 3
    then show ?thesis using c map_new_range [OF assms, of MAP_TYPE_HOST] by (simp add: nvm_dma_map_host_def Let_def)
  qed (simp_all add: nvm_dma_map_host_def c Let_def map_result_error)
qed

lemma nvm_dma_create_result:
  assumes os: "os_ok api" and rdy: "ctrl_ready s ctrl c" and ty: "typed s"
  shows "\<exists>b. map_result {s} (s\<lparr>u_bufs := b # u_bufs s\<rparr>) [] ctrl c
    (\<lambda>im. is_mapping MAP_TYPE_API (page_size (c_handle c)) b (NVM_PAGE_ALIGN sz (page_size (c_handle c))) im \<and> b \<noteq> 0 \<and> b \<notin> set (u_bufs s))
    (nvm_dma_create api ctrl sz s)"
proof -
  let ?ps = "page_size (c_handle c)"
  let ?sz = "NVM_PAGE_ALIGN sz ?ps"
  have c: "u_ctrls s ctrl = Some c" using rdy by (simp add: ctrl_ready_def)
  obtain err b where mem: "posix_memalign api s ?ps ?sz = (err, b)" by fastforce
  have b: "b \<noteq> 0" "b \<notin> set (u_bufs s)" if "err = 0"
    using os mem that unfolding os_ok_def fresh_alloc_def by (metis fst_conv snd_conv)+
  let ?s = "s\<lparr>u_bufs := b # u_bufs s\<rparr>"
  consider "?sz = 0" | "?sz \<noteq> 0" "c_type c \<noteq> DEVICE_TYPE_IOCTL" | "?sz \<noteq> 0" "c_type c = DEVICE_TYPE_IOCTL" "err \<noteq> 0"
    | "?sz \<noteq> 0" "c_type c = DEVICE_TYPE_IOCTL" "err = 0" by blast
  then have "map_result {s} ?s [] ctrl c (\<lambda>im. is_mapping MAP_TYPE_API ?ps b ?sz im \<and> b \<noteq> 0 \<and> b \<notin> set (u_bufs s)) (nvm_dma_create api ctrl sz s)"
  proof cases
    case 4
    have rdy': "ctrl_ready ?s ctrl c" and ty': "typed ?s" using rdy ty by (simp_all add: ctrl_ready_def typed_def)
    show ?thesis
    proof (rule create_mapping_descriptor_cases [OF os, of ?ps MAP_TYPE_API b ?sz ?s])
      fix e assume "create_mapping_descriptor api ?ps MAP_TYPE_API b ?sz ?s = (Inl e, ?s)" "e \<noteq> 0"
      then show ?thesis using 4 c mem b by (simp add: nvm_dma_create_def Let_def free_buf_def map_result_error)
    next
      fix v im assume A: "create_mapping_descriptor api ?ps MAP_TYPE_API b ?sz ?s = (Inr v, added_va v (Mapping im) ?s)"
        "is_mapping MAP_TYPE_API ?ps b ?sz im" "v \<noteq> NULL" "v \<notin> fst ` set (u_live ?s)"
      have "map_result {s} ?s [] ctrl c (\<lambda>im. is_mapping MAP_TYPE_API ?ps b ?sz im \<and> b \<noteq> 0 \<and> b \<notin> set (u_bufs s))
          (init_mapping api ctrl v (added_va v (Mapping im) ?s))"
        using A(2) b 4(3) by (intro init_mapping_result os rdy' ty' A) simp_all
      then show ?thesis using A(1) 4 c mem by (simp add: nvm_dma_create_def Let_def)
    qed
  qed (simp_all add: nvm_dma_create_def c Let_def map_result_error mem)
  then show ?thesis by (rule exI [of _ b])
qed

text \<open>
  Device memory. With HIP the buffer is exported first; the descriptor is closed on every path on which it
  was opened.
\<close>

lemma hip_map_device_result:
  assumes os: "os_ok api" and rdy: "ctrl_ready s ctrl c" and ty: "typed s"
  shows "\<exists>fd. map_result {s, ulog [U_export_dmabuf fd, U_close_dmabuf fd] s} (ulog [U_export_dmabuf fd] s) [U_close_dmabuf fd] ctrl c
    (is_mapping MAP_TYPE_DMABUF (sc_pagesize api) devptr sz) (hip_map_device api ctrl devptr sz s)"
proof (cases "hip_check api devptr sz")
  case (Inl e)
  then have "e \<noteq> 0" by (auto simp: hip_check_def Let_def split: if_splits option.splits)
  then show ?thesis using Inl by (simp add: hip_map_device_def map_result_error)
next
  case (Inr n)
  obtain ok fd offs where ex: "hsa_export_dmabuf api s devptr n = (ok, fd, offs)" using prod_cases3 by blast
  let ?s = "ulog [U_export_dmabuf fd] s" and ?ps = "sc_pagesize api"
  have closed: "ulog [U_close_dmabuf fd] ?s = ulog [U_export_dmabuf fd, U_close_dmabuf fd] s" by (simp add: ulog_def)
  have rdy': "ctrl_ready ?s ctrl c" and ty': "typed ?s" using rdy ty by (simp_all add: ctrl_ready_def typed_def ulog_def)
  consider "\<not> ok \<or> fd < 0" | "ok" "\<not> fd < 0" "offs mod ?ps \<noteq> 0" | "ok" "\<not> fd < 0" "offs mod ?ps = 0" by fastforce
  then have "map_result {s, ulog [U_export_dmabuf fd, U_close_dmabuf fd] s} ?s [U_close_dmabuf fd] ctrl c
    (is_mapping MAP_TYPE_DMABUF ?ps devptr sz) (hip_map_device api ctrl devptr sz s)"
  proof cases
    case 1
    then show ?thesis using Inr ex by (auto simp: hip_map_device_def map_result_error)
  next
    case 2
    then show ?thesis using Inr ex by (simp add: hip_map_device_def map_result_error closed)
  next
    case 3
    show ?thesis
    proof (rule create_mapping_descriptor_cases [OF os, of ?ps MAP_TYPE_DMABUF devptr sz ?s])
      fix e assume "create_mapping_descriptor api ?ps MAP_TYPE_DMABUF devptr sz ?s = (Inl e, ?s)" "e \<noteq> 0"
      then show ?thesis using 3 Inr ex by (simp add: hip_map_device_def map_result_error closed)
    next
      fix v im assume A: "create_mapping_descriptor api ?ps MAP_TYPE_DMABUF devptr sz ?s = (Inr v, added_va v (Mapping im) ?s)"
        "is_mapping MAP_TYPE_DMABUF ?ps devptr sz im" "v \<noteq> NULL" "v \<notin> fst ` set (u_live ?s)"
      let ?im = "im\<lparr>im_dmabuf_fd := fd, im_dmabuf_offset := offs\<rparr>"
      have run: "hip_map_device api ctrl devptr sz s =
          do { (r, s) \<leftarrow> init_mapping api ctrl v (added_va v (Mapping ?im) ?s); Some (r, ulog [U_close_dmabuf fd] s) }"
        using 3 Inr ex A(1) by (simp add: hip_map_device_def Let_def added_va_def)
      have "map_result {?s} ?s [] ctrl c (is_mapping MAP_TYPE_DMABUF ?ps devptr sz) (init_mapping api ctrl v (added_va v (Mapping ?im) ?s))"
        using A(2) by (intro init_mapping_result os rdy' ty' A) simp_all
      then show ?thesis
      proof (rule map_resultE)
        fix e t assume "init_mapping api ctrl v (added_va v (Mapping ?im) ?s) = Some (Inl e, t)" "e \<noteq> 0" "t \<in> {?s}"
        then show ?thesis unfolding run by (simp add: map_result_error closed)
      next
        fix v' im' m d addrs
        assume B: "init_mapping api ctrl v (added_va v (Mapping ?im) ?s) = Some (Inr d, ulog [] (mapped ctrl c v' im' m d addrs (added_va v' (Mapping im') ?s)))"
          and C: "is_mapping MAP_TYPE_DMABUF ?ps devptr sz im'" "v' \<noteq> NULL" "m \<noteq> NULL" "d \<noteq> NULL" "distinct [v', m, d]" "{v', m, d} \<inter> fst ` set (u_live ?s) = {}"
          "whole_pages (c_handle c) (im_range im')" "length addrs = unat (va_n_pages (im_range im'))" "op_map (c_ops c) \<noteq> None" "length (u_live ?s) + 2 < 2 ^ 32"
        have fin: "hip_map_device api ctrl devptr sz s = Some (Inr d, ulog [U_close_dmabuf fd] (mapped ctrl c v' im' m d addrs (added_va v' (Mapping im') ?s)))"
          unfolding run B by (simp add: ulog_def)
        show ?thesis unfolding fin using C by (rule map_result_handle)
      qed
    qed
  qed
  then show ?thesis by (rule exI [of _ fd])
qed

text \<open>What mapping device memory may leave behind in the log when it fails.\<close>

lemma nvm_dma_map_device_result:
  assumes os: "os_ok api" and rdy: "ctrl_ready s ctrl c" and ty: "typed s"
  shows "\<exists>pre post. (pre = [] \<and> post = [] \<or> (\<exists>fd. pre = [U_export_dmabuf fd] \<and> post = [U_close_dmabuf fd])) \<and>
    map_result {s, ulog (pre @ post) s} (ulog pre s) post ctrl c
      (\<lambda>im. im_type im \<in> {MAP_TYPE_CUDA, MAP_TYPE_DMABUF} \<and> im_buffer im = devptr \<and> va_vaddr (im_range im) = devptr \<and> \<not> va_remote (im_range im) \<and>
      va_page_size (im_range im) \<in> {2 ^ 16, sc_pagesize api} \<and> va_n_pages (im_range im) = NVM_PAGE_ALIGN sz (va_page_size (im_range im)) div va_page_size (im_range im))
      (nvm_dma_map_device api ctrl devptr sz s)"
proof -
  let ?P = "\<lambda>im. im_type im \<in> {MAP_TYPE_CUDA, MAP_TYPE_DMABUF} \<and> im_buffer im = devptr \<and> va_vaddr (im_range im) = devptr \<and> \<not> va_remote (im_range im) \<and>
      va_page_size (im_range im) \<in> {2 ^ 16, sc_pagesize api} \<and> va_n_pages (im_range im) = NVM_PAGE_ALIGN sz (va_page_size (im_range im)) div va_page_size (im_range im)"
  have c: "u_ctrls s ctrl = Some c" using rdy by (simp add: ctrl_ready_def)
  have weak: "map_result es base post ctrl c ?P r" if "map_result es base post ctrl c (is_mapping ty ps devptr sz) r" "ty = MAP_TYPE_CUDA \<or> ty = MAP_TYPE_DMABUF" "ps = 2 ^ 16 \<or> ps = sc_pagesize api"
    for es base post r ty ps
    using that(1) by (rule map_resultE) (use that(2,3) in \<open>auto intro: map_result_error map_result_handle\<close>)
  consider "c_type c \<noteq> DEVICE_TYPE_IOCTL \<or> backend api = No_backend" | "c_type c = DEVICE_TYPE_IOCTL" "backend api = CUDA_backend"
    | "c_type c = DEVICE_TYPE_IOCTL" "backend api = HIP_backend" by (cases "backend api") auto
  then show ?thesis
  proof cases
    case 1
    then have "nvm_dma_map_device api ctrl devptr sz s = Some (Inl (if c_type c \<noteq> DEVICE_TYPE_IOCTL then EBADF else ENOTSUP), s)"
      using c by (auto simp: nvm_dma_map_device_def)
    then show ?thesis by (intro exI [of _ "[]"]) (simp add: map_result_error)
  next
    case 2
    then show ?thesis using c weak [OF map_new_range [OF os rdy ty, where ty = MAP_TYPE_CUDA and ps = "2 ^ 16" and buffer = devptr and sz = sz]]
      by (intro exI [of _ "[]"]) (simp add: nvm_dma_map_device_def ulog_def)
  next
    case 3
    from hip_map_device_result [OF os rdy ty] obtain fd where
      "map_result {s, ulog [U_export_dmabuf fd, U_close_dmabuf fd] s} (ulog [U_export_dmabuf fd] s) [U_close_dmabuf fd] ctrl c
        (is_mapping MAP_TYPE_DMABUF (sc_pagesize api) devptr sz) (hip_map_device api ctrl devptr sz s)" by blast
    from weak [OF this] 3 show ?thesis using c
      by (intro exI [of _ "[U_export_dmabuf fd]"] exI [of _ "[U_close_dmabuf fd]"]) (simp add: nvm_dma_map_device_def)
  qed
qed

section \<open>Ranges with known addresses\<close>

lemma nvm_dma_map_cases:
  assumes os: "os_ok api" and rdy: "ctrl_ready s ctrl c" and ty: "typed s" and len: "unat np \<le> length addrs"
    and rng_def: "rng = \<lparr>va_remote = False, va_vaddr = vaddr, va_page_size = ps, va_n_pages = np\<rparr>"
  obtains e where "nvm_dma_map api ctrl vaddr ps np (Some addrs) s = Some (Inl e, s)" "e \<noteq> 0"
  | v m d where "nvm_dma_map api ctrl vaddr ps np (Some addrs) s = Some (Inr d,
      added_dma d \<lparr>dc_map = m, dc_handle = handle_of (blank_handle rng) rng (c_handle c) addrs\<rparr>
        (added_map ctrl c m (new_map ctrl v Free_va) (added_va v (Plain_range rng) s)))"
    "v \<noteq> NULL" "m \<noteq> NULL" "d \<noteq> NULL" "distinct [v, m, d]" "{v, m, d} \<inter> fst ` set (u_live s) = {}" "whole_pages (c_handle c) rng" "length (u_live s) + 2 < 2 ^ 32"
proof (cases "malloc api s = NULL")
  case True
  then show thesis by (intro that(1) [of ENOMEM]) (simp_all add: nvm_dma_map_def)
next
  case False
  note fails = that(1) and works = that(2)
  let ?v = "malloc api s"
  let ?s = "added_va ?v (Plain_range rng) s"
  have v: "?v \<notin> fst ` set (u_live s)" by (rule os_okD(1) [OF os]) (use False in simp)
  have rd: "ctrl \<noteq> NULL" "u_ctrls ?s ctrl = Some c" "c_count c \<noteq> 0" "page_size (c_handle c) \<noteq> 0"
    using rdy by (simp_all add: ctrl_ready_def added_va_def)
  have freev: "free_va_object ?v ?s = Some s"
    using v typed_fresh(3) [OF ty v] by (simp add: free_va_object_def free_mem_def added_va_def fun_upd_idem)
  have start: "nvm_dma_map api ctrl vaddr ps np (Some addrs) s = do {
         (r, s) \<leftarrow> create_map api ctrl ?v Free_va ?s;
         case r of
           Inl err \<Rightarrow> do { s \<leftarrow> free_va_object ?v s; Some (Inl err, s) }
         | Inr md \<Rightarrow> do {
             (r, s) \<leftarrow> create_container api md s;
             case r of
               Inl err \<Rightarrow> do { s \<leftarrow> remove_map md s; s \<leftarrow> free_va_object ?v s; Some (Inl err, s) }
             | Inr c \<Rightarrow> do {
                 cc \<leftarrow> u_ctrls s ctrl;
                 s \<leftarrow> set_handle c (\<lambda>h. populate_handle h rng (c_handle cc) addrs) s;
                 Some (Inr c, s) } } }"
    using False unfolding rng_def by (simp add: nvm_dma_map_def Let_def added_va_def take_mem_def)
  show thesis
  proof (rule create_map_cases [OF os rd(1-3), of ?v Free_va])
    fix e assume "create_map api ctrl ?v Free_va ?s = Some (Inl e, ?s)" "e \<noteq> 0"
    then show thesis using freev by (intro fails [of e]) (simp_all add: start)
  next
    fix m
    let ?md = "new_map ctrl ?v Free_va"
    let ?s1 = "added_map ctrl c m ?md ?s"
    assume m: "create_map api ctrl ?v Free_va ?s = Some (Inr m, ?s1)" "m \<noteq> NULL" "m \<notin> fst ` set (u_live ?s)" "length (u_live ?s) + 2 < 2 ^ 32"
    have s1: "u_maps ?s1 m = Some ?md" "u_ctrls ?s1 (dm_ctrl ?md) = Some (c\<lparr>c_count := c_count c + 1\<rparr>)" "u_vas ?s1 (dm_va ?md) = Some (Plain_range rng)"
      by (simp_all add: added_map_def added_va_def)
    show thesis
    proof (rule create_container_cases [OF os s1])
      fix e assume "create_container api m ?s1 = Some (Inl e, ?s1)" "e \<noteq> 0"
      moreover have "remove_map m ?s1 = Some ?s"
        using rd m(3) typed_fresh(4) [OF typed_added_va [OF ty] m(3)] by (intro remove_map_undo) simp_all
      ultimately show thesis using m freev by (intro fails [of e]) (simp_all add: start)
    next
      fix d
      assume d: "create_container api m ?s1 = Some (Inr d, added_dma d \<lparr>dc_map = m, dc_handle = blank_handle (range_of (Plain_range rng))\<rparr> ?s1)"
        "d \<noteq> NULL" "d \<notin> fst ` set (u_live ?s1)" "whole_pages (c_handle (c\<lparr>c_count := c_count c + 1\<rparr>)) (range_of (Plain_range rng))"
      have "populate_handle (blank_handle rng) rng (c_handle c) addrs = Some (handle_of (blank_handle rng) rng (c_handle c) addrs)"
        using rd(4) len by (intro populate_handle_ok) (simp_all add: rng_def)
      moreover have "distinct [?v, m, d]" "{?v, m, d} \<inter> fst ` set (u_live s) = {}" using m(3) d(3) v by (auto simp: added_map_def added_va_def)
      moreover have "length (u_live s) + 2 < 2 ^ 32" using m(4) by (simp add: added_va_def)
      ultimately show thesis using m(1-3) d False rd(2)
        by (intro works [of d m ?v]) (simp_all add: start set_handle_def added_dma_def added_map_def)
    qed
  qed
qed

text \<open>The address list of a handle made from another one is the other's.\<close>

lemma remap_addrs:
  assumes "page_size ctrl \<noteq> 0" "length addrs = unat n" "unat n * unat (page_size ctrl) < 2 ^ 64"
  shows "n_ctrl_pages ctrl (page_size ctrl) n = n" "map (page_addr addrs (unat (page_size ctrl)) (unat (page_size ctrl))) [0..<unat n] = addrs"
proof -
  have p: "unat (page_size ctrl) \<noteq> 0" using assms(1) by (simp add: unat_eq_0)
  have "unat (page_size ctrl * n) = unat (page_size ctrl) * unat n" using assms(3) by (simp add: unat_word_ariths mult.commute)
  then show "n_ctrl_pages ctrl (page_size ctrl) n = n" using p by (simp add: n_ctrl_pages_def word_unat_eq_iff unat_div)
  show "map (page_addr addrs (unat (page_size ctrl)) (unat (page_size ctrl))) [0..<unat n] = addrs"
    using p assms(2) by (intro nth_equalityI) (simp_all add: page_addr_def)
qed

lemma nvm_dma_remap_cases:
  assumes os: "os_ok api" and o: "u_dmas s other = Some x" and m: "dc_map x \<noteq> NULL" "u_maps s (dc_map x) = Some m" "dm_count m \<noteq> 0" "dm_va m \<noteq> NULL"
    and c: "u_ctrls s (dm_ctrl m) = Some c" "page_size (c_handle c) \<noteq> 0" and v: "u_vas s (dm_va m) = Some v"
    and h: "dma_page_size (dc_handle x) = page_size (c_handle c)" "length (dma_ioaddrs (dc_handle x)) = unat (dma_n_ioaddrs (dc_handle x))"
      "unat (dma_n_ioaddrs (dc_handle x)) * unat (page_size (c_handle c)) < 2 ^ 64"
  obtains e where "nvm_dma_remap api other s = Some (Inl e, s)" "e \<noteq> 0"
  | d h where "nvm_dma_remap api other s = Some (Inr d,
      added_dma d \<lparr>dc_map = dc_map x, dc_handle = h\<rparr> (s\<lparr>u_maps := (u_maps s)(dc_map x \<mapsto> m\<lparr>dm_count := dm_count m + 1\<rparr>)\<rparr>))"
    "d \<noteq> NULL" "d \<notin> fst ` set (u_live s)" "dma_page_size h = page_size (c_handle c)" "dma_n_ioaddrs h = dma_n_ioaddrs (dc_handle x)"
    "dma_ioaddrs h = dma_ioaddrs (dc_handle x)" "dma_vaddr h = va_vaddr (range_of v)" "whole_pages (c_handle c) (range_of v)" "length (u_live s) + 2 < 2 ^ 32"
proof -
  note fails = that(1) and works = that(2)
  let ?p = "dc_map x" and ?m = "m\<lparr>dm_count := dm_count m + 1\<rparr>"
  let ?s = "s\<lparr>u_maps := (u_maps s)(?p \<mapsto> ?m)\<rparr>"
  have get: "get_map ?p s = Some (0, ?s)" using m by (simp add: get_map_def)
  have s1: "u_maps ?s ?p = Some ?m" "u_ctrls ?s (dm_ctrl ?m) = Some c" "u_vas ?s (dm_va ?m) = Some v" using c v by simp_all
  show thesis
  proof (rule create_container_cases [OF os s1])
    fix e assume "create_container api ?p ?s = Some (Inl e, ?s)" "e \<noteq> 0"
    moreover have "put_map ?p ?s = Some s" using m by (simp add: put_map_def Let_def fun_upd_idem)
    ultimately show thesis using o get by (intro fails [of e]) (simp_all add: nvm_dma_remap_def)
  next
    fix d
    assume d: "create_container api ?p ?s = Some (Inr d, added_dma d \<lparr>dc_map = ?p, dc_handle = blank_handle (range_of v)\<rparr> ?s)"
      "d \<noteq> NULL" "d \<notin> fst ` set (u_live ?s)" "whole_pages (c_handle c) (range_of v)" "length (u_live ?s) + 2 < 2 ^ 32"
    let ?va = "\<lparr>va_remote = \<not> dma_local (dc_handle x), va_vaddr = va_vaddr (range_of v),
      va_page_size = dma_page_size (dc_handle x), va_n_pages = dma_n_ioaddrs (dc_handle x)\<rparr>"
    let ?h = "handle_of (blank_handle (range_of v)) ?va (c_handle c) (dma_ioaddrs (dc_handle x))"
    have "populate_handle (blank_handle (range_of v)) ?va (c_handle c) (dma_ioaddrs (dc_handle x)) = Some ?h"
      using c(2) h(2) by (intro populate_handle_ok) simp_all
    moreover have "dma_n_ioaddrs ?h = dma_n_ioaddrs (dc_handle x)" "dma_ioaddrs ?h = dma_ioaddrs (dc_handle x)"
      using remap_addrs [OF c(2) h(2,3)] h(1) by (simp_all add: handle_of_def Let_def)
    ultimately show thesis using o get d s1 by (intro works [of d ?h]) (simp_all add: nvm_dma_remap_def set_handle_def added_dma_def)
  qed
qed

section \<open>Controller handles\<close>

definition added_dev :: "ptr \<Rightarrow> int \<Rightarrow> ustate \<Rightarrow> ustate" where
  "added_dev d fd s = s\<lparr>u_live := (d, K_dev) # u_live s, u_devs := (u_devs s)(d \<mapsto> fd)\<rparr>"

definition added_ctrl :: "ptr \<Rightarrow> controller \<Rightarrow> ustate \<Rightarrow> ustate" where
  "added_ctrl p c s = s\<lparr>u_live := (p, K_ctrl) # u_live s, u_ctrls := (u_ctrls s)(p \<mapsto> c)\<rparr>"

definition handle_from_cap :: "ustate uapi \<Rightarrow> u64 \<Rightarrow> u64 \<Rightarrow> u64 \<Rightarrow> nvm_ctrl" where
  "handle_from_cap api cap mm sz = \<lparr>page_size = sc_pagesize api, dstrd = ucast (CAP_DSTRD cap), timeout = CAP_TO cap * 500,
     max_qs = ucast (CAP_MQES cap) + 1, mm_size = sz, mm_ptr = mm\<rparr>"

definition page_size_supported :: "ustate uapi \<Rightarrow> u64 \<Rightarrow> bool" where
  "page_size_supported api cap \<longleftrightarrow> sc_pagesize api \<noteq> 0 \<and>
     (ucast (CAP_MPSMIN cap) :: u8) \<le> ucast (encode_page_size (sc_pagesize api)) \<and>
     (ucast (encode_page_size (sc_pagesize api)) :: u8) \<le> ucast (CAP_MPSMAX cap)"

lemma nvm_ctrl_setup_cases:
  assumes os: "os_ok api" and ty: "typed s" and ops: "dev = NULL \<or> (\<exists>k. ops = Some k \<and> op_release k \<noteq> None)"
    and cap: "reg_cap api mm = Some cap"
  obtains e where "nvm_ctrl_setup api dev ops ty mm sz s = Some (Inl e, s)" "e \<noteq> 0"
  | p where "nvm_ctrl_setup api dev ops ty mm sz s = Some (Inr p, added_ctrl p
      \<lparr>c_count = 1, c_type = ty, c_device = dev, c_ops = (case ops of Some k \<Rightarrow> k | None \<Rightarrow> no_ops), c_handle = handle_from_cap api cap mm sz\<rparr> s)"
    "p \<noteq> NULL" "p \<notin> fst ` set (u_live s)" "page_size_supported api cap" "NVM_CTRL_MEM_MINSIZE \<le> sz"
proof -
  let ?p = "malloc api s"
  let ?s1 = "take_mem K_ctrl ?p s"
  have fresh: "?p \<noteq> NULL \<Longrightarrow> ?p \<notin> fst ` set (u_live s)" by (rule os_okD(1) [OF os])
  have rem: "remove_handle ?p (added_ctrl ?p x s) = Some s" if "?p \<noteq> NULL" for x
    using fresh [OF that] typed_fresh(2) [OF ty fresh [OF that]] by (simp add: remove_handle_def free_mem_def added_ctrl_def fun_upd_idem)
  consider "?p = NULL" | "?p \<noteq> NULL" "mutex_init api ?s1 \<noteq> 0" | "?p \<noteq> NULL" "mutex_init api ?s1 = 0" by blast
  then show thesis
  proof cases
    case 1
    then show thesis using ops by (intro that(1) [of ENOMEM]) (auto simp: nvm_ctrl_setup_def create_handle_def)
  next
    case 2
    moreover have "free_mem ?p ?s1 = Some s" using fresh [OF 2(1)] by (simp add: free_mem_def take_mem_def)
    ultimately show thesis using ops by (intro that(1) [of ENOMEM]) (auto simp: nvm_ctrl_setup_def create_handle_def)
  next
    case 3
    let ?x = "\<lparr>c_count = 1, c_type = ty, c_device = dev, c_ops = (case ops of Some k \<Rightarrow> k | None \<Rightarrow> no_ops), c_handle = zero_ctrl\<rparr>"
    have new: "create_handle api dev ops ty s = Some (?p, added_ctrl ?p ?x s)"
      using 3 ops by (auto simp: create_handle_def Let_def added_ctrl_def take_mem_def)
    consider "sz < NVM_CTRL_MEM_MINSIZE" | "\<not> sz < NVM_CTRL_MEM_MINSIZE" "sc_pagesize api = 0"
      | "\<not> sz < NVM_CTRL_MEM_MINSIZE" "sc_pagesize api \<noteq> 0" "\<not> page_size_supported api cap"
      | "\<not> sz < NVM_CTRL_MEM_MINSIZE" "sc_pagesize api \<noteq> 0" "page_size_supported api cap" by blast
    then show thesis
    proof cases
      case 4
      then show thesis using 3 new cap fresh
        by (intro that(2) [of ?p]) (auto simp: nvm_ctrl_setup_def page_size_supported_def Let_def added_ctrl_def handle_from_cap_def not_less)
    qed (use 3 new rem cap in \<open>auto intro: that(1) simp: nvm_ctrl_setup_def page_size_supported_def Let_def\<close>)
  qed
qed

text \<open>Opening the device. The calls made on each way out are named; on errors they give everything back.\<close>

lemma nvm_ctrl_init_cases:
  assumes os: "os_ok api" and ty: "typed s" and bar: "\<And>s fd n. reg_cap api (mmap api s fd n) \<noteq> None"
  obtains e where "nvm_ctrl_init api filedes s = Some (Inl e, s)" "e \<noteq> 0"
  | e fd where "nvm_ctrl_init api filedes s = Some (Inl e, ulog [U_dup fd, U_close fd] s)" "e \<noteq> 0"
  | e fd mm where "nvm_ctrl_init api filedes s = Some (Inl e, ulog [U_dup fd, U_mmap mm NVM_CTRL_MEM_MINSIZE, U_munmap mm NVM_CTRL_MEM_MINSIZE, U_close fd] s)" "e \<noteq> 0"
  | d fd p mm cap where "nvm_ctrl_init api filedes s = Some (Inr p, ulog [U_dup fd, U_mmap mm NVM_CTRL_MEM_MINSIZE] (added_ctrl p
      \<lparr>c_count = 1, c_type = DEVICE_TYPE_IOCTL, c_device = d, c_ops = linux_ops, c_handle = handle_from_cap api cap mm NVM_CTRL_MEM_MINSIZE\<rparr> (added_dev d fd s)))"
    "d \<noteq> NULL" "p \<noteq> NULL" "distinct [d, p]" "{d, p} \<inter> fst ` set (u_live s) = {}" "reg_cap api mm = Some cap" "page_size_supported api cap"
proof (cases "malloc api s = NULL")
  case True
  then show thesis by (intro that(1) [of ENOMEM]) (simp_all add: nvm_ctrl_init_def)
next
  case False
  let ?d = "malloc api s"
  let ?s1 = "take_mem K_dev ?d s"
  let ?fd = "dup api ?s1 filedes"
  let ?s2 = "ulog [U_dup ?fd] (added_dev ?d ?fd s)"
  have fresh: "?d \<notin> fst ` set (u_live s)" by (rule os_okD(1) [OF os]) (use False in simp)
  have none: "u_devs s ?d = None" by (rule typed_fresh [OF ty fresh])
  have s2: "ulog [U_dup ?fd] (?s1\<lparr>u_devs := (u_devs ?s1)(?d \<mapsto> ?fd)\<rparr>) = ?s2" by (simp add: added_dev_def take_mem_def)
  have close: "free_mem ?d ((ulog [U_close ?fd] ?s2)\<lparr>u_devs := (u_devs ?s2)(?d := None)\<rparr>) = Some (ulog [U_dup ?fd, U_close ?fd] s)"
    using fresh none by (simp add: free_mem_def ulog_def added_dev_def fun_upd_idem)
  have e: "errno api t \<noteq> 0" for t using os_okD(2) [OF os, of t] by simp
  let ?mm = "mmap api ?s2 ?fd NVM_CTRL_MEM_MINSIZE"
  consider "?fd < 0" | "\<not> ?fd < 0" "fcntl_setfd api ?s2 ?fd = -1 \<or> ?mm = 0" | "\<not> ?fd < 0" "fcntl_setfd api ?s2 ?fd \<noteq> -1" "?mm \<noteq> 0" by blast
  then show thesis
  proof cases
    case 1
    moreover have "free_mem ?d ?s1 = Some s" using fresh by (simp add: free_mem_def take_mem_def)
    ultimately show thesis using False e by (intro that(1) [of "errno api ?s1"]) (simp_all add: nvm_ctrl_init_def Let_def)
  next
    case 2
    then show thesis using False e close unfolding s2 [symmetric]
      by (intro that(2) [of "errno api ?s2" ?fd]) (auto simp: nvm_ctrl_init_def Let_def s2 [symmetric])
  next
    case 3
    let ?s3 = "ulog [U_mmap ?mm NVM_CTRL_MEM_MINSIZE] ?s2"
    have ty3: "typed ?s3" using ty by (auto simp: typed_def ulog_def added_dev_def)
    from bar obtain cap where cap: "reg_cap api ?mm = Some cap" by blast
    have run: "nvm_ctrl_init api filedes s = do {
        (r, s) \<leftarrow> nvm_ctrl_setup api ?d (Some linux_ops) DEVICE_TYPE_IOCTL ?mm NVM_CTRL_MEM_MINSIZE ?s3;
        case r of
          Inl err \<Rightarrow> do { s \<leftarrow> release_device ?d ?mm NVM_CTRL_MEM_MINSIZE s; Some (Inl err, s) }
        | Inr ctrl \<Rightarrow> Some (Inr ctrl, s) }"
      using 3 False unfolding s2 [symmetric] by (simp add: nvm_ctrl_init_def Let_def)
    have ops: "?d = NULL \<or> (\<exists>k. Some linux_ops = Some k \<and> op_release k \<noteq> None)" by (simp add: linux_ops_def)
    show thesis
    proof (rule nvm_ctrl_setup_cases [OF os ty3 ops cap, of DEVICE_TYPE_IOCTL NVM_CTRL_MEM_MINSIZE])
      fix e assume A: "nvm_ctrl_setup api ?d (Some linux_ops) DEVICE_TYPE_IOCTL ?mm NVM_CTRL_MEM_MINSIZE ?s3 = Some (Inl e, ?s3)" "e \<noteq> 0"
      have "release_device ?d ?mm NVM_CTRL_MEM_MINSIZE ?s3 =
          Some (ulog [U_dup ?fd, U_mmap ?mm NVM_CTRL_MEM_MINSIZE, U_munmap ?mm NVM_CTRL_MEM_MINSIZE, U_close ?fd] s)"
        using fresh none by (simp add: release_device_def free_mem_def ulog_def added_dev_def fun_upd_idem)
      then show thesis using A by (intro that(3) [of e ?fd ?mm]) (simp_all add: run)
    next
      fix p let ?c = "\<lparr>c_count = 1, c_type = DEVICE_TYPE_IOCTL, c_device = ?d, c_ops = linux_ops, c_handle = handle_from_cap api cap ?mm NVM_CTRL_MEM_MINSIZE\<rparr>"
      assume A: "nvm_ctrl_setup api ?d (Some linux_ops) DEVICE_TYPE_IOCTL ?mm NVM_CTRL_MEM_MINSIZE ?s3 = Some (Inr p, added_ctrl p
          \<lparr>c_count = 1, c_type = DEVICE_TYPE_IOCTL, c_device = ?d, c_ops = (case Some linux_ops of Some k \<Rightarrow> k | None \<Rightarrow> no_ops),
           c_handle = handle_from_cap api cap ?mm NVM_CTRL_MEM_MINSIZE\<rparr> ?s3)"
        "p \<noteq> NULL" "p \<notin> fst ` set (u_live ?s3)" "page_size_supported api cap"
      have "added_ctrl p ?c ?s3 = ulog [U_dup ?fd, U_mmap ?mm NVM_CTRL_MEM_MINSIZE] (added_ctrl p ?c (added_dev ?d ?fd s))"
        by (simp add: added_ctrl_def ulog_def added_dev_def)
      moreover have "distinct [?d, p]" "{?d, p} \<inter> fst ` set (u_live s) = {}" using A(3) fresh by (auto simp: ulog_def added_dev_def)
      ultimately show thesis using A False cap by (intro that(4) [of p ?fd ?mm ?d cap]) (simp_all add: run)
    qed
  qed
qed

end
