(* ===== verification/Ugds_Io.thy ===== *)
theory Ugds_Io
  imports Nvm_Ring Nvm_Cmd
begin

text \<open>
  The transfer loop of \<open>do_io\<close> (\<open>src/ugds_io.cpp\<close>): a request is cut into chunks that one NVMe
  command can carry, and each is submitted and awaited before the next. Sizes and addresses are 64-bit
  words as in the source; an access outside the address array of the buffer, the PRP page or the queue
  memory is a fault. The loops that poll are \<open>partial_function\<close>s: not returning is \<open>None\<close> as well,
  so the theorems that state a result also state termination.
\<close>

section \<open>One command\<close>

text \<open>The constants of a request, as \<open>do_io\<close> computes them before the loop.\<close>

record io_request =
  r_opcode :: u8
  r_ns_id :: u32
  r_block :: u64
  r_page :: u64
  r_max_xfer :: u64
  r_size :: u64
  r_timeout :: u64
  r_ioaddrs :: "u64 list"

partial_function (option) cq_spin :: "device \<Rightarrow> u64 \<Rightarrow> u64 \<Rightarrow> qpair \<Rightarrow> (nvm_cpl option \<times> qpair) option" where
  "cq_spin dev spins limit qp = do {
     (cpl, qp) \<leftarrow> qp_dequeue dev qp;
     if cpl \<noteq> None then Some (cpl, qp)
     else if spins + 1 > limit then Some (None, qp)
     else cq_spin dev (spins + 1) limit qp }"

definition cq_wait :: "device \<Rightarrow> u64 \<Rightarrow> qpair \<Rightarrow> (nvm_cpl option \<times> qpair) option" where
  "cq_wait dev time qp = cq_spin dev 0 (time * 1000000) qp"

definition cpl_status :: "nvm_cpl \<Rightarrow> u16" where
  "cpl_status cpl = ucast (drop_bit 17 (cpl_dw3 cpl) AND 0x7FF)"

text \<open>
  Waiting for a completion and retiring it, on both paths of the source: \<open>Inl\<close> is the result with
  which \<open>do_io\<close> leaves the loop.
\<close>

definition retire :: "device \<Rightarrow> io_request \<Rightarrow> qpair \<Rightarrow> ((int + unit) \<times> qpair) option" where
  "retire dev r qp = do {
     (cpl, qp) \<leftarrow> cq_wait dev (r_timeout r) qp;
     case cpl of
       None \<Rightarrow> Some (Inl (- EIO), qp)
     | Some cpl \<Rightarrow>
         let st = cpl_status cpl; qp = qp_cq_update (qp_sq_update qp) in
         Some (if st \<noteq> 0 then Inl (- EIO) else Inr (), qp) }"

text \<open>Taking a slot: while the queue is full, a completion is awaited and retired.\<close>

partial_function (option) take_slot :: "device \<Rightarrow> io_request \<Rightarrow> qpair \<Rightarrow> ((int + u32) \<times> qpair) option" where
  "take_slot dev r qp = (case nvm_sq_enqueue (sq qp) of
     (Some slot, q) \<Rightarrow> Some (Inr slot, qp\<lparr>sq := q\<rparr>)
   | (None, q) \<Rightarrow> do {
       (x, qp) \<leftarrow> retire dev r (qp\<lparr>sq := q\<rparr>);
       case x of
         Inl e \<Rightarrow> Some (Inl e, qp)
       | Inr _ \<Rightarrow> take_slot dev r qp })"

text \<open>The data pointers: the pages themselves, or the PRP list page filled with all but the first.\<close>

definition data_ptrs :: "io_request \<Rightarrow> u64 \<Rightarrow> u64 \<Rightarrow> qpair \<Rightarrow> (u64 \<times> u64 \<times> qpair) option" where
  "data_ptrs r current_page n_pages qp = do {
     first \<leftarrow> arr_get (r_ioaddrs r) (unat current_page);
     if n_pages = 1 then Some (first, 0, qp)
     else if n_pages = 2 then do {
       second \<leftarrow> arr_get (r_ioaddrs r) (unat (current_page + 1));
       Some (first, second, qp) }
     else do {
       rest \<leftarrow> arr_prefix (drop (unat (current_page + 1)) (r_ioaddrs r)) (unat (n_pages - 1));
       entries \<leftarrow> arr_store (prp_mem qp) rest;
       Some (first, prp_ioaddr qp, qp\<lparr>prp_mem := entries\<rparr>) } }"

definition io_chunk :: "device \<Rightarrow> io_request \<Rightarrow> u64 \<Rightarrow> u64 \<Rightarrow> u64 \<Rightarrow> u64 \<Rightarrow> qpair \<Rightarrow> ((int + unit) \<times> qpair) option" where
  "io_chunk dev r current_lba current_page n_blocks n_pages qp = do {
     (x, qp) \<leftarrow> take_slot dev r qp;
     case x of
       Inl e \<Rightarrow> Some (Inl e, qp)
     | Inr slot \<Rightarrow> do {
         let cmd = nvm_cmd_header zero_cmd (NVM_DEFAULT_CID (sq qp)) (r_opcode r) (r_ns_id r);
         (prp1, prp2, qp) \<leftarrow> data_ptrs r current_page n_pages qp;
         let cmd = nvm_cmd_rw_blks (nvm_cmd_data_ptr cmd prp1 prp2) current_lba (ucast n_blocks);
         m \<leftarrow> arr_set (sq_mem qp) (unat slot) cmd;
         retire dev r (qp_submit (qp\<lparr>sq_mem := m\<rparr>)) } }"

section \<open>The loop\<close>

partial_function (option) io_loop :: "device \<Rightarrow> io_request \<Rightarrow> u64 \<Rightarrow> u64 \<Rightarrow> u64 \<Rightarrow> qpair \<Rightarrow> (int \<times> qpair) option" where
  "io_loop dev r bytes_done current_lba current_page qp =
     (if bytes_done < r_size r
      then
        let remaining = r_size r - bytes_done;
            chunk_size = (if r_max_xfer r < remaining then r_max_xfer r else remaining);
            chunk_size = (chunk_size div r_block r) * r_block r
        in if chunk_size = 0 then Some (- EINVAL, qp)
           else do {
             let n_blocks = chunk_size div r_block r;
             let n_pages = (chunk_size + r_page r - 1) div r_page r;
             let n_pages = (if n_pages = 0 then 1 else n_pages);
             (x, qp) \<leftarrow> io_chunk dev r current_lba current_page n_blocks n_pages qp;
             case x of
               Inl e \<Rightarrow> Some (e, qp)
             | Inr _ \<Rightarrow> io_loop dev r (bytes_done + chunk_size) (current_lba + n_blocks) (current_page + n_pages) qp }
      else Some (sint bytes_done, qp))"

section \<open>Waiting and retiring\<close>

lemma cq_spin_ends:
  assumes "dev_ok dev qp" "spins \<le> limit" "limit \<noteq> - 1"
  shows "\<exists>c qp' n. cq_spin dev spins limit qp = Some (c, qp') \<and> polled n c qp qp'"
  using assms(1,2)
proof (induction "unat limit - unat spins" arbitrary: spins qp rule: less_induct)
  case less
  from polled_one [OF less.prems(1)] obtain c qp1 where
    c: "qp_dequeue dev qp = Some (c, qp1)" "polled 1 c qp qp1" "dev_ok dev qp1" .
  have "unat limit \<noteq> unat (- 1 :: u64)" using assms(3) by (metis word_unat_eq_iff)
  then have "unat spins + 1 < 2 ^ 64" using less.prems(2) unsigned_less [of limit, where 'a = nat] by (simp add: word_le_nat_alt unsigned_minus_1_eq_mask mask_eq_exp_minus_1)
  then have inc: "unat (spins + 1) = unat spins + 1" by (simp add: unat_word_ariths)
  show ?case
  proof (cases "c \<noteq> None \<or> spins + 1 > limit")
    case True
    then have "cq_spin dev spins limit qp = Some (c, qp1)" using c(1) by (auto simp: cq_spin.simps [of dev spins])
    with c(2) show ?thesis by blast
  next
    case False
    then have "cq_spin dev spins limit qp = cq_spin dev (spins + 1) limit qp1" using c(1) by (simp add: cq_spin.simps [of dev spins])
    moreover have "unat limit - unat (spins + 1) < unat limit - unat spins" "spins + 1 \<le> limit"
      using False inc by (auto simp: word_le_nat_alt not_less)
    from less.hyps [OF this(1) c(3) this(2)] obtain c' qp' n where
      "cq_spin dev (spins + 1) limit qp1 = Some (c', qp')" "polled n c' qp1 qp'" by blast
    ultimately show ?thesis using polled_trans [of 1 qp qp1 n c' qp'] c(2) False by auto
  qed
qed

lemma cq_wait_ends: "dev_ok dev qp \<Longrightarrow> \<exists>c qp' n. cq_wait dev time qp = Some (c, qp') \<and> polled n c qp qp'"
proof -
  assume "dev_ok dev qp"
  moreover have "even (time * 1000000)" by simp
  then have "time * 1000000 \<noteq> - 1" by (metis odd_one dvd_minus_iff)
  ultimately show ?thesis unfolding cq_wait_def by (intro cq_spin_ends) simp_all
qed

text \<open>Host activity that submits nothing.\<close>

fun submits :: "hw_event \<Rightarrow> bool" where
  "submits (SQ_doorbell t m p) = True"
| "submits _ = False"

definition quiet :: "hw_event list \<Rightarrow> bool" where
  "quiet es \<longleftrightarrow> (\<forall>e\<in>set es. \<not> submits e)"

lemma quiet_simps [simp]: "quiet []" "quiet (xs @ ys) = (quiet xs \<and> quiet ys)" "quiet (replicate n Poll)" "quiet [CQ_doorbell h]"
  by (auto simp: quiet_def)

text \<open>A queue pair between two commands: everything enqueued has been submitted.\<close>

definition io_wf :: "nat \<Rightarrow> qpair \<Rightarrow> bool" where
  "io_wf e qp \<longleftrightarrow> sq_wf (sq qp) \<and> q_last (sq qp) = tail (sq qp) \<and> unat (qs (sq qp)) \<le> length (sq_mem qp) \<and> e \<le> length (prp_mem qp)"

lemma retire_ends:
  assumes "dev_ok dev qp"
  shows "\<exists>x qp' es. retire dev r qp = Some (x, qp') \<and> dev_ok dev qp' \<and> sq_mem qp' = sq_mem qp \<and> prp_mem qp' = prp_mem qp \<and>
    prp_ioaddr qp' = prp_ioaddr qp \<and> events qp' = events qp @ es \<and> quiet es \<and>
    (x = Inl (- EIO) \<and> sq qp' \<in> {sq qp, nvm_sq_update (sq qp)} \<or> x = Inr () \<and> sq qp' = nvm_sq_update (sq qp))"
proof -
  from cq_wait_ends [OF assms] obtain c qp1 n where w: "cq_wait dev (r_timeout r) qp = Some (c, qp1)" "polled n c qp qp1" by blast
  then obtain q1 where q1: "qp1 = qp\<lparr>cq := q1, events := events qp @ replicate n Poll\<rparr>" "cq_wf q1" "qs q1 = qs (cq qp)"
    by (auto simp: polled_def)
  show ?thesis
  proof (cases c)
    case None
    then show ?thesis using w(1) q1 assms
      by (intro exI [of _ "Inl (- EIO)"] exI [of _ qp1] exI [of _ "replicate n Poll"]) (simp add: retire_def dev_ok_def)
  next
    case (Some cpl)
    let ?qp' = "qp_cq_update (qp_sq_update qp1)"
    obtain es where es: "events ?qp' = events qp @ es" "quiet es"
      using q1(1) by (cases "nvm_cq_update q1") (auto simp: qp_cq_update_def qp_sq_update_def nvm_cq_update_def split: if_splits)
    have "cq_wf (cq ?qp')" "qs (cq ?qp') = qs (cq qp)"
      using q1 by (auto simp: qp_cq_update_def qp_sq_update_def nvm_cq_update_def cq_wf_def)
    then have ok: "dev_ok dev ?qp'" using assms by (simp add: dev_ok_def)
    have "sq_mem ?qp' = sq_mem qp" "prp_mem ?qp' = prp_mem qp" "prp_ioaddr ?qp' = prp_ioaddr qp" "sq ?qp' = nvm_sq_update (sq qp)"
      using q1(1) by (simp_all add: qp_cq_update_def qp_sq_update_def split: prod.splits)
    with Some w(1) es ok show ?thesis
      by (intro exI [of _ "if cpl_status cpl \<noteq> 0 then Inl (- EIO) else Inr ()"] exI [of _ ?qp'] exI [of _ es]) (simp add: retire_def Let_def)
  qed
qed

lemma sq_update_io:
  assumes "sq_wf q" "q_last q = tail q"
  shows "sq_wf (nvm_sq_update q)" "q_last (nvm_sq_update q) = tail (nvm_sq_update q)" "qs (nvm_sq_update q) = qs q"
  using sq_update_first [OF assms(1)] assms(2) by (auto simp: nvm_sq_update_def Let_def)

lemma enqueue_io:
  assumes "sq_wf q" "nvm_sq_enqueue q = (Some slot, q')"
  shows "sq_wf q'" "slot = tail q" "qs q' = qs q" "q_last q' = q_last q" "unat (tail q') = (unat (tail q) + 1) mod unat (qs q)"
    "tail q' \<noteq> tail q"
proof -
  have room: "pending q < unat (qs q) - 1"
    using full_test [OF assms(1)] pending_less [OF assms(1)] assms(2) by (auto simp: nvm_sq_enqueue_def)
  from sq_enqueue_room [OF assms(1) this] assms(2) show "sq_wf q'" "slot = tail q" "qs q' = qs q"
    and t: "unat (tail q') = (unat (tail q) + 1) mod unat (qs q)" by auto
  show "q_last q' = q_last q" using assms(2) by (auto simp: nvm_sq_enqueue_def Let_def split: if_splits)
  have "(unat (tail q) + 1) mod unat (qs q) \<noteq> unat (tail q)"
    using sq_wfD [OF assms(1)] by (simp only: wrap_inc) simp
  then show "tail q' \<noteq> tail q" using t by auto
qed

section \<open>What the controller fetches\<close>

text \<open>
  A controller that has fetched up to slot \<open>h\<close> takes, at a doorbell with tail \<open>t\<close>, the entries of the
  ring between the two, from the queue memory as it is then, with the PRP page as it is then.
\<close>

fun fetched :: "nat \<Rightarrow> nat \<Rightarrow> hw_event list \<Rightarrow> (nvm_cmd \<times> u64 list) list" where
  "fetched n h [] = []"
| "fetched n h (SQ_doorbell t m p # es) = map (\<lambda>i. (m ! ((h + i) mod n), p)) [0..<occ n h (unat t)] @ fetched n (unat t) es"
| "fetched n h (e # es) = fetched n h es"

fun last_tail :: "nat \<Rightarrow> hw_event list \<Rightarrow> nat" where
  "last_tail h [] = h"
| "last_tail h (SQ_doorbell t m p # es) = last_tail (unat t) es"
| "last_tail h (e # es) = last_tail h es"

lemma fetched_append [simp]: "fetched n h (xs @ ys) = fetched n h xs @ fetched n (last_tail h xs) ys"
  by (induction n h xs rule: fetched.induct) simp_all

lemma last_tail_append [simp]: "last_tail h (xs @ ys) = last_tail (last_tail h xs) ys"
  by (induction h xs rule: last_tail.induct) simp_all

lemma quiet_fetched [simp]: "quiet es \<Longrightarrow> fetched n h es = []" "quiet es \<Longrightarrow> last_tail h es = h"
  by (induction n h es rule: fetched.induct; simp add: quiet_def)+

lemma fetched_one:
  assumes "h < n" "2 \<le> n" "unat t = (h + 1) mod n" "h < length m"
  shows "fetched n h [SQ_doorbell t (m[h := c]) p] = [(c, p)]"
  using occ_inc_tail [of h n h] assms by (simp add: occ_def)

section \<open>A command is submitted once and awaited\<close>

lemma enqueue_after_update:
  assumes wf: "sq_wf q" and full: "nvm_sq_enqueue q = (None, q1)"
  shows "\<exists>q'. nvm_sq_enqueue (nvm_sq_update q) = (Some (tail q), q')"
proof -
  note D = sq_wfD [OF wf] and u = sq_update_first [OF wf]
  have "pending q = unat (qs q) - 1" using full_test [OF wf] full by (auto simp: nvm_sq_enqueue_def Let_def split: if_splits)
  moreover from this have "pending (nvm_sq_update q) = pending q - 1"
    using occ_inc_head [OF D(3,4)] D(1) u by (simp add: pending_def)
  ultimately have "pending (nvm_sq_update q) < unat (qs (nvm_sq_update q)) - 1" using D(1) u by auto
  with sq_enqueue_room [of "nvm_sq_update q"] u show ?thesis by auto
qed

lemma take_slot_ends:
  assumes wf: "io_wf e qp" and dev: "dev_ok dev qp"
  shows "\<exists>x qp' es. take_slot dev r qp = Some (x, qp') \<and> dev_ok dev qp' \<and> sq_mem qp' = sq_mem qp \<and> prp_mem qp' = prp_mem qp \<and>
    prp_ioaddr qp' = prp_ioaddr qp \<and> events qp' = events qp @ es \<and> quiet es \<and> sq_wf (sq qp') \<and> qs (sq qp') = qs (sq qp) \<and>
    q_last (sq qp') = tail (sq qp) \<and>
    (x = Inl (- EIO) \<and> tail (sq qp') = tail (sq qp) \<or>
     x = Inr (tail (sq qp)) \<and> unat (tail (sq qp')) = (unat (tail (sq qp)) + 1) mod unat (qs (sq qp)))"
proof (cases "nvm_sq_enqueue (sq qp)")
  case (Pair s q)
  show ?thesis
  proof (cases s)
    case (Some slot)
    from enqueue_io [of "sq qp" slot q] Pair Some wf show ?thesis
      by (intro exI [of _ "Inr slot"] exI [of _ "qp\<lparr>sq := q\<rparr>"] exI [of _ "[]"])
        (use dev in \<open>auto simp: take_slot.simps io_wf_def dev_ok_def\<close>)
  next
    case None
    then have q: "qp\<lparr>sq := q\<rparr> = qp" using Pair by (auto simp: nvm_sq_enqueue_def Let_def split: if_splits)
    from retire_ends [OF dev, of r] obtain x qp' es where R: "retire dev r qp = Some (x, qp')" "dev_ok dev qp'"
      "sq_mem qp' = sq_mem qp" "prp_mem qp' = prp_mem qp" "prp_ioaddr qp' = prp_ioaddr qp" "events qp' = events qp @ es" "quiet es"
      "x = Inl (- EIO) \<and> sq qp' \<in> {sq qp, nvm_sq_update (sq qp)} \<or> x = Inr () \<and> sq qp' = nvm_sq_update (sq qp)" by blast
    note u = sq_update_io [of "sq qp"] sq_update_first [of "sq qp"]
    from R(8) show ?thesis
    proof
      assume "x = Inl (- EIO) \<and> sq qp' \<in> {sq qp, nvm_sq_update (sq qp)}"
      then show ?thesis using R(1-7) None Pair q wf u
        by (intro exI [of _ "Inl (- EIO)"] exI [of _ qp'] exI [of _ es]) (auto simp: take_slot.simps [of _ _ qp] io_wf_def)
    next
      assume x: "x = Inr () \<and> sq qp' = nvm_sq_update (sq qp)"
      have "\<exists>q'. nvm_sq_enqueue (nvm_sq_update (sq qp)) = (Some (tail (sq qp)), q')"
        using wf None Pair by (intro enqueue_after_update) (simp_all add: io_wf_def)
      then obtain q' where q': "nvm_sq_enqueue (nvm_sq_update (sq qp)) = (Some (tail (sq qp)), q')" ..
      have "take_slot dev r qp = Some (Inr (tail (sq qp)), qp'\<lparr>sq := q'\<rparr>)"
        using R(1) None Pair q x q' by (simp add: take_slot.simps [of _ _ qp] take_slot.simps [of _ _ qp'])
      moreover have "sq_wf (nvm_sq_update (sq qp))" "q_last (nvm_sq_update (sq qp)) = tail (sq qp)"
        "tail (nvm_sq_update (sq qp)) = tail (sq qp)" "qs (nvm_sq_update (sq qp)) = qs (sq qp)"
        using u wf by (simp_all add: io_wf_def)
      with enqueue_io [OF this(1) q'] have "sq_wf q'" "qs q' = qs (sq qp)" "q_last q' = tail (sq qp)"
        "unat (tail q') = (unat (tail (sq qp)) + 1) mod unat (qs (sq qp))" by simp_all
      ultimately show ?thesis using R(2-7)
        by (intro exI [of _ "Inr (tail (sq qp))"] exI [of _ "qp'\<lparr>sq := q'\<rparr>"] exI [of _ es]) (simp add: dev_ok_def)
    qed
  qed
qed

text \<open>A fetched command, read as the NVMe specification prescribes.\<close>

datatype transfer = Transfer u8 u32 nat nat "u64 list option"

definition ceil_div :: "nat \<Rightarrow> nat \<Rightarrow> nat" where
  "ceil_div n d = (n + d - 1) div d"

definition transfer_of :: "nat \<Rightarrow> nat \<Rightarrow> u64 \<Rightarrow> nvm_cmd \<times> u64 list \<Rightarrow> transfer" where
  "transfer_of bs ps prp = (\<lambda>(c, p). Transfer (cmd_opcode c) (cmd_nsid c) (unat (cmd_slba c)) (cmd_nlb c)
     (cmd_pages (ps div 8) (\<lambda>a. if a = prp then Some p else None) c (ceil_div (cmd_nlb c * bs) ps)))"

lemma data_ptrs_ok:
  assumes np: "1 \<le> unat np" "unat np \<le> e + 1" "2 \<le> e" "e \<le> length (prp_mem qp)"
    and len: "unat cp + unat np \<le> length (r_ioaddrs r)" "length (r_ioaddrs r) < 2 ^ 64"
  shows "\<exists>p1 p2 m. data_ptrs r cp np qp = Some (p1, p2, qp\<lparr>prp_mem := m\<rparr>) \<and> length m = length (prp_mem qp) \<and>
    (\<forall>c. cmd_prp1 c = p1 \<longrightarrow> cmd_prp2 c = p2 \<longrightarrow>
      cmd_pages e (\<lambda>a. if a = prp_ioaddr qp then Some m else None) c (unat np) = Some (take (unat np) (drop (unat cp) (r_ioaddrs r))))"
proof -
  let ?xs = "r_ioaddrs r"
  have first: "drop (unat cp) ?xs = ?xs ! unat cp # drop (unat cp + 1) ?xs" using np(1) len(1) by (simp add: Cons_nth_drop_Suc)
  have inc: "unat (cp + 1) = unat cp + 1" if "2 \<le> unat np" using that len by (simp add: unat_word_ariths)
  have dec: "unat (np - 1) = unat np - 1" using np(1) by (simp add: unat_sub word_le_nat_alt)
  consider "unat np = 1" | "unat np = 2" | "3 \<le> unat np" using np(1) by linarith
  then show ?thesis
  proof cases
    case 1
    then have "np = 1" by (simp add: word_unat_eq_iff)
    with 1 len first show ?thesis
      by (intro exI [of _ "?xs ! unat cp"] exI [of _ 0] exI [of _ "prp_mem qp"]) (simp add: data_ptrs_def arr_get_SomeI cmd_pages_def)
  next
    case 2
    then have "np = 2" by (simp add: word_unat_eq_iff)
    moreover have "drop (unat cp + 1) ?xs = ?xs ! (unat cp + 1) # drop (unat cp + 2) ?xs"
      using 2 len(1) Cons_nth_drop_Suc [of "unat cp + 1" ?xs] by simp
    ultimately show ?thesis using 2 len first inc
      by (intro exI [of _ "?xs ! unat cp"] exI [of _ "?xs ! (unat cp + 1)"] exI [of _ "prp_mem qp"])
        (simp add: data_ptrs_def arr_get_SomeI cmd_pages_def numeral_2_eq_2)
  next
    case 3
    then have "np \<noteq> 1" "np \<noteq> 2" by (auto simp: word_unat_eq_iff)
    let ?rest = "take (unat np - 1) (drop (unat cp + 1) ?xs)"
    let ?m = "?rest @ drop (length ?rest) (prp_mem qp)"
    have l: "length ?rest = unat np - 1" using len(1) by simp
    have small: "unat np - 1 \<le> e" using np(2) by simp
    have "data_ptrs r cp np qp = Some (?xs ! unat cp, prp_ioaddr qp, qp\<lparr>prp_mem := ?m\<rparr>)"
      using \<open>np \<noteq> 1\<close> \<open>np \<noteq> 2\<close> 3 len(1) inc dec np(2,4) l by (auto simp: data_ptrs_def arr_get_SomeI arr_prefix_def arr_store_def)
    moreover have "prp_walk e (\<lambda>a. if a = prp_ioaddr qp then Some ?m else None) (prp_ioaddr qp) (unat np - 1) = Some ?rest"
      using np(3) small l by (subst prp_walk.simps) (simp add: arr_prefix_def)
    moreover have "?xs ! unat cp # ?rest = take (unat np) (drop (unat cp) ?xs)"
      using 3 by (subst first) (simp add: take_Cons')
    ultimately show ?thesis using 3 l np(2,4)
      by (intro exI [of _ "?xs ! unat cp"] exI [of _ "prp_ioaddr qp"] exI [of _ ?m]) (simp add: cmd_pages_def)
  qed
qed

lemma retire_wf:
  assumes wf: "io_wf e qp" and dev: "dev_ok dev qp"
  shows "\<exists>x qp' es. retire dev r qp = Some (x, qp') \<and> dev_ok dev qp' \<and> io_wf e qp' \<and> qs (sq qp') = qs (sq qp) \<and>
    tail (sq qp') = tail (sq qp) \<and> prp_ioaddr qp' = prp_ioaddr qp \<and> events qp' = events qp @ es \<and> quiet es \<and> x \<in> {Inl (- EIO), Inr ()}"
proof -
  from retire_ends [OF dev, of r] obtain x qp' es where R: "retire dev r qp = Some (x, qp')" "dev_ok dev qp'"
    "sq_mem qp' = sq_mem qp" "prp_mem qp' = prp_mem qp" "prp_ioaddr qp' = prp_ioaddr qp" "events qp' = events qp @ es" "quiet es"
    "x \<in> {Inl (- EIO), Inr ()}" "sq qp' = sq qp \<or> sq qp' = nvm_sq_update (sq qp)" by blast
  have "sq_wf (nvm_sq_update (sq qp))" "q_last (nvm_sq_update (sq qp)) = tail (nvm_sq_update (sq qp))"
    "qs (nvm_sq_update (sq qp)) = qs (sq qp)" "tail (nvm_sq_update (sq qp)) = tail (sq qp)"
    using sq_update_io [of "sq qp"] sq_update_first [of "sq qp"] wf by (simp_all add: io_wf_def)
  then have "io_wf e qp'" "qs (sq qp') = qs (sq qp)" "tail (sq qp') = tail (sq qp)"
    using R(3,4,9) wf by (auto simp: io_wf_def)
  with R show ?thesis by (intro exI [of _ x] exI [of _ qp'] exI [of _ es]) simp
qed

lemma submit_one:
  assumes "sq_wf (sq qp)" "q_last (sq qp) \<noteq> tail (sq qp)"
  shows "qp_submit qp = qp\<lparr>sq := (sq qp)\<lparr>q_last := tail (sq qp)\<rparr>, events := events qp @ [SQ_doorbell (tail (sq qp)) (sq_mem qp) (prp_mem qp)]\<rparr>"
  using assms sq_wfD(5) [OF assms(1)] by (simp add: qp_submit_def nvm_sq_submit_def)

text \<open>The bounds on one command's blocks and pages, within the address array of the buffer.\<close>

definition chunk_ok :: "io_request \<Rightarrow> nat \<Rightarrow> nat \<Rightarrow> nat \<Rightarrow> bool" where
  "chunk_ok r cp nb np \<longleftrightarrow> r_opcode r < 0x80 \<and> 0 < nb \<and> nb < 65536 \<and> np = ceil_div (nb * unat (r_block r)) (unat (r_page r)) \<and>
     1 \<le> np \<and> np \<le> unat (r_page r) div 8 + 1 \<and> 2 \<le> unat (r_page r) div 8 \<and>
     cp + np \<le> length (r_ioaddrs r) \<and> length (r_ioaddrs r) < 2 ^ 64"

lemma submit_ends:
  assumes t: "sq_wf (sq qp)" "unat t < unat (qs (sq qp))" "q_last (sq qp) = t" "unat (tail (sq qp)) = (unat t + 1) mod unat (qs (sq qp))"
    and mem: "unat (qs (sq qp)) \<le> length (sq_mem qp)" "e \<le> length (prp_mem qp)" and dev: "dev_ok dev qp"
  shows "\<exists>x qp' es. retire dev r (qp_submit (qp\<lparr>sq_mem := (sq_mem qp)[unat t := c]\<rparr>)) = Some (x, qp') \<and> dev_ok dev qp' \<and> io_wf e qp' \<and>
    qs (sq qp') = qs (sq qp) \<and> prp_ioaddr qp' = prp_ioaddr qp \<and> events qp' = events qp @ es \<and>
    last_tail (unat t) es = unat (tail (sq qp')) \<and> x \<in> {Inl (- EIO), Inr ()} \<and>
    fetched (unat (qs (sq qp))) (unat t) es = [(c, prp_mem qp)]"
proof -
  let ?m = "(sq_mem qp)[unat t := c]"
  define qp2 where "qp2 = qp_submit (qp\<lparr>sq_mem := ?m\<rparr>)"
  have "(unat t + 1) mod unat (qs (sq qp)) \<noteq> unat t" unfolding wrap_inc [OF t(2)] using sq_wfD(1) [OF t(1)] by simp
  then have "q_last (sq qp) \<noteq> tail (sq qp)" unfolding t(4) [symmetric] t(3) by blast
  then have qp2: "qp2 = qp\<lparr>sq_mem := ?m, sq := (sq qp)\<lparr>q_last := tail (sq qp)\<rparr>, events := events qp @ [SQ_doorbell (tail (sq qp)) ?m (prp_mem qp)]\<rparr>"
    unfolding qp2_def using t(1) by (subst submit_one) simp_all
  then have "io_wf e qp2" "dev_ok dev qp2" using t mem dev by (simp_all add: io_wf_def dev_ok_def sq_wf_def)
  from retire_wf [OF this, of r] obtain y qp3 es3 where R: "retire dev r qp2 = Some (y, qp3)" "dev_ok dev qp3" "io_wf e qp3"
    "qs (sq qp3) = qs (sq qp2)" "tail (sq qp3) = tail (sq qp2)" "prp_ioaddr qp3 = prp_ioaddr qp2" "events qp3 = events qp2 @ es3"
    "quiet es3" "y \<in> {Inl (- EIO), Inr ()}" by blast
  have "fetched (unat (qs (sq qp))) (unat t) [SQ_doorbell (tail (sq qp)) ?m (prp_mem qp)] = [(c, prp_mem qp)]"
    using t mem sq_wfD(1) [OF t(1)] by (intro fetched_one) simp_all
  then have "fetched (unat (qs (sq qp))) (unat t) ([SQ_doorbell (tail (sq qp)) ?m (prp_mem qp)] @ es3) = [(c, prp_mem qp)]"
    using R(8) by (simp only: fetched_append) simp
  then show ?thesis using R qp2 unfolding qp2_def [symmetric]
    by (intro exI [of _ y] exI [of _ qp3] exI [of _ "[SQ_doorbell (tail (sq qp)) ?m (prp_mem qp)] @ es3"]) simp
qed

lemma io_chunk_ends:
  assumes wf: "io_wf (unat (r_page r) div 8) qp" and dev: "dev_ok dev qp" and ok: "chunk_ok r (unat cp) (unat nb) (unat np)"
  shows "\<exists>x qp' es. io_chunk dev r lba cp nb np qp = Some (x, qp') \<and> dev_ok dev qp' \<and> io_wf (unat (r_page r) div 8) qp' \<and>
    qs (sq qp') = qs (sq qp) \<and> prp_ioaddr qp' = prp_ioaddr qp \<and> events qp' = events qp @ es \<and>
    last_tail (unat (tail (sq qp))) es = unat (tail (sq qp')) \<and>
    (x = Inl (- EIO) \<and> fetched (unat (qs (sq qp))) (unat (tail (sq qp))) es = [] \<or>
     x \<in> {Inl (- EIO), Inr ()} \<and>
     map (transfer_of (unat (r_block r)) (unat (r_page r)) (prp_ioaddr qp)) (fetched (unat (qs (sq qp))) (unat (tail (sq qp))) es) =
       [Transfer (r_opcode r) (r_ns_id r) (unat lba) (unat nb) (Some (take (unat np) (drop (unat cp) (r_ioaddrs r))))])"
proof -
  let ?e = "unat (r_page r) div 8"
  from take_slot_ends [OF wf dev, of r] obtain x qp1 es1 where T: "take_slot dev r qp = Some (x, qp1)" "dev_ok dev qp1"
    "sq_mem qp1 = sq_mem qp" "prp_mem qp1 = prp_mem qp" "prp_ioaddr qp1 = prp_ioaddr qp" "events qp1 = events qp @ es1" "quiet es1"
    "sq_wf (sq qp1)" "qs (sq qp1) = qs (sq qp)" "q_last (sq qp1) = tail (sq qp)"
    "x = Inl (- EIO) \<and> tail (sq qp1) = tail (sq qp) \<or>
     x = Inr (tail (sq qp)) \<and> unat (tail (sq qp1)) = (unat (tail (sq qp)) + 1) mod unat (qs (sq qp))" by blast
  from T(11) show ?thesis
  proof
    assume "x = Inl (- EIO) \<and> tail (sq qp1) = tail (sq qp)"
    then show ?thesis using T(1-10) wf
      by (intro exI [of _ "Inl (- EIO)"] exI [of _ qp1] exI [of _ es1]) (simp add: io_chunk_def io_wf_def)
  next
    assume x: "x = Inr (tail (sq qp)) \<and> unat (tail (sq qp1)) = (unat (tail (sq qp)) + 1) mod unat (qs (sq qp))"
    have tq: "unat (tail (sq qp)) < unat (qs (sq qp))" using wf sq_wfD(4) [of "sq qp"] by (simp add: io_wf_def)
    have e: "?e \<le> length (prp_mem qp1)" using wf T(4) by (simp add: io_wf_def)
    obtain p1 p2 m where P: "data_ptrs r cp np qp1 = Some (p1, p2, qp1\<lparr>prp_mem := m\<rparr>)" "length m = length (prp_mem qp1)"
      "\<forall>c. cmd_prp1 c = p1 \<longrightarrow> cmd_prp2 c = p2 \<longrightarrow>
        cmd_pages ?e (\<lambda>a. if a = prp_ioaddr qp1 then Some m else None) c (unat np) = Some (take (unat np) (drop (unat cp) (r_ioaddrs r)))"
      using data_ptrs_ok [OF _ _ _ e, of np cp r] ok unfolding chunk_ok_def by blast
    define c where "c = rw_command (NVM_DEFAULT_CID (sq qp1)) (r_opcode r) (r_ns_id r) p1 p2 lba (ucast nb)"
    define qp2 where "qp2 = qp1\<lparr>prp_mem := m\<rparr>"
    obtain y qp3 es3 where R:
      "retire dev r (qp_submit (qp2\<lparr>sq_mem := (sq_mem qp2)[unat (tail (sq qp)) := c]\<rparr>)) = Some (y, qp3)" "dev_ok dev qp3" "io_wf ?e qp3"
      "qs (sq qp3) = qs (sq qp2)" "prp_ioaddr qp3 = prp_ioaddr qp2" "events qp3 = events qp2 @ es3"
      "last_tail (unat (tail (sq qp))) es3 = unat (tail (sq qp3))" "y \<in> {Inl (- EIO), Inr ()}"
      "fetched (unat (qs (sq qp2))) (unat (tail (sq qp))) es3 = [(c, prp_mem qp2)]"
      using submit_ends [of qp2 "tail (sq qp)" ?e dev r c] T(2,3,8-10) x tq wf e P(2) unfolding qp2_def by (auto simp: io_wf_def dev_ok_def)
    have "unat (tail (sq qp)) < length (sq_mem qp)" using wf tq by (simp add: io_wf_def)
    then have "io_chunk dev r lba cp nb np qp = Some (y, qp3)"
      using T(1,3) x P(1) R(1) unfolding qp2_def c_def rw_command_def by (simp add: io_chunk_def arr_set_SomeI)
    moreover have "fetched (unat (qs (sq qp))) (unat (tail (sq qp))) (es1 @ es3) = [(c, m)]"
      using T(7,9) R(9) by (simp add: qp2_def)
    moreover have "transfer_of (unat (r_block r)) (unat (r_page r)) (prp_ioaddr qp) (c, m) =
        Transfer (r_opcode r) (r_ns_id r) (unat lba) (unat nb) (Some (take (unat np) (drop (unat cp) (r_ioaddrs r))))"
    proof -
      have "unat (ucast nb :: u16) = unat nb" using ok by (simp add: chunk_ok_def unsigned_ucast_eq take_bit_nat_eq_self_iff)
      moreover from this have "(ucast nb :: u16) \<noteq> 0" using ok by (auto simp: chunk_ok_def)
      ultimately show ?thesis using P(3) ok T(5) by (simp add: transfer_of_def c_def rw_command_fields chunk_ok_def)
    qed
    ultimately show ?thesis using R(2-8) T(5-9)
      by (intro exI [of _ y] exI [of _ qp3] exI [of _ "es1 @ es3"]) (simp add: qp2_def)
  qed
qed

section \<open>The plan of a request\<close>

text \<open>
  The commands that a request should consist of, over natural numbers: as many whole blocks as one
  command carries, from the current block and page on.
\<close>

definition chunk_len :: "io_request \<Rightarrow> nat \<Rightarrow> nat" where
  "chunk_len r remaining = min remaining (unat (r_max_xfer r)) div unat (r_block r) * unat (r_block r)"

lemma chunk_len_le: "chunk_len r n \<le> n" "chunk_len r n \<le> unat (r_max_xfer r)"
proof -
  have "chunk_len r n \<le> min n (unat (r_max_xfer r))" by (simp only: chunk_len_def div_times_less_eq_dividend)
  then show "chunk_len r n \<le> n" "chunk_len r n \<le> unat (r_max_xfer r)" by simp_all
qed

lemma chunk_len_dec: "0 < chunk_len r n \<Longrightarrow> n - chunk_len r n < n"
  using chunk_len_le(1) [of r n] by linarith

function plan :: "io_request \<Rightarrow> nat \<Rightarrow> nat \<Rightarrow> nat \<Rightarrow> transfer list" where
  "plan r lba page remaining = (let c = chunk_len r remaining in
     if c = 0 then []
     else Transfer (r_opcode r) (r_ns_id r) lba (c div unat (r_block r)) (Some (take (ceil_div c (unat (r_page r))) (drop page (r_ioaddrs r)))) #
       plan r (lba + c div unat (r_block r)) (page + ceil_div c (unat (r_page r))) (remaining - c))"
  by pat_completeness auto
termination
  by (relation "measure (\<lambda>(r, lba, page, n). n)") (auto simp: chunk_len_dec)

declare plan.simps [simp del]

text \<open>A request whose sizes fit together, as \<open>do_io\<close> and the handle establish before the loop.\<close>

definition request_ok :: "io_request \<Rightarrow> bool" where
  "request_ok r \<longleftrightarrow> (let b = unat (r_block r); p = unat (r_page r); x = unat (r_max_xfer r) in
     r_opcode r < 0x80 \<and> 0 < b \<and> b \<le> x \<and> x div b < 65536 \<and> p dvd x div b * b \<and> 16 \<le> p \<and> x \<le> (p div 8 + 1) * p \<and>
     x + p < 2 ^ 64 \<and> b dvd unat (r_size r) \<and> unat (r_size r) < 2 ^ 63 \<and> length (r_ioaddrs r) < 2 ^ 64)"

lemma ceil_div_add: "p dvd c \<Longrightarrow> 0 < p \<Longrightarrow> ceil_div (c + n) p = c div p + ceil_div n p"
proof -
  assume "p dvd c" "0 < p"
  then obtain k where k: "c = k * p" by (metis dvd_def mult.commute)
  have "c + n + p - 1 = k * p + (n + p - 1)" using \<open>0 < p\<close> k by simp
  then show ?thesis unfolding ceil_div_def k using \<open>0 < p\<close> by (simp only: div_mult_self3) simp
qed

lemma ceil_div_simps [simp]: "0 < p \<Longrightarrow> ceil_div 0 p = 0"
  by (simp add: ceil_div_def)

lemma chunk_cases:
  assumes ok: "request_ok r" and n: "0 < n" "unat (r_block r) dvd n"
  shows "0 < chunk_len r n" "unat (r_block r) dvd chunk_len r n" "chunk_len r n = n \<or> unat (r_page r) dvd chunk_len r n"
proof -
  let ?b = "unat (r_block r)"
  have b: "0 < ?b" "?b \<le> unat (r_max_xfer r)" "?b \<le> n" using ok n by (simp_all add: request_ok_def Let_def dvd_imp_le)
  then have "0 < min n (unat (r_max_xfer r)) div ?b" by (simp add: div_greater_zero_iff)
  then show "0 < chunk_len r n" using b(1) by (simp add: chunk_len_def)
  show "?b dvd chunk_len r n" by (simp add: chunk_len_def)
  show "chunk_len r n = n \<or> unat (r_page r) dvd chunk_len r n"
    using ok n(2) by (cases "n \<le> unat (r_max_xfer r)") (auto simp: chunk_len_def request_ok_def Let_def min_def)
qed

lemma chunk_pages:
  assumes ok: "request_ok r" and n: "0 < n" "unat (r_block r) dvd n"
  shows "ceil_div n (unat (r_page r)) = ceil_div (chunk_len r n) (unat (r_page r)) + ceil_div (n - chunk_len r n) (unat (r_page r))"
    "1 \<le> ceil_div (chunk_len r n) (unat (r_page r))" "ceil_div (chunk_len r n) (unat (r_page r)) \<le> unat (r_page r) div 8 + 1"
proof -
  let ?p = "unat (r_page r)" and ?c = "chunk_len r n"
  have p: "0 < ?p" "unat (r_max_xfer r) \<le> (?p div 8 + 1) * ?p" using ok by (simp_all add: request_ok_def Let_def)
  note c = chunk_cases [OF ok n]
  show "ceil_div n ?p = ceil_div ?c ?p + ceil_div (n - ?c) ?p"
    using c(3) p(1) ceil_div_add [of ?p ?c "n - ?c"] ceil_div_add [of ?p ?c 0] chunk_len_le(1) [of r n] by auto
  have "?p \<le> ?c + ?p - 1" using c(1) by simp
  then have "?p div ?p \<le> ceil_div ?c ?p" unfolding ceil_div_def by (rule div_le_mono)
  then show "1 \<le> ceil_div ?c ?p" using p(1) by simp
  have "?c + ?p - 1 < (?p div 8 + 2) * ?p" using chunk_len_le(2) [of r n] p by simp
  then have "ceil_div ?c ?p < ?p div 8 + 2" unfolding ceil_div_def by (rule less_mult_imp_div_less)
  then show "ceil_div ?c ?p \<le> ?p div 8 + 1" by simp
qed

section \<open>The loop carries out the plan\<close>

lemma unat_add_le: "unat a + unat b < 2 ^ LENGTH('a) \<Longrightarrow> unat (a + b) = unat a + unat b" for a b :: "'a :: len word"
  by (simp add: unat_word_ariths)

lemma io_loop_step:
  assumes ok: "request_ok r" and n: "unat done + n = unat (r_size r)" "0 < n" "unat (r_block r) dvd n"
  obtains c nb np where "unat c = chunk_len r n" "unat nb = chunk_len r n div unat (r_block r)" "unat np = ceil_div (chunk_len r n) (unat (r_page r))"
    "io_loop dev r done lba page qp = do {
       (x, qp) \<leftarrow> io_chunk dev r lba page nb np qp;
       case x of Inl e \<Rightarrow> Some (e, qp) | Inr _ \<Rightarrow> io_loop dev r (done + c) (lba + nb) (page + np) qp }"
proof -
  let ?b = "r_block r" and ?p = "r_page r" and ?x = "r_max_xfer r"
  define rem where "rem = r_size r - done"
  define c where "c = (if ?x < rem then ?x else rem) div ?b * ?b"
  have rem: "unat rem = n" using n(1) unfolding rem_def by (subst unat_sub) (auto simp: word_le_nat_alt)
  have "unat (if ?x < rem then ?x else rem) = min n (unat ?x)" using rem by (auto simp: word_less_nat_alt)
  then have d: "unat ((if ?x < rem then ?x else rem) div ?b) = min n (unat ?x) div unat ?b" by (simp add: unat_div)
  have x: "unat ?x + unat ?p < 2 ^ 64" "0 < unat ?p" using ok by (simp_all add: request_ok_def Let_def)
  have "chunk_len r n < 2 ^ 64" using chunk_len_le(2) [of r n] x(1) by simp
  then have c: "unat c = chunk_len r n" using d by (simp add: c_def chunk_len_def unat_word_ariths)
  have nb: "unat (c div ?b) = chunk_len r n div unat ?b" using c by (simp add: unat_div)
  have "unat (c + ?p) = chunk_len r n + unat ?p" using c x(1) chunk_len_le(2) [of r n] by (subst unat_add_le) simp_all
  moreover from this have "unat (c + ?p - 1) = chunk_len r n + unat ?p - 1" using x(2) by (subst unat_sub) (simp_all add: word_le_nat_alt)
  ultimately have np: "unat ((c + ?p - 1) div ?p) = ceil_div (chunk_len r n) (unat ?p)" by (simp add: unat_div ceil_div_def)
  have "done < r_size r" "c \<noteq> 0" "(c + ?p - 1) div ?p \<noteq> 0"
    using n(1,2) c np chunk_cases(1) [OF ok n(2,3)] chunk_pages(2) [OF ok n(2,3)] by (auto simp: word_less_nat_alt)
  then have "io_loop dev r done lba page qp = do {
       (x, qp) \<leftarrow> io_chunk dev r lba page (c div ?b) ((c + ?p - 1) div ?p) qp;
       case x of Inl e \<Rightarrow> Some (e, qp) | Inr _ \<Rightarrow> io_loop dev r (done + c) (lba + c div ?b) (page + (c + ?p - 1) div ?p) qp }"
    by (subst io_loop.simps) (simp only: Let_def rem_def [symmetric] c_def [symmetric] if_True if_False)
  with that [OF c nb np] show thesis .
qed

lemma chunk_ok_step:
  assumes ok: "request_ok r" and n: "0 < n" "unat (r_block r) dvd n" and len: "p + ceil_div n (unat (r_page r)) \<le> length (r_ioaddrs r)"
  shows "chunk_ok r p (chunk_len r n div unat (r_block r)) (ceil_div (chunk_len r n) (unat (r_page r)))"
proof -
  let ?b = "unat (r_block r)" and ?p = "unat (r_page r)"
  note c = chunk_cases [OF ok n] chunk_pages [OF ok n]
  have "chunk_len r n div ?b \<le> unat (r_max_xfer r) div ?b" using chunk_len_le(2) [of r n] by (rule div_le_mono)
  moreover have "0 < chunk_len r n div ?b" using c(1,2) ok by (simp add: request_ok_def Let_def dvd_imp_le div_greater_zero_iff)
  moreover have "2 \<le> ?p div 8" using ok div_le_mono [of 16 ?p 8] by (simp add: request_ok_def Let_def)
  ultimately show ?thesis using c ok len by (simp add: chunk_ok_def request_ok_def Let_def)
qed

lemma plan_step: "0 < chunk_len r n \<Longrightarrow> plan r lba page n =
    Transfer (r_opcode r) (r_ns_id r) lba (chunk_len r n div unat (r_block r))
      (Some (take (ceil_div (chunk_len r n) (unat (r_page r))) (drop page (r_ioaddrs r)))) #
    plan r (lba + chunk_len r n div unat (r_block r)) (page + ceil_div (chunk_len r n) (unat (r_page r))) (n - chunk_len r n)"
  by (subst plan.simps) (simp add: Let_def)

lemma plan_0 [simp]: "plan r lba page 0 = []"
  by (simp add: plan.simps [of _ _ _ 0] chunk_len_def)

abbreviation submitted :: "io_request \<Rightarrow> qpair \<Rightarrow> hw_event list \<Rightarrow> transfer list" where
  "submitted r qp es \<equiv> map (transfer_of (unat (r_block r)) (unat (r_page r)) (prp_ioaddr qp))
     (fetched (unat (qs (sq qp))) (unat (tail (sq qp))) es)"

lemma submitted_cong:
  "qs (sq qp') = qs (sq qp) \<Longrightarrow> prp_ioaddr qp' = prp_ioaddr qp \<Longrightarrow> last_tail (unat (tail (sq qp))) es = unat (tail (sq qp')) \<Longrightarrow>
   submitted r qp (es @ es') = submitted r qp es @ submitted r qp' es'"
  by simp

lemma sint_small:
  assumes "unat (w :: u64) < 2 ^ 63"
  shows "sint w = int (unat w)"
proof -
  have "int (unat w) < int (2 ^ 63)" using assms by (rule of_nat_less_iff [THEN iffD2])
  then have "signed_take_bit 63 (int (unat w)) = int (unat w)" by (intro signed_take_bit_int_eq_self order_trans [OF _ of_nat_0_le_iff]) simp_all
  then show ?thesis by (simp add: sint_uint)
qed

lemma loop_advance:
  assumes "request_ok r" "unat (done :: u64) + n = unat (r_size r)" "0 < n" "unat (r_block r) dvd n"
    "unat (page :: u64) + ceil_div n (unat (r_page r)) \<le> length (r_ioaddrs r)" "unat (lba :: u64) + n div unat (r_block r) < 2 ^ 64"
    and C: "unat c = chunk_len r n" "unat nb = chunk_len r n div unat (r_block r)" "unat np = ceil_div (chunk_len r n) (unat (r_page r))"
  shows "unat (done + c) + (n - chunk_len r n) = unat (r_size r)" "unat (r_block r) dvd n - chunk_len r n"
    "unat (page + np) = unat page + ceil_div (chunk_len r n) (unat (r_page r))"
    "unat (page + np) + ceil_div (n - chunk_len r n) (unat (r_page r)) \<le> length (r_ioaddrs r)"
    "unat (lba + nb) = unat lba + chunk_len r n div unat (r_block r)"
    "unat (lba + nb) + (n - chunk_len r n) div unat (r_block r) < 2 ^ 64"
proof -
  let ?c = "chunk_len r n" and ?b = "unat (r_block r)"
  note cc = chunk_cases [OF assms(1,3,4)] chunk_pages [OF assms(1,3,4)] and le = chunk_len_le(1) [of r n]
  have size: "unat (r_size r) < 2 ^ 63" "length (r_ioaddrs r) < 2 ^ 64" using assms(1) by (simp_all add: request_ok_def Let_def)
  have "unat (done + c) = unat done + ?c" using C(1) le assms(2) size(1) by (subst unat_add_le) simp_all
  then show "unat (done + c) + (n - ?c) = unat (r_size r)" using le assms(2) by simp
  show "?b dvd n - ?c" using assms(4) cc(2) by (rule dvd_diff_nat)
  show pg: "unat (page + np) = unat page + ceil_div ?c (unat (r_page r))"
    using C(3) assms(5) cc(4) size(2) by (subst unat_add_le) simp_all
  show "unat (page + np) + ceil_div (n - ?c) (unat (r_page r)) \<le> length (r_ioaddrs r)"
    using pg assms(5) cc(4) by simp
  have split: "n div ?b = ?c div ?b + (n - ?c) div ?b"
    using div_plus_div_distrib_dvd_left [OF cc(2), of "n - ?c"] le by simp
  show lb: "unat (lba + nb) = unat lba + ?c div ?b" using C(2) assms(6) split by (subst unat_add_le) simp_all
  show "unat (lba + nb) + (n - ?c) div ?b < 2 ^ 64" using lb assms(6) split by simp
qed

lemma io_loop_plan:
  assumes ok: "request_ok r"
  shows "io_wf (unat (r_page r) div 8) qp \<Longrightarrow> dev_ok dev qp \<Longrightarrow> unat done + n = unat (r_size r) \<Longrightarrow> unat (r_block r) dvd n \<Longrightarrow>
    unat page + ceil_div n (unat (r_page r)) \<le> length (r_ioaddrs r) \<Longrightarrow> unat lba + n div unat (r_block r) < 2 ^ 64 \<Longrightarrow>
    \<exists>res qp' es k. io_loop dev r done lba page qp = Some (res, qp') \<and> dev_ok dev qp' \<and> io_wf (unat (r_page r) div 8) qp' \<and>
      events qp' = events qp @ es \<and> submitted r qp es = take k (plan r (unat lba) (unat page) n) \<and>
      (res = int (unat (r_size r)) \<and> length (plan r (unat lba) (unat page) n) \<le> k \<or> res = - EIO)"
proof (induction n arbitrary: "done" lba page qp rule: less_induct)
  case (less n)
  let ?b = "unat (r_block r)" and ?p = "unat (r_page r)"
  show ?case
  proof (cases "n = 0")
    case True
    moreover from True less.prems(3) have "done = r_size r" by (simp add: word_unat_eq_iff)
    moreover have "sint (r_size r) = int (unat (r_size r))" using ok by (simp add: sint_small request_ok_def Let_def)
    ultimately show ?thesis using less.prems
      by (intro exI [of _ "sint done"] exI [of _ qp] exI [of _ "[]"] exI [of _ 0]) (simp add: io_loop.simps)
  next
    case False
    then have n: "0 < n" by simp
    let ?c = "chunk_len r n"
    note cc = chunk_cases [OF ok n less.prems(4)] chunk_pages [OF ok n less.prems(4)]
    obtain c nb np where C: "unat c = ?c" "unat nb = ?c div ?b" "unat np = ceil_div ?c ?p"
      "io_loop dev r done lba page qp = do {
         (x, qp) \<leftarrow> io_chunk dev r lba page nb np qp;
         case x of Inl e \<Rightarrow> Some (e, qp) | Inr _ \<Rightarrow> io_loop dev r (done + c) (lba + nb) (page + np) qp }"
      by (rule io_loop_step [OF ok less.prems(3) n less.prems(4)])
    define T where "T = Transfer (r_opcode r) (r_ns_id r) (unat lba) (unat nb) (Some (take (unat np) (drop (unat page) (r_ioaddrs r))))"
    have plan: "plan r (unat lba) (unat page) n = T # plan r (unat lba + ?c div ?b) (unat page + ceil_div ?c ?p) (n - ?c)"
      unfolding T_def C(2,3) by (rule plan_step [OF cc(1)])
    have "chunk_ok r (unat page) (unat nb) (unat np)"
      unfolding C(2,3) by (rule chunk_ok_step [OF ok n less.prems(4,5)])
    from io_chunk_ends [OF less.prems(1,2) this, of lba] obtain x qp1 es where R:
      "io_chunk dev r lba page nb np qp = Some (x, qp1)" "dev_ok dev qp1" "io_wf (?p div 8) qp1"
      "qs (sq qp1) = qs (sq qp)" "prp_ioaddr qp1 = prp_ioaddr qp" "events qp1 = events qp @ es"
      "last_tail (unat (tail (sq qp))) es = unat (tail (sq qp1))"
      "x = Inl (- EIO) \<and> submitted r qp es = [] \<or> x \<in> {Inl (- EIO), Inr ()} \<and> submitted r qp es = [T]"
      unfolding T_def by auto
    consider k where "x = Inl (- EIO)" "submitted r qp es = take k [T]" "k \<le> 1" | "x = Inr ()" "submitted r qp es = [T]"
      using R(8) by (elim disjE conjE) (force intro: that(1) [of 0] that(1) [of 1])+
    then show ?thesis
    proof cases
      case 1
      then have "submitted r qp es = take k (plan r (unat lba) (unat page) n)" unfolding plan by (cases k) simp_all
      then show ?thesis using 1 C(4) R
        by (intro exI [of _ "- EIO"] exI [of _ qp1] exI [of _ es] exI [of _ k]) simp
    next
      case 2
      note A = loop_advance [OF ok less.prems(3) n less.prems(4-6) C(1-3)]
      from less.IH [OF chunk_len_dec [OF cc(1)] R(3,2) A(1,2,4,6)] obtain res qp2 es2 k where I:
        "io_loop dev r (done + c) (lba + nb) (page + np) qp1 = Some (res, qp2)" "dev_ok dev qp2" "io_wf (?p div 8) qp2"
        "events qp2 = events qp1 @ es2"
        "submitted r qp1 es2 = take k (plan r (unat (lba + nb)) (unat (page + np)) (n - ?c))"
        "res = int (unat (r_size r)) \<and> length (plan r (unat (lba + nb)) (unat (page + np)) (n - ?c)) \<le> k \<or> res = - EIO" by blast
      have "submitted r qp (es @ es2) = take (Suc k) (plan r (unat lba) (unat page) n)"
        unfolding submitted_cong [OF R(4,5,7)] 2(2) I(5) plan A(3,5) by simp
      moreover have "io_loop dev r done lba page qp = Some (res, qp2)" using C(4) R(1) 2(1) I(1) by simp
      moreover have "res = int (unat (r_size r)) \<and> length (plan r (unat lba) (unat page) n) \<le> Suc k \<or> res = - EIO"
        using I(6) unfolding plan A(3,5) by simp
      ultimately show ?thesis using I(2-4) R(6)
        by (intro exI [of _ res] exI [of _ qp2] exI [of _ "es @ es2"] exI [of _ "Suc k"]) (simp del: fetched_append map_append)
    qed
  qed
qed

section \<open>The plan covers the request\<close>

text \<open>
  The effect of a transfer on bytes: byte \<open>j\<close> of its blocks, at its place on the namespace, is moved to
  or from the byte of the page list at the same offset. \<open>request_moves\<close> is what a request for \<open>n\<close> bytes
  at block \<open>lba\<close> asks for: consecutive bytes of the namespace and of the buffer.
\<close>

fun byte_moves :: "nat \<Rightarrow> nat \<Rightarrow> transfer \<Rightarrow> (u8 \<times> u32 \<times> nat \<times> u64) list" where
  "byte_moves b p (Transfer opc ns lba k (Some pages)) =
     map (\<lambda>j. (opc, ns, lba * b + j, pages ! (j div p) + of_nat (j mod p))) [0..<k * b]"
| "byte_moves b p (Transfer opc ns lba k None) = []"

definition request_moves :: "io_request \<Rightarrow> nat \<Rightarrow> nat \<Rightarrow> nat \<Rightarrow> (u8 \<times> u32 \<times> nat \<times> u64) list" where
  "request_moves r lba page n = map (\<lambda>x. (r_opcode r, r_ns_id r, lba * unat (r_block r) + x,
     r_ioaddrs r ! (page + x div unat (r_page r)) + of_nat (x mod unat (r_page r)))) [0..<n]"

lemma request_moves_split:
  assumes "c \<le> n" "unat (r_block r) dvd c" "c = n \<or> unat (r_page r) dvd c" "0 < unat (r_page r)"
  shows "request_moves r lba page n = request_moves r lba page c @
    request_moves r (lba + c div unat (r_block r)) (page + ceil_div c (unat (r_page r))) (n - c)"
proof -
  let ?b = "unat (r_block r)" and ?p = "unat (r_page r)"
  have "[0..<n] = [0..<c] @ map (\<lambda>x. x + c) [0..<n - c]"
    using assms(1) upt_add_eq_append [of 0 c "n - c"] map_add_upt [of c "n - c"] by simp
  moreover have "(lba + c div ?b) * ?b + x = lba * ?b + (x + c)" for x
    using assms(2) by (simp add: algebra_simps)
  moreover have "page + ceil_div c ?p + x div ?p = page + (x + c) div ?p \<and> x mod ?p = (x + c) mod ?p" if "x < n - c" for x
  proof -
    from assms(3) that have "?p dvd c" by auto
    then obtain k where k: "c = k * ?p" by (metis dvd_def mult.commute)
    then have "ceil_div c ?p = k" using ceil_div_add [of ?p c 0] assms(4) by simp
    then show ?thesis using assms(4) unfolding k by simp
  qed
  ultimately show ?thesis by (simp add: request_moves_def add.assoc)
qed

lemma plan_moves:
  assumes ok: "request_ok r"
  shows "unat (r_block r) dvd n \<Longrightarrow> page + ceil_div n (unat (r_page r)) \<le> length (r_ioaddrs r) \<Longrightarrow>
    concat (map (byte_moves (unat (r_block r)) (unat (r_page r))) (plan r lba page n)) = request_moves r lba page n"
proof (induction n arbitrary: lba page rule: less_induct)
  case (less n)
  let ?b = "unat (r_block r)" and ?p = "unat (r_page r)" and ?c = "chunk_len r n"
  show ?case
  proof (cases "n = 0")
    case True
    then show ?thesis by (simp add: request_moves_def)
  next
    case False
    then have n: "0 < n" by simp
    note cc = chunk_cases [OF ok n less.prems(1)] chunk_pages [OF ok n less.prems(1)] and le = chunk_len_le(1) [of r n]
    have p: "0 < ?p" using ok by (simp add: request_ok_def Let_def)
    have "j div ?p < ceil_div ?c ?p" if "j < ?c" for j
    proof -
      have "j div ?p < (?c + ?p - 1) div ?p"
        using that p div_le_mono [of "j + ?p" "?c + ?p - 1" ?p] div_add_self2 [of ?p j] by (simp add: le_diff_conv2)
      then show ?thesis by (simp add: ceil_div_def)
    qed
    then have "byte_moves ?b ?p (Transfer (r_opcode r) (r_ns_id r) lba (?c div ?b) (Some (take (ceil_div ?c ?p) (drop page (r_ioaddrs r))))) =
        request_moves r lba page ?c"
      using cc(2,4) less.prems(2) by (simp add: request_moves_def)
    moreover have "concat (map (byte_moves ?b ?p) (plan r (lba + ?c div ?b) (page + ceil_div ?c ?p) (n - ?c))) =
        request_moves r (lba + ?c div ?b) (page + ceil_div ?c ?p) (n - ?c)"
      using cc(2,4) less.prems by (intro less.IH chunk_len_dec [OF cc(1)]) (simp_all add: dvd_diff_nat)
    ultimately show ?thesis
      unfolding plan_step [OF cc(1)] request_moves_split [OF le cc(2,3) p] by simp
  qed
qed

lemma concat_take: "\<exists>m. concat (map f (take k xs)) = take m (concat (map f xs))"
proof -
  have "concat (map f xs) = concat (map f (take k xs)) @ concat (map f (drop k xs))" by (metis append_take_drop_id concat_append map_append)
  then show ?thesis by (metis append_eq_conv_conj)
qed

text \<open>The loop, with what it leaves of the queue pair.\<close>

lemma io_loop_runs:
  assumes "request_ok r" "io_wf (unat (r_page r) div 8) qp" "dev_ok dev qp"
    and "unat page + ceil_div (unat (r_size r)) (unat (r_page r)) \<le> length (r_ioaddrs r)"
    and "unat lba + unat (r_size r) div unat (r_block r) < 2 ^ 64"
  shows "\<exists>res qp' es m. io_loop dev r 0 lba page qp = Some (res, qp') \<and> dev_ok dev qp' \<and> io_wf (unat (r_page r) div 8) qp' \<and> events qp' = events qp @ es \<and>
    concat (map (byte_moves (unat (r_block r)) (unat (r_page r))) (submitted r qp es)) =
      take m (request_moves r (unat lba) (unat page) (unat (r_size r))) \<and>
    (res = int (unat (r_size r)) \<and> unat (r_size r) \<le> m \<or> res = - EIO)"
proof -
  let ?n = "unat (r_size r)" and ?f = "byte_moves (unat (r_block r)) (unat (r_page r))"
  have n: "unat (r_block r) dvd ?n" using assms(1) by (simp add: request_ok_def Let_def)
  from io_loop_plan [OF assms(1-3) _ n assms(4,5), of 0] obtain res qp' es k where L:
    "io_loop dev r 0 lba page qp = Some (res, qp')" "dev_ok dev qp'" "io_wf (unat (r_page r) div 8) qp'" "events qp' = events qp @ es"
    "submitted r qp es = take k (plan r (unat lba) (unat page) ?n)"
    "res = int ?n \<and> length (plan r (unat lba) (unat page) ?n) \<le> k \<or> res = - EIO" by auto
  obtain m where "concat (map ?f (submitted r qp es)) = take m (request_moves r (unat lba) (unat page) ?n)"
    using concat_take [of ?f k] plan_moves [OF assms(1) n assms(4)] unfolding L(5) by metis
  moreover have "concat (map ?f (submitted r qp es)) = take ?n (request_moves r (unat lba) (unat page) ?n)" if "res = int ?n" "res \<noteq> - EIO"
    using that L(6) plan_moves [OF assms(1) n assms(4)] unfolding L(5) by (auto simp: request_moves_def)
  ultimately show ?thesis using L(1-4,6)
    by (cases "res = - EIO") (blast intro: order_refl)+
qed


definition example_request :: io_request where
  "example_request = \<lparr>r_opcode = 2, r_ns_id = 1, r_block = 512, r_page = 4096, r_max_xfer = 8192, r_size = 20480, r_timeout = 1,
     r_ioaddrs = [0x10000, 0x20000, 0x30000, 0x40000, 0x50000]\<rparr>"

definition example_pair :: qpair where
  "example_pair = \<lparr>sq = nvm_queue_reset example_queue, cq = nvm_queue_reset example_queue, sq_mem = replicate 4 zero_cmd,
     prp_mem = replicate 512 0, prp_ioaddr = 0x8000, events = []\<rparr>"

lemma example_io: "request_ok example_request" "io_wf 512 example_pair" "dev_ok (\<lambda>_. replicate 4 zero_cpl) example_pair"
proof -
  show "request_ok example_request" by (simp add: request_ok_def example_request_def)
  have "sq_wf (nvm_queue_reset example_queue)"
    by (auto simp: sq_wf_def nvm_queue_reset_def example_queue_def intro!: exI [of _ 2])
  then show "io_wf 512 example_pair"
    by (simp add: io_wf_def example_pair_def) (simp add: nvm_queue_reset_def example_queue_def)
  show "dev_ok (\<lambda>_. replicate 4 zero_cpl) example_pair"
    by (simp add: dev_ok_def cq_wf_def example_pair_def nvm_queue_reset_def example_queue_def)
qed


end
