(* ===== verification/Lib_Inv.thy ===== *)
theory Lib_Inv
  imports Lib_Exact Ugds_Io
begin

text \<open>
  The invariant of the library's state. Every reference count is the number of objects that refer
  to the counted one plus what the client owns; objects without a count have exactly one owner; every
  live address holds one object; and the log of system calls is balanced but for what the live objects
  hold. The function \<open>W\<close> gives the number of references the client owns, the set \<open>B\<close> its buffers.
\<close>

section \<open>The parts of the invariant\<close>

fun holds :: "ustate \<Rightarrow> ptr \<Rightarrow> kind \<Rightarrow> bool" where
  "holds s p K_dev = (u_devs s p \<noteq> None)"
| "holds s p K_ctrl = (u_ctrls s p \<noteq> None)"
| "holds s p K_va = (u_vas s p \<noteq> None)"
| "holds s p K_map = (u_maps s p \<noteq> None)"
| "holds s p K_dma = (u_dmas s p \<noteq> None)"
| "holds s p K_admin = (u_admins s p \<noteq> None)"
| "holds s p K_ref = (u_refs s p \<noteq> None)"
| "holds s p K_rpc = False"

definition heap_ok :: "ustate \<Rightarrow> bool" where
  "heap_ok s \<longleftrightarrow> distinct (map fst (u_live s)) \<and> NULL \<notin> fst ` set (u_live s) \<and> (\<forall>p k. (p, k) \<in> set (u_live s) \<longleftrightarrow> holds s p k)"

text \<open>A usable controller handle, and what the controller's device and callbacks are.\<close>

definition handle_ok :: "ustate uapi \<Rightarrow> nvm_ctrl \<Rightarrow> bool" where
  "handle_ok api h \<longleftrightarrow> page_size h = sc_pagesize api \<and> sc_pagesize api \<noteq> 0 \<and> sc_pagesize api div 16 \<le> ucast (max_qs h) \<and>
     mm_ptr h < 2 ^ 47 \<and> dstrd h < 16 \<and> reg_cap api (mm_ptr h) \<noteq> None"

definition bound_ok :: "(ptr \<rightharpoonup> int) \<Rightarrow> controller \<Rightarrow> bool" where
  "bound_ok devs c \<longleftrightarrow> c_device c = NULL \<and> c_ops c = no_ops \<and> c_type c \<noteq> DEVICE_TYPE_IOCTL \<or> devs (c_device c) \<noteq> None \<and> c_ops c = linux_ops"

definition ctrls_ok :: "ustate uapi \<Rightarrow> (ptr \<Rightarrow> nat) \<Rightarrow> ustate \<Rightarrow> bool" where
  "ctrls_ok api W s \<longleftrightarrow> (\<forall>p c. u_ctrls s p = Some c \<longrightarrow>
     unat (c_count c) = refs (u_maps s) dm_ctrl p + refs (u_refs s) ar_ctrl p + W p \<and> c_count c \<noteq> 0 \<and>
     handle_ok api (c_handle c) \<and> bound_ok (u_devs s) c)"

definition devs_ok :: "ustate \<Rightarrow> bool" where
  "devs_ok s \<longleftrightarrow> (\<forall>d fd. u_devs s d = Some fd \<longrightarrow> refs (u_ctrls s) c_device d = 1)"

text \<open>How a mapping is undone depends on what its range is part of.\<close>

definition va_fits :: "dma_desc \<Rightarrow> controller \<Rightarrow> va_object \<Rightarrow> bool" where
  "va_fits m c v \<longleftrightarrow> (case v of Plain_range _ \<Rightarrow> dm_release m = Free_va \<and> dm_unmap m = None
         | Mapping _ \<Rightarrow> dm_release m = Release_mapping_descriptor \<and> dm_unmap m = Some Ioctl_unmap \<and> c_device c \<noteq> NULL)"

definition maps_ok :: "(ptr \<Rightarrow> nat) \<Rightarrow> ustate \<Rightarrow> bool" where
  "maps_ok W s \<longleftrightarrow> (\<forall>p m. u_maps s p = Some m \<longrightarrow>
     unat (dm_count m) = refs (u_dmas s) dc_map p + W p \<and> dm_count m \<noteq> 0 \<and>
     (\<exists>c v. u_ctrls s (dm_ctrl m) = Some c \<and> u_vas s (dm_va m) = Some v \<and>
        va_fits m c v))"

definition vas_ok :: "ustate \<Rightarrow> bool" where
  "vas_ok s \<longleftrightarrow> (\<forall>v x. u_vas s v = Some x \<longrightarrow> refs (u_maps s) dm_va v = 1)"

definition dmas_ok :: "ustate uapi \<Rightarrow> (ptr \<Rightarrow> nat) \<Rightarrow> ustate \<Rightarrow> bool" where
  "dmas_ok api W s \<longleftrightarrow> (\<forall>p d. u_dmas s p = Some d \<longrightarrow> u_maps s (dc_map d) \<noteq> None \<and>
     dma_page_size (dc_handle d) = sc_pagesize api \<and> length (dma_ioaddrs (dc_handle d)) = unat (dma_n_ioaddrs (dc_handle d)) \<and>
     unat (dma_n_ioaddrs (dc_handle d)) * unat (sc_pagesize api) < 2 ^ 64 \<and>
     refs (u_admins s) la_qmem p + W p = 1)"

text \<open>An admin queue pair: between two commands, as long as a page holds commands, with completion memory that fits.\<close>

definition admin_ok :: "ustate uapi \<Rightarrow> qpair \<Rightarrow> bool" where
  "admin_ok api qp \<longleftrightarrow> io_wf 0 qp \<and> dev_ok (admin_device api) qp \<and> unat (qs (sq qp)) = unat (sc_pagesize api) div 64"

definition admins_ok :: "ustate uapi \<Rightarrow> (ptr \<Rightarrow> nat) \<Rightarrow> ustate \<Rightarrow> bool" where
  "admins_ok api W s \<longleftrightarrow> (\<forall>p a. u_admins s p = Some a \<longrightarrow> u_dmas s (la_qmem a) \<noteq> None \<and>
     refs (u_refs s) ar_data p + W p = 1 \<and> admin_ok api (la_qp a))"

definition refs_ok :: "(ptr \<Rightarrow> nat) \<Rightarrow> ustate \<Rightarrow> bool" where
  "refs_ok W s \<longleftrightarrow> (\<forall>p a. u_refs s p = Some a \<longrightarrow> u_ctrls s (ar_ctrl a) \<noteq> None \<and> ar_handles a = [] \<and>
     u_admins s (ar_data a) \<noteq> None \<and> ar_stub a = Some Execute_command \<and> ar_release a = Some Remove_admin \<and> W p = 1)"

fun api_buf :: "va_object \<Rightarrow> u64 option" where
  "api_buf (Plain_range _) = None"
| "api_buf (Mapping m) = (if im_type m = MAP_TYPE_API then Some (im_buffer m) else None)"

fun map_buf :: "va_object \<Rightarrow> u64 option" where
  "map_buf (Plain_range _) = None"
| "map_buf (Mapping m) = Some (im_buffer m)"

definition bufs_ok :: "u64 set \<Rightarrow> ustate \<Rightarrow> bool" where
  "bufs_ok B s \<longleftrightarrow> distinct (u_bufs s) \<and> 0 \<notin> set (u_bufs s) \<and>
     (\<forall>b. refs (u_vas s) api_buf (Some b) + (if b \<in> B then 1 else 0) = (if b \<in> set (u_bufs s) then 1 else 0))"

definition mm_of :: "controller \<Rightarrow> (u64 \<times> u64) option" where
  "mm_of c = (if c_device c = NULL then None else Some (mm_ptr (c_handle c), mm_size (c_handle c)))"

definition log_ok :: "ustate \<Rightarrow> bool" where
  "log_ok s \<longleftrightarrow>
     (\<forall>fd. count_list (u_calls s) (U_dup fd) = count_list (u_calls s) (U_close fd) + refs (u_devs s) id fd) \<and>
     (\<forall>mm n. count_list (u_calls s) (U_mmap mm n) = count_list (u_calls s) (U_munmap mm n) + refs (u_ctrls s) mm_of (Some (mm, n))) \<and>
     (\<forall>b. count_list (u_calls s) (U_map b) = count_list (u_calls s) (U_unmap b) + refs (u_vas s) map_buf (Some b)) \<and>
     (\<forall>fd. count_list (u_calls s) (U_export_dmabuf fd) = count_list (u_calls s) (U_close_dmabuf fd))"

definition owns_ok :: "(ptr \<Rightarrow> nat) \<Rightarrow> ustate \<Rightarrow> bool" where
  "owns_ok W s \<longleftrightarrow> (\<forall>p. W p \<noteq> 0 \<longrightarrow> u_ctrls s p \<noteq> None \<or> u_maps s p \<noteq> None \<or> u_dmas s p \<noteq> None \<or> u_admins s p \<noteq> None \<or> u_refs s p \<noteq> None)"

definition lib_inv :: "ustate uapi \<Rightarrow> (ptr \<Rightarrow> nat) \<Rightarrow> u64 set \<Rightarrow> ustate \<Rightarrow> bool" where
  "lib_inv api W B s \<longleftrightarrow> heap_ok s \<and> ctrls_ok api W s \<and> devs_ok s \<and> maps_ok W s \<and> vas_ok s \<and> dmas_ok api W s \<and>
     admins_ok api W s \<and> refs_ok W s \<and> bufs_ok B s \<and> log_ok s \<and> owns_ok W s"

lemma lib_invI:
  assumes "heap_ok s" "ctrls_ok api W s" "devs_ok s" "maps_ok W s" "vas_ok s" "dmas_ok api W s" "admins_ok api W s" "refs_ok W s"
    "bufs_ok B s" "log_ok s" "owns_ok W s"
  shows "lib_inv api W B s"
  using assms by (simp add: lib_inv_def)

lemma lib_invD:
  assumes "lib_inv api W B s"
  shows "heap_ok s" "ctrls_ok api W s" "devs_ok s" "maps_ok W s" "vas_ok s" "dmas_ok api W s" "admins_ok api W s" "refs_ok W s"
    "bufs_ok B s" "log_ok s" "owns_ok W s"
  using assms by (simp_all add: lib_inv_def)

section \<open>The heap\<close>

lemma heap_live:
  assumes "heap_ok s"
  shows "u_devs s p = Some a1 \<Longrightarrow> (p, K_dev) \<in> set (u_live s)" "u_ctrls s p = Some a2 \<Longrightarrow> (p, K_ctrl) \<in> set (u_live s)"
    "u_vas s p = Some a3 \<Longrightarrow> (p, K_va) \<in> set (u_live s)" "u_maps s p = Some a4 \<Longrightarrow> (p, K_map) \<in> set (u_live s)"
    "u_dmas s p = Some a5 \<Longrightarrow> (p, K_dma) \<in> set (u_live s)" "u_admins s p = Some a6 \<Longrightarrow> (p, K_admin) \<in> set (u_live s)"
    "u_refs s p = Some a7 \<Longrightarrow> (p, K_ref) \<in> set (u_live s)"
  using assms by (auto simp: heap_ok_def)

lemma heap_kind: "heap_ok s \<Longrightarrow> (p, k) \<in> set (u_live s) \<Longrightarrow> (p, k') \<in> set (u_live s) \<Longrightarrow> k = k'"
  by (meson eq_key_imp_eq_value heap_ok_def)

lemma heap_fst: "(p, k) \<in> set xs \<Longrightarrow> p \<in> fst ` set xs"
  by force

lemma heap_typed: "heap_ok s \<Longrightarrow> typed s"
proof -
  assume H: "heap_ok s"
  have live: "p \<in> fst ` set (u_live s)" if "holds s p k" for p k
    using H that heap_fst [of p k] by (simp add: heap_ok_def)
  show ?thesis unfolding typed_def
    by (intro Un_least subsetI; (rule live [of _ K_dev] live [of _ K_ctrl] live [of _ K_va] live [of _ K_map] live [of _ K_dma]
        live [of _ K_admin] live [of _ K_ref], simp add: dom_def; fail))
qed

lemma heap_null: "heap_ok s \<Longrightarrow> u_devs s NULL = None \<and> u_ctrls s NULL = None \<and> u_vas s NULL = None \<and> u_maps s NULL = None \<and>
   u_dmas s NULL = None \<and> u_admins s NULL = None \<and> u_refs s NULL = None"
  using typed_fresh [OF heap_typed, of s NULL] by (auto simp: heap_ok_def)

lemma heap_nonnull:
  assumes "heap_ok s"
  shows "u_devs s p = Some a1 \<Longrightarrow> p \<noteq> NULL" "u_ctrls s p = Some a2 \<Longrightarrow> p \<noteq> NULL" "u_vas s p = Some a3 \<Longrightarrow> p \<noteq> NULL" "u_maps s p = Some a4 \<Longrightarrow> p \<noteq> NULL"
    "u_dmas s p = Some a5 \<Longrightarrow> p \<noteq> NULL" "u_admins s p = Some a6 \<Longrightarrow> p \<noteq> NULL" "u_refs s p = Some a7 \<Longrightarrow> p \<noteq> NULL"
  using heap_null [OF assms] by (metis option.distinct(1))+

text \<open>Two addresses that hold different things differ.\<close>

lemma heap_apart:
  assumes "heap_ok s" "(p, k) \<in> set (u_live s)" "(q, k') \<in> set (u_live s)" "k \<noteq> k'"
  shows "p \<noteq> q"
  using heap_kind [OF assms(1)] assms(2-4) by blast

lemma heap_finite:
  assumes "heap_ok s"
  shows "finite (dom (u_devs s))" "finite (dom (u_ctrls s))" "finite (dom (u_vas s))" "finite (dom (u_maps s))"
    "finite (dom (u_dmas s))" "finite (dom (u_admins s))" "finite (dom (u_refs s))"
proof -
  have "dom (u_devs s) \<union> dom (u_ctrls s) \<union> dom (u_vas s) \<union> dom (u_maps s) \<union> dom (u_dmas s) \<union> dom (u_admins s) \<union> dom (u_refs s) \<subseteq> fst ` set (u_live s)"
    using heap_typed [OF assms] by (simp add: typed_def)
  then have "finite (dom (u_devs s) \<union> dom (u_ctrls s) \<union> dom (u_vas s) \<union> dom (u_maps s) \<union> dom (u_dmas s) \<union> dom (u_admins s) \<union> dom (u_refs s))"
    by (rule finite_subset) simp
  then show "finite (dom (u_devs s))" "finite (dom (u_ctrls s))" "finite (dom (u_vas s))" "finite (dom (u_maps s))"
    "finite (dom (u_dmas s))" "finite (dom (u_admins s))" "finite (dom (u_refs s))" by simp_all
qed

lemma distinct_fst_filter: "distinct (map fst xs) \<Longrightarrow> distinct (map fst (filter P xs))"
  by (simp add: distinct_map_filter)

text \<open>Adding and removing objects.\<close>

lemma heap_add:
  assumes H: "heap_ok s" and p: "p \<noteq> NULL" "p \<notin> fst ` set (u_live s)"
  shows "heap_ok (added_dev p fd s)" "heap_ok (added_ctrl p c s)" "heap_ok (added_va p v s)" "heap_ok (added_dma p d s)"
    "heap_ok (s\<lparr>u_live := (p, K_map) # u_live s, u_maps := (u_maps s)(p \<mapsto> m)\<rparr>)"
    "heap_ok (s\<lparr>u_live := (p, K_admin) # u_live s, u_admins := (u_admins s)(p \<mapsto> a)\<rparr>)"
    "heap_ok (s\<lparr>u_live := (p, K_ref) # u_live s, u_refs := (u_refs s)(p \<mapsto> r)\<rparr>)"
proof -
  have eq: "holds s q k = ((q, k) \<in> set (u_live s))" for q k using H by (simp add: heap_ok_def)
  have fresh: "\<not> holds s p k" for k using p(2) by (auto simp: eq dest: heap_fst)
  have step: "heap_ok s'" if "u_live s' = (p, k) # u_live s" "\<And>q j. holds s' q j = (holds s q j \<or> (q = p \<and> j = k))" for s' k
    using H p that by (auto simp: heap_ok_def)
  note f = fresh [of K_dev] fresh [of K_ctrl] fresh [of K_va] fresh [of K_map] fresh [of K_dma] fresh [of K_admin] fresh [of K_ref]
  show "heap_ok (added_dev p fd s)" by (rule step [of _ K_dev], simp add: added_dev_def, case_tac j) (auto simp: added_dev_def)
  show "heap_ok (added_ctrl p c s)" by (rule step [of _ K_ctrl], simp add: added_ctrl_def, case_tac j) (auto simp: added_ctrl_def)
  show "heap_ok (added_va p v s)" by (rule step [of _ K_va], simp add: added_va_def, case_tac j) (auto simp: added_va_def)
  show "heap_ok (added_dma p d s)" by (rule step [of _ K_dma], simp add: added_dma_def, case_tac j) (auto simp: added_dma_def)
  show "heap_ok (s\<lparr>u_live := (p, K_map) # u_live s, u_maps := (u_maps s)(p \<mapsto> m)\<rparr>)" by (rule step [of _ K_map], simp, case_tac j) auto
  show "heap_ok (s\<lparr>u_live := (p, K_admin) # u_live s, u_admins := (u_admins s)(p \<mapsto> a)\<rparr>)" by (rule step [of _ K_admin], simp, case_tac j) auto
  show "heap_ok (s\<lparr>u_live := (p, K_ref) # u_live s, u_refs := (u_refs s)(p \<mapsto> r)\<rparr>)" by (rule step [of _ K_ref], simp, case_tac j) auto
qed

definition unlive :: "ptr \<Rightarrow> ustate \<Rightarrow> ustate" where
  "unlive p s = s\<lparr>u_live := filter (\<lambda>e. fst e \<noteq> p) (u_live s)\<rparr>"

lemma heap_drop:
  assumes H: "heap_ok s"
  shows "holds s p K_dev \<Longrightarrow> heap_ok (unlive p (s\<lparr>u_devs := (u_devs s)(p := None)\<rparr>))"
    "holds s p K_ctrl \<Longrightarrow> heap_ok (unlive p (s\<lparr>u_ctrls := (u_ctrls s)(p := None)\<rparr>))"
    "holds s p K_va \<Longrightarrow> heap_ok (unlive p (s\<lparr>u_vas := (u_vas s)(p := None)\<rparr>))"
    "holds s p K_map \<Longrightarrow> heap_ok (unlive p (s\<lparr>u_maps := (u_maps s)(p := None)\<rparr>))"
    "holds s p K_dma \<Longrightarrow> heap_ok (unlive p (s\<lparr>u_dmas := (u_dmas s)(p := None)\<rparr>))"
    "holds s p K_admin \<Longrightarrow> heap_ok (unlive p (s\<lparr>u_admins := (u_admins s)(p := None)\<rparr>))"
    "holds s p K_ref \<Longrightarrow> heap_ok (unlive p (s\<lparr>u_refs := (u_refs s)(p := None)\<rparr>))"
proof -
  have eq: "holds s q k = ((q, k) \<in> set (u_live s))" for q k using H by (simp add: heap_ok_def)
  have step: "heap_ok s'" if "holds s p k" "u_live s' = filter (\<lambda>e. fst e \<noteq> p) (u_live s)"
    "\<And>q j. holds s' q j = (holds s q j \<and> (q, j) \<noteq> (p, k))" for s' k
  proof -
    have uniq: "holds s p j \<Longrightarrow> j = k" for j using heap_kind [OF H, of p k j] that(1) unfolding eq by simp
    have "(q, j) \<in> set (u_live s') \<longleftrightarrow> q \<noteq> p \<and> holds s q j" for q j unfolding that(2) eq by auto
    also have "\<dots> q j \<longleftrightarrow> holds s' q j" for q j unfolding that(3) using uniq [of j] that(1) by auto
    finally have "\<forall>q j. (q, j) \<in> set (u_live s') \<longleftrightarrow> holds s' q j" by blast
    moreover have "distinct (map fst (u_live s'))" "NULL \<notin> fst ` set (u_live s')"
      using H unfolding that(2) heap_ok_def by (blast intro: distinct_fst_filter, auto)
    ultimately show ?thesis by (simp add: heap_ok_def)
  qed
  show "holds s p K_dev \<Longrightarrow> heap_ok (unlive p (s\<lparr>u_devs := (u_devs s)(p := None)\<rparr>))"
    by (rule step [of K_dev], assumption, simp add: unlive_def, case_tac j) (auto simp: unlive_def)
  show "holds s p K_ctrl \<Longrightarrow> heap_ok (unlive p (s\<lparr>u_ctrls := (u_ctrls s)(p := None)\<rparr>))"
    by (rule step [of K_ctrl], assumption, simp add: unlive_def, case_tac j) (auto simp: unlive_def)
  show "holds s p K_va \<Longrightarrow> heap_ok (unlive p (s\<lparr>u_vas := (u_vas s)(p := None)\<rparr>))"
    by (rule step [of K_va], assumption, simp add: unlive_def, case_tac j) (auto simp: unlive_def)
  show "holds s p K_map \<Longrightarrow> heap_ok (unlive p (s\<lparr>u_maps := (u_maps s)(p := None)\<rparr>))"
    by (rule step [of K_map], assumption, simp add: unlive_def, case_tac j) (auto simp: unlive_def)
  show "holds s p K_dma \<Longrightarrow> heap_ok (unlive p (s\<lparr>u_dmas := (u_dmas s)(p := None)\<rparr>))"
    by (rule step [of K_dma], assumption, simp add: unlive_def, case_tac j) (auto simp: unlive_def)
  show "holds s p K_admin \<Longrightarrow> heap_ok (unlive p (s\<lparr>u_admins := (u_admins s)(p := None)\<rparr>))"
    by (rule step [of K_admin], assumption, simp add: unlive_def, case_tac j) (auto simp: unlive_def)
  show "holds s p K_ref \<Longrightarrow> heap_ok (unlive p (s\<lparr>u_refs := (u_refs s)(p := None)\<rparr>))"
    by (rule step [of K_ref], assumption, simp add: unlive_def, case_tac j) (auto simp: unlive_def)
qed

lemma heap_same:
  assumes "heap_ok s" "u_live s' = u_live s" "\<And>q k. holds s' q k = holds s q k"
  shows "heap_ok s'"
  using assms by (simp add: heap_ok_def)

lemma refs_unique:
  assumes "refs h f x = 1" "h a = Some u" "f u = x" "h b = Some v" "f v = x"
  shows "a = b"
proof -
  obtain y where "{k. \<exists>d. h k = Some d \<and> f d = x} = {y}" using assms(1) by (auto simp: refs_def card_1_singleton_iff)
  moreover have "a \<in> {k. \<exists>d. h k = Some d \<and> f d = x}" "b \<in> {k. \<exists>d. h k = Some d \<and> f d = x}" using assms by auto
  ultimately show ?thesis by simp
qed

lemma owns_fresh: "owns_ok W s \<Longrightarrow> heap_ok s \<Longrightarrow> p \<notin> fst ` set (u_live s) \<Longrightarrow> W p = 0"
  using typed_fresh [OF heap_typed] by (auto simp: owns_ok_def)

lemma heap_excl: "heap_ok s \<Longrightarrow> holds s p k \<Longrightarrow> k \<noteq> k' \<Longrightarrow> \<not> holds s p k'"
  using heap_kind [of s p k k'] unfolding heap_ok_def by blast

lemma ctrl_excl: "heap_ok s \<Longrightarrow> u_ctrls s p = Some x \<Longrightarrow>
    u_devs s p = None \<and> u_vas s p = None \<and> u_maps s p = None \<and> u_dmas s p = None \<and> u_admins s p = None \<and> u_refs s p = None"
  using heap_excl [of s p K_ctrl K_dev] heap_excl [of s p K_ctrl K_va] heap_excl [of s p K_ctrl K_map] heap_excl [of s p K_ctrl K_dma]
    heap_excl [of s p K_ctrl K_admin] heap_excl [of s p K_ctrl K_ref] by simp

lemma dev_excl: "heap_ok s \<Longrightarrow> u_devs s p = Some x \<Longrightarrow>
    u_ctrls s p = None \<and> u_vas s p = None \<and> u_maps s p = None \<and> u_dmas s p = None \<and> u_admins s p = None \<and> u_refs s p = None"
  using heap_excl [of s p K_dev K_ctrl] heap_excl [of s p K_dev K_va] heap_excl [of s p K_dev K_map] heap_excl [of s p K_dev K_dma]
    heap_excl [of s p K_dev K_admin] heap_excl [of s p K_dev K_ref] by simp

lemma map_excl: "heap_ok s \<Longrightarrow> u_maps s p = Some x \<Longrightarrow>
    u_devs s p = None \<and> u_vas s p = None \<and> u_ctrls s p = None \<and> u_dmas s p = None \<and> u_admins s p = None \<and> u_refs s p = None"
  using heap_excl [of s p K_map K_dev] heap_excl [of s p K_map K_va] heap_excl [of s p K_map K_ctrl] heap_excl [of s p K_map K_dma]
    heap_excl [of s p K_map K_admin] heap_excl [of s p K_map K_ref] by simp

lemma va_excl: "heap_ok s \<Longrightarrow> u_vas s p = Some x \<Longrightarrow>
    u_devs s p = None \<and> u_maps s p = None \<and> u_ctrls s p = None \<and> u_dmas s p = None \<and> u_admins s p = None \<and> u_refs s p = None"
  using heap_excl [of s p K_va K_dev] heap_excl [of s p K_va K_map] heap_excl [of s p K_va K_ctrl] heap_excl [of s p K_va K_dma]
    heap_excl [of s p K_va K_admin] heap_excl [of s p K_va K_ref] by simp

lemma dma_excl: "heap_ok s \<Longrightarrow> u_dmas s p = Some x \<Longrightarrow>
    u_devs s p = None \<and> u_vas s p = None \<and> u_maps s p = None \<and> u_ctrls s p = None \<and> u_admins s p = None \<and> u_refs s p = None"
  using heap_excl [of s p K_dma K_dev] heap_excl [of s p K_dma K_va] heap_excl [of s p K_dma K_map] heap_excl [of s p K_dma K_ctrl]
    heap_excl [of s p K_dma K_admin] heap_excl [of s p K_dma K_ref] by simp

lemma admin_excl: "heap_ok s \<Longrightarrow> u_admins s p = Some x \<Longrightarrow>
    u_devs s p = None \<and> u_vas s p = None \<and> u_maps s p = None \<and> u_ctrls s p = None \<and> u_dmas s p = None \<and> u_refs s p = None"
  using heap_excl [of s p K_admin K_dev] heap_excl [of s p K_admin K_va] heap_excl [of s p K_admin K_map] heap_excl [of s p K_admin K_ctrl]
    heap_excl [of s p K_admin K_dma] heap_excl [of s p K_admin K_ref] by simp

lemma ref_excl: "heap_ok s \<Longrightarrow> u_refs s p = Some x \<Longrightarrow>
    u_devs s p = None \<and> u_vas s p = None \<and> u_maps s p = None \<and> u_ctrls s p = None \<and> u_dmas s p = None \<and> u_admins s p = None"
  using heap_excl [of s p K_ref K_dev] heap_excl [of s p K_ref K_va] heap_excl [of s p K_ref K_map] heap_excl [of s p K_ref K_ctrl]
    heap_excl [of s p K_ref K_dma] heap_excl [of s p K_ref K_admin] by simp

text \<open>What each part depends on.\<close>

definition agree :: "('k \<rightharpoonup> 'a) \<Rightarrow> ('k \<Rightarrow> nat) \<Rightarrow> ('k \<Rightarrow> nat) \<Rightarrow> bool" where
  "agree h W W' \<longleftrightarrow> (\<forall>p. h p \<noteq> None \<longrightarrow> W' p = W p)"

definition grows :: "('k \<rightharpoonup> 'a) \<Rightarrow> ('k \<rightharpoonup> 'b) \<Rightarrow> bool" where
  "grows h h' \<longleftrightarrow> (\<forall>p. h p \<noteq> None \<longrightarrow> h' p \<noteq> None)"

lemma agree_upd [simp]: "h p = None \<Longrightarrow> agree h W W' \<Longrightarrow> agree h W (W'(p := n))" "agree h W W"
  by (auto simp: agree_def)

lemma grows_upd [simp]: "grows h h' \<Longrightarrow> grows h (h'(p \<mapsto> x))" "grows h h" "h p = None \<Longrightarrow> grows h (h(p := None))"
  by (auto simp: grows_def)

lemma lib_ctrls_cong:
  assumes "ctrls_ok api W s" "u_ctrls s' = u_ctrls s" "agree (u_ctrls s) W W'" "grows (u_devs s) (u_devs s')"
    "\<And>p. u_ctrls s p \<noteq> None \<Longrightarrow> refs (u_maps s') dm_ctrl p = refs (u_maps s) dm_ctrl p"
    "\<And>p. u_ctrls s p \<noteq> None \<Longrightarrow> refs (u_refs s') ar_ctrl p = refs (u_refs s) ar_ctrl p"
  shows "ctrls_ok api W' s'"
  using assms unfolding ctrls_ok_def agree_def grows_def bound_ok_def by (metis option.distinct(1))

lemma devs_ok_cong: "devs_ok s \<Longrightarrow> u_devs s' = u_devs s \<Longrightarrow> (\<And>d. u_devs s d \<noteq> None \<Longrightarrow> refs (u_ctrls s') c_device d = refs (u_ctrls s) c_device d) \<Longrightarrow> devs_ok s'"
  by (simp add: devs_ok_def)

lemma va_fits_count [simp]: "va_fits (m\<lparr>dm_count := n\<rparr>) c v = va_fits m c v" "va_fits m (c\<lparr>c_count := k\<rparr>) v = va_fits m c v"
  by (cases v; simp add: va_fits_def)+

lemma va_fits_cong: "c_device c' = c_device c \<Longrightarrow> va_fits m c' v = va_fits m c v"
  unfolding va_fits_def by (rule arg_cong2 [where f = "\<lambda>a b. case v of Plain_range x \<Rightarrow> a x | Mapping x \<Rightarrow> b x"]) simp_all

lemma maps_ok_cong:
  assumes "maps_ok W s" "u_maps s' = u_maps s" "agree (u_maps s) W W'"
    "\<And>p. u_maps s p \<noteq> None \<Longrightarrow> refs (u_dmas s') dc_map p = refs (u_dmas s) dc_map p"
    "\<And>p m c. u_maps s p = Some m \<Longrightarrow> u_ctrls s (dm_ctrl m) = Some c \<Longrightarrow> \<exists>c'. u_ctrls s' (dm_ctrl m) = Some c' \<and> c_device c' = c_device c"
    "\<And>p m. u_maps s p = Some m \<Longrightarrow> u_vas s' (dm_va m) = u_vas s (dm_va m)"
  shows "maps_ok W' s'"
  unfolding maps_ok_def
proof (intro allI impI)
  fix p m assume "u_maps s' p = Some m"
  then have m: "u_maps s p = Some m" using assms(2) by simp
  with assms(1) obtain c v where c: "u_ctrls s (dm_ctrl m) = Some c" "u_vas s (dm_va m) = Some v"
    "unat (dm_count m) = refs (u_dmas s) dc_map p + W p" "dm_count m \<noteq> 0"
    "va_fits m c v"
    unfolding maps_ok_def by blast
  moreover obtain c' where "u_ctrls s' (dm_ctrl m) = Some c'" "c_device c' = c_device c" using assms(5) [OF m c(1)] by blast
  moreover have "refs (u_dmas s') dc_map p = refs (u_dmas s) dc_map p" "u_vas s' (dm_va m) = Some v" "W' p = W p"
    using m c(2) assms(3,4,6) by (auto simp: agree_def)
  ultimately show "unat (dm_count m) = refs (u_dmas s') dc_map p + W' p \<and> dm_count m \<noteq> 0 \<and>
     (\<exists>c v. u_ctrls s' (dm_ctrl m) = Some c \<and> u_vas s' (dm_va m) = Some v \<and>
        va_fits m c v)"
    by (intro conjI exI [of _ c'] exI [of _ v]) (simp_all add: va_fits_cong [of c' c])
qed

lemma vas_ok_cong: "vas_ok s \<Longrightarrow> u_vas s' = u_vas s \<Longrightarrow> (\<And>v. u_vas s v \<noteq> None \<Longrightarrow> refs (u_maps s') dm_va v = refs (u_maps s) dm_va v) \<Longrightarrow> vas_ok s'"
  by (simp add: vas_ok_def)

lemma dmas_ok_cong:
  assumes "dmas_ok api W s" "u_dmas s' = u_dmas s" "agree (u_dmas s) W W'"
    "\<And>p. u_dmas s p \<noteq> None \<Longrightarrow> refs (u_admins s') la_qmem p = refs (u_admins s) la_qmem p"
    "\<And>p d. u_dmas s p = Some d \<Longrightarrow> u_maps s (dc_map d) \<noteq> None \<Longrightarrow> u_maps s' (dc_map d) \<noteq> None"
  shows "dmas_ok api W' s'"
  using assms unfolding dmas_ok_def agree_def by (metis option.distinct(1))

lemma admins_ok_cong:
  assumes "admins_ok api W s" "u_admins s' = u_admins s" "agree (u_admins s) W W'"
    "\<And>p. u_admins s p \<noteq> None \<Longrightarrow> refs (u_refs s') ar_data p = refs (u_refs s) ar_data p"
    "\<And>p a. u_admins s p = Some a \<Longrightarrow> u_dmas s (la_qmem a) \<noteq> None \<Longrightarrow> u_dmas s' (la_qmem a) \<noteq> None"
  shows "admins_ok api W' s'"
  using assms unfolding admins_ok_def agree_def by (metis option.distinct(1))

lemma refs_ok_cong:
  assumes "refs_ok W s" "u_refs s' = u_refs s" "agree (u_refs s) W W'"
    "\<And>p a. u_refs s p = Some a \<Longrightarrow> u_ctrls s (ar_ctrl a) \<noteq> None \<Longrightarrow> u_ctrls s' (ar_ctrl a) \<noteq> None"
    "\<And>p a. u_refs s p = Some a \<Longrightarrow> u_admins s (ar_data a) \<noteq> None \<Longrightarrow> u_admins s' (ar_data a) \<noteq> None"
  shows "refs_ok W' s'"
  using assms unfolding refs_ok_def agree_def by (metis option.distinct(1))

lemma bufs_ok_cong: "bufs_ok B s \<Longrightarrow> u_bufs s' = u_bufs s \<Longrightarrow> (\<And>b. refs (u_vas s') api_buf (Some b) = refs (u_vas s) api_buf (Some b)) \<Longrightarrow> bufs_ok B s'"
  by (simp add: bufs_ok_def)

lemma log_ok_cong:
  assumes "log_ok s" "u_calls s' = u_calls s" "\<And>fd. refs (u_devs s') id fd = refs (u_devs s) id fd"
    "\<And>x. refs (u_ctrls s') mm_of (Some x) = refs (u_ctrls s) mm_of (Some x)" "\<And>b. refs (u_vas s') map_buf (Some b) = refs (u_vas s) map_buf (Some b)"
  shows "log_ok s'"
  using assms by (simp add: log_ok_def)

lemma owns_ok_cong:
  assumes "owns_ok W s" "\<And>p. W' p \<noteq> 0 \<Longrightarrow> W p \<noteq> 0 \<or> holds s' p k" "k \<notin> {K_dev, K_va, K_rpc}" "grows (u_ctrls s) (u_ctrls s')" "grows (u_maps s) (u_maps s')"
    "grows (u_dmas s) (u_dmas s')" "grows (u_admins s) (u_admins s')" "grows (u_refs s) (u_refs s')"
  shows "owns_ok W' s'"
  unfolding owns_ok_def
proof (intro allI impI)
  fix p assume "W' p \<noteq> 0"
  from assms(2) [OF this] consider "W p \<noteq> 0" | "holds s' p k" by blast
  then show "u_ctrls s' p \<noteq> None \<or> u_maps s' p \<noteq> None \<or> u_dmas s' p \<noteq> None \<or> u_admins s' p \<noteq> None \<or> u_refs s' p \<noteq> None"
  proof cases
    case 1
    then show ?thesis using assms(1,4-8) unfolding owns_ok_def grows_def by blast
  next
    case 2
    then show ?thesis using assms(3) by (cases k) auto
  qed
qed

section \<open>Controllers\<close>

definition ctrl_gone :: "ptr \<Rightarrow> controller \<Rightarrow> ustate \<Rightarrow> ustate" where
  "ctrl_gone p c s = s\<lparr>u_live := filter (\<lambda>e. fst e \<noteq> c_device c \<and> fst e \<noteq> p) (u_live s), u_devs := (u_devs s)(c_device c := None),
     u_ctrls := (u_ctrls s)(p := None), u_calls := u_calls s @ (case u_devs s (c_device c) of
       None \<Rightarrow> [] | Some fd \<Rightarrow> [U_munmap (mm_ptr (c_handle c)) (mm_size (c_handle c)), U_close fd])\<rparr>"

lemma ctrl_put_more:
  "p \<noteq> NULL \<Longrightarrow> u_ctrls s p = Some c \<Longrightarrow> c_count c \<noteq> 1 \<Longrightarrow>
   nvm_ctrl_put p s = Some (s\<lparr>u_ctrls := (u_ctrls s)(p \<mapsto> c\<lparr>c_count := c_count c - 1\<rparr>)\<rparr>)"
  by (simp add: nvm_ctrl_put_def Let_def)

lemma ctrl_put_last:
  assumes "p \<noteq> NULL" "NULL \<notin> fst ` set (u_live s)" "u_devs s NULL = None" "(p, K_ctrl) \<in> set (u_live s)" "u_ctrls s p = Some c" "c_count c = 1"
    "c_device c = NULL \<or> (c_device c, K_dev) \<in> set (u_live s) \<and> u_devs s (c_device c) \<noteq> None \<and> c_ops c = linux_ops \<and> c_device c \<noteq> p"
  shows "nvm_ctrl_put p s = Some (ctrl_gone p c s)"
proof (cases "c_device c = NULL")
  case True
  have "filter (\<lambda>e. fst e \<noteq> NULL \<and> fst e \<noteq> p) (u_live s) = filter (\<lambda>e. fst e \<noteq> p) (u_live s)"
    using assms(2) by (intro filter_cong refl) (metis image_eqI)
  moreover have "(u_devs s)(NULL := None) = u_devs s" using assms(3) by (rule fun_upd_idem)
  ultimately show ?thesis using True assms heap_fst [OF assms(4)]
    by (simp add: nvm_ctrl_put_def remove_handle_def free_mem_def ctrl_gone_def Let_def)
next
  case False
  then obtain fd where fd: "u_devs s (c_device c) = Some fd" and l: "(c_device c, K_dev) \<in> set (u_live s)" "c_ops c = linux_ops" "c_device c \<noteq> p"
    using assms(7) by auto
  let ?s1 = "s\<lparr>u_live := filter (\<lambda>e. fst e \<noteq> c_device c) (u_live s), u_devs := (u_devs s)(c_device c := None),
    u_calls := u_calls s @ [U_munmap (mm_ptr (c_handle c)) (mm_size (c_handle c)), U_close fd]\<rparr>"
  have "release_device (c_device c) (mm_ptr (c_handle c)) (mm_size (c_handle c)) s = Some ?s1"
    using fd heap_fst [OF l(1)] by (simp add: release_device_def free_mem_def ulog_def)
  then have "nvm_ctrl_put p s = remove_handle p (?s1\<lparr>u_ctrls := (u_ctrls s)(p \<mapsto> c\<lparr>c_count := 0, c_device := NULL\<rparr>)\<rparr>)"
    using False assms(1,5,6) l(2) by (simp add: nvm_ctrl_put_def linux_ops_def Let_def)
  also have "p \<in> fst ` set (filter (\<lambda>e. fst e \<noteq> c_device c) (u_live s))" using assms(4) l(3) by force
  then have "remove_handle p (?s1\<lparr>u_ctrls := (u_ctrls s)(p \<mapsto> c\<lparr>c_count := 0, c_device := NULL\<rparr>)\<rparr>) = Some (ctrl_gone p c s)"
    using fd by (simp add: remove_handle_def free_mem_def ctrl_gone_def del: set_filter)
  finally show ?thesis .
qed

lemma ctrls_okD:
  assumes "ctrls_ok api W s" "u_ctrls s p = Some c"
  shows "unat (c_count c) = refs (u_maps s) dm_ctrl p + refs (u_refs s) ar_ctrl p + W p" "c_count c \<noteq> 0"
    "handle_ok api (c_handle c)" "bound_ok (u_devs s) c"
  using assms by (auto simp: ctrls_ok_def)

lemma put_more_inv:
  assumes I: "lib_inv api W B s" and c: "u_ctrls s p = Some c" "c_count c \<noteq> 1" and W: "W p = Suc n"
  shows "lib_inv api (W(p := n)) B (s\<lparr>u_ctrls := (u_ctrls s)(p \<mapsto> c\<lparr>c_count := c_count c - 1\<rparr>)\<rparr>)"
proof -
  let ?c = "c\<lparr>c_count := c_count c - 1\<rparr>"
  let ?s = "s\<lparr>u_ctrls := (u_ctrls s)(p \<mapsto> ?c)\<rparr>"
  note D = lib_invD [OF I] and C = ctrls_okD [OF lib_invD(2) [OF I] c(1)]
  note X = ctrl_excl [OF D(1) c(1)]
  have n: "unat (c_count c - 1) = unat (c_count c) - 1" using C(2) by (simp add: unat_minus_one)
  have "unat (c_count c) \<noteq> 1" using c(2) by (metis unat_1 word_unat_eq_iff)
  then have nz: "c_count c - 1 \<noteq> 0" using c(2) by simp
  have eqv: "refs (u_ctrls ?s) c_device x = refs (u_ctrls s) c_device x" "refs (u_ctrls ?s) mm_of y = refs (u_ctrls s) mm_of y" for x y
    using refs_same [of "u_ctrls s" p c c_device ?c x] refs_same [of "u_ctrls s" p c mm_of ?c y] c(1) by (simp_all add: mm_of_def)
  show ?thesis
  proof (rule lib_invI)
    show "heap_ok ?s" by (rule heap_same [OF D(1)]) (simp, case_tac k, auto simp: c)
    show "ctrls_ok api (W(p := n)) ?s" using D(2) C W n nz unfolding ctrls_ok_def by (simp add: bound_ok_def)
    show "devs_ok ?s" using D(3) eqv by (auto intro: devs_ok_cong)
    show "maps_ok (W(p := n)) ?s" by (rule maps_ok_cong [OF D(4)]) (use X c in auto)
    show "vas_ok ?s" by (rule vas_ok_cong [OF D(5)]) simp_all
    show "dmas_ok api (W(p := n)) ?s" by (rule dmas_ok_cong [OF D(6)]) (use X in simp_all)
    show "admins_ok api (W(p := n)) ?s" by (rule admins_ok_cong [OF D(7)]) (use X in simp_all)
    show "refs_ok (W(p := n)) ?s" by (rule refs_ok_cong [OF D(8)]) (use X in simp_all)
    show "bufs_ok B ?s" by (rule bufs_ok_cong [OF D(9)]) simp_all
    show "log_ok ?s" by (rule log_ok_cong [OF D(10)]) (use eqv in simp_all)
    show "owns_ok (W(p := n)) ?s" by (rule owns_ok_cong [OF D(11), of _ _ K_ctrl]) (use W in \<open>auto split: if_splits\<close>)
  qed
qed

lemma owns_ok_drop:
  assumes "owns_ok W s" "\<And>q. W' q \<noteq> 0 \<Longrightarrow> W q \<noteq> 0 \<and> q \<noteq> p"
    "\<And>q. q \<noteq> p \<Longrightarrow> u_ctrls s' q = u_ctrls s q \<and> u_maps s' q = u_maps s q \<and> u_dmas s' q = u_dmas s q \<and> u_admins s' q = u_admins s q \<and> u_refs s' q = u_refs s q"
  shows "owns_ok W' s'"
  using assms unfolding owns_ok_def by metis

lemma put_last_inv:
  assumes I: "lib_inv api W B s" and c: "u_ctrls s p = Some c" "c_count c = 1" and W: "W p = Suc n"
  shows "nvm_ctrl_put p s = Some (ctrl_gone p c s)" "lib_inv api (W(p := n)) B (ctrl_gone p c s)"
proof -
  note D = lib_invD [OF I] and C = ctrls_okD [OF lib_invD(2) [OF I] c(1)]
  note X = ctrl_excl [OF D(1) c(1)] and F = heap_finite [OF D(1)] and N = heap_null [OF D(1)]
  let ?s = "ctrl_gone p c s"
  have n: "n = 0" "refs (u_maps s) dm_ctrl p = 0" "refs (u_refs s) ar_ctrl p = 0" using C(1) c(2) W by simp_all
  have maps: "u_maps s q = Some m \<Longrightarrow> dm_ctrl m \<noteq> p" for q m using n(2) F by (auto simp: refs_zero)
  have rfs: "u_refs s q = Some a \<Longrightarrow> ar_ctrl a \<noteq> p" for q a using n(3) F by (auto simp: refs_zero)
  have dev: "c_device c \<noteq> NULL \<Longrightarrow> u_devs s (c_device c) \<noteq> None \<and> c_ops c = linux_ops" using C(4) by (auto simp: bound_ok_def)
  have sole: "q = p" if "u_ctrls s q = Some c'" "c_device c' = c_device c" "c_device c \<noteq> NULL" for q c'
    using refs_unique [of "u_ctrls s" c_device "c_device c" q c' p c] that c(1) dev D(3) by (auto simp: devs_ok_def)
  have pd: "c_device c \<noteq> p" using X dev heap_nonnull(2) [OF D(1) c(1)] by auto
  have nl: "NULL \<notin> fst ` set (u_live s)" using D(1) by (simp add: heap_ok_def)
  show "nvm_ctrl_put p s = Some ?s"
    using dev N nl c pd heap_live(1) [OF D(1)] heap_live(2) [OF D(1) c(1)] heap_null [OF D(1)] by (intro ctrl_put_last) auto
  have gone: "heap_ok (unlive p (s\<lparr>u_ctrls := (u_ctrls s)(p := None)\<rparr>))" (is "heap_ok ?s1") using D(1) c by (intro heap_drop(2)) simp_all
  show "lib_inv api (W(p := n)) B ?s"
  proof (rule lib_invI)
    show "heap_ok ?s"
    proof (cases "c_device c = NULL")
      case True
      have "filter (\<lambda>e. fst e \<noteq> NULL \<and> fst e \<noteq> p) (u_live s) = filter (\<lambda>e. fst e \<noteq> p) (u_live s)"
        using nl by (intro filter_cong refl) (metis image_eqI)
      then show ?thesis using True N
        by (intro heap_same [OF gone]) (simp add: ctrl_gone_def unlive_def, case_tac k, auto simp: ctrl_gone_def unlive_def)
    next
      case False
      have "heap_ok (unlive (c_device c) (?s1\<lparr>u_devs := (u_devs ?s1)(c_device c := None)\<rparr>))"
        using gone dev [OF False] by (intro heap_drop(1)) (simp_all add: unlive_def)
      then show ?thesis
        by (rule heap_same) (simp add: ctrl_gone_def unlive_def conj_commute, case_tac k, auto simp: ctrl_gone_def unlive_def)
    qed
    show "ctrls_ok api (W(p := n)) ?s" unfolding ctrls_ok_def
    proof (intro allI impI)
      fix q c' assume "u_ctrls ?s q = Some c'"
      then have q: "q \<noteq> p" "u_ctrls s q = Some c'" by (auto simp: ctrl_gone_def split: if_splits)
      have "bound_ok (u_devs ?s) c'"
        using ctrls_okD(4) [OF D(2) q(2)] sole [OF q(2)] q(1) N by (cases "c_device c = NULL") (auto simp: bound_ok_def ctrl_gone_def fun_upd_idem)
      then show "unat (c_count c') = refs (u_maps ?s) dm_ctrl q + refs (u_refs ?s) ar_ctrl q + (W(p := n)) q \<and> c_count c' \<noteq> 0 \<and>
         handle_ok api (c_handle c') \<and> bound_ok (u_devs ?s) c'"
        using ctrls_okD [OF D(2) q(2)] q(1) by (simp add: ctrl_gone_def)
    qed
    show "devs_ok ?s" using D(3) refs_drop [OF F(2) c(1), of c_device] by (auto simp: devs_ok_def ctrl_gone_def)
    show "maps_ok (W(p := n)) ?s" by (rule maps_ok_cong [OF D(4)]) (use X maps in \<open>auto simp: ctrl_gone_def\<close>)
    show "vas_ok ?s" by (rule vas_ok_cong [OF D(5)]) (simp_all add: ctrl_gone_def)
    show "dmas_ok api (W(p := n)) ?s" by (rule dmas_ok_cong [OF D(6)]) (use X in \<open>simp_all add: ctrl_gone_def\<close>)
    show "admins_ok api (W(p := n)) ?s" by (rule admins_ok_cong [OF D(7)]) (use X in \<open>simp_all add: ctrl_gone_def\<close>)
    show "refs_ok (W(p := n)) ?s" by (rule refs_ok_cong [OF D(8)]) (use X rfs in \<open>auto simp: ctrl_gone_def\<close>)
    show "bufs_ok B ?s" by (rule bufs_ok_cong [OF D(9)]) (simp_all add: ctrl_gone_def)
    show "owns_ok (W(p := n)) ?s" by (rule owns_ok_drop [OF D(11), of _ p]) (use n in \<open>auto simp: ctrl_gone_def split: if_splits\<close>)
    show "log_ok ?s"
    proof (cases "u_devs s (c_device c)")
      case None
      then have "c_device c = NULL" using dev by blast
      then have "refs ((u_ctrls s)(p := None)) mm_of (Some x) = refs (u_ctrls s) mm_of (Some x)" for x
        using refs_drop [OF F(2) c(1), of mm_of "Some x"] by (simp add: mm_of_def)
      then show ?thesis using None by (intro log_ok_cong [OF D(10)]) (simp_all add: ctrl_gone_def fun_upd_idem)
    next
      case (Some fd)
      then have nn: "c_device c \<noteq> NULL" by (rule heap_nonnull(1) [OF D(1)])
      have "refs (u_devs s) id fd = refs ((u_devs s)(c_device c := None)) id fd + 1" "\<And>f. f \<noteq> fd \<Longrightarrow> refs ((u_devs s)(c_device c := None)) id f = refs (u_devs s) id f"
        using refs_drop [OF F(1) Some, of id] refs_pos [OF F(1) Some, of id] by simp_all
      moreover have "mm_of c = Some (mm_ptr (c_handle c), mm_size (c_handle c))" using nn by (simp add: mm_of_def)
      then have "refs (u_ctrls s) mm_of (Some x) = refs ((u_ctrls s)(p := None)) mm_of (Some x) + (if x = (mm_ptr (c_handle c), mm_size (c_handle c)) then 1 else 0)" for x
        using refs_drop [OF F(2) c(1), of mm_of "Some x"] refs_pos [OF F(2) c(1), of mm_of] by auto
      ultimately show ?thesis using D(10) Some unfolding log_ok_def by (auto simp: ctrl_gone_def)
    qed
  qed
qed

text \<open>Controllers to which the client has a reference stay.\<close>

definition keeps :: "(ptr \<Rightarrow> nat) \<Rightarrow> ustate \<Rightarrow> ustate \<Rightarrow> bool" where
  "keeps W s s' \<longleftrightarrow> (\<forall>q c. W q \<noteq> 0 \<longrightarrow> u_ctrls s q = Some c \<longrightarrow>
     (\<exists>c'. u_ctrls s' q = Some c' \<and> c_handle c' = c_handle c \<and> c_type c' = c_type c))"

lemma keeps_refl [simp]: "keeps W s s"
  by (simp add: keeps_def)

lemma keeps_trans: "keeps W s s1 \<Longrightarrow> keeps W' s1 s2 \<Longrightarrow> (\<And>p. W' p = 0 \<Longrightarrow> W'' p = 0) \<Longrightarrow> (\<And>p. W p = 0 \<Longrightarrow> W'' p = 0) \<Longrightarrow> keeps W'' s s2"
  unfolding keeps_def by (metis (no_types))

lemma ctrl_put_inv:
  assumes "lib_inv api W B s" "u_ctrls s p = Some c" "W p = Suc n"
  obtains s' where "nvm_ctrl_put p s = Some s'" "lib_inv api (W(p := n)) B s'" "keeps (W(p := n)) s s'"
    "u_vas s' = u_vas s \<and> u_maps s' = u_maps s \<and> u_dmas s' = u_dmas s \<and> u_admins s' = u_admins s \<and> u_refs s' = u_refs s"
proof (cases "c_count c = 1")
  case True
  have "n = 0" using ctrls_okD(1) [OF lib_invD(2) [OF assms(1)] assms(2)] True assms(3) by simp
  from put_last_inv [OF assms(1,2) True assms(3)] show thesis by (rule that) (auto simp: \<open>n = 0\<close> keeps_def ctrl_gone_def)
next
  case False
  have "p \<noteq> NULL" using lib_invD(1) [OF assms(1)] assms(2) by (rule heap_nonnull)
  from ctrl_put_more [OF this assms(2) False] put_more_inv [OF assms(1,2) False assms(3)] show thesis
    by (rule that) (auto simp: keeps_def assms(2))
qed

section \<open>Mappings\<close>

lemma maps_okE:
  assumes "maps_ok W s" "u_maps s p = Some m"
  obtains c v where "unat (dm_count m) = refs (u_dmas s) dc_map p + W p" "dm_count m \<noteq> 0" "u_ctrls s (dm_ctrl m) = Some c"
    "u_vas s (dm_va m) = Some v" "va_fits m c v"
  using assms unfolding maps_ok_def by blast

lemma dmas_okD:
  assumes "dmas_ok api W s" "u_dmas s p = Some d"
  shows "u_maps s (dc_map d) \<noteq> None" "dma_page_size (dc_handle d) = sc_pagesize api" "length (dma_ioaddrs (dc_handle d)) = unat (dma_n_ioaddrs (dc_handle d))"
    "unat (dma_n_ioaddrs (dc_handle d)) * unat (sc_pagesize api) < 2 ^ 64" "refs (u_admins s) la_qmem p + W p = 1"
  using assms unfolding dmas_ok_def by blast+

lemma bufs_okD:
  assumes "bufs_ok B s"
  shows "distinct (u_bufs s)" "0 \<notin> set (u_bufs s)" "refs (u_vas s) api_buf (Some b) + (if b \<in> B then 1 else 0) = (if b \<in> set (u_bufs s) then 1 else 0)"
  using assms unfolding bufs_ok_def by blast+

text \<open>A handle goes away while others share its mapping.\<close>

lemma unmap_more_inv:
  assumes I: "lib_inv api W B s" and d: "u_dmas s d = Some x" "u_maps s (dc_map x) = Some m" "dm_count m \<noteq> 1" and W: "W d = 1"
  defines "s' \<equiv> unlive d (s\<lparr>u_maps := (u_maps s)(dc_map x \<mapsto> m\<lparr>dm_count := dm_count m - 1\<rparr>), u_dmas := (u_dmas s)(d := None)\<rparr>)"
  shows "nvm_dma_unmap d s = Some s'" "lib_inv api (W(d := 0)) B s'"
proof -
  let ?p = "dc_map x" and ?m = "m\<lparr>dm_count := dm_count m - 1\<rparr>"
  let ?s1 = "s\<lparr>u_maps := (u_maps s)(?p \<mapsto> ?m)\<rparr>"
  note D = lib_invD [OF I]
  note X = dma_excl [OF D(1) d(1)] and F = heap_finite [OF D(1)]
  from maps_okE [OF D(4) d(2)] obtain c v where
    M: "unat (dm_count m) = refs (u_dmas s) dc_map ?p + W ?p" "dm_count m \<noteq> 0" "u_ctrls s (dm_ctrl m) = Some c" "u_vas s (dm_va m) = Some v" "va_fits m c v" .
  note va = heap_nonnull(3) [OF D(1) M(4)]
  have n: "unat (dm_count m - 1) = unat (dm_count m) - 1" using M(2) by (simp add: unat_minus_one)
  have nz: "dm_count m - 1 \<noteq> 0" using d(3) by simp
  have eqv: "refs (u_maps ?s1) dm_ctrl y = refs (u_maps s) dm_ctrl y" "refs (u_maps ?s1) dm_va y = refs (u_maps s) dm_va y" for y
    using refs_same [of "u_maps s" ?p m dm_ctrl ?m y] refs_same [of "u_maps s" ?p m dm_va ?m y] d(2) by simp_all
  have drop: "refs ((u_dmas s)(d := None)) dc_map q = refs (u_dmas s) dc_map q - (if ?p = q then 1 else 0)" for q
    using refs_drop [OF F(5) d(1), of dc_map q] .
  have pos: "0 < refs (u_dmas s) dc_map ?p" using refs_pos [OF F(5) d(1), of dc_map] .
  have no: "u_admins s q = Some a \<Longrightarrow> la_qmem a \<noteq> d" for q a
    using dmas_okD(5) [OF D(6) d(1)] W F(6) by (auto simp: refs_zero)
  have h1: "heap_ok ?s1" by (rule heap_same [OF D(1)]) (simp, case_tac k, auto simp: d)
  have "put_map ?p s = Some ?s1" using d(2) va nz heap_nonnull(4) [OF D(1) d(2)] by (simp add: put_map_def Let_def)
  then show "nvm_dma_unmap d s = Some s'"
    using d(1) heap_nonnull(5) [OF D(1) d(1)] heap_fst [OF heap_live(5) [OF D(1) d(1)]]
    by (simp add: nvm_dma_unmap_def remove_container_def free_mem_def s'_def unlive_def)
  show "lib_inv api (W(d := 0)) B s'"
  proof (rule lib_invI)
    show "heap_ok s'" using heap_drop(5) [OF h1, of d] d(1) by (simp add: s'_def)
    show "ctrls_ok api (W(d := 0)) s'" by (rule lib_ctrls_cong [OF D(2)]) (use X eqv in \<open>simp_all add: s'_def unlive_def\<close>)
    show "devs_ok s'" by (rule devs_ok_cong [OF D(3)]) (simp_all add: s'_def unlive_def)
    show "maps_ok (W(d := 0)) s'" unfolding maps_ok_def
    proof (intro allI impI)
      fix q m' assume q: "u_maps s' q = Some m'"
      have dq: "q \<noteq> d" using q X d(2) by (auto simp: s'_def unlive_def split: if_splits)
      show "unat (dm_count m') = refs (u_dmas s') dc_map q + (W(d := 0)) q \<and> dm_count m' \<noteq> 0 \<and>
        (\<exists>c v. u_ctrls s' (dm_ctrl m') = Some c \<and> u_vas s' (dm_va m') = Some v \<and> va_fits m' c v)"
      proof (cases "q = ?p")
        case True
        then have "m' = ?m" using q by (simp add: s'_def unlive_def)
        then show ?thesis using M n nz dq drop [of ?p] pos True by (simp add: s'_def unlive_def)
      next
        case False
        then have "u_maps s q = Some m'" using q by (simp add: s'_def unlive_def)
        then show ?thesis using D(4) False dq drop [of q] unfolding maps_ok_def by (simp add: s'_def unlive_def)
      qed
    qed
    show "vas_ok s'" by (rule vas_ok_cong [OF D(5)]) (use eqv in \<open>simp_all add: s'_def unlive_def\<close>)
    show "dmas_ok api (W(d := 0)) s'" using D(6) unfolding dmas_ok_def by (auto simp: s'_def unlive_def)
    show "admins_ok api (W(d := 0)) s'" by (rule admins_ok_cong [OF D(7)]) (use X no in \<open>auto simp: s'_def unlive_def\<close>)
    show "refs_ok (W(d := 0)) s'" by (rule refs_ok_cong [OF D(8)]) (use X in \<open>simp_all add: s'_def unlive_def\<close>)
    show "bufs_ok B s'" by (rule bufs_ok_cong [OF D(9)]) (simp_all add: s'_def unlive_def)
    show "log_ok s'" by (rule log_ok_cong [OF D(10)]) (simp_all add: s'_def unlive_def)
    show "owns_ok (W(d := 0)) s'" using D(11) unfolding owns_ok_def by (auto simp: s'_def unlive_def)
  qed
qed

text \<open>The last handle: its mapping and range go with it, and the mapping's reference to the controller.\<close>

definition bufs_without :: "va_object \<Rightarrow> u64 list \<Rightarrow> u64 list" where
  "bufs_without v bs = (case api_buf v of None \<Rightarrow> bs | Some b \<Rightarrow> remove1 b bs)"

definition unmap_calls :: "va_object \<Rightarrow> ucall list" where
  "unmap_calls v = (case map_buf v of None \<Rightarrow> [] | Some b \<Rightarrow> [U_unmap b])"

definition map_gone :: "ptr \<Rightarrow> ptr \<Rightarrow> ptr \<Rightarrow> va_object \<Rightarrow> ustate \<Rightarrow> ustate" where
  "map_gone d p va v s = s\<lparr>u_live := filter (\<lambda>e. fst e \<noteq> va \<and> fst e \<noteq> p \<and> fst e \<noteq> d) (u_live s), u_bufs := bufs_without v (u_bufs s),
     u_vas := (u_vas s)(va := None), u_maps := (u_maps s)(p := None), u_dmas := (u_dmas s)(d := None), u_calls := u_calls s @ unmap_calls v\<rparr>"

lemma map_gone_inv:
  assumes I: "lib_inv api W B s" and d: "u_dmas s d = Some x" "u_maps s (dc_map x) = Some m" "dm_count m = 1" "u_vas s (dm_va m) = Some v" and W: "W d = 1"
  shows "lib_inv api (W(d := 0, dm_ctrl m := Suc (W (dm_ctrl m)))) B (map_gone d (dc_map x) (dm_va m) v s)"
proof -
  let ?p = "dc_map x" and ?c = "dm_ctrl m" and ?va = "dm_va m"
  let ?W = "W(d := 0, ?c := Suc (W ?c))" and ?s = "map_gone d ?p ?va v s"
  note D = lib_invD [OF I]
  note X = dma_excl [OF D(1) d(1)] and Y = map_excl [OF D(1) d(2)] and Z = va_excl [OF D(1) d(4)] and F = heap_finite [OF D(1)]
  from maps_okE [OF D(4) d(2)] obtain c where
    M: "unat (dm_count m) = refs (u_dmas s) dc_map ?p + W ?p" "u_ctrls s ?c = Some c" "va_fits m c v" using d(4) by (metis option.inject)
  note C = ctrl_excl [OF D(1) M(2)]
  have ne: "d \<noteq> ?p" "d \<noteq> ?va" "d \<noteq> ?c" "?p \<noteq> ?va" "?p \<noteq> ?c" "?va \<noteq> ?c" using X Y Z C d M(2) by auto
  have "0 < refs (u_dmas s) dc_map ?p" using refs_pos [OF F(5) d(1), of dc_map] .
  then have one: "refs (u_dmas s) dc_map ?p = 1" "W ?p = 0" using M(1) d(3) by simp_all
  have other_dma: "dc_map y \<noteq> ?p" if "u_dmas s q = Some y" "q \<noteq> d" for q y using refs_unique [OF one(1) that(1) _ d(1)] that(2) by blast
  have "refs (u_maps s) dm_va ?va = 1" using D(5) d(4) by (simp add: vas_ok_def)
  then have other_va: "dm_va y \<noteq> ?va" if "u_maps s q = Some y" "q \<noteq> ?p" for q y using refs_unique [of "u_maps s" dm_va ?va q y ?p m] that d(2) by blast
  have no: "u_admins s q = Some a \<Longrightarrow> la_qmem a \<noteq> d" for q a using dmas_okD(5) [OF D(6) d(1)] W F(6) by (auto simp: refs_zero)
  have rm: "refs ((u_maps s)(?p := None)) f q = refs (u_maps s) f q - (if f m = q then 1 else 0)" for f :: "dma_desc \<Rightarrow> ptr" and q using refs_drop [OF F(4) d(2), of f q] .
  have rd: "refs ((u_dmas s)(d := None)) dc_map q = refs (u_dmas s) dc_map q - (if ?p = q then 1 else 0)" for q using refs_drop [OF F(5) d(1), of dc_map q] .
  have rv: "refs ((u_vas s)(?va := None)) f q = refs (u_vas s) f q - (if f v = q then 1 else 0)" for f :: "va_object \<Rightarrow> u64 option" and q
    using refs_drop [OF F(3) d(4), of f q] .
  have pv: "0 < refs (u_vas s) f (f v)" for f :: "va_object \<Rightarrow> u64 option" using refs_pos [OF F(3) d(4), of f] .
  show ?thesis
  proof (rule lib_invI)
    have h1: "heap_ok (unlive ?va (s\<lparr>u_vas := (u_vas s)(?va := None)\<rparr>))" (is "heap_ok ?s1") by (rule heap_drop(3) [OF D(1)]) (simp add: d)
    have h2: "heap_ok (unlive ?p (?s1\<lparr>u_maps := (u_maps ?s1)(?p := None)\<rparr>))" (is "heap_ok ?s2") by (rule heap_drop(4) [OF h1]) (simp add: d unlive_def)
    have h3: "heap_ok (unlive d (?s2\<lparr>u_dmas := (u_dmas ?s2)(d := None)\<rparr>))" by (rule heap_drop(5) [OF h2]) (simp add: d unlive_def)
    show "heap_ok ?s" by (rule heap_same [OF h3]) (simp add: map_gone_def unlive_def conj_ac, case_tac k, auto simp: map_gone_def unlive_def)
    show "ctrls_ok api ?W ?s" unfolding ctrls_ok_def
    proof (intro allI impI)
      fix q c' assume "u_ctrls ?s q = Some c'"
      then have q: "u_ctrls s q = Some c'" by (simp add: map_gone_def)
      have "q \<noteq> d" using X q by auto
      moreover have "0 < refs (u_maps s) dm_ctrl ?c" using refs_pos [OF F(4) d(2), of dm_ctrl] .
      ultimately show "unat (c_count c') = refs (u_maps ?s) dm_ctrl q + refs (u_refs ?s) ar_ctrl q + ?W q \<and> c_count c' \<noteq> 0 \<and>
         handle_ok api (c_handle c') \<and> bound_ok (u_devs ?s) c'"
        using ctrls_okD [OF D(2) q] rm [of dm_ctrl q] by (simp add: map_gone_def)
    qed
    show "devs_ok ?s" by (rule devs_ok_cong [OF D(3)]) (simp_all add: map_gone_def)
    show "maps_ok ?W ?s" unfolding maps_ok_def
    proof (intro allI impI)
      fix q m' assume q': "u_maps ?s q = Some m'"
      then have q: "q \<noteq> ?p" "u_maps s q = Some m'" by (auto simp: map_gone_def split: if_splits)
      moreover have "q \<noteq> d" "q \<noteq> ?c" using X C q by auto
      moreover from maps_okE [OF D(4) q(2)] obtain c' v' where
        "unat (dm_count m') = refs (u_dmas s) dc_map q + W q" "dm_count m' \<noteq> 0" "u_ctrls s (dm_ctrl m') = Some c'"
        "u_vas s (dm_va m') = Some v'" "va_fits m' c' v'" .
      moreover have "dm_va m' \<noteq> ?va" using other_va q by blast
      ultimately show "unat (dm_count m') = refs (u_dmas ?s) dc_map q + ?W q \<and> dm_count m' \<noteq> 0 \<and>
        (\<exists>c v. u_ctrls ?s (dm_ctrl m') = Some c \<and> u_vas ?s (dm_va m') = Some v \<and> va_fits m' c v)"
        using rd [of q] by (simp add: map_gone_def)
    qed
    show "vas_ok ?s" using D(5) rm [of dm_va] unfolding vas_ok_def by (auto simp: map_gone_def)
    show "dmas_ok api ?W ?s" unfolding dmas_ok_def
    proof (intro allI impI)
      fix q y assume "u_dmas ?s q = Some y"
      then have q: "q \<noteq> d" "u_dmas s q = Some y" by (auto simp: map_gone_def split: if_splits)
      moreover have "q \<noteq> ?c" using C q by auto
      ultimately show "u_maps ?s (dc_map y) \<noteq> None \<and> dma_page_size (dc_handle y) = sc_pagesize api \<and>
        length (dma_ioaddrs (dc_handle y)) = unat (dma_n_ioaddrs (dc_handle y)) \<and>
        unat (dma_n_ioaddrs (dc_handle y)) * unat (sc_pagesize api) < 2 ^ 64 \<and> refs (u_admins ?s) la_qmem q + ?W q = 1"
        using dmas_okD [OF D(6) q(2)] other_dma [OF q(2,1)] by (simp add: map_gone_def)
    qed
    show "admins_ok api ?W ?s" by (rule admins_ok_cong [OF D(7)]) (use X C no in \<open>auto simp: map_gone_def\<close>)
    show "refs_ok ?W ?s" by (rule refs_ok_cong [OF D(8)]) (use X C in \<open>simp_all add: map_gone_def\<close>)
    show "bufs_ok B ?s"
    proof (cases "api_buf v")
      case None
      then show ?thesis using rv [of api_buf] by (intro bufs_ok_cong [OF D(9)]) (simp_all add: map_gone_def bufs_without_def)
    next
      case (Some b)
      note E = bufs_okD [OF D(9)]
      have b: "b \<in> set (u_bufs s)" "b \<notin> B" "refs (u_vas s) api_buf (Some b) = 1"
        using Some E(3) [of b] pv [of api_buf] by (auto split: if_splits)
      have "refs ((u_vas s)(?va := None)) api_buf (Some y) + (if y \<in> B then 1 else 0) = (if y \<in> set (remove1 b (u_bufs s)) then 1 else 0)" for y
        using E(1) E(3) [of y] b Some rv [of api_buf "Some y"] by (cases "y = b") (auto simp: set_remove1_eq)
      then show ?thesis using E(1,2) Some unfolding bufs_ok_def by (simp add: map_gone_def bufs_without_def set_remove1_eq)
    qed
    show "log_ok ?s"
    proof (cases "map_buf v")
      case None
      then show ?thesis using rv [of map_buf] by (intro log_ok_cong [OF D(10)]) (simp_all add: map_gone_def unmap_calls_def)
    next
      case (Some b)
      then have "refs (u_vas s) map_buf (Some y) = refs ((u_vas s)(?va := None)) map_buf (Some y) + (if y = b then 1 else 0)" for y
        using rv [of map_buf "Some y"] pv [of map_buf] by auto
      then show ?thesis using D(10) Some unfolding log_ok_def by (auto simp: map_gone_def unmap_calls_def)
    qed
    show "owns_ok ?W ?s" using D(11) one(2) M(2) ne unfolding owns_ok_def by (auto simp: map_gone_def split: if_splits)
  qed
qed

lemma ctrl_put_trim:
  assumes "nvm_ctrl_put p (t\<lparr>u_live := filter P (u_live t), u_maps := M, u_dmas := D\<rparr>) = Some s'" "\<And>k. P (p, k)"
    "\<And>c k. u_ctrls t p = Some c \<Longrightarrow> c_device c \<noteq> NULL \<Longrightarrow> P (c_device c, k)"
  shows "\<exists>t'. nvm_ctrl_put p t = Some t' \<and> s' = t'\<lparr>u_live := filter P (u_live t'), u_maps := M, u_dmas := D\<rparr> \<and>
     u_maps t' = u_maps t \<and> u_dmas t' = u_dmas t \<and> (\<forall>e \<in> set (u_live t). \<not> P e \<longrightarrow> e \<in> set (u_live t'))"
proof -
  have sw: "filter (\<lambda>e. P e \<and> fst e \<noteq> q) xs = filter (\<lambda>e. fst e \<noteq> q \<and> P e) xs" for q and xs :: "(ptr \<times> kind) list"
    by (rule filter_cong) auto
  show ?thesis
  proof (cases "p = NULL")
    case True
    then show ?thesis using assms(1) by (simp add: nvm_ctrl_put_def)
  next
    case False
    then obtain c where c: "u_ctrls t p = Some c" using assms(1) by (auto simp: nvm_ctrl_put_def)
    consider "c_count c - 1 \<noteq> 0" | "c_count c - 1 = 0" "c_device c = NULL" | "c_count c - 1 = 0" "c_device c \<noteq> NULL" by blast
    then show ?thesis
    proof cases
      case 1
      then show ?thesis using assms(1) c False by (auto simp: nvm_ctrl_put_def Let_def)
    next
      case 2
      then show ?thesis using assms(1,2) c False
        by (auto simp: nvm_ctrl_put_def Let_def remove_handle_def free_mem_def sw split: if_splits)
    next
      case 3
      note Pd = assms(3) [OF c 3(2)]
      have sw3: "filter (\<lambda>e. P e \<and> fst e \<noteq> c_device c \<and> fst e \<noteq> p) xs = filter (\<lambda>e. fst e \<noteq> c_device c \<and> fst e \<noteq> p \<and> P e) xs"
        for xs :: "(ptr \<times> kind) list" by (rule filter_cong) auto
      from 3 assms(1) c False obtain fd where fd: "op_release (c_ops c) = Some Release_device" "u_devs t (c_device c) = Some fd"
        by (auto simp: nvm_ctrl_put_def Let_def release_device_def split: option.splits release_fn.splits)
      then show ?thesis using 3 assms(1,2) c False Pd
        by (auto simp: nvm_ctrl_put_def Let_def remove_handle_def release_device_def free_mem_def ulog_def sw3 split: if_splits)
    qed
  qed
qed

lemma unmap_last:
  assumes I: "lib_inv api W B s" and d: "u_dmas s d = Some x" "u_maps s (dc_map x) = Some m" "dm_count m = 1" "u_vas s (dm_va m) = Some v"
    and put: "nvm_ctrl_put (dm_ctrl m) (map_gone d (dc_map x) (dm_va m) v s) = Some s'"
  shows "nvm_dma_unmap d s = Some s'"
proof -
  let ?p = "dc_map x" and ?c = "dm_ctrl m" and ?va = "dm_va m"
  let ?m = "m\<lparr>dm_count := 0, dm_va := NULL\<rparr>"
  let ?P = "\<lambda>e. fst e \<noteq> ?p \<and> fst e \<noteq> d"
  note D = lib_invD [OF I]
  note X = dma_excl [OF D(1) d(1)] and Y = map_excl [OF D(1) d(2)] and Z = va_excl [OF D(1) d(4)]
  from maps_okE [OF D(4) d(2)] obtain c where M: "u_ctrls s ?c = Some c" "va_fits m c v" using d(4) by (metis option.inject)
  note C = ctrls_okD [OF D(2) M(1)] and CX = ctrl_excl [OF D(1) M(1)]
  have ne: "d \<noteq> ?p" "d \<noteq> ?va" "d \<noteq> ?c" "?p \<noteq> ?va" "?p \<noteq> ?c" "?va \<noteq> ?c" using X Y Z CX d M(1) by auto
  have dev: "c_device c \<noteq> NULL \<Longrightarrow> u_devs s (c_device c) \<noteq> None" using C(4) by (auto simp: bound_ok_def)
  have b: "api_buf v = Some b \<Longrightarrow> b \<in> set (u_bufs s) \<and> b \<noteq> 0" for b
  proof -
    assume "api_buf v = Some b"
    then have "0 < refs (u_vas s) api_buf (Some b)" using refs_pos [OF heap_finite(3) [OF D(1)] d(4), of api_buf] by simp
    then show ?thesis using bufs_okD(2) [OF D(9)] bufs_okD(3) [OF D(9), of b] by (auto split: if_splits)
  qed
  let ?t = "s\<lparr>u_live := filter (\<lambda>e. fst e \<noteq> ?va) (u_live s), u_bufs := bufs_without v (u_bufs s), u_vas := (u_vas s)(?va := None),
    u_calls := u_calls s @ unmap_calls v, u_maps := (u_maps s)(?p \<mapsto> ?m)\<rparr>"
  have "\<exists>s1. (if dm_unmap m \<noteq> None then do { c \<leftarrow> u_ctrls s ?c; unmap_va (c_device c) ?va s } else Some s) = Some s1 \<and>
      release_va (dm_release m) ?va s1 = Some (?t\<lparr>u_maps := u_maps s\<rparr>)"
  proof (cases v)
    case (Plain_range r)
    then show ?thesis using M(2) d(4) heap_fst [OF heap_live(3) [OF D(1) d(4)]]
      by (simp add: va_fits_def release_va_def free_va_object_def free_mem_def bufs_without_def unmap_calls_def)
  next
    case (Mapping im)
    then obtain fd where "u_devs s (c_device c) = Some fd" using M(2) dev by (auto simp: va_fits_def)
    then show ?thesis using Mapping M d(4) b heap_fst [OF heap_live(3) [OF D(1) d(4)]]
      by (simp add: va_fits_def release_va_def unmap_va_def ioctl_unmap_def remove_mapping_descriptor_def free_va_object_def free_mem_def
          free_buf_def bufs_without_def unmap_calls_def ulog_def)
  qed
  then obtain s1 where "(if dm_unmap m \<noteq> None then do { c \<leftarrow> u_ctrls s ?c; unmap_va (c_device c) ?va s } else Some s) = Some s1"
    "release_va (dm_release m) ?va s1 = Some (?t\<lparr>u_maps := u_maps s\<rparr>)" by blast
  then have put_t: "put_map ?p s = remove_map ?p ?t"
    using d(2,3) M(1) heap_nonnull(4) [OF D(1) d(2)] by (auto simp: put_map_def Let_def split: if_splits)
  have "map_gone d ?p ?va v s = ?t\<lparr>u_live := filter ?P (u_live ?t), u_maps := (u_maps s)(?p := None), u_dmas := (u_dmas s)(d := None)\<rparr>"
    by (simp add: map_gone_def conj_ac)
  note put' = put [unfolded this]
  have "\<exists>t'. nvm_ctrl_put ?c ?t = Some t' \<and> s' = t'\<lparr>u_live := filter ?P (u_live t'), u_maps := (u_maps s)(?p := None), u_dmas := (u_dmas s)(d := None)\<rparr> \<and>
      u_maps t' = u_maps ?t \<and> u_dmas t' = u_dmas ?t \<and> (\<forall>e \<in> set (u_live ?t). \<not> ?P e \<longrightarrow> e \<in> set (u_live t'))"
    using ne X Y dev M(1) by (intro ctrl_put_trim [OF put']) auto
  then obtain t' where
    t': "nvm_ctrl_put ?c ?t = Some t'" "s' = t'\<lparr>u_live := filter ?P (u_live t'), u_maps := (u_maps s)(?p := None), u_dmas := (u_dmas s)(d := None)\<rparr>"
      "u_maps t' = u_maps ?t" "u_dmas t' = u_dmas s" "\<forall>e \<in> set (u_live ?t). \<not> ?P e \<longrightarrow> e \<in> set (u_live t')" by auto
  have live: "?p \<in> fst ` set (u_live t')" "d \<in> fst ` set (filter (\<lambda>e. fst e \<noteq> ?p) (u_live t'))"
    using t'(5) heap_live(4) [OF D(1) d(2)] heap_live(5) [OF D(1) d(1)] ne by force+
  have "remove_map ?p ?t = Some (t'\<lparr>u_live := filter (\<lambda>e. fst e \<noteq> ?p) (u_live t'), u_maps := (u_maps s)(?p := None)\<rparr>)"
    using t'(1,3) live(1) by (simp add: remove_map_def free_mem_def)
  then show ?thesis using put_t d(1) t'(2,4) live(2) heap_nonnull(5) [OF D(1) d(1)]
    by (simp add: nvm_dma_unmap_def remove_container_def free_mem_def del: set_filter)
qed

lemma dma_unmap_inv:
  assumes I: "lib_inv api W B s" and d: "u_dmas s d = Some x" and W: "W d = 1"
  obtains s' where "nvm_dma_unmap d s = Some s'" "lib_inv api (W(d := 0)) B s'" "keeps (W(d := 0)) s s'"
    "u_dmas s' = (u_dmas s)(d := None) \<and> u_admins s' = u_admins s \<and> u_refs s' = u_refs s"
proof -
  note D = lib_invD [OF I]
  from dmas_okD(1) [OF D(6) d] obtain m where m: "u_maps s (dc_map x) = Some m" by blast
  from maps_okE [OF D(4) m] obtain c v where M: "u_ctrls s (dm_ctrl m) = Some c" "u_vas s (dm_va m) = Some v" .
  show thesis
  proof (cases "dm_count m = 1")
    case False
    from unmap_more_inv [OF I d m False W] show thesis by (rule that) (simp_all add: keeps_def unlive_def)
  next
    case True
    let ?W = "W(d := 0, dm_ctrl m := Suc (W (dm_ctrl m)))" and ?s = "map_gone d (dc_map x) (dm_va m) v s"
    have "dm_ctrl m \<noteq> d" using dma_excl [OF D(1) d] M(1) by auto
    then have W': "?W(dm_ctrl m := W (dm_ctrl m)) = W(d := 0)" by auto
    have "u_ctrls ?s (dm_ctrl m) = Some c" "?W (dm_ctrl m) = Suc (W (dm_ctrl m))" using M(1) by (simp_all add: map_gone_def)
    from ctrl_put_inv [OF map_gone_inv [OF I d m True M(2) W] this] obtain s' where
      s': "nvm_ctrl_put (dm_ctrl m) ?s = Some s'" "lib_inv api (W(d := 0)) B s'" "keeps (W(d := 0)) ?s s'"
        "u_dmas s' = u_dmas ?s \<and> u_admins s' = u_admins ?s \<and> u_refs s' = u_refs ?s" unfolding W' by metis
    show thesis
    proof (rule that)
      show "nvm_dma_unmap d s = Some s'" by (rule unmap_last [OF I d m True M(2) s'(1)])
    qed (use s' in \<open>simp_all add: keeps_def map_gone_def\<close>)
  qed
qed

end
