(* ===== verification/Lib_Frame.thy ===== *)
theory Lib_Frame
  imports Lib_Inv
begin

text \<open>
  Releasing a mapping does not look at admin queues and references: what happens with some of them
  hidden also happens with them in place. This lets a release that frees an owner last be compared with
  the state in which the owner is gone already.
\<close>

section \<open>Framed operations\<close>

definition hide :: "(ptr \<Rightarrow> bool) \<Rightarrow> (ptr \<rightharpoonup> local_admin) \<Rightarrow> (ptr \<rightharpoonup> admin_ref) \<Rightarrow> ustate \<Rightarrow> ustate" where
  "hide Q A R t = t\<lparr>u_live := filter (\<lambda>e. Q (fst e)) (u_live t), u_admins := A, u_refs := R\<rparr>"

definition kept :: "(ptr \<Rightarrow> bool) \<Rightarrow> ustate \<Rightarrow> ustate \<Rightarrow> bool" where
  "kept Q t t' \<longleftrightarrow> u_admins t' = u_admins t \<and> u_refs t' = u_refs t \<and> (\<forall>e \<in> set (u_live t). \<not> Q (fst e) \<longrightarrow> e \<in> set (u_live t'))"

definition framed :: "(ptr \<Rightarrow> bool) \<Rightarrow> (ptr \<rightharpoonup> local_admin) \<Rightarrow> (ptr \<rightharpoonup> admin_ref) \<Rightarrow> (ustate \<Rightarrow> ustate option) \<Rightarrow> bool" where
  "framed Q A R f \<longleftrightarrow> (\<forall>t s'. f (hide Q A R t) = Some s' \<longrightarrow> (\<exists>t'. f t = Some t' \<and> s' = hide Q A R t' \<and> kept Q t t'))"

lemma hide_simps [simp]:
  "u_devs (hide Q A R t) = u_devs t" "u_ctrls (hide Q A R t) = u_ctrls t" "u_vas (hide Q A R t) = u_vas t" "u_maps (hide Q A R t) = u_maps t"
  "u_dmas (hide Q A R t) = u_dmas t" "u_bufs (hide Q A R t) = u_bufs t" "u_calls (hide Q A R t) = u_calls t"
  by (simp_all add: hide_def)

lemma kept_refl [simp]: "kept Q t t"
  by (simp add: kept_def)

lemma kept_trans: "kept Q t t1 \<Longrightarrow> kept Q t1 t2 \<Longrightarrow> kept Q t t2"
  by (simp add: kept_def)

lemma framedD: "framed Q A R f \<Longrightarrow> f (hide Q A R t) = Some s' \<Longrightarrow> \<exists>t'. f t = Some t' \<and> s' = hide Q A R t' \<and> kept Q t t'"
  unfolding framed_def by blast

lemma framed_Some:
  assumes "\<And>t. u (hide Q A R t) = hide Q A R (u t)" "\<And>t. kept Q t (u t)"
  shows "framed Q A R (\<lambda>s. Some (u s))"
  using assms by (auto simp: framed_def)

lemma framed_None: "framed Q A R (\<lambda>s. None)"
  by (simp add: framed_def)

lemma framed_bind:
  assumes f: "framed Q A R f" and g: "framed Q A R g"
  shows "framed Q A R (\<lambda>s. do { s \<leftarrow> f s; g s })"
  unfolding framed_def
proof (intro allI impI)
  fix t s' assume "do { s \<leftarrow> f (hide Q A R t); g s } = Some s'"
  then obtain s1 where s1: "f (hide Q A R t) = Some s1" "g s1 = Some s'" by auto
  from framedD [OF f s1(1)] obtain t1 where t1: "f t = Some t1" "s1 = hide Q A R t1" "kept Q t t1" by blast
  from framedD [OF g] s1(2) t1(2) obtain t2 where "g t1 = Some t2" "s' = hide Q A R t2" "kept Q t1 t2" by blast
  then show "\<exists>t'. do { s \<leftarrow> f t; g s } = Some t' \<and> s' = hide Q A R t' \<and> kept Q t t'" using t1 kept_trans by auto
qed

lemma framed_read:
  assumes "\<And>t. x (hide Q A R t) = x t" "\<And>v. framed Q A R (g v)"
  shows "framed Q A R (\<lambda>s. do { v \<leftarrow> x s; g v s })"
  unfolding framed_def
proof (intro allI impI)
  fix t s' assume "do { v \<leftarrow> x (hide Q A R t); g v (hide Q A R t) } = Some s'"
  then obtain v where v: "x t = Some v" "g v (hide Q A R t) = Some s'" by (auto simp: assms(1))
  from framedD [OF assms(2) v(2)] show "\<exists>t'. do { v \<leftarrow> x t; g v t } = Some t' \<and> s' = hide Q A R t' \<and> kept Q t t'" using v(1) by simp
qed

lemma framed_lookup:
  assumes "\<And>v. framed Q A R (g1 v)" shows "framed Q A R (\<lambda>s. do { v \<leftarrow> u_devs s p; g1 v s })"
  by (rule framed_read) (simp_all add: assms)

lemma framed_lookup_ctrl: "(\<And>v. framed Q A R (g v)) \<Longrightarrow> framed Q A R (\<lambda>s. do { v \<leftarrow> u_ctrls s p; g v s })"
  by (rule framed_read) simp_all

lemma framed_lookup_va: "(\<And>v. framed Q A R (g v)) \<Longrightarrow> framed Q A R (\<lambda>s. do { v \<leftarrow> u_vas s p; g v s })"
  by (rule framed_read) simp_all

lemma framed_lookup_map: "(\<And>v. framed Q A R (g v)) \<Longrightarrow> framed Q A R (\<lambda>s. do { v \<leftarrow> u_maps s p; g v s })"
  by (rule framed_read) simp_all

lemma framed_lookup_dma: "(\<And>v. framed Q A R (g v)) \<Longrightarrow> framed Q A R (\<lambda>s. do { v \<leftarrow> u_dmas s p; g v s })"
  by (rule framed_read) simp_all

lemmas framed_look = framed_lookup framed_lookup_ctrl framed_lookup_va framed_lookup_map framed_lookup_dma

lemma framed_if: "framed Q A R f \<Longrightarrow> framed Q A R g \<Longrightarrow> framed Q A R (\<lambda>s. if b then f s else g s)"
  by (cases b) simp_all

lemma framed_after:
  assumes "framed Q A R f" "\<And>t. u (hide Q A R t) = hide Q A R (u t)" "\<And>t. kept Q t (u t)"
  shows "framed Q A R (\<lambda>s. f (u s))"
  unfolding framed_def
proof (intro allI impI)
  fix t s' assume "f (u (hide Q A R t)) = Some s'"
  then have "f (hide Q A R (u t)) = Some s'" by (simp add: assms(2))
  from framedD [OF assms(1) this] show "\<exists>t'. f (u t) = Some t' \<and> s' = hide Q A R t' \<and> kept Q t t'" using assms(3) kept_trans by blast
qed

lemma framed_free_mem: "framed Q A R (free_mem p)"
  by (auto simp: framed_def free_mem_def hide_def kept_def conj_commute split: if_splits)

lemma hide_upd:
  "(hide Q A R t)\<lparr>u_devs := h1\<rparr> = hide Q A R (t\<lparr>u_devs := h1\<rparr>)" "(hide Q A R t)\<lparr>u_ctrls := h2\<rparr> = hide Q A R (t\<lparr>u_ctrls := h2\<rparr>)"
  "(hide Q A R t)\<lparr>u_vas := h3\<rparr> = hide Q A R (t\<lparr>u_vas := h3\<rparr>)" "(hide Q A R t)\<lparr>u_maps := h4\<rparr> = hide Q A R (t\<lparr>u_maps := h4\<rparr>)"
  "(hide Q A R t)\<lparr>u_dmas := h5\<rparr> = hide Q A R (t\<lparr>u_dmas := h5\<rparr>)" "(hide Q A R t)\<lparr>u_bufs := h6\<rparr> = hide Q A R (t\<lparr>u_bufs := h6\<rparr>)"
  "ulog ks (hide Q A R t) = hide Q A R (ulog ks t)"
  by (simp_all add: hide_def ulog_def)

lemma kept_upd:
  "kept Q t (t\<lparr>u_devs := h1\<rparr>)" "kept Q t (t\<lparr>u_ctrls := h2\<rparr>)" "kept Q t (t\<lparr>u_vas := h3\<rparr>)" "kept Q t (t\<lparr>u_maps := h4\<rparr>)"
  "kept Q t (t\<lparr>u_dmas := h5\<rparr>)" "kept Q t (t\<lparr>u_bufs := h6\<rparr>)" "kept Q t (ulog ks t)" "kept Q t ((ulog ks t)\<lparr>u_devs := h1\<rparr>)"
  by (simp_all add: kept_def ulog_def)

lemmas framed_upd = framed_after [OF framed_free_mem]

lemma framed_release_device: "framed Q A R (release_device dev mm n)"
  unfolding release_device_def [abs_def] by (intro framed_look framed_upd) (simp_all add: hide_upd kept_upd)

lemma framed_remove_handle: "framed Q A R (remove_handle p)"
  unfolding remove_handle_def [abs_def] by (intro framed_look framed_upd) (simp_all add: hide_upd kept_upd)

lemma framed_ctrl_put: "framed Q A R (nvm_ctrl_put p)"
proof -
  have rel: "framed Q A R (\<lambda>s. if c_device c \<noteq> NULL
     then case op_release (c_ops c) of Some Release_device \<Rightarrow> release_device (c_device c) (mm_ptr (c_handle c)) (mm_size (c_handle c)) s | None \<Rightarrow> None
     else Some s)" for c
  proof (cases "op_release (c_ops c)")
    case None
    then show ?thesis by (auto intro!: framed_if framed_None framed_Some)
  next
    case (Some a)
    then have "op_release (c_ops c) = Some Release_device" by (cases a) simp
    then show ?thesis by (auto intro!: framed_if framed_release_device framed_Some)
  qed
  have "framed Q A R (\<lambda>s. remove_handle p (s\<lparr>u_ctrls := (u_ctrls s)(p \<mapsto> c)\<rparr>))" for c
    by (rule framed_after [OF framed_remove_handle]) (simp_all add: hide_upd kept_upd)
  note step = framed_bind [OF rel this]
  show ?thesis unfolding nvm_ctrl_put_def [abs_def] Let_def
    by (intro framed_if framed_look step framed_Some) (simp_all add: hide_upd kept_upd)
qed

lemma framed_free_buf: "framed Q A R (free_buf b)"
  by (auto simp: framed_def free_buf_def hide_upd kept_upd split: if_splits)

lemma framed_free_va: "framed Q A R (free_va_object p)"
  unfolding free_va_object_def [abs_def] by (intro framed_look framed_upd) (simp_all add: hide_upd kept_upd)

lemma framed_release_va: "framed Q A R (release_va f p)"
proof (cases f)
  case Free_va
  then show ?thesis by (simp add: release_va_def [abs_def] framed_free_va)
next
  case Release_mapping_descriptor
  have "framed Q A R (\<lambda>s. case v of Plain_range _ \<Rightarrow> None | Mapping m \<Rightarrow> do {
         s \<leftarrow> (if im_type m = MAP_TYPE_API then free_buf (im_buffer m) s else Some s);
         free_va_object p s })" for v
    by (cases v) (auto intro!: framed_None framed_bind framed_if framed_free_buf framed_free_va framed_Some)
  then show ?thesis unfolding Release_mapping_descriptor release_va_def [abs_def] remove_mapping_descriptor_def
    by (simp, intro framed_look) simp_all
qed

lemma framed_unmap_va: "framed Q A R (unmap_va dev p)"
proof -
  have "framed Q A R (\<lambda>s. case v of Plain_range _ \<Rightarrow> None | Mapping m \<Rightarrow> ioctl_unmap dev m s)" for v
    by (cases v) (auto intro!: framed_None framed_look framed_Some simp: ioctl_unmap_def [abs_def] hide_upd kept_upd)
  then show ?thesis unfolding unmap_va_def [abs_def] by (intro framed_look) simp_all
qed

lemma framed_remove_map: "framed Q A R (remove_map p)"
proof -
  have "framed Q A R (\<lambda>s. free_mem p (s\<lparr>u_maps := (u_maps s)(p := None)\<rparr>))" by (rule framed_upd) (simp_all add: hide_upd kept_upd)
  then show ?thesis unfolding remove_map_def [abs_def] by (intro framed_look framed_bind framed_ctrl_put)
qed

lemma put_map_alt: "put_map p s = (if p = NULL then Some s
   else do {
     m \<leftarrow> u_maps s p;
     if dm_count m - 1 = 0
     then do {
       s \<leftarrow> (if dm_unmap m \<noteq> None then do { c \<leftarrow> u_ctrls s (dm_ctrl m); unmap_va (c_device c) (dm_va m) s } else Some s);
       s \<leftarrow> release_va (dm_release m) (dm_va m) s;
       remove_map p (s\<lparr>u_maps := (u_maps s)(p \<mapsto> m\<lparr>dm_count := dm_count m - 1, dm_va := NULL\<rparr>)\<rparr>) }
     else if dm_va m = NULL then remove_map p (s\<lparr>u_maps := (u_maps s)(p \<mapsto> m\<lparr>dm_count := dm_count m - 1\<rparr>)\<rparr>)
     else Some (s\<lparr>u_maps := (u_maps s)(p \<mapsto> m\<lparr>dm_count := dm_count m - 1\<rparr>)\<rparr>) })"
  by (cases "u_maps s p") (simp_all add: put_map_def Let_def)

lemma framed_put_map: "framed Q A R (put_map p)"
proof -
  have upd: "framed Q A R (\<lambda>s. remove_map p (s\<lparr>u_maps := (u_maps s)(p \<mapsto> m)\<rparr>))" for m
    by (rule framed_after [OF framed_remove_map]) (simp_all add: hide_upd kept_upd)
  have "framed Q A R (\<lambda>s. if dm_unmap m \<noteq> None then do { c \<leftarrow> u_ctrls s (dm_ctrl m); unmap_va (c_device c) (dm_va m) s } else Some s)" for m
    by (intro framed_if framed_look framed_unmap_va framed_Some) simp_all
  note step = framed_bind [OF this framed_bind [OF framed_release_va upd]]
  show ?thesis unfolding put_map_alt [abs_def]
    by (intro framed_if framed_look step framed_Some upd) (simp_all add: hide_upd kept_upd)
qed

lemma framed_dma_unmap: "framed Q A R (nvm_dma_unmap d)"
proof -
  have "framed Q A R (\<lambda>s. free_mem d (s\<lparr>u_dmas := (u_dmas s)(d := None)\<rparr>))" by (rule framed_upd) (simp_all add: hide_upd kept_upd)
  then have "framed Q A R (remove_container d)"
    unfolding remove_container_def [abs_def] by (intro framed_look framed_bind framed_put_map)
  then show ?thesis unfolding nvm_dma_unmap_def [abs_def] by (intro framed_if framed_Some) simp_all
qed

end
