(* ===== verification/Lib_Admin.thy ===== *)
theory Lib_Admin
  imports Lib_Exact Ugds_Io
begin

text \<open>
  Admin commands (\<open>libnvm/admin.cpp\<close>): identification of controller and namespace, log pages,
  creation and deletion of I/O queues, and the number of queues. Pages that the controller fills are
  read through the parameter \<open>dma_bytes\<close>, as a function of what was done to the admin queue so far.
  Shifts that the language leaves undefined, and reads beyond such a page, are faults.
\<close>

section \<open>Command builders\<close>

definition admin_cq_create :: "nvm_cmd \<Rightarrow> nvm_queue \<Rightarrow> u64 \<Rightarrow> bool \<Rightarrow> nvm_cmd" where
  "admin_cq_create cmd cqueue ioaddr need_prp =
     (nvm_cmd_data_ptr (nvm_cmd_header cmd 0 NVM_ADMIN_CREATE_CQ 0) ioaddr 0)
       [10 := push_bit 16 (qs cqueue - 1) OR ucast (q_no cqueue), 11 := (if need_prp then 0 else 1)]"

definition admin_cq_delete :: "nvm_cmd \<Rightarrow> nvm_queue \<Rightarrow> nvm_cmd" where
  "admin_cq_delete cmd cqueue = (nvm_cmd_header cmd 0 NVM_ADMIN_DELETE_CQ 0)[10 := ucast (q_no cqueue) AND 0xffff]"

definition admin_sq_create :: "nvm_cmd \<Rightarrow> nvm_queue \<Rightarrow> nvm_queue \<Rightarrow> u64 \<Rightarrow> bool \<Rightarrow> nvm_cmd" where
  "admin_sq_create cmd squeue cqueue ioaddr need_prp =
     (nvm_cmd_data_ptr (nvm_cmd_header cmd 0 NVM_ADMIN_CREATE_SQ 0) ioaddr 0)
       [10 := push_bit 16 (qs squeue - 1) OR ucast (q_no squeue), 11 := push_bit 16 (ucast (q_no cqueue)) OR (if need_prp then 0 else 1)]"

definition admin_sq_delete :: "nvm_cmd \<Rightarrow> nvm_queue \<Rightarrow> nvm_cmd" where
  "admin_sq_delete cmd squeue = (nvm_cmd_header cmd 0 NVM_ADMIN_DELETE_SQ 0)[10 := ucast (q_no squeue) AND 0xffff]"

definition admin_current_num_queues :: "nvm_cmd \<Rightarrow> bool \<Rightarrow> u16 \<Rightarrow> u16 \<Rightarrow> nvm_cmd" where
  "admin_current_num_queues cmd set_it n_cqs n_sqs =
     (nvm_cmd_data_ptr (nvm_cmd_header cmd 0 (if set_it then NVM_ADMIN_SET_FEATURES else NVM_ADMIN_GET_FEATURES) 0) 0 0)
       [10 := 0x07, 11 := (if set_it then push_bit 16 (ucast n_cqs - 1) OR (ucast n_sqs - 1) else 0)]"

definition admin_identify_ctrl :: "nvm_cmd \<Rightarrow> u64 \<Rightarrow> nvm_cmd" where
  "admin_identify_ctrl cmd ioaddr = (nvm_cmd_data_ptr (nvm_cmd_header cmd 0 NVM_ADMIN_IDENTIFY 0) ioaddr 0)[10 := 0x01, 11 := 0]"

definition admin_identify_ns :: "nvm_cmd \<Rightarrow> u32 \<Rightarrow> u64 \<Rightarrow> nvm_cmd" where
  "admin_identify_ns cmd ns_id ioaddr = (nvm_cmd_data_ptr (nvm_cmd_header cmd 0 NVM_ADMIN_IDENTIFY ns_id) ioaddr 0)[10 := 0x00, 11 := 0]"

definition admin_get_log_page :: "nvm_cmd \<Rightarrow> u32 \<Rightarrow> u64 \<Rightarrow> u8 \<Rightarrow> u64 \<Rightarrow> nvm_cmd" where
  "admin_get_log_page cmd ns_id ioaddr log_id log_offset =
     (nvm_cmd_data_ptr (nvm_cmd_header cmd 0 NVM_ADMIN_GET_LOG_PAGE ns_id) ioaddr 0)
       [10 := push_bit 16 1024 OR ucast log_id, 11 := 0, 12 := ucast log_offset, 13 := ucast (drop_bit 32 log_offset)]"

section \<open>Identification\<close>

record nvm_ctrl_info =
  i_nvme_version :: u32
  i_page_size :: u64
  i_db_stride :: u64
  i_timeout :: u64
  i_contiguous :: bool
  i_max_entries :: u16
  i_pci_vendor :: "u8 list"
  i_serial_no :: "u8 list"
  i_model_no :: "u8 list"
  i_firmware :: "u8 list"
  i_max_data_size :: u64
  i_max_data_pages :: u64
  i_cq_entry_size :: u64
  i_sq_entry_size :: u64
  i_max_out_cmds :: u64
  i_max_n_ns :: u64

record nvm_ns_info =
  n_ns_id :: u32
  n_size :: u64
  n_capacity :: u64
  n_utilization :: u64
  n_lba_data_size :: u64
  n_metadata_size :: u64

definition zero_ctrl_info :: nvm_ctrl_info where
  "zero_ctrl_info = \<lparr>i_nvme_version = 0, i_page_size = 0, i_db_stride = 0, i_timeout = 0, i_contiguous = False, i_max_entries = 0,
     i_pci_vendor = replicate 4 0, i_serial_no = replicate 20 0, i_model_no = replicate 40 0, i_firmware = replicate 8 0,
     i_max_data_size = 0, i_max_data_pages = 0, i_cq_entry_size = 0, i_sq_entry_size = 0, i_max_out_cmds = 0, i_max_n_ns = 0\<rparr>"

definition zero_ns_info :: nvm_ns_info where
  "zero_ns_info = \<lparr>n_ns_id = 0, n_size = 0, n_capacity = 0, n_utilization = 0, n_lba_data_size = 0, n_metadata_size = 0\<rparr>"

text \<open>Reading memory that the controller wrote: byte ranges and little-endian numbers.\<close>

definition mem_range :: "u8 list \<Rightarrow> nat \<Rightarrow> nat \<Rightarrow> u8 list option" where
  "mem_range bs off n = arr_prefix (drop off bs) n"

definition mem_le :: "u8 list \<Rightarrow> nat \<Rightarrow> nat \<Rightarrow> u64 option" where
  "mem_le bs off n = do {
     xs \<leftarrow> mem_range bs off n;
     Some (of_nat (foldr (\<lambda>b acc. unat b + 256 * acc) xs 0)) }"

text \<open>\<open>1UL << n\<close> and, for \<open>int\<close>, \<open>1 << n\<close> converted to \<open>size_t\<close>.\<close>

definition shl_long :: "u64 \<Rightarrow> u64 option" where
  "shl_long n = (if n < 64 then Some (push_bit (unat n) 1) else None)"

definition shl_int :: "u64 \<Rightarrow> u64 option" where
  "shl_int n = (if n < 32 then Some (scast (push_bit (unat n) 1 :: u32)) else None)"

text \<open>What was done so far to the admin queue behind a reference.\<close>

definition rpc_history :: "ptr \<Rightarrow> ustate \<Rightarrow> hw_event list" where
  "rpc_history r s = (case u_refs s r of
     None \<Rightarrow> []
   | Some a \<Rightarrow> (case u_admins s (ar_data a) of None \<Rightarrow> [] | Some ad \<Rightarrow> events (la_qp ad)))"

definition parse_ctrl :: "u64 \<Rightarrow> u8 list \<Rightarrow> nvm_ctrl_info \<Rightarrow> nvm_ctrl_info option" where
  "parse_ctrl cap bytes info = do {
     vendor \<leftarrow> mem_range bytes 0 4;
     serial \<leftarrow> mem_range bytes 4 20;
     model \<leftarrow> mem_range bytes 24 40;
     fw \<leftarrow> mem_range bytes 64 8;
     mdts \<leftarrow> arr_get bytes 77;
     units \<leftarrow> shl_long (ucast mdts);
     unit_size \<leftarrow> shl_long (12 + CAP_MPSMIN cap);
     sqes \<leftarrow> arr_get bytes 512;
     cqes \<leftarrow> arr_get bytes 513;
     sq_es \<leftarrow> shl_int (RB (ucast sqes) 3 0);
     cq_es \<leftarrow> shl_int (RB (ucast cqes) 3 0);
     max_cmds \<leftarrow> mem_le bytes 514 2;
     nn \<leftarrow> mem_le bytes 516 4;
     if i_page_size info = 0 then None
     else Some (info\<lparr>i_pci_vendor := vendor, i_serial_no := serial, i_model_no := model, i_firmware := fw,
       i_max_data_size := units * unit_size, i_max_data_pages := units * unit_size div i_page_size info,
       i_sq_entry_size := sq_es, i_cq_entry_size := cq_es, i_max_out_cmds := max_cmds, i_max_n_ns := nn\<rparr>) }"

text \<open>The destination is \<open>None\<close> for a null pointer; the result holds what it contains afterwards.\<close>

definition nvm_admin_ctrl_info ::
  "ustate uapi \<Rightarrow> ptr \<Rightarrow> nvm_ctrl_info option \<Rightarrow> u64 \<Rightarrow> u64 \<Rightarrow> ustate \<Rightarrow> ((int \<times> nvm_ctrl_info option) \<times> ustate) option" where
  "nvm_admin_ctrl_info api r info mptr ioaddr s =
     (if info = None \<or> mptr = 0 \<or> ioaddr = 0 then Some ((NVM_ERR_PACK None EINVAL, info), s)
      else do {
        p \<leftarrow> nvm_ctrl_from_aq_ref r s;
        c \<leftarrow> u_ctrls s p;
        let ctrl = c_handle c;
        cap \<leftarrow> reg_cap api (mm_ptr ctrl);
        let info = zero_ctrl_info\<lparr>i_nvme_version := reg_ver api, i_page_size := page_size ctrl, i_db_stride := push_bit (unat (dstrd ctrl)) 1,
          i_timeout := CAP_TO cap * 500, i_contiguous := (CAP_CQR cap \<noteq> 0), i_max_entries := ucast (CAP_MQES cap) + 1\<rparr>;
        ((err, cpl), s) \<leftarrow> nvm_raw_rpc api r (admin_identify_ctrl zero_cmd ioaddr) zero_cpl s;
        if \<not> nvm_ok err then Some ((err, Some info), s)
        else do {
          info \<leftarrow> parse_ctrl cap (dma_bytes api (rpc_history r s) ioaddr) info;
          Some ((NVM_ERR_PACK None 0, Some info), s) } })"

definition parse_ns :: "u8 list \<Rightarrow> nvm_ns_info \<Rightarrow> nvm_ns_info option" where
  "parse_ns bytes info = do {
     sz \<leftarrow> mem_le bytes 0 8;
     cap \<leftarrow> mem_le bytes 8 8;
     util \<leftarrow> mem_le bytes 16 8;
     flbas \<leftarrow> arr_get bytes 26;
     let format_idx = RB (ucast flbas) 3 0;
     lba_format \<leftarrow> mem_le bytes (128 + 4 * unat format_idx) 4;
     ds \<leftarrow> shl_int (RB lba_format 23 16);
     Some (info\<lparr>n_size := sz, n_capacity := cap, n_utilization := util, n_lba_data_size := ds, n_metadata_size := RB lba_format 15 0\<rparr>) }"

definition nvm_admin_ns_info ::
  "ustate uapi \<Rightarrow> ptr \<Rightarrow> nvm_ns_info option \<Rightarrow> u32 \<Rightarrow> u64 \<Rightarrow> u64 \<Rightarrow> ustate \<Rightarrow> ((int \<times> nvm_ns_info option) \<times> ustate) option" where
  "nvm_admin_ns_info api r info ns_id mptr ioaddr s =
     (if info = None \<or> mptr = 0 \<or> ioaddr = 0 then Some ((NVM_ERR_PACK None EINVAL, info), s)
      else do {
        let info = zero_ns_info\<lparr>n_ns_id := ns_id\<rparr>;
        ((err, cpl), s) \<leftarrow> nvm_raw_rpc api r (admin_identify_ns zero_cmd ns_id ioaddr) zero_cpl s;
        if \<not> nvm_ok err then Some ((err, Some info), s)
        else do {
          info \<leftarrow> parse_ns (dma_bytes api (rpc_history r s) ioaddr) info;
          Some ((NVM_ERR_PACK None 0, Some info), s) } })"

definition nvm_admin_get_log_page :: "ustate uapi \<Rightarrow> ptr \<Rightarrow> u32 \<Rightarrow> u64 \<Rightarrow> u8 \<Rightarrow> u64 \<Rightarrow> ustate \<Rightarrow> (int \<times> ustate) option" where
  "nvm_admin_get_log_page api r ns_id ioaddr log_id log_offset s = do {
     ((err, cpl), s) \<leftarrow> nvm_raw_rpc api r (admin_get_log_page zero_cmd ns_id ioaddr log_id log_offset) zero_cpl s;
     if \<not> nvm_ok err then Some (err, s) else Some (NVM_ERR_PACK None 0, s) }"

section \<open>Queues\<close>

definition NVM_DMA_OFFSET :: "nvm_dma \<Rightarrow> u64 \<Rightarrow> u64" where
  "NVM_DMA_OFFSET dma pageno = NVM_ADDR_OFFSET (dma_vaddr dma) (dma_page_size dma) pageno"

text \<open>\<open>Inr\<close> is the queue that is copied to the caller.\<close>

definition nvm_admin_cq_create ::
  "ustate uapi \<Rightarrow> ptr \<Rightarrow> u16 \<Rightarrow> ptr \<Rightarrow> u64 \<Rightarrow> u64 \<Rightarrow> bool \<Rightarrow> ustate \<Rightarrow> ((int + nvm_queue) \<times> ustate) option" where
  "nvm_admin_cq_create api r no dma offset n need_prp s =
     (if no = 0 then Some (Inl (NVM_ERR_PACK None EINVAL), s)
      else do {
        p \<leftarrow> nvm_ctrl_from_aq_ref r s;
        if p = NULL then Some (Inl (NVM_ERR_PACK None ENOTTY), s)
        else do {
          c \<leftarrow> u_ctrls s p;
          d \<leftarrow> u_dmas s dma;
          let ctrl = c_handle c;
          let h = dc_handle d;
          let n = (if n = 0 then min (dma_page_size h div 16) (ucast (max_qs ctrl)) else n);
          if n < 2 \<or> n > 0x10000 \<or> n > ucast (max_qs ctrl) then Some (Inl (NVM_ERR_PACK None EINVAL), s)
          else if page_size ctrl = 0 then None
          else
            let n_pages = NVM_CQ_PAGES (page_size ctrl) n in
            if dma_vaddr h = 0 then Some (Inl (NVM_ERR_PACK None EINVAL), s)
            else if n_pages = 0 \<or> n_pages > dma_n_ioaddrs h \<or> offset > dma_n_ioaddrs h \<or> offset + n_pages > dma_n_ioaddrs h
            then Some (Inl (NVM_ERR_PACK None EINVAL), s)
            else do {
              ioaddr \<leftarrow> arr_get (dma_ioaddrs h) (unat offset);
              let (err, queue) = nvm_queue_clear (junk_queue api) ctrl True no (ucast n) (dma_local h) (NVM_DMA_OFFSET h offset) ioaddr;
              if err \<noteq> 0 then Some (Inl (NVM_ERR_PACK None err), s)
              else do {
                ((err, cpl), s) \<leftarrow> nvm_raw_rpc api r (admin_cq_create zero_cmd queue ioaddr need_prp) zero_cpl s;
                if \<not> nvm_ok err then Some (Inl err, s) else Some (Inr queue, s) } } } })"

definition nvm_admin_cq_delete :: "ustate uapi \<Rightarrow> ptr \<Rightarrow> nvm_queue \<Rightarrow> ustate \<Rightarrow> ((int \<times> nvm_queue) \<times> ustate) option" where
  "nvm_admin_cq_delete api r cqueue s =
     (if db cqueue = 0 then Some ((NVM_ERR_PACK None EINVAL, cqueue), s)
      else do {
        ((err, cpl), s) \<leftarrow> nvm_raw_rpc api r (admin_cq_delete zero_cmd cqueue) zero_cpl s;
        if \<not> nvm_ok err then Some ((err, cqueue), s)
        else Some ((NVM_ERR_PACK None 0, cqueue\<lparr>db := 0\<rparr>), s) })"

definition nvm_admin_sq_create ::
  "ustate uapi \<Rightarrow> ptr \<Rightarrow> nvm_queue \<Rightarrow> u16 \<Rightarrow> ptr \<Rightarrow> u64 \<Rightarrow> u64 \<Rightarrow> bool \<Rightarrow> ustate \<Rightarrow> ((int + nvm_queue) \<times> ustate) option" where
  "nvm_admin_sq_create api r cqueue no dma offset n need_prp s =
     (if no = 0 then Some (Inl (NVM_ERR_PACK None EINVAL), s)
      else do {
        p \<leftarrow> nvm_ctrl_from_aq_ref r s;
        if p = NULL then Some (Inl (NVM_ERR_PACK None ENOTTY), s)
        else do {
          c \<leftarrow> u_ctrls s p;
          d \<leftarrow> u_dmas s dma;
          let ctrl = c_handle c;
          let h = dc_handle d;
          let n = (if n = 0 then min (dma_page_size h div 64) (ucast (max_qs ctrl)) else n);
          if n < 2 \<or> n > 0x10000 \<or> n > ucast (max_qs ctrl) then Some (Inl (NVM_ERR_PACK None EINVAL), s)
          else if page_size ctrl = 0 then None
          else
            let n_pages = NVM_SQ_PAGES (page_size ctrl) n in
            if dma_vaddr h = 0 then Some (Inl (NVM_ERR_PACK None EINVAL), s)
            else if n_pages = 0 \<or> n_pages > dma_n_ioaddrs h \<or> offset > dma_n_ioaddrs h \<or> offset + n_pages > dma_n_ioaddrs h
            then Some (Inl (NVM_ERR_PACK None EINVAL), s)
            else do {
              ioaddr \<leftarrow> arr_get (dma_ioaddrs h) (unat offset);
              let (err, queue) = nvm_queue_clear (junk_queue api) ctrl False no (ucast n) (dma_local h) (NVM_DMA_OFFSET h offset) ioaddr;
              if err \<noteq> 0 then Some (Inl (NVM_ERR_PACK None err), s)
              else do {
                ((err, cpl), s) \<leftarrow> nvm_raw_rpc api r (admin_sq_create zero_cmd queue cqueue ioaddr need_prp) zero_cpl s;
                if \<not> nvm_ok err then Some (Inl err, s) else Some (Inr queue, s) } } } })"

definition nvm_admin_sq_delete :: "ustate uapi \<Rightarrow> ptr \<Rightarrow> nvm_queue \<Rightarrow> nvm_queue option \<Rightarrow> ustate \<Rightarrow> ((int \<times> nvm_queue) \<times> ustate) option" where
  "nvm_admin_sq_delete api r squeue cqueue s =
     (if (case cqueue of None \<Rightarrow> True | Some cqueue \<Rightarrow> db cqueue = 0) then Some ((NVM_ERR_PACK None EINVAL, squeue), s)
      else if db squeue = 0 then Some ((NVM_ERR_PACK None EINVAL, squeue), s)
      else do {
        ((err, cpl), s) \<leftarrow> nvm_raw_rpc api r (admin_sq_delete zero_cmd squeue) zero_cpl s;
        if \<not> nvm_ok err then Some ((err, squeue), s)
        else Some ((NVM_ERR_PACK None 0, squeue\<lparr>db := 0\<rparr>), s) })"

text \<open>\<open>Inr\<close> are the new values of \<open>n_cqs\<close> and \<open>n_sqs\<close>.\<close>

definition nvm_admin_get_num_queues :: "ustate uapi \<Rightarrow> ptr \<Rightarrow> ustate \<Rightarrow> ((int + u16 \<times> u16) \<times> ustate) option" where
  "nvm_admin_get_num_queues api r s = do {
     ((err, cpl), s) \<leftarrow> nvm_raw_rpc api r (admin_current_num_queues zero_cmd False 0 0) zero_cpl s;
     if \<not> nvm_ok err then Some (Inl err, s)
     else
       let n_sqs = (ucast (drop_bit 16 (cpl_dw0 cpl) + 1) :: u16);
           n_cqs = (ucast ((cpl_dw0 cpl AND 0xffff) + 1) :: u16)
       in Some (Inr (n_cqs, n_sqs), s) }"

definition nvm_admin_request_num_queues :: "ustate uapi \<Rightarrow> ptr \<Rightarrow> u16 \<Rightarrow> u16 \<Rightarrow> ustate \<Rightarrow> ((int + u16 \<times> u16) \<times> ustate) option" where
  "nvm_admin_request_num_queues api r n_cqs n_sqs s =
     (if n_cqs = 0 \<or> n_sqs = 0 then Some (Inl (NVM_ERR_PACK None EINVAL), s)
      else do {
        ((err, cpl), s) \<leftarrow> nvm_raw_rpc api r (admin_current_num_queues zero_cmd True n_cqs n_sqs) zero_cpl s;
        if err \<noteq> 0 then Some (Inl err, s)
        else
          let n_sqs = (ucast (drop_bit 16 (cpl_dw0 cpl) + 1) :: u16);
              n_cqs = (ucast ((cpl_dw0 cpl AND 0xffff) + 1) :: u16)
          in Some (Inr (n_cqs, n_sqs), s) })"

definition nvm_admin_set_num_queues :: "ustate uapi \<Rightarrow> ptr \<Rightarrow> u16 \<Rightarrow> u16 \<Rightarrow> ustate \<Rightarrow> (int \<times> ustate) option" where
  "nvm_admin_set_num_queues api r n_cqs n_sqs s = do {
     (x, s) \<leftarrow> nvm_admin_request_num_queues api r n_cqs n_sqs s;
     Some (case x of Inl e \<Rightarrow> e | Inr _ \<Rightarrow> NVM_ERR_PACK None 0, s) }"

end
