(* ===== verification/Lib_Own.thy ===== *)
theory Lib_Own
  imports Lib_Frame Lib_Admin
begin

text \<open>
  The operations of the library keep its invariant: creation hands the client a new reference,
  release takes one back, and neither ever faults.
\<close>

section \<open>Releasing an admin queue\<close>

lemma refs_okD:
  assumes "refs_ok W s" "u_refs s p = Some a"
  shows "u_ctrls s (ar_ctrl a) \<noteq> None" "ar_handles a = []" "u_admins s (ar_data a) \<noteq> None" "ar_stub a = Some Execute_command"
    "ar_release a = Some Remove_admin" "W p = 1"
  using assms unfolding refs_ok_def by blast+

lemma admins_okD:
  assumes "admins_ok api W s" "u_admins s p = Some a"
  shows "u_dmas s (la_qmem a) \<noteq> None" "refs (u_refs s) ar_data p + W p = 1" "admin_ok api (la_qp a)"
  using assms unfolding admins_ok_def by blast+

text \<open>The reference and its admin queue are gone, the queue memory and the controller are the client's.\<close>

definition ref_gone :: "ptr \<Rightarrow> ptr \<Rightarrow> ustate \<Rightarrow> ustate" where
  "ref_gone r ad s = hide (\<lambda>p. p \<noteq> ad \<and> p \<noteq> r) ((u_admins s)(ad := None)) ((u_refs s)(r := None)) s"

lemma ref_gone_inv:
  assumes I: "lib_inv api W B s" and r: "u_refs s r = Some a" "u_admins s (ar_data a) = Some l"
  shows "lib_inv api (W(r := 0, la_qmem l := 1, ar_ctrl a := Suc (W (ar_ctrl a)))) B (ref_gone r (ar_data a) s)" "W (la_qmem l) = 0"
    "la_qmem l \<noteq> r" "ar_ctrl a \<noteq> r" "la_qmem l \<noteq> ar_ctrl a" "ar_data a \<noteq> r"
proof -
  let ?ad = "ar_data a" and ?q = "la_qmem l" and ?c = "ar_ctrl a"
  let ?W = "W(r := 0, ?q := 1, ?c := Suc (W ?c))" and ?s = "ref_gone r ?ad s"
  note D = lib_invD [OF I]
  note RD = refs_okD [OF D(8) r(1)] and AD = admins_okD [OF D(7) r(2)]
  from AD(1) obtain x where x: "u_dmas s ?q = Some x" by blast
  from RD(1) obtain c where c: "u_ctrls s ?c = Some c" by blast
  note X = ref_excl [OF D(1) r(1)] and Y = admin_excl [OF D(1) r(2)] and Z = dma_excl [OF D(1) x] and C = ctrl_excl [OF D(1) c] and F = heap_finite [OF D(1)]
  show ne: "?q \<noteq> r" "?c \<noteq> r" "?q \<noteq> ?c" "?ad \<noteq> r" using X Y Z C r x c by auto
  have ne': "?ad \<noteq> ?q" "?ad \<noteq> ?c" using Y x c by auto
  have "0 < refs (u_refs s) ar_data ?ad" using refs_pos [OF F(7) r(1), of ar_data] .
  then have one: "refs (u_refs s) ar_data ?ad = 1" "W ?ad = 0" using AD(2) by simp_all
  have "0 < refs (u_admins s) la_qmem ?q" using refs_pos [OF F(6) r(2), of la_qmem] .
  then have one': "refs (u_admins s) la_qmem ?q = 1" and Wq: "W ?q = 0" using dmas_okD(5) [OF D(6) x] by simp_all
  show "W ?q = 0" by (rule Wq)
  have other_ref: "ar_data b \<noteq> ?ad" if "u_refs s p = Some b" "p \<noteq> r" for p b using refs_unique [OF one(1) that(1) _ r(1)] that(2) by blast
  have rr: "refs ((u_refs s)(r := None)) f p = refs (u_refs s) f p - (if f a = p then 1 else 0)" for f :: "admin_ref \<Rightarrow> ptr" and p using refs_drop [OF F(7) r(1), of f p] .
  have ra: "refs ((u_admins s)(?ad := None)) la_qmem p = refs (u_admins s) la_qmem p - (if ?q = p then 1 else 0)" for p using refs_drop [OF F(6) r(2), of la_qmem p] .
  have sel: "u_admins ?s = (u_admins s)(?ad := None)" "u_refs ?s = (u_refs s)(r := None)" "u_live ?s = filter (\<lambda>e. fst e \<noteq> ?ad \<and> fst e \<noteq> r) (u_live s)"
    "u_devs ?s = u_devs s" "u_ctrls ?s = u_ctrls s" "u_vas ?s = u_vas s" "u_maps ?s = u_maps s" "u_dmas ?s = u_dmas s" "u_bufs ?s = u_bufs s" "u_calls ?s = u_calls s"
    by (simp_all add: ref_gone_def hide_def)
  show "lib_inv api ?W B ?s"
  proof (rule lib_invI)
    have h1: "heap_ok (unlive ?ad (s\<lparr>u_admins := (u_admins s)(?ad := None)\<rparr>))" (is "heap_ok ?s1") by (rule heap_drop(6) [OF D(1)]) (simp add: r)
    have h2: "heap_ok (unlive r (?s1\<lparr>u_refs := (u_refs ?s1)(r := None)\<rparr>))" by (rule heap_drop(7) [OF h1]) (simp add: r unlive_def)
    show "heap_ok ?s" by (rule heap_same [OF h2]) (simp add: sel unlive_def conj_commute, case_tac k, auto simp: sel unlive_def)
    show "ctrls_ok api ?W ?s" unfolding ctrls_ok_def
    proof (intro allI impI)
      fix p c' assume "u_ctrls ?s p = Some c'"
      then have p: "u_ctrls s p = Some c'" by (simp add: sel)
      have "p \<noteq> r" "p \<noteq> ?q" using X Z p by auto
      moreover have "0 < refs (u_refs s) ar_ctrl ?c" using refs_pos [OF F(7) r(1), of ar_ctrl] .
      ultimately show "unat (c_count c') = refs (u_maps ?s) dm_ctrl p + refs (u_refs ?s) ar_ctrl p + ?W p \<and> c_count c' \<noteq> 0 \<and>
         handle_ok api (c_handle c') \<and> bound_ok (u_devs ?s) c'"
        using ctrls_okD [OF D(2) p] rr [of ar_ctrl p] by (simp add: sel)
    qed
    show "devs_ok ?s" by (rule devs_ok_cong [OF D(3)]) (simp_all add: sel)
    show "maps_ok ?W ?s" by (rule maps_ok_cong [OF D(4)]) (use X Z C in \<open>simp_all add: sel\<close>)
    show "vas_ok ?s" by (rule vas_ok_cong [OF D(5)]) (simp_all add: sel)
    show "dmas_ok api ?W ?s" unfolding dmas_ok_def
    proof (intro allI impI)
      fix p d assume "u_dmas ?s p = Some d"
      then have p: "u_dmas s p = Some d" by (simp add: sel)
      have "p \<noteq> r" "p \<noteq> ?c" using X C p by auto
      then show "u_maps ?s (dc_map d) \<noteq> None \<and> dma_page_size (dc_handle d) = sc_pagesize api \<and>
        length (dma_ioaddrs (dc_handle d)) = unat (dma_n_ioaddrs (dc_handle d)) \<and>
        unat (dma_n_ioaddrs (dc_handle d)) * unat (sc_pagesize api) < 2 ^ 64 \<and> refs (u_admins ?s) la_qmem p + ?W p = 1"
        using dmas_okD [OF D(6) p] ra [of p] one' Wq by (cases "p = ?q") (auto simp: sel)
    qed
    show "admins_ok api ?W ?s" unfolding admins_ok_def
    proof (intro allI impI)
      fix p b assume "u_admins ?s p = Some b"
      then have p: "p \<noteq> ?ad" "u_admins s p = Some b" by (auto simp: sel split: if_splits)
      have "p \<noteq> r" "p \<noteq> ?q" "p \<noteq> ?c" using X Z C p(2) by auto
      then show "u_dmas ?s (la_qmem b) \<noteq> None \<and> refs (u_refs ?s) ar_data p + ?W p = 1 \<and> admin_ok api (la_qp b)"
        using admins_okD [OF D(7) p(2)] rr [of ar_data p] p(1) by (simp add: sel)
    qed
    show "refs_ok ?W ?s" unfolding refs_ok_def
    proof (intro allI impI)
      fix p b assume "u_refs ?s p = Some b"
      then have p: "p \<noteq> r" "u_refs s p = Some b" by (auto simp: sel split: if_splits)
      have "p \<noteq> ?q" "p \<noteq> ?c" using Z C p(2) by auto
      then show "u_ctrls ?s (ar_ctrl b) \<noteq> None \<and> ar_handles b = [] \<and> u_admins ?s (ar_data b) \<noteq> None \<and> ar_stub b = Some Execute_command \<and>
        ar_release b = Some Remove_admin \<and> ?W p = 1"
        using refs_okD [OF D(8) p(2)] other_ref [OF p(2,1)] p(1) by (simp add: sel)
    qed
    show "bufs_ok B ?s" by (rule bufs_ok_cong [OF D(9)]) (simp_all add: sel)
    show "log_ok ?s" by (rule log_ok_cong [OF D(10)]) (simp_all add: sel)
    show "owns_ok ?W ?s" using D(11) one(2) x c unfolding owns_ok_def by (auto simp: sel split: if_splits)
  qed
qed

lemma ref_put_inv:
  assumes I: "lib_inv api W B s" and r: "u_refs s r = Some a"
  obtains s' l where "nvm_ref_put r s = Some s'" "lib_inv api (W(r := 0)) B s'" "keeps (W(r := 0)) s s'" "u_admins s (ar_data a) = Some l"
    "u_dmas s' = (u_dmas s)(la_qmem l := None) \<and> u_refs s' = (u_refs s)(r := None)" "W (la_qmem l) = 0"
proof -
  note D = lib_invD [OF I]
  note RD = refs_okD [OF D(8) r]
  from RD(3) obtain l where l: "u_admins s (ar_data a) = Some l" by blast
  from RD(1) obtain c where c: "u_ctrls s (ar_ctrl a) = Some c" by blast
  from admins_okD(1) [OF D(7) l] obtain x where x: "u_dmas s (la_qmem l) = Some x" by blast
  let ?ad = "ar_data a" and ?q = "la_qmem l" and ?c = "ar_ctrl a"
  let ?s0 = "ref_gone r ?ad s" and ?W = "W(r := 0, ?q := 1, ?c := Suc (W ?c))"
  note G = ref_gone_inv [OF I r l]
  have "u_dmas ?s0 ?q = Some x" "?W ?q = 1" using x G(5) by (simp_all add: ref_gone_def)
  from dma_unmap_inv [OF G(1) this] obtain s1 where
    s1: "nvm_dma_unmap ?q ?s0 = Some s1" "lib_inv api (?W(?q := 0)) B s1" "keeps (?W(?q := 0)) ?s0 s1" "u_dmas s1 = (u_dmas ?s0)(?q := None) \<and> u_refs s1 = u_refs ?s0" by metis
  from framedD [OF framed_dma_unmap s1(1) [unfolded ref_gone_def]] obtain t1 where
    t1: "nvm_dma_unmap ?q s = Some t1" "s1 = hide (\<lambda>p. p \<noteq> ?ad \<and> p \<noteq> r) ((u_admins s)(?ad := None)) ((u_refs s)(r := None)) t1"
      "kept (\<lambda>p. p \<noteq> ?ad \<and> p \<noteq> r) s t1" by blast
  have la: "(?ad, K_admin) \<in> set (u_live t1)" "(r, K_ref) \<in> set (u_live t1)"
    using t1(3) heap_live(6) [OF D(1) l] heap_live(7) [OF D(1) r] by (auto simp: kept_def)
  let ?t2 = "t1\<lparr>u_live := filter (\<lambda>e. fst e \<noteq> ?ad) (u_live t1), u_admins := (u_admins s)(?ad := None)\<rparr>"
  have rem: "remove_admin ?ad s = Some ?t2"
    using l t1(1,3) heap_nonnull(6) [OF D(1) l] heap_fst [OF la(1)] by (simp add: remove_admin_def free_mem_def kept_def)
  have hid: "s1 = hide (\<lambda>p. p \<noteq> r) ((u_admins s)(?ad := None)) ((u_refs s)(r := None)) ?t2"
    unfolding t1(2) hide_def by simp
  have "?W ?c \<noteq> 0" "u_ctrls ?s0 ?c = Some c" using c by (simp_all add: ref_gone_def)
  with s1(3) G(5) obtain c1 where c1: "u_ctrls s1 ?c = Some c1" unfolding keeps_def by (metis fun_upd_other)
  have "(?W(?q := 0)) ?c = Suc (W ?c)" using G(5) by simp
  from ctrl_put_inv [OF s1(2) c1 this] obtain s2 where
    s2: "nvm_ctrl_put ?c s1 = Some s2" "lib_inv api (?W(?q := 0, ?c := W ?c)) B s2" "keeps (?W(?q := 0, ?c := W ?c)) s1 s2"
      "u_dmas s2 = u_dmas s1 \<and> u_refs s2 = u_refs s1" by metis
  have W2: "?W(?q := 0, ?c := W ?c) = W(r := 0)" using G(2-5) by auto
  from framedD [OF framed_ctrl_put s2(1) [unfolded hid]] obtain t3 where
    t3: "nvm_ctrl_put ?c ?t2 = Some t3" "s2 = hide (\<lambda>p. p \<noteq> r) ((u_admins s)(?ad := None)) ((u_refs s)(r := None)) t3" "kept (\<lambda>p. p \<noteq> r) ?t2 t3" by blast
  have "r \<in> fst ` set (u_live t3)" "u_refs t3 = u_refs s" "u_admins t3 = (u_admins s)(?ad := None)"
    using t3(3) t1(3) la(2) G(6) by (force simp: kept_def)+
  then have last: "free_mem r (t3\<lparr>u_refs := (u_refs t3)(r := None)\<rparr>) = Some s2"
    unfolding t3(2) by (simp add: free_mem_def hide_def)
  have "release_handles r s = Some s"
    using r RD(2) heap_nonnull(7) [OF D(1) r] by (simp add: release_handles_def fun_upd_idem)
  then have "nvm_ref_put r s = Some s2"
    using r RD(5) rem t3(1) last heap_nonnull(7) [OF D(1) r] by (simp add: nvm_ref_put_def)
  moreover have "keeps (W(r := 0)) s s2"
  proof -
    have "keeps (?W(?q := 0)) s s1" using s1(3) by (simp add: keeps_def ref_gone_def)
    then show ?thesis by (rule keeps_trans [OF _ s2(3) [unfolded W2]]) (use G(2) in \<open>auto split: if_splits\<close>)
  qed
  ultimately show thesis using s2(2) [unfolded W2] l s2(4) s1(4) G(2) by (intro that [of s2 l]) (simp_all add: ref_gone_def hide_def)
qed

section \<open>Bounds on reference counts\<close>

lemma heap_card:
  assumes "heap_ok s"
  shows "card (dom (u_maps s)) + card (dom (u_refs s)) \<le> length (u_live s)" "card (dom (u_dmas s)) \<le> length (u_live s)"
proof -
  have t: "dom (u_maps s) \<union> dom (u_refs s) \<subseteq> fst ` set (u_live s)" "dom (u_dmas s) \<subseteq> fst ` set (u_live s)"
    using heap_typed [OF assms] by (auto simp: typed_def)
  have l: "card (fst ` set (u_live s)) \<le> length (u_live s)" by (metis card_length length_map list.set_map)
  have "dom (u_maps s) \<inter> dom (u_refs s) = {}" using map_excl [OF assms] by (auto simp: dom_def)
  then have "card (dom (u_maps s)) + card (dom (u_refs s)) = card (dom (u_maps s) \<union> dom (u_refs s))"
    using heap_finite [OF assms] by (simp add: card_Un_disjoint)
  also have "\<dots> \<le> card (fst ` set (u_live s))" using t(1) by (intro card_mono) simp_all
  finally show "card (dom (u_maps s)) + card (dom (u_refs s)) \<le> length (u_live s)" using l by simp
  have "card (dom (u_dmas s)) \<le> card (fst ` set (u_live s))" using t(2) by (intro card_mono) simp_all
  then show "card (dom (u_dmas s)) \<le> length (u_live s)" using l by simp
qed

lemma ctrl_count_inc:
  assumes "lib_inv api W B s" "u_ctrls s p = Some c" "length (u_live s) + 2 < 2 ^ 32" "W p \<le> 1"
  shows "unat (c_count c + 1) = unat (c_count c) + 1" "c_count c + 1 \<noteq> 0"
proof -
  note D = lib_invD [OF assms(1)]
  have "unat (c_count c) \<le> length (u_live s) + 1"
    using ctrls_okD(1) [OF D(2) assms(2)] refs_le [OF heap_finite(4) [OF D(1)], of dm_ctrl p] refs_le [OF heap_finite(7) [OF D(1)], of ar_ctrl p]
      heap_card(1) [OF D(1)] assms(4) by linarith
  then have "unat (c_count c) + 1 < 2 ^ 32" using assms(3) by linarith
  then show n: "unat (c_count c + 1) = unat (c_count c) + 1" by (simp add: unat_word_ariths)
  show "c_count c + 1 \<noteq> 0" using n by (metis Zero_not_Suc Suc_eq_plus1 unat_0)
qed

lemma map_count_inc:
  assumes "lib_inv api W B s" "u_maps s p = Some m" "length (u_live s) + 2 < 2 ^ 32" "W p \<le> 1"
  shows "unat (dm_count m + 1) = unat (dm_count m) + 1" "dm_count m + 1 \<noteq> 0"
proof -
  note D = lib_invD [OF assms(1)]
  from maps_okE [OF D(4) assms(2)] have "unat (dm_count m) = refs (u_dmas s) dc_map p + W p" by metis
  then have "unat (dm_count m) + 1 < 2 ^ 32"
    using refs_le [OF heap_finite(5) [OF D(1)], of dc_map p] heap_card(2) [OF D(1)] assms(3,4) by linarith
  then show n: "unat (dm_count m + 1) = unat (dm_count m) + 1" by (simp add: unat_word_ariths)
  show "dm_count m + 1 \<noteq> 0" using n by (metis Zero_not_Suc Suc_eq_plus1 unat_0)
qed

text \<open>Nothing refers to an address that holds no object.\<close>

lemma no_dma_of: "lib_inv api W B s \<Longrightarrow> u_maps s m = None \<Longrightarrow> refs (u_dmas s) dc_map m = 0"
  unfolding refs_zero [OF heap_finite(5) [OF lib_invD(1)]] using dmas_okD(1) [OF lib_invD(6)] by metis

lemma no_map_of: "lib_inv api W B s \<Longrightarrow> u_vas s v = None \<Longrightarrow> refs (u_maps s) dm_va v = 0"
  unfolding refs_zero [OF heap_finite(4) [OF lib_invD(1)]] using maps_okE [OF lib_invD(4)] by (metis option.distinct(1))

lemma no_admin_of: "lib_inv api W B s \<Longrightarrow> u_dmas s d = None \<Longrightarrow> refs (u_admins s) la_qmem d = 0"
  unfolding refs_zero [OF heap_finite(6) [OF lib_invD(1)]] using admins_okD(1) [OF lib_invD(7)] by metis

lemma no_ref_of: "lib_inv api W B s \<Longrightarrow> u_admins s a = None \<Longrightarrow> refs (u_refs s) ar_data a = 0"
  unfolding refs_zero [OF heap_finite(7) [OF lib_invD(1)]] using refs_okD(3) [OF lib_invD(8)] by metis

section \<open>New mappings\<close>

definition handle_fits :: "ustate uapi \<Rightarrow> nvm_dma \<Rightarrow> bool" where
  "handle_fits api h \<longleftrightarrow> dma_page_size h = sc_pagesize api \<and> length (dma_ioaddrs h) = unat (dma_n_ioaddrs h) \<and>
     unat (dma_n_ioaddrs h) * unat (sc_pagesize api) < 2 ^ 64"

definition map_calls :: "va_object \<Rightarrow> ucall list" where
  "map_calls v = (case map_buf v of None \<Rightarrow> [] | Some b \<Rightarrow> [U_map b])"

definition range_added :: "ptr \<Rightarrow> controller \<Rightarrow> ptr \<Rightarrow> va_object \<Rightarrow> ptr \<Rightarrow> dma_desc \<Rightarrow> ptr \<Rightarrow> dma_container \<Rightarrow> ustate \<Rightarrow> ustate" where
  "range_added ctrl c v obj m md d x s = s\<lparr>u_live := (d, K_dma) # (m, K_map) # (v, K_va) # u_live s,
     u_ctrls := (u_ctrls s)(ctrl \<mapsto> c\<lparr>c_count := c_count c + 1\<rparr>), u_vas := (u_vas s)(v \<mapsto> obj), u_maps := (u_maps s)(m \<mapsto> md),
     u_dmas := (u_dmas s)(d \<mapsto> x), u_calls := u_calls s @ map_calls obj\<rparr>"

lemma range_added_inv:
  assumes I: "lib_inv api W B s" and c: "u_ctrls s ctrl = Some c" "length (u_live s) + 2 < 2 ^ 32" "W ctrl \<le> 1"
    and f: "v \<noteq> NULL" "m \<noteq> NULL" "d \<noteq> NULL" "distinct [v, m, d]" "{v, m, d} \<inter> fst ` set (u_live s) = {}"
    and md: "dm_count md = 1" "dm_ctrl md = ctrl" "dm_va md = v" "va_fits md c obj"
    and x: "dc_map x = m" "handle_fits api (dc_handle x)" and b: "\<And>b. api_buf obj = Some b \<Longrightarrow> b \<in> B"
  shows "lib_inv api (W(d := 1)) (B - set_option (api_buf obj)) (range_added ctrl c v obj m md d x s)"
proof -
  let ?W = "W(d := 1)" and ?s = "range_added ctrl c v obj m md d x s" and ?c = "c\<lparr>c_count := c_count c + 1\<rparr>"
  note D = lib_invD [OF I]
  note F = heap_finite [OF D(1)] and fr = typed_fresh [OF heap_typed [OF D(1)]] and C = ctrls_okD [OF D(2) c(1)]
  have fv: "v \<notin> fst ` set (u_live s)" and fm: "m \<notin> fst ` set (u_live s)" and fd: "d \<notin> fst ` set (u_live s)" using f(5) by auto
  note V = fr [OF fv] and M = fr [OF fm] and DD = fr [OF fd]
  have w: "W v = 0" "W m = 0" "W d = 0" using owns_fresh [OF D(11,1)] fv fm fd by auto
  have ne: "ctrl \<noteq> v" "ctrl \<noteq> m" "ctrl \<noteq> d" "v \<noteq> m" "v \<noteq> d" "m \<noteq> d" using c(1) V M DD f(4) by auto
  have rmc: "refs ((u_maps s)(m \<mapsto> md)) dm_ctrl p = refs (u_maps s) dm_ctrl p + (if ctrl = p then 1 else 0)" for p
    using refs_new [OF F(4) M(4), of md dm_ctrl p] md(2) by simp
  have rmv: "refs ((u_maps s)(m \<mapsto> md)) dm_va p = refs (u_maps s) dm_va p + (if v = p then 1 else 0)" for p
    using refs_new [OF F(4) M(4), of md dm_va p] md(3) by simp
  have rd: "refs ((u_dmas s)(d \<mapsto> x)) dc_map p = refs (u_dmas s) dc_map p + (if m = p then 1 else 0)" for p
    using refs_new [OF F(5) DD(5), of x dc_map p] x(1) by simp
  have rv: "refs ((u_vas s)(v \<mapsto> obj)) g y = refs (u_vas s) g y + (if g obj = y then 1 else 0)" for g :: "va_object \<Rightarrow> u64 option" and y
    using refs_new [OF F(3) V(3), of obj g y] .
  have rc: "refs ((u_ctrls s)(ctrl \<mapsto> ?c)) c_device p = refs (u_ctrls s) c_device p" "refs ((u_ctrls s)(ctrl \<mapsto> ?c)) mm_of y = refs (u_ctrls s) mm_of y" for p y
    using refs_same [of "u_ctrls s" ctrl c c_device ?c p] refs_same [of "u_ctrls s" ctrl c mm_of ?c y] c(1) by (simp_all add: mm_of_def)
  have none: "refs (u_dmas s) dc_map m = 0" "refs (u_maps s) dm_va v = 0" "refs (u_admins s) la_qmem d = 0"
    using no_dma_of [OF I M(4)] no_map_of [OF I V(3)] no_admin_of [OF I DD(5)] .
  show ?thesis
  proof (rule lib_invI)
    have h1: "heap_ok (added_va v obj s)" using heap_add(3) [OF D(1) f(1) fv] .
    have h2: "heap_ok ((added_va v obj s)\<lparr>u_live := (m, K_map) # u_live (added_va v obj s), u_maps := (u_maps (added_va v obj s))(m \<mapsto> md)\<rparr>)" (is "heap_ok ?s2")
      by (rule heap_add(5) [OF h1 f(2)]) (use fm ne in \<open>auto simp: added_va_def\<close>)
    have h3: "heap_ok (added_dma d x ?s2)" by (rule heap_add(4) [OF h2 f(3)]) (use fd ne in \<open>auto simp: added_va_def\<close>)
    show "heap_ok ?s" by (rule heap_same [OF h3]) (simp add: range_added_def added_va_def added_dma_def, case_tac k,
        auto simp: range_added_def added_va_def added_dma_def c(1))
    show "ctrls_ok api ?W ?s" unfolding ctrls_ok_def
    proof (intro allI impI)
      fix p c' assume "u_ctrls ?s p = Some c'"
      then consider "p = ctrl" "c' = ?c" | "p \<noteq> ctrl" "u_ctrls s p = Some c'" by (auto simp: range_added_def split: if_splits)
      then show "unat (c_count c') = refs (u_maps ?s) dm_ctrl p + refs (u_refs ?s) ar_ctrl p + ?W p \<and> c_count c' \<noteq> 0 \<and>
         handle_ok api (c_handle c') \<and> bound_ok (u_devs ?s) c'"
      proof cases
        case 1
        then show ?thesis using C ctrl_count_inc [OF I c] ne rmc [of p] by (simp add: range_added_def bound_ok_def)
      next
        case 2
        then show ?thesis using ctrls_okD [OF D(2) 2(2)] DD rmc [of p] by (auto simp: range_added_def)
      qed
    qed
    show "devs_ok ?s" by (rule devs_ok_cong [OF D(3)]) (simp_all add: range_added_def rc)
    show "maps_ok ?W ?s" unfolding maps_ok_def
    proof (intro allI impI)
      fix p n assume "u_maps ?s p = Some n"
      then consider "p = m" "n = md" | "p \<noteq> m" "u_maps s p = Some n" by (auto simp: range_added_def split: if_splits)
      then show "unat (dm_count n) = refs (u_dmas ?s) dc_map p + ?W p \<and> dm_count n \<noteq> 0 \<and>
        (\<exists>c v. u_ctrls ?s (dm_ctrl n) = Some c \<and> u_vas ?s (dm_va n) = Some v \<and> va_fits n c v)"
      proof cases
        case 1
        then show ?thesis using md rd [of m] none(1) w ne by (simp add: range_added_def)
      next
        case 2
        from maps_okE [OF D(4) 2(2)] obtain c' v' where E: "unat (dm_count n) = refs (u_dmas s) dc_map p + W p" "dm_count n \<noteq> 0"
          "u_ctrls s (dm_ctrl n) = Some c'" "u_vas s (dm_va n) = Some v'" "va_fits n c' v'" .
        have "p \<noteq> d" "dm_va n \<noteq> v" using DD V 2(2) E(4) by auto
        moreover have "\<exists>c. u_ctrls ?s (dm_ctrl n) = Some c \<and> va_fits n c v'" using E(3,5) c(1) by (cases "dm_ctrl n = ctrl") (auto simp: range_added_def)
        ultimately show ?thesis using 2(1) E rd [of p] by (auto simp: range_added_def)
      qed
    qed
    show "vas_ok ?s" using D(5) rmv none(2) V(3) unfolding vas_ok_def by (auto simp: range_added_def split: if_splits)
    show "dmas_ok api ?W ?s" unfolding dmas_ok_def
    proof (intro allI impI)
      fix p y assume "u_dmas ?s p = Some y"
      then consider "p = d" "y = x" | "p \<noteq> d" "u_dmas s p = Some y" by (auto simp: range_added_def split: if_splits)
      then show "u_maps ?s (dc_map y) \<noteq> None \<and> dma_page_size (dc_handle y) = sc_pagesize api \<and>
        length (dma_ioaddrs (dc_handle y)) = unat (dma_n_ioaddrs (dc_handle y)) \<and>
        unat (dma_n_ioaddrs (dc_handle y)) * unat (sc_pagesize api) < 2 ^ 64 \<and> refs (u_admins ?s) la_qmem p + ?W p = 1"
      proof cases
        case 1
        then show ?thesis using x none(3) by (simp add: range_added_def handle_fits_def)
      next
        case 2
        then show ?thesis using dmas_okD [OF D(6) 2(2)] by (simp add: range_added_def)
      qed
    qed
    show "admins_ok api ?W ?s" by (rule admins_ok_cong [OF D(7)]) (use DD in \<open>simp_all add: range_added_def\<close>)
    show "refs_ok ?W ?s" by (rule refs_ok_cong [OF D(8)]) (use DD in \<open>simp_all add: range_added_def\<close>)
    show "bufs_ok (B - set_option (api_buf obj)) ?s" unfolding bufs_ok_def
    proof (intro conjI allI)
      fix y
      show "refs (u_vas ?s) api_buf (Some y) + (if y \<in> B - set_option (api_buf obj) then 1 else 0) = (if y \<in> set (u_bufs ?s) then 1 else 0)"
        using bufs_okD(3) [OF D(9), of y] b [of y] rv [of api_buf "Some y"] by (cases "api_buf obj = Some y") (auto simp: range_added_def split: if_splits)
    qed (use bufs_okD(1,2) [OF D(9)] in \<open>simp_all add: range_added_def\<close>)
    show "log_ok ?s" using D(10) rv [of map_buf] rc(2) unfolding log_ok_def
      by (cases "map_buf obj") (simp_all add: range_added_def map_calls_def)
    show "owns_ok ?W ?s" by (rule owns_ok_cong [OF D(11), of _ _ K_dma]) (auto simp: range_added_def split: if_splits)
  qed
qed

text \<open>Calls that undo each other do not matter, nor does their order.\<close>

definition neutral :: "ucall list \<Rightarrow> bool" where
  "neutral ks \<longleftrightarrow> (\<forall>fd. count_list ks (U_dup fd) = count_list ks (U_close fd)) \<and> (\<forall>mm n. count_list ks (U_mmap mm n) = count_list ks (U_munmap mm n)) \<and>
     (\<forall>b. count_list ks (U_map b) = count_list ks (U_unmap b)) \<and> (\<forall>fd. count_list ks (U_export_dmabuf fd) = count_list ks (U_close_dmabuf fd))"

lemma inv_calls:
  assumes "lib_inv api W B s" "neutral ks" "mset calls = mset (u_calls s) + mset ks"
  shows "lib_inv api W B (s\<lparr>u_calls := calls\<rparr>)"
proof -
  have "count_list calls x = count_list (u_calls s) x + count_list ks x" for x
    using arg_cong [OF assms(3), of "\<lambda>M. count M x"] by (simp add: count_mset)
  then have "log_ok (s\<lparr>u_calls := calls\<rparr>)" using lib_invD(10) [OF assms(1)] assms(2) by (simp add: log_ok_def neutral_def)
  moreover have "heap_ok (s\<lparr>u_calls := calls\<rparr>)" by (rule heap_same [OF lib_invD(1) [OF assms(1)]]) (simp, case_tac k, simp_all)
  ultimately show ?thesis using assms(1)
    by (simp add: lib_inv_def ctrls_ok_def devs_ok_def maps_ok_def vas_ok_def dmas_ok_def admins_ok_def refs_ok_def bufs_ok_def owns_ok_def)
qed

lemma inv_ulog: "lib_inv api W B s \<Longrightarrow> neutral ks \<Longrightarrow> lib_inv api W B (ulog ks s)"
  unfolding ulog_def by (rule inv_calls) simp_all

text \<open>The two outcomes of a mapping function.\<close>

lemma mapped_range:
  "mapped ctrl c v im m d addrs (added_va v (Mapping im) s) = range_added ctrl c v (Mapping im) m
     \<lparr>dm_count = 1, dm_ctrl = ctrl, dm_va = v, dm_release = Release_mapping_descriptor, dm_unmap = op_unmap (c_ops c)\<rparr> d
     \<lparr>dc_map = m, dc_handle = handle_of (blank_handle (im_range im)) (im_range im) (c_handle c) addrs\<rparr> s"
  by (simp add: mapped_def added_va_def added_dma_def added_map_def range_added_def ulog_def map_calls_def)

lemma handle_of_fits: "handle_ok api ctrl \<Longrightarrow> handle_fits api (handle_of h va ctrl addrs)"
  using n_ctrl_pages_le(2) [of ctrl "va_page_size va" "va_n_pages va"] by (simp add: handle_fits_def handle_ok_def)

lemma ctrl_of_inv:
  assumes I: "lib_inv api W B s" and c: "u_ctrls s ctrl = Some c"
  shows "ctrl_ready s ctrl c" "typed s" "op_map (c_ops c) \<noteq> None \<Longrightarrow> op_unmap (c_ops c) = Some Ioctl_unmap \<and> c_device c \<noteq> NULL"
proof -
  note D = lib_invD [OF I] and C = ctrls_okD [OF lib_invD(2) [OF I] c]
  show "typed s" by (rule heap_typed [OF D(1)])
  show "ctrl_ready s ctrl c" using C c heap_nonnull(2) [OF D(1) c]
    by (auto simp: ctrl_ready_def handle_ok_def bound_ok_def no_ops_def)
  show "op_map (c_ops c) \<noteq> None \<Longrightarrow> op_unmap (c_ops c) = Some Ioctl_unmap \<and> c_device c \<noteq> NULL"
    using C(4) heap_null [OF D(1)] by (cases "c_device c = NULL") (auto simp: bound_ok_def no_ops_def linux_ops_def)
qed

lemma map_result_inv:
  assumes I: "lib_inv api W B s" and c: "u_ctrls s ctrl = Some c" "W ctrl \<le> 1" and n: "neutral (pre @ post)"
    and r: "map_result es (ulog pre s) post ctrl c P res" and P: "\<And>im. P im \<Longrightarrow> im_type im = MAP_TYPE_API \<Longrightarrow> im_buffer im \<in> B"
  obtains e t where "res = Some (Inl e, t)" "e \<noteq> 0" "t \<in> es"
  | im d s' x addrs where "res = Some (Inr d, s')" "P im" "lib_inv api (W(d := 1)) (B - set_option (api_buf (Mapping im))) s'" "d \<noteq> NULL" "W d = 0"
    "u_dmas s d = None" "u_dmas s' = (u_dmas s)(d \<mapsto> x) \<and> u_admins s' = u_admins s \<and> u_refs s' = u_refs s" "keeps (\<lambda>_. 1) s s'"
    "dc_handle x = handle_of (blank_handle (im_range im)) (im_range im) (c_handle c) addrs" "whole_pages (c_handle c) (im_range im)"
    "length addrs = unat (va_n_pages (im_range im))"
proof -
  note fails = that(1) and works = that(2)
  note D = lib_invD [OF I]
  from r show thesis
  proof (rule map_resultE)
    fix e t assume "res = Some (Inl e, t)" "e \<noteq> 0" "t \<in> es"
    then show thesis by (rule fails)
  next
    fix v m d addrs and im :: ioctl_mapping
    let ?md = "\<lparr>dm_count = 1, dm_ctrl = ctrl, dm_va = v, dm_release = Release_mapping_descriptor, dm_unmap = op_unmap (c_ops c)\<rparr>"
    let ?x = "\<lparr>dc_map = m, dc_handle = handle_of (blank_handle (im_range im)) (im_range im) (c_handle c) addrs\<rparr>"
    let ?t = "range_added ctrl c v (Mapping im) m ?md d ?x s"
    assume A: "res = Some (Inr d, ulog post (mapped ctrl c v im m d addrs (added_va v (Mapping im) (ulog pre s))))" "P im"
      "v \<noteq> NULL" "m \<noteq> NULL" "d \<noteq> NULL" "distinct [v, m, d]" "{v, m, d} \<inter> fst ` set (u_live (ulog pre s)) = {}"
      "whole_pages (c_handle c) (im_range im)" "length addrs = unat (va_n_pages (im_range im))" "op_map (c_ops c) \<noteq> None" "length (u_live (ulog pre s)) + 2 < 2 ^ 32"
    have live: "u_live (ulog pre s) = u_live s" by (simp add: ulog_def)
    have "lib_inv api (W(d := 1)) (B - set_option (api_buf (Mapping im))) ?t"
      using ctrl_of_inv(3) [OF I c(1) A(10)] A(3-7,11) handle_of_fits [OF ctrls_okD(3) [OF D(2) c(1)]] P [OF A(2)]
      unfolding live by (intro range_added_inv [OF I c(1) _ c(2)]) (auto simp: va_fits_def split: if_splits)
    then have "lib_inv api (W(d := 1)) (B - set_option (api_buf (Mapping im))) (?t\<lparr>u_calls := u_calls s @ pre @ map_calls (Mapping im) @ post\<rparr>)"
      by (rule inv_calls [OF _ n]) (simp add: range_added_def)
    moreover have "ulog post (mapped ctrl c v im m d addrs (added_va v (Mapping im) (ulog pre s))) = ?t\<lparr>u_calls := u_calls s @ pre @ map_calls (Mapping im) @ post\<rparr>"
      unfolding mapped_range by (simp add: range_added_def ulog_def)
    moreover have "d \<notin> fst ` set (u_live s)" using A(7) by (auto simp: live)
    then have "u_dmas s d = None" "W d = 0" using typed_fresh [OF heap_typed [OF D(1)]] owns_fresh [OF D(11,1)] by auto
    ultimately show thesis using A(1,2,5,8,9) c(1)
      by (intro works [of d "?t\<lparr>u_calls := u_calls s @ pre @ map_calls (Mapping im) @ post\<rparr>" im ?x addrs]) (auto simp: range_added_def keeps_def)
  qed
qed

end
