(* ===== verification/Lib_Steps.thy ===== *)
theory Lib_Steps
  imports Lib_Own
begin

text \<open>
  Every operation of the library either fails, and then what the client owns is unchanged, or succeeds,
  and then the client owns what it asked for; in both cases the invariant of the library is kept.
\<close>

lemma n_ctrl_pages_whole:
  assumes "page_size ctrl \<noteq> 0"
  shows "n_ctrl_pages ctrl (page_size ctrl) (y div page_size ctrl) = y div page_size ctrl"
proof -
  have p: "unat (page_size ctrl) \<noteq> 0" using assms by (simp add: unat_eq_0)
  have "unat (page_size ctrl) * (unat y div unat (page_size ctrl)) \<le> unat y" by (rule times_div_less_eq_dividend)
  also have "\<dots> < 2 ^ 64" using unat_bound [of y] by simp
  finally have "unat (page_size ctrl) * (unat y div unat (page_size ctrl)) < 2 ^ 64" .
  then have "unat (page_size ctrl * (y div page_size ctrl)) = unat (page_size ctrl) * (unat y div unat (page_size ctrl))"
    by (simp add: unat_word_ariths(2) unat_div_distrib)
  then show ?thesis using p by (simp add: n_ctrl_pages_def word_unat_eq_iff unat_div_distrib)
qed

lemma neutral_Nil2: "neutral ([] @ [])"
  by (simp add: neutral_def)

lemma neutral_export: "neutral [U_export_dmabuf fd, U_close_dmabuf fd]" "neutral [U_dup fd, U_close fd]" "neutral [U_dup fd, U_mmap mm n, U_munmap mm n, U_close fd]"
  by (auto simp: neutral_def)

lemma map_host_inv:
  assumes os: "os_ok api" and I: "lib_inv api W B s" and c: "u_ctrls s ctrl = Some c" "W ctrl \<le> 1"
  obtains e where "nvm_dma_map_host api ctrl vaddr sz s = Some (Inl e, s)" "e \<noteq> 0"
  | d s' x where "nvm_dma_map_host api ctrl vaddr sz s = Some (Inr d, s')" "lib_inv api (W(d := 1)) B s'" "d \<noteq> NULL" "W d = 0" "u_dmas s d = None"
    "u_dmas s' = (u_dmas s)(d \<mapsto> x) \<and> u_admins s' = u_admins s \<and> u_refs s' = u_refs s" "keeps (\<lambda>_. 1) s s'" "dma_vaddr (dc_handle x) = vaddr"
    "dma_n_ioaddrs (dc_handle x) = NVM_PAGE_ALIGN (NVM_PAGE_ALIGN sz (sc_pagesize api)) (sc_pagesize api) div sc_pagesize api" "dma_n_ioaddrs (dc_handle x) \<noteq> 0"
proof -
  note fails = that(1) and works = that(2)
  have ps: "page_size (c_handle c) = sc_pagesize api" "sc_pagesize api \<noteq> 0"
    using ctrls_okD(3) [OF lib_invD(2) [OF I] c(1)] by (simp_all add: handle_ok_def)
  let ?P = "is_mapping MAP_TYPE_HOST (page_size (c_handle c)) vaddr (NVM_PAGE_ALIGN sz (page_size (c_handle c)))"
  have "map_result {s} (ulog [] s) [] ctrl c ?P (nvm_dma_map_host api ctrl vaddr sz s)"
    using nvm_dma_map_host_result [OF os ctrl_of_inv(1,2) [OF I c(1)]] by (simp add: ulog_def)
  from neutral_Nil2 this show thesis
  proof (rule map_result_inv [OF I c])
    fix e t assume "nvm_dma_map_host api ctrl vaddr sz s = Some (Inl e, t)" "e \<noteq> 0" "t \<in> {s}"
    then show thesis by (intro fails [of e]) simp_all
  next
    fix d s' x addrs and im :: ioctl_mapping
    assume A: "nvm_dma_map_host api ctrl vaddr sz s = Some (Inr d, s')" "?P im" "lib_inv api (W(d := 1)) (B - set_option (api_buf (Mapping im))) s'"
      "d \<noteq> NULL" "W d = 0" "u_dmas s d = None" "u_dmas s' = (u_dmas s)(d \<mapsto> x) \<and> u_admins s' = u_admins s \<and> u_refs s' = u_refs s" "keeps (\<lambda>_. 1) s s'"
      "dc_handle x = handle_of (blank_handle (im_range im)) (im_range im) (c_handle c) addrs" "whole_pages (c_handle c) (im_range im)"
    have n: "dma_n_ioaddrs (dc_handle x) = NVM_PAGE_ALIGN (NVM_PAGE_ALIGN sz (sc_pagesize api)) (sc_pagesize api) div sc_pagesize api"
      using A(2) n_ctrl_pages_whole [of "c_handle c"] ps by (simp add: A(9))
    moreover have "dma_n_ioaddrs (dc_handle x) \<noteq> 0" using A(2,10) n ps by (simp add: whole_pages_def)
    moreover have "lib_inv api (W(d := 1)) B s'" using A(2,3) by simp
    ultimately show thesis using A(2,9) by (intro works [OF A(1) _ A(4-8)]) simp_all
  qed simp_all
qed

lemma map_device_inv:
  assumes os: "os_ok api" and I: "lib_inv api W B s" and c: "u_ctrls s ctrl = Some c" "W ctrl \<le> 1"
  obtains e s' where "nvm_dma_map_device api ctrl devptr sz s = Some (Inl e, s')" "e \<noteq> 0" "lib_inv api W B s'"
    "u_dmas s' = u_dmas s \<and> u_admins s' = u_admins s \<and> u_refs s' = u_refs s" "keeps (\<lambda>_. 1) s s'"
  | d s' x where "nvm_dma_map_device api ctrl devptr sz s = Some (Inr d, s')" "lib_inv api (W(d := 1)) B s'" "d \<noteq> NULL" "W d = 0" "u_dmas s d = None"
    "u_dmas s' = (u_dmas s)(d \<mapsto> x) \<and> u_admins s' = u_admins s \<and> u_refs s' = u_refs s" "keeps (\<lambda>_. 1) s s'"
    "\<exists>ps\<in>{2 ^ 16, sc_pagesize api}. dma_n_ioaddrs (dc_handle x) = ps * (NVM_PAGE_ALIGN sz ps div ps) div sc_pagesize api"
proof -
  note fails = that(1) and works = that(2)
  let ?P = "\<lambda>im :: ioctl_mapping. im_type im \<in> {MAP_TYPE_CUDA, MAP_TYPE_DMABUF} \<and> im_buffer im = devptr \<and> va_vaddr (im_range im) = devptr \<and> \<not> va_remote (im_range im) \<and>
    va_page_size (im_range im) \<in> {2 ^ 16, sc_pagesize api} \<and> va_n_pages (im_range im) = NVM_PAGE_ALIGN sz (va_page_size (im_range im)) div va_page_size (im_range im)"
  from nvm_dma_map_device_result [OF os ctrl_of_inv(1,2) [OF I c(1)], of devptr sz] obtain pre post where
    pp: "pre = [] \<and> post = [] \<or> (\<exists>fd. pre = [U_export_dmabuf fd] \<and> post = [U_close_dmabuf fd])"
      and r: "map_result {s, ulog (pre @ post) s} (ulog pre s) post ctrl c ?P (nvm_dma_map_device api ctrl devptr sz s)" by (elim exE conjE) (rule that)
  have n: "neutral (pre @ post)" using pp by (auto simp: neutral_def)
  from n r show thesis
  proof (rule map_result_inv [OF I c])
    fix e t assume A: "nvm_dma_map_device api ctrl devptr sz s = Some (Inl e, t)" "e \<noteq> 0" "t \<in> {s, ulog (pre @ post) s}"
    then have "lib_inv api W B t" "u_dmas t = u_dmas s \<and> u_admins t = u_admins s \<and> u_refs t = u_refs s" "keeps (\<lambda>_. 1) s t"
      using I inv_ulog [OF I n] by (auto simp: ulog_def keeps_def)
    then show thesis by (rule fails [OF A(1,2)])
  next
    fix d s' x addrs and im :: ioctl_mapping
    assume A: "nvm_dma_map_device api ctrl devptr sz s = Some (Inr d, s')" "?P im" "lib_inv api (W(d := 1)) (B - set_option (api_buf (Mapping im))) s'"
      "d \<noteq> NULL" "W d = 0" "u_dmas s d = None" "u_dmas s' = (u_dmas s)(d \<mapsto> x) \<and> u_admins s' = u_admins s \<and> u_refs s' = u_refs s" "keeps (\<lambda>_. 1) s s'"
      "dc_handle x = handle_of (blank_handle (im_range im)) (im_range im) (c_handle c) addrs"
    have "page_size (c_handle c) = sc_pagesize api" using ctrls_okD(3) [OF lib_invD(2) [OF I] c(1)] by (simp add: handle_ok_def)
    then have "\<exists>ps\<in>{2 ^ 16, sc_pagesize api}. dma_n_ioaddrs (dc_handle x) = ps * (NVM_PAGE_ALIGN sz ps div ps) div sc_pagesize api"
      using A(2) by (intro bexI [of _ "va_page_size (im_range im)"]) (simp_all add: A(9) n_ctrl_pages_def)
    then show thesis using A(2,3) by (intro works [OF A(1) _ A(4-8)]) auto
  qed auto
qed

lemma inv_bufs:
  assumes I: "lib_inv api W B s" and b: "bufs_ok B' (s\<lparr>u_bufs := bs\<rparr>)"
  shows "lib_inv api W B' (s\<lparr>u_bufs := bs\<rparr>)"
proof -
  note D = lib_invD [OF I]
  have "heap_ok (s\<lparr>u_bufs := bs\<rparr>)" by (rule heap_same [OF D(1)]) (simp, case_tac k, simp_all)
  then show ?thesis using D(2-8,10,11) b
    by (simp add: lib_inv_def ctrls_ok_def devs_ok_def maps_ok_def vas_ok_def dmas_ok_def admins_ok_def refs_ok_def log_ok_def owns_ok_def)
qed

lemma inv_buf_add:
  assumes I: "lib_inv api W B s" and b: "b \<noteq> 0" "b \<notin> set (u_bufs s)"
  shows "b \<notin> B" "lib_inv api W (insert b B) (s\<lparr>u_bufs := b # u_bufs s\<rparr>)"
proof -
  note D = bufs_okD [OF lib_invD(9) [OF I]]
  show "b \<notin> B" using D(3) [of b] b(2) by (auto split: if_splits)
  have "bufs_ok (insert b B) (s\<lparr>u_bufs := b # u_bufs s\<rparr>)" unfolding bufs_ok_def
  proof (intro conjI allI)
    fix y show "refs (u_vas (s\<lparr>u_bufs := b # u_bufs s\<rparr>)) api_buf (Some y) + (if y \<in> insert b B then 1 else 0) =
      (if y \<in> set (u_bufs (s\<lparr>u_bufs := b # u_bufs s\<rparr>)) then 1 else 0)"
      using D(3) [of y] b by (auto split: if_splits)
  qed (use D b in simp_all)
  then show "lib_inv api W (insert b B) (s\<lparr>u_bufs := b # u_bufs s\<rparr>)" by (rule inv_bufs [OF I])
qed

lemma inv_buf_drop:
  assumes I: "lib_inv api W B s" and b: "b \<in> B"
  shows "b \<in> set (u_bufs s)" "lib_inv api W (B - {b}) (s\<lparr>u_bufs := remove1 b (u_bufs s)\<rparr>)"
proof -
  note D = bufs_okD [OF lib_invD(9) [OF I]]
  show "b \<in> set (u_bufs s)" using D(3) [of b] b by (auto split: if_splits)
  have "bufs_ok (B - {b}) (s\<lparr>u_bufs := remove1 b (u_bufs s)\<rparr>)" unfolding bufs_ok_def
  proof (intro conjI allI)
    fix y show "refs (u_vas (s\<lparr>u_bufs := remove1 b (u_bufs s)\<rparr>)) api_buf (Some y) + (if y \<in> B - {b} then 1 else 0) =
      (if y \<in> set (u_bufs (s\<lparr>u_bufs := remove1 b (u_bufs s)\<rparr>)) then 1 else 0)"
      using D(3) [of y] D(3) [of b] b by (cases "y = b") (simp_all add: set_remove1_eq [OF D(1)] split: if_splits)
  qed (use D in \<open>simp_all add: set_remove1_eq [OF D(1)]\<close>)
  then show "lib_inv api W (B - {b}) (s\<lparr>u_bufs := remove1 b (u_bufs s)\<rparr>)" by (rule inv_bufs [OF I])
qed

lemma dma_create_inv:
  assumes os: "os_ok api" and I: "lib_inv api W B s" and c: "u_ctrls s ctrl = Some c" "W ctrl \<le> 1"
  obtains e where "nvm_dma_create api ctrl sz s = Some (Inl e, s)" "e \<noteq> 0"
  | d s' x where "nvm_dma_create api ctrl sz s = Some (Inr d, s')" "lib_inv api (W(d := 1)) B s'" "d \<noteq> NULL" "W d = 0" "u_dmas s d = None"
    "u_dmas s' = (u_dmas s)(d \<mapsto> x) \<and> u_admins s' = u_admins s \<and> u_refs s' = u_refs s" "keeps (\<lambda>_. 1) s s'"
proof -
  note fails = that(1) and works = that(2)
  from nvm_dma_create_result [OF os ctrl_of_inv(1,2) [OF I c(1)], of sz] obtain b where
    r: "map_result {s} (s\<lparr>u_bufs := b # u_bufs s\<rparr>) [] ctrl c
      (\<lambda>im. is_mapping MAP_TYPE_API (page_size (c_handle c)) b (NVM_PAGE_ALIGN sz (page_size (c_handle c))) im \<and> b \<noteq> 0 \<and> b \<notin> set (u_bufs s))
      (nvm_dma_create api ctrl sz s)" (is "map_result _ ?s _ _ _ ?P _") ..
  show thesis
  proof (cases "b \<noteq> 0 \<and> b \<notin> set (u_bufs s)")
    case False
    from r show thesis
    proof (rule map_resultE)
      fix e t assume "nvm_dma_create api ctrl sz s = Some (Inl e, t)" "e \<noteq> 0" "t \<in> {s}"
      then show thesis by (intro fails [of e]) simp_all
    qed (use False in auto)
  next
    case True
    then have I': "lib_inv api W (insert b B) ?s" and nb: "b \<notin> B" using inv_buf_add [OF I] by auto
    have c': "u_ctrls ?s ctrl = Some c" using c(1) by simp
    have r': "map_result {s} (ulog [] ?s) [] ctrl c ?P (nvm_dma_create api ctrl sz s)" using r by (simp add: ulog_def)
    from neutral_Nil2 r' show thesis
    proof (rule map_result_inv [OF I' c' c(2)])
      fix e t assume "nvm_dma_create api ctrl sz s = Some (Inl e, t)" "e \<noteq> 0" "t \<in> {s}"
      then show thesis by (intro fails [of e]) simp_all
    next
      fix d s' x addrs and im :: ioctl_mapping
      assume A: "nvm_dma_create api ctrl sz s = Some (Inr d, s')" "?P im" "lib_inv api (W(d := 1)) (insert b B - set_option (api_buf (Mapping im))) s'"
        "d \<noteq> NULL" "W d = 0" "u_dmas ?s d = None" "u_dmas s' = (u_dmas ?s)(d \<mapsto> x) \<and> u_admins s' = u_admins ?s \<and> u_refs s' = u_refs ?s" "keeps (\<lambda>_. 1) ?s s'"
      have "insert b B - set_option (api_buf (Mapping im)) = B" using A(2) nb by simp
      then show thesis using A(3,6,7,8) by (intro works [OF A(1) _ A(4,5)]) (simp_all add: keeps_def)
    qed simp
  qed
qed

end
