(* ===== verification/Lib_Aq.thy ===== *)
theory Lib_Aq
  imports Lib_Steps
begin

text \<open>
  Admin queues keep the invariant of the library: sharing the memory of a window, creating the queue
  pair in it, running commands, and creating the controller itself.
\<close>

section \<open>Sharing a mapping\<close>

lemma handle_shared_inv:
  assumes I: "lib_inv api W B s" and m: "u_maps s p = Some m" and len: "length (u_live s) + 2 < 2 ^ 32" and w: "W p \<le> 1"
    and d: "d \<noteq> NULL" "d \<notin> fst ` set (u_live s)" and y: "dc_map y = p" "handle_fits api (dc_handle y)"
  shows "lib_inv api (W(d := 1)) B (added_dma d y (s\<lparr>u_maps := (u_maps s)(p \<mapsto> m\<lparr>dm_count := dm_count m + 1\<rparr>)\<rparr>))"
proof -
  let ?m = "m\<lparr>dm_count := dm_count m + 1\<rparr>"
  let ?t = "s\<lparr>u_maps := (u_maps s)(p \<mapsto> ?m)\<rparr>" and ?W = "W(d := 1)"
  let ?s = "added_dma d y ?t"
  note D = lib_invD [OF I]
  note F = heap_finite [OF D(1)] and fr = typed_fresh [OF heap_typed [OF D(1)] d(2)]
  have rm: "refs ((u_maps s)(p \<mapsto> ?m)) f q = refs (u_maps s) f q" if "\<And>k. f (m\<lparr>dm_count := k\<rparr>) = f m" for f :: "dma_desc \<Rightarrow> ptr" and q
    using refs_same [of "u_maps s" p m f ?m q] m that by simp
  have rd: "refs ((u_dmas s)(d \<mapsto> y)) dc_map q = refs (u_dmas s) dc_map q + (if p = q then 1 else 0)" for q
    using refs_new [OF F(5) fr(5), of y dc_map q] y(1) by simp
  have ne: "d \<noteq> p" using m fr by auto
  show ?thesis
  proof (rule lib_invI)
    have "heap_ok ?t" by (rule heap_same [OF D(1)]) (simp, case_tac k, auto simp: m)
    then show "heap_ok ?s" by (rule heap_add(4)) (use d in simp_all)
    show "ctrls_ok api ?W ?s" by (rule lib_ctrls_cong [OF D(2)]) (simp_all add: added_dma_def fr rm)
    show "devs_ok ?s" by (rule devs_ok_cong [OF D(3)]) (simp_all add: added_dma_def)
    show "maps_ok ?W ?s" unfolding maps_ok_def
    proof (intro allI impI)
      fix q n assume "u_maps ?s q = Some n"
      then consider "q = p" "n = ?m" | "q \<noteq> p" "u_maps s q = Some n" by (auto simp: added_dma_def split: if_splits)
      then show "unat (dm_count n) = refs (u_dmas ?s) dc_map q + ?W q \<and> dm_count n \<noteq> 0 \<and>
        (\<exists>c v. u_ctrls ?s (dm_ctrl n) = Some c \<and> u_vas ?s (dm_va n) = Some v \<and> va_fits n c v)"
      proof cases
        case 1
        from maps_okE [OF D(4) m] obtain c v where "unat (dm_count m) = refs (u_dmas s) dc_map p + W p" "u_ctrls s (dm_ctrl m) = Some c"
          "u_vas s (dm_va m) = Some v" "va_fits m c v" .
        then show ?thesis using 1 map_count_inc [OF I m len w] ne rd [of p] by (simp add: added_dma_def)
      next
        case 2
        from maps_okE [OF D(4) 2(2)] obtain c v where E: "unat (dm_count n) = refs (u_dmas s) dc_map q + W q" "dm_count n \<noteq> 0" "u_ctrls s (dm_ctrl n) = Some c"
          "u_vas s (dm_va n) = Some v" "va_fits n c v" .
        moreover have "q \<noteq> d" using fr 2(2) by auto
        ultimately show ?thesis using 2(1) rd [of q] by (simp add: added_dma_def)
      qed
    qed
    show "vas_ok ?s" by (rule vas_ok_cong [OF D(5)]) (simp_all add: added_dma_def rm)
    show "dmas_ok api ?W ?s" unfolding dmas_ok_def
    proof (intro allI impI)
      fix q z assume "u_dmas ?s q = Some z"
      then consider "q = d" "z = y" | "q \<noteq> d" "u_dmas s q = Some z" by (auto simp: added_dma_def split: if_splits)
      then show "u_maps ?s (dc_map z) \<noteq> None \<and> dma_page_size (dc_handle z) = sc_pagesize api \<and>
        length (dma_ioaddrs (dc_handle z)) = unat (dma_n_ioaddrs (dc_handle z)) \<and>
        unat (dma_n_ioaddrs (dc_handle z)) * unat (sc_pagesize api) < 2 ^ 64 \<and> refs (u_admins ?s) la_qmem q + ?W q = 1"
      proof cases
        case 1
        then show ?thesis using y no_admin_of [OF I fr(5)] by (simp add: added_dma_def handle_fits_def)
      next
        case 2
        then show ?thesis using dmas_okD [OF D(6) 2(2)] by (simp add: added_dma_def)
      qed
    qed
    show "admins_ok api ?W ?s" by (rule admins_ok_cong [OF D(7)]) (use fr in \<open>simp_all add: added_dma_def\<close>)
    show "refs_ok ?W ?s" by (rule refs_ok_cong [OF D(8)]) (use fr in \<open>simp_all add: added_dma_def\<close>)
    show "bufs_ok B ?s" by (rule bufs_ok_cong [OF D(9)]) (simp_all add: added_dma_def)
    show "log_ok ?s" by (rule log_ok_cong [OF D(10)]) (simp_all add: added_dma_def)
    show "owns_ok ?W ?s" by (rule owns_ok_cong [OF D(11), of _ _ K_dma]) (auto simp: added_dma_def split: if_splits)
  qed
qed

lemma remap_inv:
  assumes os: "os_ok api" and I: "lib_inv api W B s" and x: "u_dmas s e = Some x" "W (dc_map x) \<le> 1"
  obtains err where "nvm_dma_remap api e s = Some (Inl err, s)" "err \<noteq> 0"
  | d s' y where "nvm_dma_remap api e s = Some (Inr d, s')" "lib_inv api (W(d := 1)) B s'" "d \<noteq> NULL" "W d = 0" "u_dmas s d = None"
    "u_dmas s' = (u_dmas s)(d \<mapsto> y) \<and> u_admins s' = u_admins s \<and> u_refs s' = u_refs s \<and> u_ctrls s' = u_ctrls s \<and> u_regs s' = u_regs s"
    "dma_n_ioaddrs (dc_handle y) = dma_n_ioaddrs (dc_handle x)" "dma_ioaddrs (dc_handle y) = dma_ioaddrs (dc_handle x)"
proof -
  note fails = that(1) and works = that(2)
  note D = lib_invD [OF I]
  note X = dmas_okD [OF D(6) x(1)]
  from X(1) obtain m where m: "u_maps s (dc_map x) = Some m" by blast
  from maps_okE [OF D(4) m] obtain c v where E: "unat (dm_count m) = refs (u_dmas s) dc_map (dc_map x) + W (dc_map x)" "dm_count m \<noteq> 0"
    "u_ctrls s (dm_ctrl m) = Some c" "u_vas s (dm_va m) = Some v" "va_fits m c v" .
  have ps: "page_size (c_handle c) = sc_pagesize api" "sc_pagesize api \<noteq> 0" using ctrls_okD(3) [OF D(2) E(3)] by (simp_all add: handle_ok_def)
  have n: "dc_map x \<noteq> NULL" "dm_va m \<noteq> NULL" using heap_nonnull(4) [OF D(1) m] heap_nonnull(3) [OF D(1) E(4)] .
  show thesis
  proof (rule nvm_dma_remap_cases [OF os x(1) n(1) m E(2) n(2) E(3) _ E(4) _ X(3)])
    fix err assume "nvm_dma_remap api e s = Some (Inl err, s)" "err \<noteq> 0"
    then show thesis by (rule fails)
  next
    fix d h
    let ?y = "\<lparr>dc_map = dc_map x, dc_handle = h\<rparr>"
    let ?s = "added_dma d ?y (s\<lparr>u_maps := (u_maps s)(dc_map x \<mapsto> m\<lparr>dm_count := dm_count m + 1\<rparr>)\<rparr>)"
    assume A: "nvm_dma_remap api e s = Some (Inr d, ?s)" "d \<noteq> NULL" "d \<notin> fst ` set (u_live s)" "dma_page_size h = page_size (c_handle c)"
      "dma_n_ioaddrs h = dma_n_ioaddrs (dc_handle x)" "dma_ioaddrs h = dma_ioaddrs (dc_handle x)" "length (u_live s) + 2 < 2 ^ 32"
    have f: "handle_fits api (dc_handle ?y)" using A(4-6) X(3,4) ps by (simp add: handle_fits_def)
    have "lib_inv api (W(d := 1)) B ?s" by (rule handle_shared_inv [OF I m A(7) x(2) A(2,3) _ f]) simp
    moreover have "W d = 0" "u_dmas s d = None" using owns_fresh [OF D(11,1) A(3)] typed_fresh [OF heap_typed [OF D(1)] A(3)] by simp_all
    ultimately show thesis using A(5,6) by (intro works [OF A(1) _ A(2), of ?y]) (simp_all add: added_dma_def)
  qed (use X ps in simp_all)
qed

section \<open>Running admin commands\<close>

text \<open>The last command that the controller fetched, from a queue of \<open>n\<close> entries.\<close>

definition slot_before :: "nat \<Rightarrow> nat \<Rightarrow> nat" where
  "slot_before n t = (t + n - 1) mod n"

fun last_fetched :: "nat \<Rightarrow> nvm_cmd option \<Rightarrow> hw_event list \<Rightarrow> nvm_cmd option" where
  "last_fetched n c [] = c"
| "last_fetched n c (SQ_doorbell t m p # es) = last_fetched n (Some (m ! slot_before n (unat t))) es"
| "last_fetched n c (e # es) = last_fetched n c es"

definition last_command :: "nat \<Rightarrow> hw_event list \<Rightarrow> nvm_cmd option" where
  "last_command n es = last_fetched n None es"

lemma last_fetched_append [simp]: "last_fetched n c (xs @ ys) = last_fetched n (last_fetched n c xs) ys"
  by (induction n c xs rule: last_fetched.induct) simp_all

lemma last_fetched_polls [simp]: "last_fetched n c (replicate k Poll) = c"
  by (induction k) simp_all

lemma slot_before_inc: "i < n \<Longrightarrow> slot_before n ((i + 1) mod n) = i"
  by (cases "i + 1 = n") (auto simp: slot_before_def mod_if)

lemma execute_command_ends:
  assumes ok: "admin_ok api (la_qp a)"
  obtains e c' a' cid where "execute_command (admin_device api) a cmd cpl = Some (e, c', a')" "e \<in> {0, EAGAIN, ETIME}" "la_qmem a' = la_qmem a"
    "admin_ok api (la_qp a')" "e = 0 \<Longrightarrow> last_command (unat (sc_pagesize api) div 64) (events (la_qp a')) = Some (set_cid cmd cid)"
proof -
  note result = that
  let ?dev = "admin_device api"
  have q: "sq_wf (sq (la_qp a))" "q_last (sq (la_qp a)) = tail (sq (la_qp a))" "unat (qs (sq (la_qp a))) \<le> length (sq_mem (la_qp a))"
    and dev: "dev_ok ?dev (la_qp a)" and n: "unat (qs (sq (la_qp a))) = unat (sc_pagesize api) div 64"
    using ok by (simp_all add: admin_ok_def io_wf_def)
  obtain slot q' where enq: "nvm_sq_enqueue (sq (la_qp a)) = (slot, q')" by fastforce
  show thesis
  proof (cases slot)
    case None
    then show thesis using enq ok by (intro result [of EAGAIN cpl a]) (simp_all add: execute_command_def)
  next
    case (Some i)
    note E = enqueue_io [OF q(1) enq [unfolded Some]]
    let ?c = "set_cid cmd (NVM_DEFAULT_CID q')"
    let ?m = "(sq_mem (la_qp a))[unat i := ?c]"
    let ?qp = "(la_qp a)\<lparr>sq := q', sq_mem := ?m\<rparr>"
    have i: "unat i < length (sq_mem (la_qp a))" "unat i < unat (qs (sq (la_qp a)))" using E(2) q(3) sq_wfD(4) [OF q(1)] by simp_all
    then have set: "arr_set (sq_mem (la_qp a)) (unat i) ?c = Some ?m" by (intro arr_set_SomeI)
    have "q_last (sq ?qp) \<noteq> tail (sq ?qp)" using E(4,6) q(2) by simp
    then have sub: "qp_submit ?qp = ?qp\<lparr>sq := q'\<lparr>q_last := tail q'\<rparr>, events := events (la_qp a) @ [SQ_doorbell (tail q') ?m (prp_mem (la_qp a))]\<rparr>"
      using submit_one [of ?qp] E(1) by simp
    have d: "dev_ok ?dev (qp_submit ?qp)" using dev by (simp add: sub dev_ok_def)
    have w: "io_wf 0 (qp_submit ?qp)" using E(1,3) q(3) by (simp add: sub io_wf_def sq_wf_def)
    have last: "last_command (unat (sc_pagesize api) div 64) (events (qp_submit ?qp)) = Some ?c"
      unfolding sub using E(2,5) i slot_before_inc [OF i(2)] by (simp add: n last_command_def)
    from dequeue_block_ends [OF d, of "la_timeout a"] obtain c qp1 k where
      r: "nvm_cq_dequeue_block ?dev (la_timeout a) (qp_submit ?qp) = Some (c, qp1)" "polled k c (qp_submit ?qp) qp1" by blast
    have d1: "dev_ok ?dev qp1" by (rule polled_dev_ok [OF r(2) d])
    have w1: "io_wf 0 qp1" "qs (sq qp1) = qs (sq (la_qp a))" using w r(2) E(3) by (auto simp: io_wf_def polled_def sub)
    show thesis
    proof (cases c)
      case None
      then show thesis using d1 w1 r(1) n
        by (intro result [of ETIME cpl "a\<lparr>la_qp := qp1\<rparr>"]) (simp_all add: execute_command_def enq Some set Let_def admin_ok_def)
    next
      case (Some cp)
      let ?q2 = "qp_cq_update (qp_sq_update qp1)"
      have "dev_ok ?dev ?q2" using d1 by (auto simp: dev_ok_def qp_cq_update_def qp_sq_update_def nvm_cq_update_def cq_wf_def)
      moreover have "sq_wf (sq qp1)" "q_last (sq qp1) = tail (sq qp1)" using w1 by (simp_all add: io_wf_def)
      from sq_update_io [OF this] have "io_wf 0 ?q2" "qs (sq ?q2) = qs (sq qp1)" using w1
        by (simp_all add: io_wf_def qp_cq_update_def qp_sq_update_def split: prod.splits)
      moreover have "last_command (unat (sc_pagesize api) div 64) (events ?q2) = Some ?c"
        using last r(2) by (auto simp: last_command_def polled_def qp_cq_update_def qp_sq_update_def nvm_cq_update_def)
      ultimately show thesis using Some \<open>slot = Some i\<close> r(1) set w1(2) n
        by (intro result [of 0 cp "a\<lparr>la_qp := ?q2\<rparr>" "NVM_DEFAULT_CID q'"]) (simp_all add: execute_command_def enq Let_def admin_ok_def)
    qed
  qed
qed

lemma admin_upd_inv:
  assumes I: "lib_inv api W B s" and a: "u_admins s p = Some a" "la_qmem a' = la_qmem a" "admin_ok api (la_qp a')"
  shows "lib_inv api W B (s\<lparr>u_admins := (u_admins s)(p \<mapsto> a')\<rparr>)" (is "lib_inv api W B ?s")
proof -
  note D = lib_invD [OF I]
  have ra: "refs ((u_admins s)(p \<mapsto> a')) la_qmem q = refs (u_admins s) la_qmem q" for q using refs_same [of "u_admins s" p a la_qmem a' q] a(1,2) by simp
  show ?thesis
  proof (rule lib_invI)
    show "heap_ok ?s" by (rule heap_same [OF D(1)]) (simp, case_tac k, auto simp: a(1))
    show "ctrls_ok api W ?s" by (rule lib_ctrls_cong [OF D(2)]) simp_all
    show "devs_ok ?s" by (rule devs_ok_cong [OF D(3)]) simp_all
    show "maps_ok W ?s" by (rule maps_ok_cong [OF D(4)]) simp_all
    show "vas_ok ?s" by (rule vas_ok_cong [OF D(5)]) simp_all
    show "dmas_ok api W ?s" by (rule dmas_ok_cong [OF D(6)]) (simp_all add: ra)
    show "admins_ok api W ?s" unfolding admins_ok_def
    proof (intro allI impI)
      fix q b assume "u_admins ?s q = Some b"
      then consider "q = p" "b = a'" | "q \<noteq> p" "u_admins s q = Some b" by (auto split: if_splits)
      then show "u_dmas ?s (la_qmem b) \<noteq> None \<and> refs (u_refs ?s) ar_data q + W q = 1 \<and> admin_ok api (la_qp b)"
        by cases (use admins_okD [OF D(7)] a in \<open>auto dest: admins_okD [OF D(7)]\<close>)
    qed
    show "refs_ok W ?s" by (rule refs_ok_cong [OF D(8)]) simp_all
    show "bufs_ok B ?s" by (rule bufs_ok_cong [OF D(9)]) simp_all
    show "log_ok ?s" by (rule log_ok_cong [OF D(10)]) simp_all
    show "owns_ok W ?s" using D(11) by (auto simp: owns_ok_def)
  qed
qed

text \<open>
  A command through a reference: an error is a value, only the admin queue changes, and when the command
  succeeded it is the last one that the controller fetched.
\<close>

lemma NVM_ERR_PACK_ok: "nvm_ok (NVM_ERR_PACK (Some c) e) \<Longrightarrow> e = 0"
  by (simp add: nvm_ok_def NVM_ERR_PACK_def split: if_splits)

lemma raw_rpc_inv:
  assumes I: "lib_inv api W B s" and r: "u_refs s r = Some a"
  obtains e c l cid where "nvm_raw_rpc api r cmd cpl s = Some ((e, c), s\<lparr>u_admins := (u_admins s)(ar_data a \<mapsto> l)\<rparr>)"
    "lib_inv api W B (s\<lparr>u_admins := (u_admins s)(ar_data a \<mapsto> l)\<rparr>)"
    "nvm_ok e \<Longrightarrow> last_command (unat (sc_pagesize api) div 64) (events (la_qp l)) = Some (set_cid cmd cid)"
proof -
  note result = that
  note D = lib_invD [OF I]
  note R = refs_okD [OF D(8) r]
  from R(3) obtain l where l: "u_admins s (ar_data a) = Some l" by blast
  show thesis
  proof (rule execute_command_ends [OF admins_okD(3) [OF D(7) l], of cmd cpl])
    fix e c l' cid
    assume x: "execute_command (admin_device api) l cmd cpl = Some (e, c, l')" "e \<in> {0, EAGAIN, ETIME}" "la_qmem l' = la_qmem l" "admin_ok api (la_qp l')"
      "e = 0 \<Longrightarrow> last_command (unat (sc_pagesize api) div 64) (events (la_qp l')) = Some (set_cid cmd cid)"
    show thesis
      by (rule result [of "NVM_ERR_PACK (Some c) e" c l' cid])
        (use r R(4) l x(1,5) admin_upd_inv [OF I l x(3,4)] NVM_ERR_PACK_ok in \<open>simp_all add: nvm_raw_rpc_def run_stub_def\<close>)
  qed
qed

section \<open>Controllers\<close>

text \<open>
  What the library relies on: the operating system's promises; a page size of 4 to 64 KiB; registers that
  can be read wherever a BAR was mapped, which is in the lower half of the address space; a controller
  whose queues may be a page long; and completion queue memory of a page.
\<close>

definition env_ok :: "ustate uapi \<Rightarrow> bool" where
  "env_ok api \<longleftrightarrow> os_ok api \<and> sc_pagesize api \<in> {0x1000, 0x2000, 0x4000, 0x8000, 0x10000} \<and>
     (\<forall>s fd n. reg_cap api (mmap api s fd n) \<noteq> None) \<and>
     (\<forall>mm cap. reg_cap api mm = Some cap \<longrightarrow> mm < 2 ^ 47 \<and> sc_pagesize api div 16 \<le> CAP_MQES cap + 1) \<and>
     (\<forall>es. unat (sc_pagesize api) div 16 \<le> length (admin_device api es))"

lemma env_okD:
  assumes "env_ok api"
  shows "os_ok api" "sc_pagesize api \<in> {0x1000, 0x2000, 0x4000, 0x8000, 0x10000}" "reg_cap api (mmap api s fd n) \<noteq> None"
    "reg_cap api mm = Some cap \<Longrightarrow> mm < 2 ^ 47 \<and> sc_pagesize api div 16 \<le> CAP_MQES cap + 1"
    "unat (sc_pagesize api) div 16 \<le> length (admin_device api es)"
  using assms by (simp_all add: env_ok_def)

lemma handle_from_cap_ok:
  assumes "env_ok api" "reg_cap api mm = Some cap"
  shows "handle_ok api (handle_from_cap api cap mm n)"
proof -
  have m: "unat (CAP_MQES cap) < 65536" "unat (CAP_DSTRD cap) < 16" using unat_RB_less [of 0 15 cap] unat_RB_less [of 32 35 cap] by (simp_all add: CAP_MQES_def CAP_DSTRD_def)
  have "unat (ucast (CAP_MQES cap) + 1 :: u32) = unat (CAP_MQES cap) + 1"
    using m(1) by (simp add: unat_word_ariths unsigned_ucast_eq take_bit_nat_eq_self)
  moreover have "unat (CAP_MQES cap + 1) = unat (CAP_MQES cap) + 1" using m(1) by (simp add: unat_word_ariths)
  ultimately have q: "ucast (ucast (CAP_MQES cap) + 1 :: u32) = CAP_MQES cap + 1" by (simp add: word_unat_eq_iff unat_ucast_32_64)
  have "unat (ucast (CAP_DSTRD cap) :: u8) < 16" using m(2) by (simp add: unsigned_ucast_eq take_bit_nat_eq_self)
  then have "(ucast (CAP_DSTRD cap) :: u8) < 16" by (simp add: word_less_nat_alt)
  then show ?thesis using env_okD(2,4) [OF assms(1)] assms(2) q by (auto simp: handle_ok_def handle_from_cap_def)
qed

lemma ctrl_added_inv:
  assumes I: "lib_inv api W B s" and f: "d \<noteq> NULL" "p \<noteq> NULL" "distinct [d, p]" "{d, p} \<inter> fst ` set (u_live s) = {}"
    and c: "c_count c = 1" "c_device c = d" "c_ops c = linux_ops" "handle_ok api (c_handle c)"
  shows "lib_inv api (W(p := 1)) B (ulog [U_dup fd, U_mmap (mm_ptr (c_handle c)) (mm_size (c_handle c))] (added_ctrl p c (added_dev d fd s)))" (is "lib_inv api ?W B ?s")
proof -
  note D = lib_invD [OF I]
  note F = heap_finite [OF D(1)] and fr = typed_fresh [OF heap_typed [OF D(1)]]
  have fd: "d \<notin> fst ` set (u_live s)" and fp: "p \<notin> fst ` set (u_live s)" and ne: "d \<noteq> p" using f by auto
  note X = fr [OF fd] and P = fr [OF fp]
  have w: "W d = 0" "W p = 0" using owns_fresh [OF D(11,1)] fd fp by auto
  have sel: "u_live ?s = (p, K_ctrl) # (d, K_dev) # u_live s" "u_devs ?s = (u_devs s)(d \<mapsto> fd)" "u_ctrls ?s = (u_ctrls s)(p \<mapsto> c)" "u_vas ?s = u_vas s" "u_maps ?s = u_maps s"
    "u_dmas ?s = u_dmas s" "u_admins ?s = u_admins s" "u_refs ?s = u_refs s" "u_bufs ?s = u_bufs s"
    "u_calls ?s = u_calls s @ [U_dup fd, U_mmap (mm_ptr (c_handle c)) (mm_size (c_handle c))]"
    by (simp_all add: ulog_def added_ctrl_def added_dev_def)
  have rc: "refs ((u_ctrls s)(p \<mapsto> c)) g y = refs (u_ctrls s) g y + (if g c = y then 1 else 0)" for g :: "controller \<Rightarrow> 'b" and y
    using refs_new [OF F(2) P(2), of c g y] .
  have rv: "refs ((u_devs s)(d \<mapsto> fd)) id y = refs (u_devs s) id y + (if fd = y then 1 else 0)" for y
    using refs_new [OF F(1) X(1), of fd id y] by simp
  have old: "u_ctrls s q = Some c' \<Longrightarrow> c_device c' \<noteq> d" for q c'
    using ctrls_okD(4) [OF D(2), of q c'] X(1) f(1) by (auto simp: bound_ok_def)
  then have nd: "refs (u_ctrls s) c_device d = 0" by (simp add: refs_zero [OF F(2)])
  have nm: "refs (u_maps s) dm_ctrl p = 0" unfolding refs_zero [OF F(4)] using maps_okE [OF D(4)] P(2) by (metis option.distinct(1))
  have nr: "refs (u_refs s) ar_ctrl p = 0" unfolding refs_zero [OF F(7)] using refs_okD(1) [OF D(8)] P(2) by metis
  show ?thesis
  proof (rule lib_invI)
    have h1: "heap_ok (added_dev d fd s)" by (rule heap_add(1) [OF D(1) f(1) fd])
    have h2: "heap_ok (added_ctrl p c (added_dev d fd s))" by (rule heap_add(2) [OF h1 f(2)]) (use fp ne in \<open>auto simp: added_dev_def\<close>)
    show "heap_ok ?s" by (rule heap_same [OF h2]) (simp add: ulog_def, case_tac k, simp_all add: ulog_def)
    show "ctrls_ok api ?W ?s" unfolding ctrls_ok_def
    proof (intro allI impI)
      fix q c' assume "u_ctrls ?s q = Some c'"
      then consider "q = p" "c' = c" | "q \<noteq> p" "u_ctrls s q = Some c'" by (auto simp: sel split: if_splits)
      then show "unat (c_count c') = refs (u_maps ?s) dm_ctrl q + refs (u_refs ?s) ar_ctrl q + ?W q \<and> c_count c' \<noteq> 0 \<and>
         handle_ok api (c_handle c') \<and> bound_ok (u_devs ?s) c'"
      proof cases
        case 1
        then show ?thesis using c nm nr by (simp add: sel bound_ok_def)
      next
        case 2
        then show ?thesis using ctrls_okD [OF D(2) 2(2)] by (auto simp: sel bound_ok_def)
      qed
    qed
    show "devs_ok ?s" unfolding devs_ok_def
    proof (intro allI impI)
      fix e fd' assume "u_devs ?s e = Some fd'"
      then consider "e = d" | "e \<noteq> d" "u_devs s e = Some fd'" by (auto simp: sel split: if_splits)
      then show "refs (u_ctrls ?s) c_device e = 1" by cases (use nd D(3) c(2) in \<open>auto simp: sel rc devs_ok_def\<close>)
    qed
    show "maps_ok ?W ?s" by (rule maps_ok_cong [OF D(4)]) (use P in \<open>auto simp: sel\<close>)
    show "vas_ok ?s" by (rule vas_ok_cong [OF D(5)]) (simp_all add: sel)
    show "dmas_ok api ?W ?s" by (rule dmas_ok_cong [OF D(6)]) (use P in \<open>simp_all add: sel\<close>)
    show "admins_ok api ?W ?s" by (rule admins_ok_cong [OF D(7)]) (use P in \<open>simp_all add: sel\<close>)
    show "refs_ok ?W ?s" by (rule refs_ok_cong [OF D(8)]) (use P in \<open>simp_all add: sel\<close>)
    show "bufs_ok B ?s" by (rule bufs_ok_cong [OF D(9)]) (simp_all add: sel)
    show "log_ok ?s" using D(10) f(1) c(2) unfolding log_ok_def by (auto simp: sel rc rv mm_of_def)
    show "owns_ok ?W ?s" by (rule owns_ok_cong [OF D(11), of _ _ K_ctrl]) (auto simp: sel split: if_splits)
  qed
qed

lemma ctrl_init_inv:
  assumes env: "env_ok api" and I: "lib_inv api W B s"
  obtains e s' where "nvm_ctrl_init api fd s = Some (Inl e, s')" "e \<noteq> 0" "lib_inv api W B s'" "\<exists>ks. s' = ulog ks s \<and> neutral ks"
  | p s' c where "nvm_ctrl_init api fd s = Some (Inr p, s')" "lib_inv api (W(p := 1)) B s'" "p \<noteq> NULL" "W p = 0" "u_ctrls s p = None"
    "u_ctrls s' = (u_ctrls s)(p \<mapsto> c) \<and> u_dmas s' = u_dmas s \<and> u_admins s' = u_admins s \<and> u_refs s' = u_refs s" "c_type c = DEVICE_TYPE_IOCTL"
proof -
  note fails = that(1) and works = that(2)
  have err: thesis if "nvm_ctrl_init api fd s = Some (Inl e, ulog ks s)" "e \<noteq> 0" "neutral ks" for e ks
    using that inv_ulog [OF I that(3)] by (intro fails [of e "ulog ks s"]) auto
  note D = lib_invD [OF I]
  show thesis
  proof (rule nvm_ctrl_init_cases [OF env_okD(1) [OF env] heap_typed [OF D(1)] env_okD(3) [OF env], of fd])
    fix e assume "nvm_ctrl_init api fd s = Some (Inl e, s)" "e \<noteq> 0"
    then show thesis by (intro err [of e "[]"]) (simp_all add: ulog_def neutral_def)
  next
    fix e fd' assume "nvm_ctrl_init api fd s = Some (Inl e, ulog [U_dup fd', U_close fd'] s)" "e \<noteq> 0"
    then show thesis by (rule err) (rule neutral_export)
  next
    fix e fd' mm assume "nvm_ctrl_init api fd s = Some (Inl e, ulog [U_dup fd', U_mmap mm NVM_CTRL_MEM_MINSIZE, U_munmap mm NVM_CTRL_MEM_MINSIZE, U_close fd'] s)" "e \<noteq> 0"
    then show thesis by (rule err) (rule neutral_export)
  next
    fix d fd' p mm cap
    let ?c = "\<lparr>c_count = 1, c_type = DEVICE_TYPE_IOCTL, c_device = d, c_ops = linux_ops, c_handle = handle_from_cap api cap mm NVM_CTRL_MEM_MINSIZE\<rparr>"
    let ?s = "ulog [U_dup fd', U_mmap mm NVM_CTRL_MEM_MINSIZE] (added_ctrl p ?c (added_dev d fd' s))"
    assume A: "nvm_ctrl_init api fd s = Some (Inr p, ?s)" "d \<noteq> NULL" "p \<noteq> NULL" "distinct [d, p]" "{d, p} \<inter> fst ` set (u_live s) = {}" "reg_cap api mm = Some cap"
    have "lib_inv api (W(p := 1)) B ?s"
      using ctrl_added_inv [OF I A(2-5), of ?c fd'] handle_from_cap_ok [OF env A(6)] by (simp add: handle_from_cap_def)
    moreover have "W p = 0" "u_ctrls s p = None" using owns_fresh [OF D(11,1), of p] typed_fresh [OF heap_typed [OF D(1)], of p] A(5) by auto
    ultimately show thesis by (intro works [OF A(1) _ A(3), of ?c]) (simp_all add: ulog_def added_ctrl_def added_dev_def)
  qed
qed

end
