(* ===== verification/Lib_Bind.thy ===== *)
theory Lib_Bind
  imports Lib_Aq
begin

text \<open>
  Creation of an admin queue (\<open>nvm_aq_create\<close>): a failure leaves the state exactly as it was; on success
  the client has a reference whose queue pair is ready for commands.
\<close>

section \<open>Doorbells\<close>

lemma scast_small: "unat (x :: u32) < 2 ^ 31 \<Longrightarrow> (scast x :: u64) = ucast x"
proof -
  assume "unat x < 2 ^ 31"
  then have "int (unat x) < int (2 ^ 31)" by (rule of_nat_less_iff [THEN iffD2])
  then have "signed_take_bit 31 (int (unat x)) = int (unat x)" by (intro signed_take_bit_int_eq_self order_trans [OF _ of_nat_0_le_iff]) simp_all
  then have "sint x = uint x" by (simp add: sint_uint)
  then show ?thesis by (simp only: scast_eq ucast_eq)
qed

lemma offset_nonzero:
  assumes "mm < 2 ^ 47" "unat (x :: u32) < 2 ^ 31"
  shows "mm + 0x1000 + scast x \<noteq> (0 :: u64)"
proof -
  have "unat mm < 2 ^ 47" using assms(1) by (simp add: word_less_nat_alt)
  then have "unat (mm + 0x1000 + scast x) = unat mm + 0x1000 + unat x" using assms(2)
    by (simp add: scast_small unat_word_ariths unat_ucast_32_64)
  then show ?thesis by (metis add_is_0 unat_0 zero_neq_numeral)
qed

lemma doorbell_offset:
  assumes "unat ds < 16" "unat n \<le> 1000"
  shows "unat ((n :: u32) * push_bit (unat (ds :: u8)) 4) < 2 ^ 31"
proof -
  have "unat ds \<in> {0..<16}" using assms(1) by simp
  then have k: "unat (push_bit (unat ds) 4 :: u32) \<le> 131072" by (auto simp: atLeastLessThan_nat_numeral)
  have "unat n * unat (push_bit (unat ds) 4 :: u32) \<le> 1000 * 131072" using assms(2) k by (rule mult_le_mono)
  then show ?thesis by (simp add: unat_word_ariths)
qed

lemma doorbell_nonzero:
  assumes "mm < 2 ^ 47" "ds < 16" "unat no \<le> 100"
  shows "SQ_DBL mm no ds \<noteq> 0" "CQ_DBL mm no ds \<noteq> 0"
proof -
  have d: "unat ds < 16" using assms(2) by (simp add: word_less_nat_alt)
  have u: "unat (ucast no :: u32) \<le> 100" using assms(3) by (simp add: unsigned_ucast_eq take_bit_nat_eq_self)
  then have n: "unat (2 * ucast no :: u32) \<le> 1000" "unat (2 * ucast no + 1 :: u32) \<le> 1000" by (simp_all add: unat_word_ariths)
  show "SQ_DBL mm no ds \<noteq> 0" unfolding SQ_DBL_def by (rule offset_nonzero [OF assms(1) doorbell_offset [OF d n(1)]])
  show "CQ_DBL mm no ds \<noteq> 0" unfolding CQ_DBL_def by (rule offset_nonzero [OF assms(1) doorbell_offset [OF d n(2)]])
qed

section \<open>The admin queue pair\<close>

lemma admin_queues_ok:
  assumes env: "env_ok api" and h: "handle_ok api ctrl"
  shows "admin_ok api (admin_queues api ctrl q a0 a1)"
proof -
  let ?ps = "sc_pagesize api"
  have p: "page_size ctrl = ?ps" "?ps \<in> {0x1000, 0x2000, 0x4000, 0x8000, 0x10000}" "?ps div 16 \<le> ucast (max_qs ctrl)" "mm_ptr ctrl < 2 ^ 47" "dstrd ctrl < 16"
    using env_okD(2) [OF env] h by (simp_all add: handle_ok_def)
  have db: "SQ_DBL (mm_ptr ctrl) 0 (dstrd ctrl) \<noteq> 0" using doorbell_nonzero(1) [OF p(4,5), of 0] by simp
  have cqn: "ucast (?ps div 16) \<in> {0x100, 0x200, 0x400, 0x800, 0x1000 :: u32}" and u: "unat (ucast (?ps div 16) :: u32) = unat ?ps div 16"
    and sqn: "ucast (?ps div 64) \<in> {0x40, 0x80, 0x100, 0x200, 0x400 :: u32}" and v: "unat (ucast (?ps div 64) :: u32) = unat (?ps div 64)"
    and le: "ucast (?ps div 64) \<le> (ucast (?ps div 16) :: u32)" using p(2) by auto
  have "unat (?ps div 16) \<le> unat (max_qs ctrl)" using p(3) by (simp add: word_le_nat_alt unat_ucast_32_64)
  then have m: "(ucast (?ps div 16) :: u32) \<le> max_qs ctrl" using u by (simp add: word_le_nat_alt unat_div_distrib)
  then have m': "(ucast (?ps div 64) :: u32) \<le> max_qs ctrl" using le by (rule order_trans [rotated])
  have c: "\<not> (ucast (?ps div 16) < (2 :: u32) \<or> ucast (?ps div 16) > (0x10000 :: u32) \<or> ucast (?ps div 16) > max_qs ctrl)" using cqn m by auto
  have s: "\<not> (ucast (?ps div 64) < (2 :: u32) \<or> ucast (?ps div 64) > (0x10000 :: u32) \<or> ucast (?ps div 64) > max_qs ctrl)" using sqn m' by auto
  have k: "\<exists>k. 1 \<le> k \<and> k \<le> 16 \<and> unat (ucast (?ps div 64) :: u32) = 2 ^ k"
    using sqn by (auto intro: exI [of _ 6] exI [of _ 7] exI [of _ 8] exI [of _ 9] exI [of _ 10])
  have "io_wf 0 (admin_queues api ctrl q a0 a1)"
    using s k db v sqn by (auto simp: io_wf_def admin_queues_def nvm_queue_clear_def sq_wf_def p(1) Let_def)
  moreover have "dev_ok (admin_device api) (admin_queues api ctrl q a0 a1)"
    using c cqn u env_okD(5) [OF env] by (auto simp: dev_ok_def cq_wf_def admin_queues_def nvm_queue_clear_def p(1) Let_def)
  moreover have "unat (qs (sq (admin_queues api ctrl q a0 a1))) = unat ?ps div 64"
    using s v by (simp add: admin_queues_def nvm_queue_clear_def p(1) Let_def unat_div_distrib)
  ultimately show ?thesis by (simp add: admin_ok_def)
qed

section \<open>A reference under construction\<close>

definition pending_ref :: "ptr \<Rightarrow> controller \<Rightarrow> ptr \<Rightarrow> ustate \<Rightarrow> ustate" where
  "pending_ref ctrl c r s = s\<lparr>u_live := (r, K_ref) # u_live s, u_ctrls := (u_ctrls s)(ctrl \<mapsto> c\<lparr>c_count := c_count c + 1\<rparr>),
     u_refs := (u_refs s)(r \<mapsto> \<lparr>ar_ctrl = ctrl, ar_handles = [], ar_data = NULL, ar_release = None, ar_stub = None\<rparr>)\<rparr>"

lemma pending_ref_simps [simp]:
  "u_ctrls (pending_ref ctrl c r s) = (u_ctrls s)(ctrl \<mapsto> c\<lparr>c_count := c_count c + 1\<rparr>)" "u_live (pending_ref ctrl c r s) = (r, K_ref) # u_live s"
  "u_dmas (pending_ref ctrl c r s) = u_dmas s" "u_maps (pending_ref ctrl c r s) = u_maps s" "u_vas (pending_ref ctrl c r s) = u_vas s"
  "u_admins (pending_ref ctrl c r s) = u_admins s"
  by (simp_all add: pending_ref_def)

lemma ref_get_cases:
  assumes os: "os_ok api" and ty: "typed s" and c: "ctrl \<noteq> NULL" "u_ctrls s ctrl = Some c" "c_count c \<noteq> 0"
  obtains e where "nvm_ref_get api ctrl s = Some (Inl e, s)" "e \<noteq> 0"
  | r where "nvm_ref_get api ctrl s = Some (Inr r, pending_ref ctrl c r s)" "r \<noteq> NULL" "r \<notin> fst ` set (u_live s)"
proof -
  let ?s1 = "s\<lparr>u_ctrls := (u_ctrls s)(ctrl \<mapsto> c\<lparr>c_count := c_count c + 1\<rparr>)\<rparr>"
  let ?r = "malloc api ?s1"
  have fresh: "?r \<noteq> NULL \<Longrightarrow> ?r \<notin> fst ` set (u_live s)" using os_okD(1) [OF os, of ?s1] by simp
  have put: "nvm_ctrl_put ctrl ?s1 = Some s" "nvm_ctrl_put ctrl (take_mem K_ref ?r ?s1) = Some (take_mem K_ref ?r s)"
    using c by (simp_all add: ctrl_put_undo take_mem_def fun_upd_idem)
  have free: "?r \<noteq> NULL \<Longrightarrow> free_mem ?r (take_mem K_ref ?r s) = Some s" using fresh by (simp add: free_mem_def take_mem_def)
  consider "?r = NULL" | "?r \<noteq> NULL" "mutex_init api (take_mem K_ref ?r ?s1) \<noteq> 0" | "?r \<noteq> NULL" "mutex_init api (take_mem K_ref ?r ?s1) = 0" by blast
  then show thesis
  proof cases
    case 1
    then show thesis using c put by (intro that(1) [of ENOMEM]) (simp_all add: nvm_ref_get_def nvm_ctrl_get_def Let_def)
  next
    case 2
    then show thesis using c put free by (intro that(1)) (simp_all add: nvm_ref_get_def nvm_ctrl_get_def Let_def)
  next
    case 3
    then show thesis using c fresh by (intro that(2) [of ?r]) (simp_all add: nvm_ref_get_def nvm_ctrl_get_def Let_def pending_ref_def take_mem_def)
  qed
qed

lemma ref_put_pending:
  assumes "typed s" "ctrl \<noteq> NULL" "u_ctrls s ctrl = Some c" "c_count c \<noteq> 0" "r \<noteq> NULL" "r \<notin> fst ` set (u_live s)"
  shows "nvm_ref_put r (pending_ref ctrl c r s) = Some s"
proof -
  let ?t = "pending_ref ctrl c r s"
  have none: "u_refs s r = None" by (rule typed_fresh [OF assms(1,6)])
  have put: "nvm_ctrl_put ctrl ?t = Some (?t\<lparr>u_ctrls := (u_ctrls ?t)(ctrl \<mapsto> c)\<rparr>)"
    using assms by (intro ctrl_put_undo) simp_all
  then show ?thesis using assms(3,5,6) none
    by (simp add: nvm_ref_put_def release_handles_def free_mem_def pending_ref_def fun_upd_idem)
qed

text \<open>Undoing the sharing of a window.\<close>

lemma unmap_shared:
  assumes "d \<noteq> NULL" "d \<notin> fst ` set (u_live s)" "typed s" "u_maps s p = Some m" "p \<noteq> NULL" "dm_count m \<noteq> 0" "dm_va m \<noteq> NULL" "dc_map y = p"
  shows "nvm_dma_unmap d (added_dma d y (s\<lparr>u_maps := (u_maps s)(p \<mapsto> m\<lparr>dm_count := dm_count m + 1\<rparr>)\<rparr>)) = Some s"
  using assms typed_fresh [OF assms(3,2)]
  by (simp add: nvm_dma_unmap_def remove_container_def put_map_def free_mem_def added_dma_def Let_def fun_upd_idem)

text \<open>
  The state after a reference got its admin queue: the window's mapping has one more handle \<open>d\<close>, which
  the queue \<open>ad\<close> of the reference \<open>r\<close> owns.
\<close>

definition bound_ref :: "ptr \<Rightarrow> controller \<Rightarrow> ptr \<Rightarrow> ptr \<Rightarrow> local_admin \<Rightarrow> ustate \<Rightarrow> ustate" where
  "bound_ref ctrl c r ad l s = s\<lparr>u_live := (ad, K_admin) # (r, K_ref) # u_live s, u_ctrls := (u_ctrls s)(ctrl \<mapsto> c\<lparr>c_count := c_count c + 1\<rparr>),
     u_admins := (u_admins s)(ad \<mapsto> l),
     u_refs := (u_refs s)(r \<mapsto> \<lparr>ar_ctrl = ctrl, ar_handles = [], ar_data = ad, ar_release = Some Remove_admin, ar_stub = Some Execute_command\<rparr>)\<rparr>"

lemma bound_ref_inv:
  assumes I: "lib_inv api W B s" and c: "u_ctrls s ctrl = Some c" "length (u_live s) + 2 < 2 ^ 32" "W ctrl \<le> 1"
    and f: "r \<noteq> NULL" "ad \<noteq> NULL" "r \<noteq> ad" "{r, ad} \<inter> fst ` set (u_live s) = {}"
    and l: "u_dmas s (la_qmem l) \<noteq> None" "W (la_qmem l) = 1" "admin_ok api (la_qp l)"
  shows "lib_inv api (W(la_qmem l := 0, r := 1)) B (bound_ref ctrl c r ad l s)" (is "lib_inv api ?W B ?s")
proof -
  let ?c = "c\<lparr>c_count := c_count c + 1\<rparr>" and ?q = "la_qmem l"
    and ?a = "\<lparr>ar_ctrl = ctrl, ar_handles = [], ar_data = ad, ar_release = Some Remove_admin, ar_stub = Some Execute_command\<rparr>"
  note D = lib_invD [OF I]
  note F = heap_finite [OF D(1)] and fr = typed_fresh [OF heap_typed [OF D(1)]] and C = ctrls_okD [OF D(2) c(1)]
  have fr1: "r \<notin> fst ` set (u_live s)" and fr2: "ad \<notin> fst ` set (u_live s)" using f(4) by auto
  note R = fr [OF fr1] and A = fr [OF fr2]
  from l(1) obtain x where x: "u_dmas s ?q = Some x" by blast
  note X = dma_excl [OF D(1) x]
  have ne: "ctrl \<noteq> r" "ctrl \<noteq> ad" "?q \<noteq> r" "?q \<noteq> ad" "?q \<noteq> ctrl" using c(1) R A X x by auto
  have w: "W r = 0" "W ad = 0" using owns_fresh [OF D(11,1)] fr1 fr2 by auto
  have sel: "u_live ?s = (ad, K_admin) # (r, K_ref) # u_live s" "u_ctrls ?s = (u_ctrls s)(ctrl \<mapsto> ?c)" "u_admins ?s = (u_admins s)(ad \<mapsto> l)"
    "u_refs ?s = (u_refs s)(r \<mapsto> ?a)" "u_devs ?s = u_devs s" "u_vas ?s = u_vas s" "u_maps ?s = u_maps s" "u_dmas ?s = u_dmas s" "u_bufs ?s = u_bufs s" "u_calls ?s = u_calls s"
    by (simp_all add: bound_ref_def)
  have rr: "refs ((u_refs s)(r \<mapsto> ?a)) g y = refs (u_refs s) g y + (if g ?a = y then 1 else 0)" for g :: "admin_ref \<Rightarrow> ptr" and y using refs_new [OF F(7) R(7), of ?a g y] .
  have ra: "refs ((u_admins s)(ad \<mapsto> l)) la_qmem y = refs (u_admins s) la_qmem y + (if ?q = y then 1 else 0)" for y using refs_new [OF F(6) A(6), of l la_qmem y] .
  have rc: "refs ((u_ctrls s)(ctrl \<mapsto> ?c)) c_device p = refs (u_ctrls s) c_device p" "refs ((u_ctrls s)(ctrl \<mapsto> ?c)) mm_of y = refs (u_ctrls s) mm_of y" for p y
    using refs_same [of "u_ctrls s" ctrl c c_device ?c p] refs_same [of "u_ctrls s" ctrl c mm_of ?c y] c(1) by (simp_all add: mm_of_def)
  have nr: "refs (u_refs s) ar_data ad = 0" using no_ref_of [OF I A(6)] .
  show ?thesis
  proof (rule lib_invI)
    have h0: "heap_ok (s\<lparr>u_ctrls := (u_ctrls s)(ctrl \<mapsto> ?c)\<rparr>)" (is "heap_ok ?t") by (rule heap_same [OF D(1)]) (simp, case_tac k, auto simp: c(1))
    have h1: "heap_ok (?t\<lparr>u_live := (r, K_ref) # u_live ?t, u_refs := (u_refs ?t)(r \<mapsto> ?a)\<rparr>)" (is "heap_ok ?s1") by (rule heap_add(7) [OF h0 f(1)]) (use fr1 in simp)
    have h2: "heap_ok (?s1\<lparr>u_live := (ad, K_admin) # u_live ?s1, u_admins := (u_admins ?s1)(ad \<mapsto> l)\<rparr>)" by (rule heap_add(6) [OF h1 f(2)]) (use fr2 f(3) in auto)
    show "heap_ok ?s" by (rule heap_same [OF h2]) (simp add: sel, case_tac k, simp_all add: sel)
    show "ctrls_ok api ?W ?s" unfolding ctrls_ok_def
    proof (intro allI impI)
      fix p c' assume "u_ctrls ?s p = Some c'"
      then consider "p = ctrl" "c' = ?c" | "p \<noteq> ctrl" "u_ctrls s p = Some c'" by (auto simp: sel split: if_splits)
      then show "unat (c_count c') = refs (u_maps ?s) dm_ctrl p + refs (u_refs ?s) ar_ctrl p + ?W p \<and> c_count c' \<noteq> 0 \<and>
         handle_ok api (c_handle c') \<and> bound_ok (u_devs ?s) c'"
      proof cases
        case 1
        then show ?thesis using C ctrl_count_inc [OF I c] ne rr [of ar_ctrl p] by (simp add: sel bound_ok_def)
      next
        case 2
        have "p \<noteq> r" "p \<noteq> ?q" using R X 2(2) by auto
        then show ?thesis using ctrls_okD [OF D(2) 2(2)] 2(1) rr [of ar_ctrl p] by (simp add: sel)
      qed
    qed
    show "devs_ok ?s" by (rule devs_ok_cong [OF D(3)]) (simp_all add: sel rc)
    show "maps_ok ?W ?s" by (rule maps_ok_cong [OF D(4)]) (use R X c(1) in \<open>auto simp: sel\<close>)
    show "vas_ok ?s" by (rule vas_ok_cong [OF D(5)]) (simp_all add: sel)
    show "dmas_ok api ?W ?s" unfolding dmas_ok_def
    proof (intro allI impI)
      fix p z assume "u_dmas ?s p = Some z"
      then have p: "u_dmas s p = Some z" by (simp add: sel)
      have "p \<noteq> r" using R p by auto
      then show "u_maps ?s (dc_map z) \<noteq> None \<and> dma_page_size (dc_handle z) = sc_pagesize api \<and> length (dma_ioaddrs (dc_handle z)) = unat (dma_n_ioaddrs (dc_handle z)) \<and>
        unat (dma_n_ioaddrs (dc_handle z)) * unat (sc_pagesize api) < 2 ^ 64 \<and> refs (u_admins ?s) la_qmem p + ?W p = 1"
        using dmas_okD [OF D(6) p] l(2) ra [of p] by (cases "p = ?q") (simp_all add: sel)
    qed
    show "admins_ok api ?W ?s" unfolding admins_ok_def
    proof (intro allI impI)
      fix p z assume "u_admins ?s p = Some z"
      then consider "p = ad" "z = l" | "p \<noteq> ad" "u_admins s p = Some z" by (auto simp: sel split: if_splits)
      then show "u_dmas ?s (la_qmem z) \<noteq> None \<and> refs (u_refs ?s) ar_data p + ?W p = 1 \<and> admin_ok api (la_qp z)"
      proof cases
        case 1
        then show ?thesis using l nr w f(3) ne rr [of ar_data p] by (simp add: sel)
      next
        case 2
        have "p \<noteq> r" "p \<noteq> ?q" using R X 2(2) by auto
        then show ?thesis using admins_okD [OF D(7) 2(2)] 2(1) rr [of ar_data p] by (simp add: sel)
      qed
    qed
    show "refs_ok ?W ?s" unfolding refs_ok_def
    proof (intro allI impI)
      fix p z assume "u_refs ?s p = Some z"
      then consider "p = r" "z = ?a" | "p \<noteq> r" "u_refs s p = Some z" by (auto simp: sel split: if_splits)
      then show "u_ctrls ?s (ar_ctrl z) \<noteq> None \<and> ar_handles z = [] \<and> u_admins ?s (ar_data z) \<noteq> None \<and> ar_stub z = Some Execute_command \<and>
         ar_release z = Some Remove_admin \<and> ?W p = 1"
      proof cases
        case 1
        then show ?thesis by (simp add: sel)
      next
        case 2
        have "p \<noteq> ?q" using X 2(2) by auto
        then show ?thesis using refs_okD [OF D(8) 2(2)] 2(1) by (simp add: sel)
      qed
    qed
    show "bufs_ok B ?s" by (rule bufs_ok_cong [OF D(9)]) (simp_all add: sel)
    show "log_ok ?s" by (rule log_ok_cong [OF D(10)]) (simp_all add: sel rc)
    show "owns_ok ?W ?s" by (rule owns_ok_cong [OF D(11), of _ _ K_ref]) (auto simp: sel split: if_splits)
  qed
qed

section \<open>Creating the admin queue\<close>

lemma inv_perm:
  assumes I: "lib_inv api W B s" and "mset live = mset (u_live s)"
  shows "lib_inv api W B (s\<lparr>u_live := live, u_regs := es\<rparr>)"
proof -
  note D = lib_invD [OF I]
  have st: "set live = set (u_live s)" using assms(2) by (rule mset_eq_setD)
  have "mset (map fst live) = mset (map fst (u_live s))" using assms(2) by simp
  then have "distinct (map fst live) = distinct (map fst (u_live s))" by (rule mset_eq_imp_distinct_iff)
  moreover have "holds (s\<lparr>u_live := live, u_regs := es\<rparr>) p k = holds s p k" for p k by (cases k) simp_all
  ultimately have "heap_ok (s\<lparr>u_live := live, u_regs := es\<rparr>)" using D(1) by (simp add: heap_ok_def st)
  then show ?thesis using D(2-11)
    by (simp add: lib_inv_def ctrls_ok_def devs_ok_def maps_ok_def vas_ok_def dmas_ok_def admins_ok_def refs_ok_def bufs_ok_def log_ok_def owns_ok_def)
qed

lemma create_admin_cases:
  assumes os: "os_ok api" and I: "lib_inv api W B s" and c: "u_ctrls s ctrl = Some c" and x: "u_dmas s w = Some x"
    and m: "u_maps s (dc_map x) = Some m" and r: "r \<notin> fst ` set (u_live s)"
  defines "t \<equiv> pending_ref ctrl c r s"
  obtains e where "create_admin api ctrl w t = Some (Inl e, t)" "e \<noteq> 0"
  | ad d y a0 a1 where "create_admin api ctrl w t = Some (Inr ad, t\<lparr>u_live := (ad, K_admin) # (d, K_dma) # u_live t,
      u_maps := (u_maps s)(dc_map x \<mapsto> m\<lparr>dm_count := dm_count m + 1\<rparr>), u_dmas := (u_dmas s)(d \<mapsto> y),
      u_admins := (u_admins s)(ad \<mapsto> \<lparr>la_qmem = d, la_timeout = timeout (c_handle c), la_qp = admin_queues api (c_handle c) (dc_handle y) a0 a1\<rparr>)\<rparr>)"
    "ad \<noteq> NULL" "d \<noteq> NULL" "distinct [ad, d, r]" "{ad, d} \<inter> fst ` set (u_live s) = {}" "dc_map y = dc_map x" "handle_fits api (dc_handle y)"
    "length (u_live s) + 4 < 2 ^ 32" "arr_get (dma_ioaddrs (dc_handle y)) 0 = Some a0" "arr_get (dma_ioaddrs (dc_handle y)) 1 = Some a1"
proof -
  note fails = that(1) and works = that(2)
  note D = lib_invD [OF I]
  note X = dmas_okD [OF D(6) x]
  from maps_okE [OF D(4) m] obtain mc v where M: "dm_count m \<noteq> 0" "u_ctrls s (dm_ctrl m) = Some mc" "u_vas s (dm_va m) = Some v" .
  obtain mc' where mc': "u_ctrls t (dm_ctrl m) = Some mc'" "c_handle mc' = c_handle mc"
    using M(2) c by (cases "dm_ctrl m = ctrl") (auto simp: t_def)
  have ps: "page_size (c_handle mc') = sc_pagesize api" "sc_pagesize api \<noteq> 0" using ctrls_okD(3) [OF D(2) M(2)] mc'(2) by (simp_all add: handle_ok_def)
  have n: "dc_map x \<noteq> NULL" "dm_va m \<noteq> NULL" using heap_nonnull(4) [OF D(1) m] heap_nonnull(3) [OF D(1) M(3)] .
  have ty: "typed t" using heap_typed [OF D(1)] c by (auto simp: typed_def t_def pending_ref_def)
  have tx: "u_dmas t w = Some x" "u_maps t (dc_map x) = Some m" "u_vas t (dm_va m) = Some v"
    "u_ctrls t ctrl = Some (c\<lparr>c_count := c_count c + 1\<rparr>)" using x m M(3) by (simp_all add: t_def)
  let ?small = "page_size (c_handle c) \<noteq> dma_page_size (dc_handle x) \<or> dma_n_ioaddrs (dc_handle x) < 2 \<or> dma_vaddr (dc_handle x) = 0"
  show thesis
  proof (cases ?small)
    case True
    then show thesis using tx
      by (intro fails [of "if page_size (c_handle c) \<noteq> dma_page_size (dc_handle x) then EINVAL else if dma_n_ioaddrs (dc_handle x) < 2 then ERANGE else EINVAL"])
        (auto simp: create_admin_def)
  next
    case False
    show thesis
    proof (rule nvm_dma_remap_cases [OF os tx(1) n(1) tx(2) M(1) n(2) mc'(1) _ tx(3) _ X(3)])
      fix e assume "nvm_dma_remap api w t = Some (Inl e, t)" "e \<noteq> 0"
      then show thesis using tx False by (intro fails [of e]) (simp_all add: create_admin_def)
    next
      fix d h
      let ?y = "\<lparr>dc_map = dc_map x, dc_handle = h\<rparr>"
      let ?u = "added_dma d ?y (t\<lparr>u_maps := (u_maps t)(dc_map x \<mapsto> m\<lparr>dm_count := dm_count m + 1\<rparr>)\<rparr>)"
      let ?ad = "malloc api ?u"
      assume A: "nvm_dma_remap api w t = Some (Inr d, ?u)" "d \<noteq> NULL" "d \<notin> fst ` set (u_live t)" "dma_page_size h = page_size (c_handle mc')"
        "dma_n_ioaddrs h = dma_n_ioaddrs (dc_handle x)" "dma_ioaddrs h = dma_ioaddrs (dc_handle x)"
      show thesis
      proof (cases "?ad = NULL")
        case True
        have "nvm_dma_unmap d ?u = Some t" using unmap_shared [OF A(2,3) ty tx(2) n(1) M(1) n(2)] by simp
        then show thesis using tx False A(1) True by (intro fails [of ENOMEM]) (simp_all add: create_admin_def Let_def)
      next
        case ad: False
        have len: "2 \<le> length (dma_ioaddrs h)" using False X(3) A(6) by (simp add: word_less_nat_alt)
        then obtain a0 a1 where a: "arr_get (dma_ioaddrs h) 0 = Some a0" "arr_get (dma_ioaddrs h) 1 = Some a1"
          using arr_get_SomeI [of 0 "dma_ioaddrs h"] arr_get_SomeI [of 1 "dma_ioaddrs h"] by fastforce
        have "?ad \<notin> fst ` set (u_live ?u)" "length (u_live ?u) + 2 < 2 ^ 32" using os_okD(1,4) [OF os, of ?u] ad by simp_all
        then show thesis using tx False A ad a X(3,4) ps
          by (intro works [of ?ad d ?y a0 a1]) (simp_all add: create_admin_def Let_def added_dma_def take_mem_def t_def handle_fits_def)
      qed
    qed (use X ps in simp_all)
  qed
qed

lemma aq_create_inv:
  assumes env: "env_ok api" and I: "lib_inv api W B s" and c: "u_ctrls s ctrl = Some c" "W ctrl \<le> 1" and x: "u_dmas s w = Some x" "W (dc_map x) \<le> 1"
  obtains e where "nvm_aq_create api ctrl w s = Some (Inl e, s)" "e \<noteq> 0"
  | r s' a d where "nvm_aq_create api ctrl w s = Some (Inr r, s')" "lib_inv api (W(r := 1)) B s'" "r \<noteq> NULL" "W r = 0" "u_refs s r = None"
    "u_refs s' = (u_refs s)(r \<mapsto> a)" "ar_ctrl a = ctrl" "grows (u_dmas s) (u_dmas s')" "\<And>p. u_dmas s p \<noteq> None \<Longrightarrow> u_dmas s' p = u_dmas s p" "keeps (\<lambda>_. 1) s s'"
proof -
  note fails = that(1) and works = that(2)
  note D = lib_invD [OF I] and os = env_okD(1) [OF env]
  note C = ctrls_okD [OF D(2) c(1)] and nn = heap_nonnull(2) [OF D(1) c(1)] and ty = heap_typed [OF D(1)]
  from dmas_okD(1) [OF D(6) x(1)] obtain m where m: "u_maps s (dc_map x) = Some m" by blast
  show thesis
  proof (rule ref_get_cases [OF os ty nn c(1) C(2)])
    fix e assume "nvm_ref_get api ctrl s = Some (Inl e, s)" "e \<noteq> 0"
    then show thesis by (intro fails [of e]) (simp_all add: nvm_aq_create_def)
  next
    fix r assume r: "nvm_ref_get api ctrl s = Some (Inr r, pending_ref ctrl c r s)" "r \<noteq> NULL" "r \<notin> fst ` set (u_live s)"
    let ?t = "pending_ref ctrl c r s"
    have a: "u_refs ?t r = Some \<lparr>ar_ctrl = ctrl, ar_handles = [], ar_data = NULL, ar_release = None, ar_stub = None\<rparr>" by (simp add: pending_ref_def)
    show thesis
    proof (rule create_admin_cases [OF os I c(1) x(1) m r(3)])
      fix e assume "create_admin api ctrl w ?t = Some (Inl e, ?t)" "e \<noteq> 0"
      then show thesis using r(1) a ref_put_pending [OF ty nn c(1) C(2) r(2,3)] by (intro fails [of e]) (simp_all add: nvm_aq_create_def)
    next
      fix ad d a0 a1 and y :: dma_container
      let ?l = "\<lparr>la_qmem = d, la_timeout = timeout (c_handle c), la_qp = admin_queues api (c_handle c) (dc_handle y) a0 a1\<rparr>"
      let ?s1 = "added_dma d y (s\<lparr>u_maps := (u_maps s)(dc_map x \<mapsto> m\<lparr>dm_count := dm_count m + 1\<rparr>)\<rparr>)"
      let ?es = "snd (nvm_raw_ctrl_reset (reg_cc api) (reg_csts api) (c_handle c) a0 a1 (u_regs s))"
      let ?s2 = "(bound_ref ctrl c r ad ?l ?s1)\<lparr>u_live := (ad, K_admin) # (d, K_dma) # (r, K_ref) # u_live s, u_regs := ?es\<rparr>"
      assume A: "create_admin api ctrl w ?t = Some (Inr ad, ?t\<lparr>u_live := (ad, K_admin) # (d, K_dma) # u_live ?t,
          u_maps := (u_maps s)(dc_map x \<mapsto> m\<lparr>dm_count := dm_count m + 1\<rparr>), u_dmas := (u_dmas s)(d \<mapsto> y), u_admins := (u_admins s)(ad \<mapsto> ?l)\<rparr>)"
        and f: "ad \<noteq> NULL" "d \<noteq> NULL" "distinct [ad, d, r]" "{ad, d} \<inter> fst ` set (u_live s) = {}"
        and y: "dc_map y = dc_map x" "handle_fits api (dc_handle y)" and len: "length (u_live s) + 4 < 2 ^ 32"
        and g: "arr_get (dma_ioaddrs (dc_handle y)) 0 = Some a0" "arr_get (dma_ioaddrs (dc_handle y)) 1 = Some a1"
      have fd: "d \<notin> fst ` set (u_live s)" using f(4) by simp
      note N = typed_fresh [OF ty fd] and R = typed_fresh [OF ty r(3)]
      have w: "W d = 0" "W r = 0" using owns_fresh [OF D(11,1)] fd r(3) by auto
      have I1: "lib_inv api (W(d := 1)) B ?s1" by (rule handle_shared_inv [OF I m _ x(2) f(2) fd y]) (use len in simp)
      have cd: "ctrl \<noteq> d" using c(1) N by auto
      have "lib_inv api (W(d := 1, la_qmem ?l := 0, r := 1)) B (bound_ref ctrl c r ad ?l ?s1)"
        by (rule bound_ref_inv [OF I1]) (use c cd len r f admin_queues_ok [OF env C(3)] in \<open>auto simp: added_dma_def\<close>)
      moreover have "W(d := 1, la_qmem ?l := 0, r := 1) = W(r := 1)" using w(1) by (auto simp: fun_eq_iff)
      ultimately have "lib_inv api (W(r := 1)) B ?s2" by (intro inv_perm) (simp_all add: bound_ref_def added_dma_def)
      moreover have "nvm_aq_create api ctrl w s = Some (Inr r, ?s2)"
        using r(1) a A g c(1) by (simp add: nvm_aq_create_def bound_ref_def added_dma_def pending_ref_def split: prod.splits)
      ultimately show thesis using r(2) w R N c(1)
        by (intro works [of r ?s2 "\<lparr>ar_ctrl = ctrl, ar_handles = [], ar_data = ad, ar_release = Some Remove_admin, ar_stub = Some Execute_command\<rparr>"])
          (auto simp: bound_ref_def added_dma_def keeps_def)
    qed
  qed
qed

end
