(* ===== verification/Lib_Client.thy ===== *)
theory Lib_Client
  imports Lib_Bind
begin

text \<open>
  The library as its client sees it. The client owns a set of references and a set of buffers; every
  call returns, and states what the client owns afterwards and that nothing else it owns has changed.
\<close>

section \<open>Contracts\<close>

text \<open>A computation that does not fault, with a property of its result.\<close>

definition returns :: "'a option \<Rightarrow> ('a \<Rightarrow> bool) \<Rightarrow> bool" where
  "returns m Q \<longleftrightarrow> (\<exists>x. m = Some x \<and> Q x)"

lemma returns_Some [simp]: "returns (Some x) Q = Q x"
  by (simp add: returns_def)

lemma returns_bind: "returns m Q \<Longrightarrow> (\<And>x. Q x \<Longrightarrow> returns (f x) P) \<Longrightarrow> returns (m \<bind> f) P"
  by (auto simp: returns_def)

lemma returns_mono: "returns m Q \<Longrightarrow> (\<And>x. Q x \<Longrightarrow> P x) \<Longrightarrow> returns m P"
  by (auto simp: returns_def)

lemma returnsI: "m = Some x \<Longrightarrow> Q x \<Longrightarrow> returns m Q"
  by (simp add: returns_def)

lemma returnsD: "returns m Q \<Longrightarrow> \<exists>x. m = Some x \<and> Q x"
  by (simp add: returns_def)

definition ind :: "ptr set \<Rightarrow> ptr \<Rightarrow> nat" where
  "ind A p = (if p \<in> A then 1 else 0)"

lemma ind_upd [simp]: "(ind A)(p := Suc 0) = ind (insert p A)" "(ind A)(p := 0) = ind (A - {p})" "ind A p \<le> Suc 0" "(ind A p = 0) = (p \<notin> A)" "(ind A p = Suc 0) = (p \<in> A)"
  by (auto simp: ind_def fun_eq_iff)

abbreviation owned :: "ustate uapi \<Rightarrow> ptr set \<Rightarrow> u64 set \<Rightarrow> ustate \<Rightarrow> bool" where
  "owned api A B s \<equiv> lib_inv api (ind A) B s"

text \<open>What the client owns is unchanged: controller handles, DMA handles and references.\<close>

definition stable :: "ptr set \<Rightarrow> ustate \<Rightarrow> ustate \<Rightarrow> bool" where
  "stable A s s' \<longleftrightarrow> (\<forall>p\<in>A. (\<forall>c. u_ctrls s p = Some c \<longrightarrow> (\<exists>c'. u_ctrls s' p = Some c' \<and> c_handle c' = c_handle c \<and> c_type c' = c_type c)) \<and>
     (u_dmas s p \<noteq> None \<longrightarrow> u_dmas s' p = u_dmas s p) \<and> (u_refs s p \<noteq> None \<longrightarrow> u_refs s' p = u_refs s p))"

lemma stable_refl [simp]: "stable A s s"
  by (simp add: stable_def)

lemma stable_trans: "stable A s t \<Longrightarrow> stable A t u \<Longrightarrow> stable A s u"
  unfolding stable_def by (metis option.distinct(1))

lemma stable_mono: "stable A s s' \<Longrightarrow> A' \<subseteq> A \<Longrightarrow> stable A' s s'"
  by (auto simp: stable_def)

lemma stableD:
  assumes "stable A s s'" "p \<in> A"
  shows "u_ctrls s p = Some c \<Longrightarrow> \<exists>c'. u_ctrls s' p = Some c' \<and> c_handle c' = c_handle c \<and> c_type c' = c_type c"
    "u_dmas s p = Some x \<Longrightarrow> u_dmas s' p = Some x" "u_refs s p = Some a \<Longrightarrow> u_refs s' p = Some a"
  using assms by (auto simp: stable_def)

lemma stableI:
  assumes "keeps W s s'" "\<And>p. p \<in> A \<Longrightarrow> W p \<noteq> 0" "\<And>p. p \<in> A \<Longrightarrow> u_dmas s p \<noteq> None \<Longrightarrow> u_dmas s' p = u_dmas s p"
    "\<And>p. p \<in> A \<Longrightarrow> u_refs s p \<noteq> None \<Longrightarrow> u_refs s' p = u_refs s p"
  shows "stable A s s'"
  using assms unfolding stable_def keeps_def by blast

section \<open>Controllers, mappings and references\<close>

lemma own_ctrl_init:
  assumes "env_ok api" "owned api A B s"
  shows "returns (nvm_ctrl_init api fd s) (\<lambda>(x, s'). stable A s s' \<and> (case x of Inl e \<Rightarrow> owned api A B s'
    | Inr p \<Rightarrow> owned api (insert p A) B s' \<and> p \<notin> A \<and> p \<noteq> NULL \<and> u_ctrls s' p \<noteq> None))"
proof (rule ctrl_init_inv [OF assms, of fd])
  fix e s' assume "nvm_ctrl_init api fd s = Some (Inl e, s')" "owned api A B s'" "\<exists>ks. s' = ulog ks s \<and> neutral ks"
  then show ?thesis by (auto simp: stable_def ulog_def)
next
  fix p s' c assume "nvm_ctrl_init api fd s = Some (Inr p, s')" "lib_inv api ((ind A)(p := 1)) B s'" "p \<noteq> NULL" "ind A p = 0" "u_ctrls s p = None"
    "u_ctrls s' = (u_ctrls s)(p \<mapsto> c) \<and> u_dmas s' = u_dmas s \<and> u_admins s' = u_admins s \<and> u_refs s' = u_refs s"
  then show ?thesis by (auto simp: stable_def)
qed

lemma own_ctrl_free:
  assumes "owned api A B s" "p \<in> A" "u_ctrls s p \<noteq> None"
  shows "returns (nvm_ctrl_free p s) (\<lambda>s'. owned api (A - {p}) B s' \<and> stable (A - {p}) s s')"
proof -
  obtain c where c: "u_ctrls s p = Some c" using assms(3) by blast
  have n: "ind A p = Suc 0" using assms(2) by simp
  from ctrl_put_inv [OF assms(1) c n] obtain s' where s': "nvm_ctrl_put p s = Some s'" "lib_inv api ((ind A)(p := 0)) B s'" "keeps ((ind A)(p := 0)) s s'"
    "u_vas s' = u_vas s \<and> u_maps s' = u_maps s \<and> u_dmas s' = u_dmas s \<and> u_admins s' = u_admins s \<and> u_refs s' = u_refs s" .
  have "stable (A - {p}) s s'" by (rule stableI [OF s'(3)]) (use s'(4) in \<open>auto simp: ind_def\<close>)
  then show ?thesis using s' heap_nonnull(2) [OF lib_invD(1) [OF assms(1)] c] by (simp add: nvm_ctrl_free_def)
qed

lemma own_map_host:
  assumes "env_ok api" "owned api A B s" "u_ctrls s ctrl \<noteq> None"
  shows "returns (nvm_dma_map_host api ctrl b n s) (\<lambda>(x, s'). case x of Inl e \<Rightarrow> s' = s
    | Inr d \<Rightarrow> owned api (insert d A) B s' \<and> stable A s s' \<and> d \<notin> A \<and> d \<noteq> NULL \<and> (\<exists>y. u_dmas s' d = Some y \<and> dma_vaddr (dc_handle y) = b \<and>
        dma_n_ioaddrs (dc_handle y) = NVM_PAGE_ALIGN (NVM_PAGE_ALIGN n (sc_pagesize api)) (sc_pagesize api) div sc_pagesize api \<and> dma_n_ioaddrs (dc_handle y) \<noteq> 0))"
proof -
  obtain c where c: "u_ctrls s ctrl = Some c" using assms(3) by blast
  have w: "ind A ctrl \<le> 1" by simp
  show ?thesis
  proof (rule map_host_inv [OF env_okD(1) [OF assms(1)] assms(2) c w, of b n])
    fix e assume "nvm_dma_map_host api ctrl b n s = Some (Inl e, s)"
    then show ?thesis by simp
  next
    fix d s' x assume A: "nvm_dma_map_host api ctrl b n s = Some (Inr d, s')" "lib_inv api ((ind A)(d := 1)) B s'" "d \<noteq> NULL" "ind A d = 0" "u_dmas s d = None"
      "u_dmas s' = (u_dmas s)(d \<mapsto> x) \<and> u_admins s' = u_admins s \<and> u_refs s' = u_refs s" "keeps (\<lambda>_. 1) s s'" "dma_vaddr (dc_handle x) = b"
      "dma_n_ioaddrs (dc_handle x) = NVM_PAGE_ALIGN (NVM_PAGE_ALIGN n (sc_pagesize api)) (sc_pagesize api) div sc_pagesize api" "dma_n_ioaddrs (dc_handle x) \<noteq> 0"
    have "stable A s s'" by (rule stableI [OF A(7)]) (use A(5,6) in auto)
    then show ?thesis using A by simp
  qed
qed

text \<open>The pages of a mapped range cover it.\<close>

lemma page_exp:
  assumes "env_ok api" "ps \<in> {2 ^ 16, sc_pagesize api}"
  obtains k j where "sc_pagesize api = 2 ^ k" "ps = 2 ^ j" "k \<le> j" "j \<le> 16"
proof -
  have "sc_pagesize api \<in> {2 ^ 12, 2 ^ 13, 2 ^ 14, 2 ^ 15, 2 ^ 16}" using env_okD(2) [OF assms(1)] by simp
  then have "\<exists>k\<in>{12, 13, 14, 15, 16}. sc_pagesize api = 2 ^ k" by auto
  then obtain k where k: "sc_pagesize api = 2 ^ k" "k \<in> {12, 13, 14, 15, 16}" by blast
  then have "k \<le> 16" by auto
  with k(1) show thesis using assms(2) that [of k 16] that [of k k] by auto
qed

lemma ceil_div_le:
  assumes "n \<le> m * p" "0 < p"
  shows "ceil_div n p \<le> m"
proof -
  have "n + p - 1 < (m + 1) * p" using assms by simp
  then have "(n + p - 1) div p < m + 1" by (rule less_mult_imp_div_less)
  then show ?thesis by (simp add: ceil_div_def)
qed

lemma pages_cover:
  assumes env: "env_ok api" and ps: "ps \<in> {2 ^ 16, sc_pagesize api}" and n: "unat n < 2 ^ 63"
  shows "ceil_div (unat n) (unat (sc_pagesize api)) \<le> unat (ps * (NVM_PAGE_ALIGN n ps div ps) div sc_pagesize api)"
proof -
  from page_exp [OF env ps] obtain k j where e: "sc_pagesize api = 2 ^ k" "ps = 2 ^ j" "k \<le> j" "j \<le> 16" .
  have u: "unat (2 ^ j :: u64) = 2 ^ j" "unat (2 ^ k :: u64) = 2 ^ k" using e by (simp_all add: unat_pow2)
  have "(2 :: nat) ^ j \<le> 2 ^ 16" using e(4) by (rule power_increasing) simp
  then have b: "unat n + 2 ^ j \<le> 2 ^ 64" using n by simp
  let ?m = "(unat n + 2 ^ j - 1) div 2 ^ j"
  have al: "unat (NVM_PAGE_ALIGN n (2 ^ j)) = ?m * 2 ^ j" using e(4) b by (intro NVM_PAGE_ALIGN_pow2) simp_all
  then have lt: "?m * 2 ^ j < 2 ^ 64" using unat_bound [of "NVM_PAGE_ALIGN n (2 ^ j)"] by simp
  have "unat (2 ^ j * (NVM_PAGE_ALIGN n (2 ^ j) div 2 ^ j)) = ?m * 2 ^ j"
    using lt by (simp add: unat_word_ariths(2) unat_div_distrib u al mult.commute)
  then have q: "unat (ps * (NVM_PAGE_ALIGN n ps div ps) div sc_pagesize api) = ?m * 2 ^ j div 2 ^ k" by (simp add: e(1,2) unat_div_distrib u)
  have le: "unat n \<le> ?m * 2 ^ j" using dividend_less_div_times [of "2 ^ j" "unat n + 2 ^ j - 1"] by simp
  have m: "?m * 2 ^ j = ?m * 2 ^ (j - k) * 2 ^ k" using e(3) by (simp add: power_add [symmetric] mult.assoc)
  have "ceil_div (unat n) (2 ^ k) \<le> ?m * 2 ^ (j - k)" by (rule ceil_div_le [OF le [unfolded m]]) simp
  also have "\<dots> = ?m * 2 ^ j div 2 ^ k" unfolding m by (rule nonzero_mult_div_cancel_right [symmetric]) simp
  finally show ?thesis unfolding q by (simp add: e(1) u)
qed

lemma own_map_device:
  assumes "env_ok api" "owned api A B s" "u_ctrls s ctrl \<noteq> None"
  shows "returns (nvm_dma_map_device api ctrl b n s) (\<lambda>(x, s'). stable A s s' \<and> (case x of Inl e \<Rightarrow> owned api A B s'
    | Inr d \<Rightarrow> owned api (insert d A) B s' \<and> d \<notin> A \<and> d \<noteq> NULL \<and> (\<exists>y. u_dmas s' d = Some y \<and>
        (unat n < 2 ^ 63 \<longrightarrow> ceil_div (unat n) (unat (sc_pagesize api)) \<le> unat (dma_n_ioaddrs (dc_handle y))))))"
proof -
  obtain c where c: "u_ctrls s ctrl = Some c" using assms(3) by blast
  have w: "ind A ctrl \<le> 1" by simp
  show ?thesis
  proof (rule map_device_inv [OF env_okD(1) [OF assms(1)] assms(2) c w, of b n])
    fix e s' assume A: "nvm_dma_map_device api ctrl b n s = Some (Inl e, s')" "owned api A B s'"
      "u_dmas s' = u_dmas s \<and> u_admins s' = u_admins s \<and> u_refs s' = u_refs s" "keeps (\<lambda>_. 1) s s'"
    have "stable A s s'" by (rule stableI [OF A(4)]) (use A(3) in auto)
    then show ?thesis using A by simp
  next
    fix d s' x assume A: "nvm_dma_map_device api ctrl b n s = Some (Inr d, s')" "lib_inv api ((ind A)(d := 1)) B s'" "d \<noteq> NULL" "ind A d = 0" "u_dmas s d = None"
      "u_dmas s' = (u_dmas s)(d \<mapsto> x) \<and> u_admins s' = u_admins s \<and> u_refs s' = u_refs s" "keeps (\<lambda>_. 1) s s'"
      "\<exists>ps\<in>{2 ^ 16, sc_pagesize api}. dma_n_ioaddrs (dc_handle x) = ps * (NVM_PAGE_ALIGN n ps div ps) div sc_pagesize api"
    have "stable A s s'" by (rule stableI [OF A(7)]) (use A(5,6) in auto)
    moreover have "ceil_div (unat n) (unat (sc_pagesize api)) \<le> unat (dma_n_ioaddrs (dc_handle x))" if "unat n < 2 ^ 63"
      using A(8) pages_cover [OF assms(1) _ that] by auto
    ultimately show ?thesis using A by simp
  qed
qed

lemma own_dma_unmap:
  assumes "owned api A B s" "d \<in> A" "u_dmas s d \<noteq> None"
  shows "returns (nvm_dma_unmap d s) (\<lambda>s'. owned api (A - {d}) B s' \<and> stable (A - {d}) s s')"
proof -
  obtain x where x: "u_dmas s d = Some x" using assms(3) by blast
  have n: "ind A d = 1" using assms(2) by simp
  from dma_unmap_inv [OF assms(1) x n] obtain s' where s': "nvm_dma_unmap d s = Some s'" "lib_inv api ((ind A)(d := 0)) B s'" "keeps ((ind A)(d := 0)) s s'"
    "u_dmas s' = (u_dmas s)(d := None) \<and> u_admins s' = u_admins s \<and> u_refs s' = u_refs s" .
  have "stable (A - {d}) s s'" by (rule stableI [OF s'(3)]) (use s'(4) in \<open>auto simp: ind_def\<close>)
  then show ?thesis using s' by simp
qed

lemma own_aq_create:
  assumes "env_ok api" "owned api A B s" "u_ctrls s ctrl \<noteq> None" "u_dmas s w \<noteq> None"
  shows "returns (nvm_aq_create api ctrl w s) (\<lambda>(x, s'). case x of Inl e \<Rightarrow> s' = s
    | Inr r \<Rightarrow> owned api (insert r A) B s' \<and> stable A s s' \<and> r \<notin> A \<and> r \<noteq> NULL \<and> (\<exists>a. u_refs s' r = Some a \<and> ar_ctrl a = ctrl))"
proof -
  obtain c x where c: "u_ctrls s ctrl = Some c" and x: "u_dmas s w = Some x" using assms(3,4) by blast
  have w: "ind A ctrl \<le> 1" "ind A (dc_map x) \<le> 1" by simp_all
  show ?thesis
  proof (rule aq_create_inv [OF assms(1,2) c w(1) x w(2)])
    fix e assume "nvm_aq_create api ctrl w s = Some (Inl e, s)"
    then show ?thesis by simp
  next
    fix r s' a assume A: "nvm_aq_create api ctrl w s = Some (Inr r, s')" "lib_inv api ((ind A)(r := 1)) B s'" "r \<noteq> NULL" "ind A r = 0" "u_refs s r = None"
      "u_refs s' = (u_refs s)(r \<mapsto> a)" "ar_ctrl a = ctrl" "\<And>p. u_dmas s p \<noteq> None \<Longrightarrow> u_dmas s' p = u_dmas s p" "keeps (\<lambda>_. 1) s s'"
    have "stable A s s'" by (rule stableI [OF A(9)]) (use A(5,6,8) in auto)
    then show ?thesis using A by simp
  qed
qed

lemma own_aq_destroy:
  assumes "owned api A B s" "r \<in> A" "u_refs s r \<noteq> None"
  shows "returns (nvm_aq_destroy r s) (\<lambda>s'. owned api (A - {r}) B s' \<and> stable (A - {r}) s s')"
proof -
  obtain a where a: "u_refs s r = Some a" using assms(3) by blast
  from ref_put_inv [OF assms(1) a] obtain s' l where s': "nvm_ref_put r s = Some s'" "lib_inv api ((ind A)(r := 0)) B s'" "keeps ((ind A)(r := 0)) s s'"
    "u_admins s (ar_data a) = Some l" "u_dmas s' = (u_dmas s)(la_qmem l := None) \<and> u_refs s' = (u_refs s)(r := None)" "ind A (la_qmem l) = 0" .
  have "stable (A - {r}) s s'" by (rule stableI [OF s'(3)]) (use s'(5,6) in \<open>auto simp: ind_def\<close>)
  then show ?thesis using s' heap_nonnull(7) [OF lib_invD(1) [OF assms(1)] a] by (simp add: nvm_aq_destroy_def)
qed

section \<open>Buffers\<close>

lemma own_free_buf:
  assumes "owned api A B s" "b = 0 \<or> b \<in> B"
  shows "returns (free_buf b s) (\<lambda>s'. owned api A (B - {b}) s' \<and> stable A s s')"
proof (cases "b = 0")
  case True
  have "0 \<notin> B" using bufs_okD(2) [OF lib_invD(9) [OF assms(1)]] bufs_okD(3) [OF lib_invD(9) [OF assms(1)], of 0] by (auto split: if_splits)
  then show ?thesis using True assms(1) by (simp add: free_buf_def)
next
  case False
  then have "b \<in> B" using assms(2) by blast
  from inv_buf_drop [OF assms(1) this] show ?thesis using False by (simp add: free_buf_def stable_def)
qed

section \<open>Admin commands\<close>

text \<open>Only the admin queues changed.\<close>

definition only_admins :: "ustate \<Rightarrow> ustate \<Rightarrow> bool" where
  "only_admins s s' \<longleftrightarrow> (\<exists>ads. s' = s\<lparr>u_admins := ads\<rparr>)"

lemma only_adminsD:
  assumes "only_admins s s'"
  shows "u_ctrls s' = u_ctrls s" "u_dmas s' = u_dmas s" "u_refs s' = u_refs s" "stable A s s'"
  using assms by (auto simp: only_admins_def stable_def)

lemma only_admins_refl: "only_admins s s"
  unfolding only_admins_def by (rule exI [of _ "u_admins s"]) simp

lemma only_admins_trans: "only_admins s t \<Longrightarrow> only_admins t u \<Longrightarrow> only_admins s u"
  by (auto simp: only_admins_def)

lemma own_raw_rpc:
  assumes "owned api A B s" "u_refs s r \<noteq> None"
  shows "returns (nvm_raw_rpc api r cmd cpl s) (\<lambda>((e, c), s'). owned api A B s' \<and> only_admins s s' \<and>
    (nvm_ok e \<longrightarrow> (\<exists>cid. last_command (unat (sc_pagesize api) div 64) (rpc_history r s') = Some (set_cid cmd cid))))"
proof -
  obtain a where a: "u_refs s r = Some a" using assms(2) by blast
  show ?thesis
  proof (rule raw_rpc_inv [OF assms(1) a, of cmd cpl])
    fix e c l cid
    let ?s = "s\<lparr>u_admins := (u_admins s)(ar_data a \<mapsto> l)\<rparr>"
    assume A: "nvm_raw_rpc api r cmd cpl s = Some ((e, c), ?s)" "owned api A B ?s"
      "nvm_ok e \<Longrightarrow> last_command (unat (sc_pagesize api) div 64) (events (la_qp l)) = Some (set_cid cmd cid)"
    have "rpc_history r ?s = events (la_qp l)" using a by (simp add: rpc_history_def)
    then show ?thesis using A by (auto simp: only_admins_def)
  qed
qed

lemma own_cq_delete:
  assumes "owned api A B s" "u_refs s r \<noteq> None"
  shows "returns (nvm_admin_cq_delete api r q s) (\<lambda>(x, s'). owned api A B s' \<and> only_admins s s')"
proof (cases "db q = 0")
  case False
  then show ?thesis unfolding nvm_admin_cq_delete_def
    by (auto intro!: returns_bind [OF own_raw_rpc [OF assms]])
qed (use assms(1) in \<open>simp add: nvm_admin_cq_delete_def only_admins_refl\<close>)

lemma own_sq_delete:
  assumes "owned api A B s" "u_refs s r \<noteq> None"
  shows "returns (nvm_admin_sq_delete api r q (Some c) s) (\<lambda>(x, s'). owned api A B s' \<and> only_admins s s')"
proof (cases "db c = 0 \<or> db q = 0")
  case False
  then show ?thesis unfolding nvm_admin_sq_delete_def
    by (auto intro!: returns_bind [OF own_raw_rpc [OF assms]])
qed (use assms(1) in \<open>auto simp: nvm_admin_sq_delete_def only_admins_refl\<close>)

text \<open>A new completion or submission queue, of 2 to 65536 entries.\<close>

lemma clear_ok: "nvm_queue_clear q ctrl b no n loc v a = (0, q') \<Longrightarrow> head q' = 0 \<and> tail q' = 0 \<and> q_last q' = 0 \<and> qs q' = n \<and> 2 \<le> n \<and> n \<le> 0x10000 \<and>
   db q' = (if b then CQ_DBL (mm_ptr ctrl) no (dstrd ctrl) else SQ_DBL (mm_ptr ctrl) no (dstrd ctrl))"
  by (auto simp: nvm_queue_clear_def split: if_splits)

definition new_queue :: "bool \<Rightarrow> u16 \<Rightarrow> u64 \<Rightarrow> nvm_ctrl \<Rightarrow> nvm_queue \<Rightarrow> bool" where
  "new_queue b no n ctrl q \<longleftrightarrow> head q = 0 \<and> tail q = 0 \<and> q_last q = 0 \<and> (n \<noteq> 0 \<longrightarrow> qs q = ucast n) \<and> 2 \<le> qs q \<and> qs q \<le> 0x10000 \<and>
     db q = (if b then CQ_DBL (mm_ptr ctrl) no (dstrd ctrl) else SQ_DBL (mm_ptr ctrl) no (dstrd ctrl))"

lemma new_queueI: "nvm_queue_clear q ctrl b no m loc v a = (0, q') \<Longrightarrow> (n \<noteq> 0 \<Longrightarrow> m = ucast n) \<Longrightarrow> new_queue b no n ctrl q'"
  by (auto simp: new_queue_def dest!: clear_ok)

lemma first_page:
  assumes "lib_inv api W B s" "u_dmas s d = Some x" "k \<noteq> 0" "k \<le> dma_n_ioaddrs (dc_handle x)"
  shows "\<exists>v. arr_get (dma_ioaddrs (dc_handle x)) 0 = Some v"
proof -
  have "0 < unat k" using assms(3) by (simp add: unat_gt_0)
  then have "0 < length (dma_ioaddrs (dc_handle x))" using assms(4) dmas_okD(3) [OF lib_invD(6) [OF assms(1)] assms(2)] by (simp add: word_le_nat_alt)
  then show ?thesis by (intro exI, rule arr_get_SomeI)
qed

lemma ref_ctrl:
  assumes I: "lib_inv api W B s" and a: "u_refs s r = Some a"
  obtains c where "u_ctrls s (ar_ctrl a) = Some c" "ar_ctrl a \<noteq> NULL" "r \<noteq> NULL" "page_size (c_handle c) \<noteq> 0"
proof -
  note D = lib_invD [OF I]
  obtain c where c: "u_ctrls s (ar_ctrl a) = Some c" using refs_okD(1) [OF D(8) a] by blast
  then show thesis using heap_nonnull(2) [OF D(1) c] heap_nonnull(7) [OF D(1) a] ctrls_okD(3) [OF D(2) c] by (intro that [of c]) (simp_all add: handle_ok_def)
qed

text \<open>The common end of both functions: the queue is described, and the controller is told.\<close>

lemma create_queue:
  assumes I: "owned api A B s" and a: "u_refs s r = Some a" and c: "u_ctrls s (ar_ctrl a) = Some c" and x: "u_dmas s d = Some x"
    and k: "k \<le> dma_n_ioaddrs (dc_handle x)" "k \<noteq> 0" and n: "n \<noteq> 0 \<Longrightarrow> m = ucast n"
  shows "returns (do {
      ioaddr \<leftarrow> arr_get (dma_ioaddrs (dc_handle x)) 0;
      case nvm_queue_clear q0 (c_handle c) b no m loc v ioaddr of (err, queue) \<Rightarrow>
        if err \<noteq> 0 then Some (Inl (NVM_ERR_PACK None err), s)
        else do {
          ((err, cpl), s) \<leftarrow> nvm_raw_rpc api r (cmd queue ioaddr) zero_cpl s;
          if \<not> nvm_ok err then Some (Inl err, s) else Some (Inr queue, s) } })
    (\<lambda>(y, s'). owned api A B s' \<and> only_admins s s' \<and>
      (case y of Inl e \<Rightarrow> True | Inr q \<Rightarrow> \<exists>a c. u_refs s r = Some a \<and> u_ctrls s (ar_ctrl a) = Some c \<and> new_queue b no n (c_handle c) q))"
proof -
  from first_page [OF I x k(2,1)] obtain io where io: "arr_get (dma_ioaddrs (dc_handle x)) 0 = Some io" ..
  obtain err q where q: "nvm_queue_clear q0 (c_handle c) b no m loc v io = (err, q)" by fastforce
  have r: "u_refs s r \<noteq> None" using a by simp
  show ?thesis
  proof (cases "err = 0")
    case True
    then have "new_queue b no n (c_handle c) q" using new_queueI [OF q [unfolded True]] n by blast
    then show ?thesis using io q True a c by (auto intro!: returns_bind [OF own_raw_rpc [OF I r]])
  qed (use io q I in \<open>simp add: only_admins_refl\<close>)
qed

lemma own_cq_create:
  assumes I: "owned api A B s" and r: "u_refs s r \<noteq> None" and d: "u_dmas s d \<noteq> None"
  shows "returns (nvm_admin_cq_create api r no d 0 n np s) (\<lambda>(x, s'). owned api A B s' \<and> only_admins s s' \<and>
    (case x of Inl e \<Rightarrow> True | Inr q \<Rightarrow> \<exists>a c. u_refs s r = Some a \<and> u_ctrls s (ar_ctrl a) = Some c \<and> new_queue True no n (c_handle c) q))"
proof -
  obtain a x where a: "u_refs s r = Some a" and x: "u_dmas s d = Some x" using r d by blast
  from ref_ctrl [OF I a] obtain c where c: "u_ctrls s (ar_ctrl a) = Some c" "ar_ctrl a \<noteq> NULL" "r \<noteq> NULL" "page_size (c_handle c) \<noteq> 0" .
  show ?thesis
    unfolding nvm_admin_cq_create_def Let_def nvm_ctrl_from_aq_ref_def
    using a x c I by (auto simp: only_admins_refl not_less intro!: create_queue [OF I a c(1) x])
qed

lemma own_sq_create:
  assumes I: "owned api A B s" and r: "u_refs s r \<noteq> None" and d: "u_dmas s d \<noteq> None"
  shows "returns (nvm_admin_sq_create api r cqueue no d 0 n np s) (\<lambda>(x, s'). owned api A B s' \<and> only_admins s s' \<and>
    (case x of Inl e \<Rightarrow> True | Inr q \<Rightarrow> \<exists>a c. u_refs s r = Some a \<and> u_ctrls s (ar_ctrl a) = Some c \<and> new_queue False no n (c_handle c) q))"
proof -
  obtain a x where a: "u_refs s r = Some a" and x: "u_dmas s d = Some x" using r d by blast
  from ref_ctrl [OF I a] obtain c where c: "u_ctrls s (ar_ctrl a) = Some c" "ar_ctrl a \<noteq> NULL" "r \<noteq> NULL" "page_size (c_handle c) \<noteq> 0" .
  show ?thesis
    unfolding nvm_admin_sq_create_def Let_def nvm_ctrl_from_aq_ref_def
    using a x c I by (auto simp: only_admins_refl not_less intro!: create_queue [OF I a c(1) x])
qed

end
