(* ===== verification/Lib_Identify.thy ===== *)
theory Lib_Identify
  imports Lib_Client
begin

text \<open>
  Identification of controller and namespace through the admin queue: with a controller that follows the
  specification the replies are parsed without a fault, and what the client takes from them is bounded.
\<close>

section \<open>Replies\<close>

text \<open>
  What the NVMe specification says of the pages that a controller returns: 4096 bytes, a maximum transfer
  size below \<open>2 ^ 64\<close> units, and blocks of 512 to 4096 bytes in the format in use.
\<close>

definition ctrl_page :: "u8 list \<Rightarrow> bool" where
  "ctrl_page bs \<longleftrightarrow> 4096 \<le> length bs \<and> bs ! 77 < 64"

definition lba_shift :: "u8 list \<Rightarrow> u8" where
  "lba_shift bs = bs ! (130 + 4 * (unat (bs ! 26) mod 16))"

definition ns_page :: "u8 list \<Rightarrow> bool" where
  "ns_page bs \<longleftrightarrow> 4096 \<le> length bs \<and> 9 \<le> lba_shift bs \<and> lba_shift bs \<le> 12"

definition identifies :: "u32 \<Rightarrow> nvm_cmd \<Rightarrow> bool" where
  "identifies cns c \<longleftrightarrow> c ! 0 AND 0xff = 6 \<and> c ! 10 = cns"

definition ident_ok :: "ustate uapi \<Rightarrow> bool" where
  "ident_ok api \<longleftrightarrow> (\<forall>es a c. last_command (unat (sc_pagesize api) div 64) es = Some c \<longrightarrow>
     (identifies 1 c \<longrightarrow> ctrl_page (dma_bytes api es a)) \<and> (identifies 0 c \<longrightarrow> ns_page (dma_bytes api es a)))"

lemma mem_range_total: "off + n \<le> length bs \<Longrightarrow> mem_range bs off n = Some (take n (drop off bs))"
  by (simp add: mem_range_def arr_prefix_Some)

lemma mem_le_total: "off + n \<le> length bs \<Longrightarrow> \<exists>v. mem_le bs off n = Some v"
  by (simp add: mem_le_def mem_range_total)

lemma unat_ucast_8_64: "unat (ucast (x :: u8) :: u64) = unat x"
  using unat_bound [of x] by (simp add: unsigned_ucast_eq take_bit_nat_eq_self)

lemma low_byte: "(x OR push_bit 16 y) AND 0xff = x AND (0xff :: u32)"
proof -
  have m: "(0xff :: u32) = mask 8" by (simp add: mask_eq_exp_minus_1)
  show ?thesis unfolding m by (rule bit_word_eqI) (auto simp: bit_simps)
qed

lemma identify_opcode: "NVM_ADMIN_IDENTIFY = 6"
  by code_simp

lemma identifies_cmds:
  "identifies 1 (set_cid (admin_identify_ctrl zero_cmd a) cid)" "identifies 0 (set_cid (admin_identify_ns zero_cmd ns a) cid)"
  by (simp_all add: identifies_def set_cid_def admin_identify_ctrl_def admin_identify_ns_def nvm_cmd_data_ptr_def nvm_cmd_header_def zero_cmd_def low_byte
      identify_opcode)

text \<open>The limit on a transfer that a controller reports: none, or a power of two.\<close>

definition xfer_size :: "u64 \<Rightarrow> bool" where
  "xfer_size m \<longleftrightarrow> m = 0 \<or> (\<exists>k. 12 \<le> k \<and> k < 64 \<and> m = 2 ^ k)"

lemma parse_ctrl_total:
  assumes "ctrl_page bs" "i_page_size info \<noteq> 0"
  obtains info' where "parse_ctrl cap bs info = Some info'" "i_page_size info' = i_page_size info"
    "xfer_size (i_max_data_size info')"
proof -
  have len: "4096 \<le> length bs" and m: "bs ! 77 < 64" using assms(1) by (simp_all add: ctrl_page_def)
  have "unat (CAP_MPSMIN cap) < 16" using unat_RB_less [of 48 51 cap] by (simp add: CAP_MPSMIN_def)
  then have u: "unat (12 + CAP_MPSMIN cap) = 12 + unat (CAP_MPSMIN cap)" by (simp add: unat_word_ariths)
  then have mp: "12 + CAP_MPSMIN cap < 64" using \<open>unat (CAP_MPSMIN cap) < 16\<close> by (simp add: word_less_nat_alt)
  have mu: "(ucast (bs ! 77) :: u64) < 64" using m by (simp add: word_less_nat_alt unsigned_ucast_eq take_bit_nat_eq_self)
  have nib: "(RB v 3 0 :: u64) < 32" for v using unat_RB_less [of 0 3 v] by (simp add: word_less_nat_alt)
  have g: "arr_get bs 77 = Some (bs ! 77)" "arr_get bs 512 = Some (bs ! 512)" "arr_get bs 513 = Some (bs ! 513)" using len by (simp_all add: arr_get_def)
  obtain c n where v: "mem_le bs 514 2 = Some c" "mem_le bs 516 4 = Some n" using mem_le_total [of 514 2 bs] mem_le_total [of 516 4 bs] len by auto
  let ?e = "unat (ucast (bs ! 77) :: u64) + unat (12 + CAP_MPSMIN cap)"
  have p: "push_bit (unat (ucast (bs ! 77) :: u64)) 1 * push_bit (unat (12 + CAP_MPSMIN cap)) 1 = (2 ^ ?e :: u64)"
    by (simp add: push_bit_eq_mult power_add)
  have r: "\<exists>info'. parse_ctrl cap bs info = Some info' \<and> i_page_size info' = i_page_size info \<and> i_max_data_size info' = 2 ^ ?e"
    using len g v mp mu nib assms(2) p by (simp add: parse_ctrl_def mem_range_total shl_long_def shl_int_def)
  have "2 ^ ?e = (0 :: u64)" if "64 \<le> ?e" using that by simp
  moreover have "12 \<le> ?e" using u by simp
  ultimately have "xfer_size (2 ^ ?e)" unfolding xfer_size_def by (cases "?e < 64") (blast, simp)
  then show thesis using r that by metis
qed

text \<open>The size of the blocks, from the format in use.\<close>

lemma third_byte:
  assumes "a < 256" "b < 256" "c < 256"
  shows "(a + 256 * (b + 256 * (c + 256 * d))) div 65536 mod 256 = (c :: nat)"
proof -
  have "a + 256 * (b + 256 * (c + 256 * d)) = (a + 256 * b) + (c + 256 * d) * 65536" by simp
  moreover have "(a + 256 * b) div 65536 = 0" using assms by simp
  ultimately have "(a + 256 * (b + 256 * (c + 256 * d))) div 65536 = c + 256 * d" by (simp only: div_mult_self3) simp
  then show ?thesis using assms(3) by simp
qed

lemma RB_of_nat: "n < 2 ^ 64 \<Longrightarrow> unat (RB (of_nat n :: u64) 23 16) = n div 65536 mod 256"
  by (simp add: unat_RB unsigned_of_nat take_bit_nat_eq_self)

lemma lba_data_size:
  assumes "ns_page bs"
  obtains info' where "parse_ns bs info = Some info'" "n_lba_data_size info' \<in> {0x200, 0x400, 0x800, 0x1000}" "n_ns_id info' = n_ns_id info"
proof -
  have len: "4096 \<le> length bs" and l: "9 \<le> lba_shift bs" "lba_shift bs \<le> 12" using assms by (simp_all add: ns_page_def)
  define f where "f = unat (RB (ucast (bs ! 26) :: u64) 3 0)"
  have f: "f = unat (bs ! 26) mod 16" unfolding f_def by (simp add: unat_RB unat_ucast_8_64)
  let ?o = "128 + 4 * f"
  have f16: "f < 16" unfolding f by simp
  then have o: "?o + 4 \<le> length bs" using len by simp
  then have bytes: "take 4 (drop ?o bs) = [bs ! ?o, bs ! (?o + 1), bs ! (?o + 2), bs ! (?o + 3)]"
    by (intro nth_equalityI) (auto simp: less_Suc_eq numeral_eq_Suc)
  let ?n = "unat (bs ! ?o) + 256 * (unat (bs ! (?o + 1)) + 256 * (unat (bs ! (?o + 2)) + 256 * unat (bs ! (?o + 3))))"
  have b: "unat (bs ! i) < 256" for i using unat_bound [of "bs ! i"] by simp
  have fmt: "mem_le bs ?o 4 = Some (of_nat ?n)" using o bytes by (simp add: mem_le_def mem_range_total)
  have n: "?n < 2 ^ 64" using b [of ?o] b [of "?o + 1"] b [of "?o + 2"] b [of "?o + 3"] by simp
  have "unat (RB (of_nat ?n :: u64) 23 16) = ?n div 65536 mod 256" by (rule RB_of_nat [OF n])
  also have "\<dots> = unat (bs ! (?o + 2))" using b [of ?o] b [of "?o + 1"] b [of "?o + 2"] by (rule third_byte)
  also have "\<dots> = unat (lba_shift bs)" by (simp add: lba_shift_def f add.commute)
  finally have sh: "unat (RB (of_nat ?n :: u64) 23 16) = unat (lba_shift bs)" .
  obtain a c e where v: "mem_le bs 0 8 = Some a" "mem_le bs 8 8 = Some c" "mem_le bs 16 8 = Some e"
    using mem_le_total [of 0 8 bs] mem_le_total [of 8 8 bs] mem_le_total [of 16 8 bs] len by auto
  have "unat (lba_shift bs) \<in> {9, 10, 11, 12}" using l by (auto simp: word_le_nat_alt)
  then have "\<exists>d. shl_int (RB (of_nat ?n) 23 16) = Some d \<and> d \<in> {0x200, 0x400, 0x800, 0x1000}"
    using sh by (auto simp: shl_int_def word_less_nat_alt)
  then obtain d where d: "shl_int (RB (of_nat ?n) 23 16) = Some d" "d \<in> {0x200, 0x400, 0x800, 0x1000}" by blast
  have g: "arr_get bs 26 = Some (bs ! 26)" using len by (simp add: arr_get_def)
  have "\<exists>info'. parse_ns bs info = Some info' \<and> n_lba_data_size info' = d \<and> n_ns_id info' = n_ns_id info"
    using v g fmt d(1) by (simp add: parse_ns_def Let_def f_def [symmetric])
  then show thesis using d(2) that by blast
qed

lemma parse_ctrl_reply:
  assumes "ident_ok api" "\<exists>cid. last_command (unat (sc_pagesize api) div 64) es = Some (set_cid (admin_identify_ctrl zero_cmd a) cid)" "i_page_size info \<noteq> 0"
  shows "returns (parse_ctrl cap (dma_bytes api es a) info) (\<lambda>i. xfer_size (i_max_data_size i))"
proof -
  have "ctrl_page (dma_bytes api es a)" using assms(1,2) identifies_cmds(1) unfolding ident_ok_def by blast
  then show ?thesis using assms(3) by (rule parse_ctrl_total [of _ _ cap]) simp
qed

lemma parse_ns_reply:
  assumes "ident_ok api" "\<exists>cid. last_command (unat (sc_pagesize api) div 64) es = Some (set_cid (admin_identify_ns zero_cmd ns a) cid)"
  shows "returns (parse_ns (dma_bytes api es a) info) (\<lambda>i. n_lba_data_size i \<in> {0x200, 0x400, 0x800, 0x1000})"
proof -
  have "ns_page (dma_bytes api es a)" using assms identifies_cmds(2) unfolding ident_ok_def by blast
  then show ?thesis by (rule lba_data_size [of _ info]) simp
qed

text \<open>The commands themselves.\<close>

lemma own_ctrl_info:
  assumes I: "owned api A B s" and env: "ident_ok api" and r: "u_refs s r = Some a"
  shows "returns (nvm_admin_ctrl_info api r (Some z) mptr io s) (\<lambda>((e, i), s'). owned api A B s' \<and> only_admins s s' \<and>
    (nvm_ok e \<longrightarrow> (\<exists>i'. i = Some i' \<and> xfer_size (i_max_data_size i'))))"
proof (cases "mptr = 0 \<or> io = 0")
  case True
  then show ?thesis using I by (simp add: nvm_admin_ctrl_info_def only_admins_refl nvm_ok_def NVM_ERR_PACK_def)
next
  case False
  from ref_ctrl [OF I r] obtain c where c: "u_ctrls s (ar_ctrl a) = Some c" "ar_ctrl a \<noteq> NULL" "r \<noteq> NULL" "page_size (c_handle c) \<noteq> 0" .
  obtain cap where cap: "reg_cap api (mm_ptr (c_handle c)) = Some cap" using ctrls_okD(3) [OF lib_invD(2) [OF I] c(1)] by (auto simp: handle_ok_def)
  have rr: "u_refs s r \<noteq> None" using r by simp
  show ?thesis
    unfolding nvm_admin_ctrl_info_def nvm_ctrl_from_aq_ref_def using False r c cap
    by (auto simp: Let_def intro!: returns_bind [OF own_raw_rpc [OF I rr]] returns_bind [OF parse_ctrl_reply [OF env]])
qed

lemma own_ns_info:
  assumes I: "owned api A B s" and env: "ident_ok api" and r: "u_refs s r \<noteq> None"
  shows "returns (nvm_admin_ns_info api r (Some z) ns mptr io s) (\<lambda>((e, i), s'). owned api A B s' \<and> only_admins s s' \<and>
    (nvm_ok e \<longrightarrow> (\<exists>i'. i = Some i' \<and> n_lba_data_size i' \<in> {0x200, 0x400, 0x800, 0x1000})))"
proof (cases "mptr = 0 \<or> io = 0")
  case True
  then show ?thesis using I by (simp add: nvm_admin_ns_info_def only_admins_refl nvm_ok_def NVM_ERR_PACK_def)
next
  case False
  then show ?thesis unfolding nvm_admin_ns_info_def
    by (auto simp: Let_def intro!: returns_bind [OF own_raw_rpc [OF I r]] returns_bind [OF parse_ns_reply [OF env]])
qed

lemma own_request_num_queues:
  assumes I: "owned api A B s" and r: "u_refs s r \<noteq> None"
  shows "returns (nvm_admin_request_num_queues api r n m s) (\<lambda>(x, s'). owned api A B s' \<and> only_admins s s')"
  unfolding nvm_admin_request_num_queues_def using I
  by (auto simp: Let_def only_admins_refl intro!: returns_bind [OF own_raw_rpc [OF I r]])

end
