(* ===== verification/Ugds_Api.thy ===== *)
theory Ugds_Api
  imports Lib_Admin "HOL-Library.AList"
begin

text \<open>
  The public interface (\<open>include/ugds.h\<close>): opening and closing the driver (\<open>src/ugds_driver.cpp\<close>),
  registering controllers (\<open>src/ugds_handle.cpp\<close>) and buffers (\<open>src/ugds_buf.cpp\<close>), and reading and
  writing (\<open>src/ugds_io.cpp\<close>), over the library's state. Allocation with \<open>new\<close> succeeds: its failure
  would be an exception that no code catches. The registry of buffers is an association list; the source's hash table
  has no order of its own, and the list fixes one.
\<close>

section \<open>Status\<close>

datatype uGDSOpError =
    UGDS_SUCCESS | UGDS_DRIVER_NOT_INITIALIZED | UGDS_DRIVER_INVALID_PROPS | UGDS_DRIVER_UNSUPPORTED_LIMIT
  | UGDS_DRIVER_VERSION_MISMATCH | UGDS_DRIVER_VERSION_READ_ERROR | UGDS_DRIVER_CLOSING | UGDS_PLATFORM_NOT_SUPPORTED
  | UGDS_IO_NOT_SUPPORTED | UGDS_DEVICE_NOT_SUPPORTED | UGDS_NVFS_DRIVER_ERROR | UGDS_CUDA_DRIVER_ERROR
  | UGDS_CUDA_POINTER_INVALID | UGDS_CUDA_MEMORY_TYPE_INVALID | UGDS_CUDA_POINTER_RANGE_ERROR | UGDS_CUDA_CONTEXT_MISMATCH
  | UGDS_INVALID_MAPPING_SIZE | UGDS_INVALID_MAPPING_RANGE | UGDS_INVALID_FILE_TYPE | UGDS_INVALID_FILE_OPEN_FLAG
  | UGDS_DIO_NOT_SET | UGDS_INVALID_VALUE | UGDS_MEMORY_ALREADY_REGISTERED | UGDS_MEMORY_NOT_REGISTERED
  | UGDS_PERMISSION_DENIED | UGDS_DRIVER_ALREADY_OPEN | UGDS_HANDLE_NOT_REGISTERED | UGDS_HANDLE_ALREADY_REGISTERED
  | UGDS_DEVICE_NOT_FOUND | UGDS_INTERNAL_ERROR | UGDS_GETNEWFD_FAILED | UGDS_NVFS_SETUP_ERROR | UGDS_IO_DISABLED
  | UGDS_GPU_MEMORY_PINNING_FAILED

fun op_error_code :: "uGDSOpError \<Rightarrow> int" where
  "op_error_code UGDS_SUCCESS = 0"
| "op_error_code UGDS_DRIVER_NOT_INITIALIZED = 5001"
| "op_error_code UGDS_DRIVER_INVALID_PROPS = 5002"
| "op_error_code UGDS_DRIVER_UNSUPPORTED_LIMIT = 5003"
| "op_error_code UGDS_DRIVER_VERSION_MISMATCH = 5004"
| "op_error_code UGDS_DRIVER_VERSION_READ_ERROR = 5005"
| "op_error_code UGDS_DRIVER_CLOSING = 5006"
| "op_error_code UGDS_PLATFORM_NOT_SUPPORTED = 5007"
| "op_error_code UGDS_IO_NOT_SUPPORTED = 5008"
| "op_error_code UGDS_DEVICE_NOT_SUPPORTED = 5009"
| "op_error_code UGDS_NVFS_DRIVER_ERROR = 5010"
| "op_error_code UGDS_CUDA_DRIVER_ERROR = 5011"
| "op_error_code UGDS_CUDA_POINTER_INVALID = 5012"
| "op_error_code UGDS_CUDA_MEMORY_TYPE_INVALID = 5013"
| "op_error_code UGDS_CUDA_POINTER_RANGE_ERROR = 5014"
| "op_error_code UGDS_CUDA_CONTEXT_MISMATCH = 5015"
| "op_error_code UGDS_INVALID_MAPPING_SIZE = 5016"
| "op_error_code UGDS_INVALID_MAPPING_RANGE = 5017"
| "op_error_code UGDS_INVALID_FILE_TYPE = 5018"
| "op_error_code UGDS_INVALID_FILE_OPEN_FLAG = 5019"
| "op_error_code UGDS_DIO_NOT_SET = 5020"
| "op_error_code UGDS_INVALID_VALUE = 5022"
| "op_error_code UGDS_MEMORY_ALREADY_REGISTERED = 5023"
| "op_error_code UGDS_MEMORY_NOT_REGISTERED = 5024"
| "op_error_code UGDS_PERMISSION_DENIED = 5025"
| "op_error_code UGDS_DRIVER_ALREADY_OPEN = 5026"
| "op_error_code UGDS_HANDLE_NOT_REGISTERED = 5027"
| "op_error_code UGDS_HANDLE_ALREADY_REGISTERED = 5028"
| "op_error_code UGDS_DEVICE_NOT_FOUND = 5029"
| "op_error_code UGDS_INTERNAL_ERROR = 5030"
| "op_error_code UGDS_GETNEWFD_FAILED = 5031"
| "op_error_code UGDS_NVFS_SETUP_ERROR = 5033"
| "op_error_code UGDS_IO_DISABLED = 5034"
| "op_error_code UGDS_GPU_MEMORY_PINNING_FAILED = 5036"

fun uGDS_status_error :: "uGDSOpError \<Rightarrow> string" where
  "uGDS_status_error UGDS_SUCCESS = ''success''"
| "uGDS_status_error UGDS_DRIVER_NOT_INITIALIZED = ''driver not initialized''"
| "uGDS_status_error UGDS_DRIVER_INVALID_PROPS = ''invalid property''"
| "uGDS_status_error UGDS_DRIVER_UNSUPPORTED_LIMIT = ''property range error''"
| "uGDS_status_error UGDS_DRIVER_VERSION_MISMATCH = ''driver version mismatch''"
| "uGDS_status_error UGDS_DRIVER_CLOSING = ''driver closing''"
| "uGDS_status_error UGDS_IO_NOT_SUPPORTED = ''IO not supported''"
| "uGDS_status_error UGDS_INVALID_FILE_TYPE = ''unsupported file type''"
| "uGDS_status_error UGDS_INVALID_VALUE = ''invalid arguments''"
| "uGDS_status_error UGDS_MEMORY_ALREADY_REGISTERED = ''memory already registered''"
| "uGDS_status_error UGDS_MEMORY_NOT_REGISTERED = ''memory not registered''"
| "uGDS_status_error UGDS_INTERNAL_ERROR = ''internal error''"
| "uGDS_status_error UGDS_GPU_MEMORY_PINNING_FAILED = ''GPU memory pinning failed''"
| "uGDS_status_error _ = ''unknown uGDS error''"

record uGDSError =
  err_op :: uGDSOpError
  err_cu :: int

definition make_error :: "uGDSOpError \<Rightarrow> uGDSError" where
  "make_error err = \<lparr>err_op = err, err_cu = 0\<rparr>"

section \<open>State\<close>

definition UGDS_DEFAULT_NUM_QPS :: u16 where "UGDS_DEFAULT_NUM_QPS = 16"
definition UGDS_DEFAULT_QUEUE_DEPTH :: u64 where "UGDS_DEFAULT_QUEUE_DEPTH = 64"

record IOQueuePair =
  iq_qp :: qpair
  iq_sq_dma :: ptr
  iq_cq_dma :: ptr
  iq_prp_dma :: ptr
  iq_sq_buf :: u64
  iq_cq_buf :: u64
  iq_prp_buf :: u64

record HandleState =
  h_fd :: int
  h_ctrl :: ptr
  h_aq_ref :: ptr
  h_aq_dma :: ptr
  h_aq_buf :: u64
  h_ctrl_info :: nvm_ctrl_info
  h_ns_info :: nvm_ns_info
  h_ns_id :: u32
  h_block_size :: u64
  h_max_transfer_size :: u64
  h_max_transfer_pages :: u64
  h_num_qps :: u16
  h_qps :: "IOQueuePair list"
  h_rr_counter :: u32

text \<open>The global \<open>g_driver\<close>, the registered handles and the library below them.\<close>

record gstate =
  g_lib :: ustate
  g_initialized :: bool
  g_default_ctrl :: ptr
  g_registry :: "(u64 \<times> ptr) list"
  g_handles :: "(ptr \<times> HandleState) list"

text \<open>The environment: the library's, the addresses that \<open>new\<close> returns, and the controller's I/O queues.\<close>

record gapi =
  lib_api :: "ustate uapi"
  operator_new :: "gstate \<Rightarrow> ptr"
  io_device :: "gstate \<Rightarrow> ptr \<Rightarrow> u16 \<Rightarrow> device"

datatype uGDSHandleType = UGDS_HANDLE_TYPE_OPAQUE_FD | UGDS_HANDLE_TYPE_OPAQUE_WIN32 | UGDS_HANDLE_TYPE_USERSPACE_FS

section \<open>The driver\<close>

definition uGDSDriverOpen :: "gstate \<Rightarrow> uGDSError \<times> gstate" where
  "uGDSDriverOpen g =
     (if g_initialized g then (make_error UGDS_SUCCESS, g)
      else (make_error UGDS_SUCCESS, g\<lparr>g_initialized := True\<rparr>))"

fun unmap_all :: "(u64 \<times> ptr) list \<Rightarrow> ustate \<Rightarrow> ustate option" where
  "unmap_all [] s = Some s"
| "unmap_all ((b, dma) # rest) s = do { s \<leftarrow> nvm_dma_unmap dma s; unmap_all rest s }"

definition uGDSDriverClose :: "gstate \<Rightarrow> (uGDSError \<times> gstate) option" where
  "uGDSDriverClose g =
     (if \<not> g_initialized g then Some (make_error UGDS_DRIVER_NOT_INITIALIZED, g)
      else do {
        s \<leftarrow> unmap_all (g_registry g) (g_lib g);
        Some (make_error UGDS_SUCCESS, g\<lparr>g_lib := s, g_registry := [], g_default_ctrl := NULL, g_initialized := False\<rparr>) })"

section \<open>Buffers\<close>

definition uGDSBufRegister :: "gapi \<Rightarrow> u64 \<Rightarrow> u64 \<Rightarrow> gstate \<Rightarrow> (uGDSError \<times> gstate) option" where
  "uGDSBufRegister api base len g =
     (if \<not> g_initialized g then Some (make_error UGDS_DRIVER_NOT_INITIALIZED, g)
      else if base = 0 \<or> len = 0 then Some (make_error UGDS_INVALID_VALUE, g)
      else if map_of (g_registry g) base \<noteq> None then Some (make_error UGDS_MEMORY_ALREADY_REGISTERED, g)
      else if g_default_ctrl g = NULL then Some (make_error UGDS_DRIVER_NOT_INITIALIZED, g)
      else do {
        (r, s) \<leftarrow> nvm_dma_map_device (lib_api api) (g_default_ctrl g) base len (g_lib g);
        case r of
          Inl _ \<Rightarrow> Some (make_error UGDS_GPU_MEMORY_PINNING_FAILED, g\<lparr>g_lib := s\<rparr>)
        | Inr dma \<Rightarrow>
            if dma = NULL then Some (make_error UGDS_GPU_MEMORY_PINNING_FAILED, g\<lparr>g_lib := s\<rparr>)
            else Some (make_error UGDS_SUCCESS, g\<lparr>g_lib := s, g_registry := (base, dma) # g_registry g\<rparr>) })"

definition uGDSBufDeregister :: "u64 \<Rightarrow> gstate \<Rightarrow> (uGDSError \<times> gstate) option" where
  "uGDSBufDeregister base g =
     (if \<not> g_initialized g then Some (make_error UGDS_DRIVER_NOT_INITIALIZED, g)
      else case map_of (g_registry g) base of
          None \<Rightarrow> Some (make_error UGDS_MEMORY_NOT_REGISTERED, g)
        | Some dma \<Rightarrow> do {
            s \<leftarrow> nvm_dma_unmap dma (g_lib g);
            Some (make_error UGDS_SUCCESS, g\<lparr>g_lib := s, g_registry := AList.delete base (g_registry g)\<rparr>) })"

section \<open>Queue pairs\<close>

definition cleanup_qp :: "ustate uapi \<Rightarrow> ptr \<Rightarrow> IOQueuePair \<Rightarrow> ustate \<Rightarrow> ustate option" where
  "cleanup_qp api r iq s = do {
     s \<leftarrow> (if iq_sq_dma iq \<noteq> NULL
          then do {
            (_, s) \<leftarrow> nvm_admin_sq_delete api r (sq (iq_qp iq)) (Some (cq (iq_qp iq))) s;
            nvm_dma_unmap (iq_sq_dma iq) s }
          else Some s);
     s \<leftarrow> (if iq_cq_dma iq \<noteq> NULL
          then do {
            (_, s) \<leftarrow> nvm_admin_cq_delete api r (cq (iq_qp iq)) s;
            nvm_dma_unmap (iq_cq_dma iq) s }
          else Some s);
     s \<leftarrow> (if iq_prp_dma iq \<noteq> NULL then nvm_dma_unmap (iq_prp_dma iq) s else Some s);
     s \<leftarrow> free_buf (iq_sq_buf iq) s;
     s \<leftarrow> free_buf (iq_cq_buf iq) s;
     free_buf (iq_prp_buf iq) s }"

fun cleanup_qps :: "ustate uapi \<Rightarrow> ptr \<Rightarrow> IOQueuePair list \<Rightarrow> ustate \<Rightarrow> ustate option" where
  "cleanup_qps api r [] s = Some s"
| "cleanup_qps api r (iq # iqs) s = do { s \<leftarrow> cleanup_qp api r iq s; cleanup_qps api r iqs s }"

text \<open>
  The steps that create a queue pair; the flag tells whether the loop may go on. A fresh queue pair is
  all zero. The page of the submission queue and the one for PRP lists belong to the queue pair once they
  are mapped.
\<close>

definition zero_queue :: nvm_queue where
  "zero_queue = \<lparr>head_lock = 0, tail_lock = 0, head = 0, tail = 0, in_ticket = 0, cid_ticket = 0, q_no = 0, q_es = 0, qs = 0,
     phase = False, q_local = False, q_last = 0, db = 0, q_vaddr = 0, q_ioaddr = 0\<rparr>"

definition zero_iq :: IOQueuePair where
  "zero_iq = \<lparr>iq_qp = \<lparr>sq = zero_queue, cq = zero_queue, sq_mem = [], prp_mem = [], prp_ioaddr = 0, events = []\<rparr>,
     iq_sq_dma = NULL, iq_cq_dma = NULL, iq_prp_dma = NULL, iq_sq_buf = 0, iq_cq_buf = 0, iq_prp_buf = 0\<rparr>"

definition alloc_buf :: "ustate uapi \<Rightarrow> u64 \<Rightarrow> u64 \<Rightarrow> ustate \<Rightarrow> u64 option \<times> ustate" where
  "alloc_buf api align n s = (let (err, b) = posix_memalign api s align n in
     if err \<noteq> 0 then (None, s) else (Some b, s\<lparr>u_bufs := b # u_bufs s\<rparr>))"

definition setup_cq :: "ustate uapi \<Rightarrow> ptr \<Rightarrow> ptr \<Rightarrow> u64 \<Rightarrow> u16 \<Rightarrow> IOQueuePair \<Rightarrow> ustate \<Rightarrow> ((bool \<times> IOQueuePair) \<times> ustate) option" where
  "setup_cq api ctrl r ps i iq s = (case alloc_buf api 4096 ps s of
     (None, s) \<Rightarrow> Some ((False, iq), s)
   | (Some b, s) \<Rightarrow> do {
       let iq = iq\<lparr>iq_cq_buf := b\<rparr>;
       (x, s) \<leftarrow> nvm_dma_map_host api ctrl b ps s;
       case x of
         Inl _ \<Rightarrow> Some ((False, iq), s)
       | Inr dma \<Rightarrow> do {
           (y, s) \<leftarrow> nvm_admin_cq_create api r (i + 1) dma 0 UGDS_DEFAULT_QUEUE_DEPTH False s;
           case y of
             Inl _ \<Rightarrow> do { s \<leftarrow> nvm_dma_unmap dma s; Some ((False, iq), s) }
           | Inr q \<Rightarrow> Some ((True, iq\<lparr>iq_cq_dma := dma, iq_qp := (iq_qp iq)\<lparr>cq := q\<rparr>\<rparr>), s) } })"

definition setup_sq :: "ustate uapi \<Rightarrow> ptr \<Rightarrow> ptr \<Rightarrow> u64 \<Rightarrow> u16 \<Rightarrow> IOQueuePair \<Rightarrow> ustate \<Rightarrow> ((bool \<times> IOQueuePair) \<times> ustate) option" where
  "setup_sq api ctrl r ps i iq s = (case alloc_buf api 4096 ps s of
     (None, s) \<Rightarrow> Some ((False, iq), s)
   | (Some b, s) \<Rightarrow> do {
       let iq = iq\<lparr>iq_sq_buf := b\<rparr>;
       (x, s) \<leftarrow> nvm_dma_map_host api ctrl b ps s;
       case x of
         Inl _ \<Rightarrow> Some ((False, iq), s)
       | Inr dma \<Rightarrow> do {
           (y, s) \<leftarrow> nvm_admin_sq_create api r (cq (iq_qp iq)) (i + 1) dma 0 UGDS_DEFAULT_QUEUE_DEPTH False s;
           case y of
             Inl _ \<Rightarrow> do { s \<leftarrow> nvm_dma_unmap dma s; Some ((False, iq), s) }
           | Inr q \<Rightarrow> Some ((True, iq\<lparr>iq_sq_dma := dma,
               iq_qp := (iq_qp iq)\<lparr>sq := q, sq_mem := replicate (unat ps div 64) zero_cmd\<rparr>\<rparr>), s) } })"

definition setup_prp :: "ustate uapi \<Rightarrow> ptr \<Rightarrow> u64 \<Rightarrow> IOQueuePair \<Rightarrow> ustate \<Rightarrow> ((bool \<times> IOQueuePair) \<times> ustate) option" where
  "setup_prp api ctrl ps iq s = (case alloc_buf api 4096 ps s of
     (None, s) \<Rightarrow> Some ((False, iq), s)
   | (Some b, s) \<Rightarrow> do {
       let iq = iq\<lparr>iq_prp_buf := b\<rparr>;
       (x, s) \<leftarrow> nvm_dma_map_host api ctrl b ps s;
       case x of
         Inl _ \<Rightarrow> Some ((False, iq), s)
       | Inr dma \<Rightarrow> do {
           d \<leftarrow> u_dmas s dma;
           a \<leftarrow> arr_get (dma_ioaddrs (dc_handle d)) 0;
           Some ((True, iq\<lparr>iq_prp_dma := dma,
             iq_qp := (iq_qp iq)\<lparr>prp_mem := replicate (unat ps div 8) 0, prp_ioaddr := a\<rparr>\<rparr>), s) } })"

definition create_qp :: "ustate uapi \<Rightarrow> ptr \<Rightarrow> ptr \<Rightarrow> u64 \<Rightarrow> u16 \<Rightarrow> ustate \<Rightarrow> ((bool \<times> IOQueuePair) \<times> ustate) option" where
  "create_qp api ctrl r ps i s = do {
     ((ok, iq), s) \<leftarrow> setup_cq api ctrl r ps i zero_iq s;
     if \<not> ok then Some ((False, iq), s)
     else do {
       ((ok, iq), s) \<leftarrow> setup_sq api ctrl r ps i iq s;
       if \<not> ok then Some ((False, iq), s)
       else setup_prp api ctrl ps iq s } }"

function create_qps :: "ustate uapi \<Rightarrow> ptr \<Rightarrow> ptr \<Rightarrow> u64 \<Rightarrow> u16 \<Rightarrow> u16 \<Rightarrow> IOQueuePair list \<Rightarrow> ustate \<Rightarrow> (IOQueuePair list option \<times> ustate) option" where
  "create_qps api ctrl r ps i n qps s =
     (if i < n
      then do {
        ((ok, iq), s) \<leftarrow> create_qp api ctrl r ps i s;
        if ok then create_qps api ctrl r ps (i + 1) n (qps @ [iq]) s
        else do {
          s \<leftarrow> cleanup_qp api r iq s;
          s \<leftarrow> cleanup_qps api r qps s;
          Some (None, s) } }
      else Some (Some qps, s))"
  by pat_completeness auto
termination
  by (relation "measure (\<lambda>(_, _, _, _, i, n, _). unat n - unat i)") (auto simp: unat_inc word_less_nat_alt)

declare create_qps.simps [simp del]

section \<open>Handles\<close>

text \<open>The last steps of every failure after the admin queue exists, and of deregistration.\<close>

definition release_setup :: "HandleState \<Rightarrow> ustate \<Rightarrow> ustate option" where
  "release_setup hs s = do {
     s \<leftarrow> nvm_aq_destroy (h_aq_ref hs) s;
     s \<leftarrow> nvm_dma_unmap (h_aq_dma hs) s;
     s \<leftarrow> free_buf (h_aq_buf hs) s;
     nvm_ctrl_free (h_ctrl hs) s }"

text \<open>From the controller to the admin queue: \<open>None\<close> when a step failed and was undone.\<close>

definition open_admin :: "ustate uapi \<Rightarrow> int \<Rightarrow> ustate \<Rightarrow> (HandleState option \<times> ustate) option" where
  "open_admin api fd s = do {
     (x, s) \<leftarrow> nvm_ctrl_init api fd s;
     case x of
       Inl _ \<Rightarrow> Some (None, s)
     | Inr ctrl \<Rightarrow> do {
         c \<leftarrow> u_ctrls s ctrl;
         let ps = page_size (c_handle c);
         case alloc_buf api 4096 (ps * 3) s of
           (None, s) \<Rightarrow> do { s \<leftarrow> nvm_ctrl_free ctrl s; Some (None, s) }
         | (Some buf, s) \<Rightarrow> do {
             (x, s) \<leftarrow> nvm_dma_map_host api ctrl buf (ps * 3) s;
             case x of
               Inl _ \<Rightarrow> do { s \<leftarrow> free_buf buf s; s \<leftarrow> nvm_ctrl_free ctrl s; Some (None, s) }
             | Inr dma \<Rightarrow> do {
                 (x, s) \<leftarrow> nvm_aq_create api ctrl dma s;
                 case x of
                   Inl _ \<Rightarrow> do { s \<leftarrow> nvm_dma_unmap dma s; s \<leftarrow> free_buf buf s; s \<leftarrow> nvm_ctrl_free ctrl s; Some (None, s) }
                 | Inr r \<Rightarrow> Some (Some \<lparr>h_fd = fd, h_ctrl = ctrl, h_aq_ref = r, h_aq_dma = dma, h_aq_buf = buf,
                     h_ctrl_info = zero_ctrl_info, h_ns_info = zero_ns_info, h_ns_id = 1, h_block_size = 0, h_max_transfer_size = 0,
                     h_max_transfer_pages = 0, h_num_qps = 0, h_qps = [], h_rr_counter = 0\<rparr>, s) } } } }"

text \<open>Identification of the controller and its namespace, and the number of queues it grants.\<close>

definition identify :: "ustate uapi \<Rightarrow> HandleState \<Rightarrow> ustate \<Rightarrow> (HandleState option \<times> ustate) option" where
  "identify api hs s = do {
     d \<leftarrow> u_dmas s (h_aq_dma hs);
     ioaddr \<leftarrow> arr_get (dma_ioaddrs (dc_handle d)) 2;
     let mptr = NVM_DMA_OFFSET (dc_handle d) 2;
     ((err, info), s) \<leftarrow> nvm_admin_ctrl_info api (h_aq_ref hs) (Some zero_ctrl_info) mptr ioaddr s;
     if \<not> nvm_ok err then Some (None, s)
     else do {
       info \<leftarrow> info;
       ((err, ns), s) \<leftarrow> nvm_admin_ns_info api (h_aq_ref hs) (Some zero_ns_info) (h_ns_id hs) mptr ioaddr s;
       if \<not> nvm_ok err then Some (None, s)
       else do {
         ns \<leftarrow> ns;
         let hs = hs\<lparr>h_ctrl_info := info, h_ns_info := ns, h_block_size := n_lba_data_size ns,
           h_max_transfer_size := i_max_data_size info, h_max_transfer_pages := i_max_data_pages info\<rparr>;
         (x, s) \<leftarrow> nvm_admin_request_num_queues api (h_aq_ref hs) UGDS_DEFAULT_NUM_QPS UGDS_DEFAULT_NUM_QPS s;
         case x of
           Inl _ \<Rightarrow> Some (None, s)
         | Inr (n_cqs, n_sqs) \<Rightarrow> Some (Some (hs\<lparr>h_num_qps := min (min n_cqs n_sqs) UGDS_DEFAULT_NUM_QPS\<rparr>), s) } } }"

definition register_handle :: "ustate uapi \<Rightarrow> int \<Rightarrow> ustate \<Rightarrow> (HandleState option \<times> ustate) option" where
  "register_handle api fd s = do {
     (x, s) \<leftarrow> open_admin api fd s;
     case x of
       None \<Rightarrow> Some (None, s)
     | Some hs \<Rightarrow> do {
         (x, s) \<leftarrow> identify api hs s;
         case x of
           None \<Rightarrow> do { s \<leftarrow> release_setup hs s; Some (None, s) }
         | Some hs \<Rightarrow> do {
             c \<leftarrow> u_ctrls s (h_ctrl hs);
             (qps, s) \<leftarrow> create_qps api (h_ctrl hs) (h_aq_ref hs) (page_size (c_handle c)) 0 (h_num_qps hs) [] s;
             case qps of
               None \<Rightarrow> do { s \<leftarrow> release_setup hs s; Some (None, s) }
             | Some qps \<Rightarrow> Some (Some (hs\<lparr>h_qps := qps\<rparr>), s) } } }"

text \<open>
  Arguments: whether \<open>fh\<close> is null, and the descriptor, \<open>None\<close> when it is null. \<open>Inr\<close> is the handle stored.
\<close>

definition uGDSHandleRegister :: "gapi \<Rightarrow> bool \<Rightarrow> (uGDSHandleType \<times> int) option \<Rightarrow> gstate \<Rightarrow> ((uGDSError + ptr) \<times> gstate) option" where
  "uGDSHandleRegister api fh_null descr g = (case descr of
     None \<Rightarrow> Some (Inl (make_error UGDS_INVALID_VALUE), g)
   | Some (ty, fd) \<Rightarrow>
       if fh_null then Some (Inl (make_error UGDS_INVALID_VALUE), g)
       else if \<not> g_initialized g then Some (Inl (make_error UGDS_DRIVER_NOT_INITIALIZED), g)
       else if ty \<noteq> UGDS_HANDLE_TYPE_OPAQUE_FD then Some (Inl (make_error UGDS_INVALID_FILE_TYPE), g)
       else do {
         let fh = operator_new api g;
         (x, s) \<leftarrow> register_handle (lib_api api) fd (g_lib g);
         case x of
           None \<Rightarrow> Some (Inl (make_error UGDS_INTERNAL_ERROR), g\<lparr>g_lib := s\<rparr>)
         | Some hs \<Rightarrow> Some (Inr fh, g\<lparr>g_lib := s, g_handles := (fh, hs) # g_handles g,
             g_default_ctrl := (if g_default_ctrl g = NULL then h_ctrl hs else g_default_ctrl g)\<rparr>) })"

text \<open>Deregistering what is not a handle is a fault.\<close>

definition uGDSHandleDeregister :: "gapi \<Rightarrow> ptr \<Rightarrow> gstate \<Rightarrow> gstate option" where
  "uGDSHandleDeregister api fh g =
     (if fh = NULL then Some g
      else do {
        hs \<leftarrow> map_of (g_handles g) fh;
        s \<leftarrow> cleanup_qps (lib_api api) (h_aq_ref hs) (rev (h_qps hs)) (g_lib g);
        s \<leftarrow> (if h_aq_ref hs \<noteq> NULL then nvm_aq_destroy (h_aq_ref hs) s else Some s);
        s \<leftarrow> (if h_aq_dma hs \<noteq> NULL then nvm_dma_unmap (h_aq_dma hs) s else Some s);
        s \<leftarrow> free_buf (h_aq_buf hs) s;
        s \<leftarrow> (if h_ctrl hs \<noteq> NULL then nvm_ctrl_free (h_ctrl hs) s else Some s);
        Some (g\<lparr>g_lib := s, g_handles := AList.delete fh (g_handles g),
          g_default_ctrl := (if g_default_ctrl g = h_ctrl hs then NULL else g_default_ctrl g)\<rparr>) })"

section \<open>Reading and writing\<close>

text \<open>
  The buffer of a request: registered, or mapped for the request. \<open>Inl\<close> is the result of \<open>do_io\<close>; \<open>Inr\<close>
  is the handle, whether it was made for this request, and its first page.
\<close>

definition find_buffer :: "gapi \<Rightarrow> HandleState \<Rightarrow> u64 \<Rightarrow> u64 \<Rightarrow> u64 \<Rightarrow> u64 \<Rightarrow> gstate \<Rightarrow> ((int + ptr \<times> bool \<times> u64) \<times> ustate) option" where
  "find_buffer api hs ps base sz buf_offset g = (case map_of (g_registry g) base of
     Some dma \<Rightarrow>
       if buf_offset mod ps \<noteq> 0 then Some (Inl (- EINVAL), g_lib g)
       else do {
         d \<leftarrow> u_dmas (g_lib g) dma;
         let buf_page_start = buf_offset div ps;
         if buf_page_start + (sz + ps - 1) div ps > dma_n_ioaddrs (dc_handle d) then Some (Inl (- EINVAL), g_lib g)
         else Some (Inr (dma, False, buf_page_start), g_lib g) }
   | None \<Rightarrow> do {
       (x, s) \<leftarrow> nvm_dma_map_device (lib_api api) (h_ctrl hs) (base + buf_offset) sz (g_lib g);
       case x of
         Inl _ \<Rightarrow> Some (Inl (- EIO), s)
       | Inr dma \<Rightarrow> if dma = NULL then Some (Inl (- EIO), s) else Some (Inr (dma, True, 0), s) })"

definition max_xfer :: "u64 \<Rightarrow> u64 \<Rightarrow> u64" where
  "max_xfer max_transfer_size ps =
     (let prp_capacity = ps div 8;
          m = (if max_transfer_size = 0 then 128 * 1024 else max_transfer_size);
          m = (if m < ps then ps else m);
          prp_max = (prp_capacity + 1) * ps
      in if m > prp_max then prp_max else m)"

definition do_io :: "gapi \<Rightarrow> ptr \<Rightarrow> u64 \<Rightarrow> u64 \<Rightarrow> u64 \<Rightarrow> u64 \<Rightarrow> u8 \<Rightarrow> gstate \<Rightarrow> (int \<times> gstate) option" where
  "do_io api fh base sz file_offset buf_offset opcode g =
     (if fh = NULL \<or> base = 0 \<or> sz = 0 then Some (- EINVAL, g)
      else if sint file_offset < 0 \<or> sint buf_offset < 0 then Some (- EINVAL, g)
      else do {
        hs \<leftarrow> map_of (g_handles g) fh;
        if h_block_size hs = 0 then Some (- EINVAL, g)
        else if file_offset mod h_block_size hs \<noteq> 0 \<or> sz mod h_block_size hs \<noteq> 0 then Some (- EINVAL, g)
        else do {
          c \<leftarrow> u_ctrls (g_lib g) (h_ctrl hs);
          let ps = page_size (c_handle c);
          if ps = 0 then Some (- EINVAL, g)
          else do {
            (x, s) \<leftarrow> find_buffer api hs ps base sz buf_offset g;
            case x of
              Inl e \<Rightarrow> Some (e, g\<lparr>g_lib := s\<rparr>)
            | Inr (dma, on_the_fly, buf_page_start) \<Rightarrow>
                if h_num_qps hs = 0 then None
                else do {
                  d \<leftarrow> u_dmas s dma;
                  let start_lba = file_offset div h_block_size hs;
                  let r = \<lparr>r_opcode = opcode, r_ns_id = h_ns_id hs, r_block = h_block_size hs, r_page = ps,
                    r_max_xfer = max_xfer (h_max_transfer_size hs) ps, r_size = sz, r_timeout = timeout (c_handle c),
                    r_ioaddrs = dma_ioaddrs (dc_handle d)\<rparr>;
                  let qp_idx = (ucast (h_rr_counter hs mod ucast (h_num_qps hs)) :: u16);
                  iq \<leftarrow> arr_get (h_qps hs) (unat qp_idx);
                  (result, qp) \<leftarrow> io_loop (io_device api g fh qp_idx) r 0 start_lba buf_page_start (iq_qp iq);
                  let hs = hs\<lparr>h_rr_counter := h_rr_counter hs + 1, h_qps := (h_qps hs)[unat qp_idx := iq\<lparr>iq_qp := qp\<rparr>]\<rparr>;
                  s \<leftarrow> (if on_the_fly \<and> dma \<noteq> NULL then nvm_dma_unmap dma s else Some s);
                  Some (result, g\<lparr>g_lib := s, g_handles := AList.update fh hs (g_handles g)\<rparr>) } } } })"

definition uGDSRead :: "gapi \<Rightarrow> ptr \<Rightarrow> u64 \<Rightarrow> u64 \<Rightarrow> u64 \<Rightarrow> u64 \<Rightarrow> gstate \<Rightarrow> (int \<times> gstate) option" where
  "uGDSRead api fh base sz file_offset buf_offset g = do_io api fh base sz file_offset buf_offset NVM_IO_READ g"

definition uGDSWrite :: "gapi \<Rightarrow> ptr \<Rightarrow> u64 \<Rightarrow> u64 \<Rightarrow> u64 \<Rightarrow> u64 \<Rightarrow> gstate \<Rightarrow> (int \<times> gstate) option" where
  "uGDSWrite api fh base sz file_offset buf_offset g = do_io api fh base sz file_offset buf_offset NVM_IO_WRITE g"

end
