(* ===== verification/Ugds_Qp.thy ===== *)
theory Ugds_Qp
  imports Lib_Identify Ugds_Api
begin

text \<open>
  Queue pairs of a handle: creation step by step, what is held after a step that failed, and the cleanup
  that gives all of it back.
\<close>

section \<open>What a queue pair holds\<close>

definition qp_ptrs :: "IOQueuePair \<Rightarrow> ptr list" where
  "qp_ptrs iq = filter (\<lambda>p. p \<noteq> NULL) [iq_sq_dma iq, iq_cq_dma iq, iq_prp_dma iq]"

definition qp_bufs :: "IOQueuePair \<Rightarrow> u64 list" where
  "qp_bufs iq = filter (\<lambda>b. b \<noteq> 0) [iq_sq_buf iq, iq_cq_buf iq, iq_prp_buf iq]"

text \<open>A queue pair, possibly incomplete, on top of what else the client owns.\<close>

definition qp_held :: "ustate uapi \<Rightarrow> ptr set \<Rightarrow> u64 set \<Rightarrow> IOQueuePair \<Rightarrow> ustate \<Rightarrow> bool" where
  "qp_held api A B iq s \<longleftrightarrow> owned api (A \<union> set (qp_ptrs iq)) (B \<union> set (qp_bufs iq)) s \<and> distinct (qp_ptrs iq) \<and> distinct (qp_bufs iq) \<and>
     set (qp_ptrs iq) \<inter> A = {} \<and> set (qp_bufs iq) \<inter> B = {} \<and> (\<forall>d\<in>set (qp_ptrs iq). u_dmas s d \<noteq> None)"

lemma owned_nonnull: "owned api A B s \<Longrightarrow> NULL \<notin> A" "owned api A B s \<Longrightarrow> 0 \<notin> B"
proof -
  assume I: "owned api A B s"
  note D = lib_invD [OF I]
  show "NULL \<notin> A" using D(11) heap_null [OF D(1)] unfolding owns_ok_def by (metis ind_upd(4))
  show "0 \<notin> B" using bufs_okD(2) [OF D(9)] bufs_okD(3) [OF D(9), of 0] by (auto split: if_splits)
qed

lemma own_alloc_buf:
  assumes env: "env_ok api" and I: "owned api A B s"
  obtains "alloc_buf api al n s = (None, s)"
  | b where "alloc_buf api al n s = (Some b, s\<lparr>u_bufs := b # u_bufs s\<rparr>)" "b \<noteq> 0" "b \<notin> B" "owned api A (insert b B) (s\<lparr>u_bufs := b # u_bufs s\<rparr>)"
proof -
  obtain err b where m: "posix_memalign api s al n = (err, b)" by fastforce
  show thesis
  proof (cases "err = 0")
    case False
    then show thesis using m by (intro that(1)) (simp add: alloc_buf_def)
  next
    case True
    then have b: "b \<noteq> 0" "b \<notin> set (u_bufs s)" using env_okD(1) [OF env] m unfolding os_ok_def fresh_alloc_def by (metis fst_conv snd_conv)+
    then show thesis using m True inv_buf_add [OF I b] by (intro that(2)) (simp_all add: alloc_buf_def)
  qed
qed

section \<open>Cleanup\<close>

text \<open>A release: it returns, and leaves the client what it names, unchanged.\<close>

abbreviation leaves :: "ustate uapi \<Rightarrow> ptr set \<Rightarrow> u64 set \<Rightarrow> ustate \<Rightarrow> ustate option \<Rightarrow> bool" where
  "leaves api A B s m \<equiv> returns m (\<lambda>t. owned api A B t \<and> stable A s t)"

lemma leaves_seq:
  assumes "leaves api A B s m" "A' \<subseteq> A" "\<And>t. owned api A B t \<Longrightarrow> stable A s t \<Longrightarrow> leaves api A' B' t (f t)"
  shows "leaves api A' B' s (m \<bind> f)"
proof (rule returns_bind [OF assms(1)])
  fix t assume t: "owned api A B t \<and> stable A s t"
  then show "leaves api A' B' s (f t)" using assms(3) [of t] stable_mono [OF _ assms(2)]
    by (auto elim!: returns_mono intro: stable_trans)
qed

text \<open>A DMA handle that may be null.\<close>

definition dma_or_null :: "ptr set \<Rightarrow> ustate \<Rightarrow> ptr \<Rightarrow> bool" where
  "dma_or_null A s d \<longleftrightarrow> d = NULL \<or> d \<in> A \<and> u_dmas s d \<noteq> None"

lemma dma_or_null_stable: "dma_or_null A s d \<Longrightarrow> stable A' s t \<Longrightarrow> d \<in> A \<Longrightarrow> d \<in> A' \<Longrightarrow> dma_or_null A' t d"
  by (auto simp: dma_or_null_def dest: stableD)

lemma own_drop:
  assumes "owned api A B s" "dma_or_null A s d"
  shows "returns (if d \<noteq> NULL then nvm_dma_unmap d s else Some s) (\<lambda>s'. owned api (A - {d}) B s' \<and> stable (A - {d}) s s')"
  using assms own_dma_unmap [OF assms(1)] owned_nonnull(1) [OF assms(1)] by (auto simp: dma_or_null_def)

lemma own_after:
  assumes "returns m (\<lambda>(x, t). owned api A B t \<and> only_admins s t)" "d \<in> A" "u_dmas s d \<noteq> None"
  shows "returns (do { (_, t) \<leftarrow> m; nvm_dma_unmap d t }) (\<lambda>s'. owned api (A - {d}) B s' \<and> stable (A - {d}) s s')"
proof (rule returns_bind [OF assms(1)])
  fix x assume "case x of (x, t) \<Rightarrow> owned api A B t \<and> only_admins s t"
  then obtain y t where t: "x = (y, t)" "owned api A B t" "only_admins s t" by auto
  have "u_dmas t d \<noteq> None" using assms(3) only_adminsD(2) [OF t(3)] by simp
  from own_dma_unmap [OF t(2) assms(2) this] show "returns (case x of (uu, t) \<Rightarrow> nvm_dma_unmap d t) (\<lambda>s'. owned api (A - {d}) B s' \<and> stable (A - {d}) s s')"
    unfolding t(1) by (auto elim!: returns_mono intro: stable_trans [OF only_adminsD(4) [OF t(3)]])
qed

lemma own_drop_sq:
  assumes I: "owned api A B s" and d: "dma_or_null A s d" and r: "u_refs s r \<noteq> None"
  shows "returns (if d \<noteq> NULL then do { (_, s) \<leftarrow> nvm_admin_sq_delete api r q (Some c) s; nvm_dma_unmap d s } else Some s)
    (\<lambda>s'. owned api (A - {d}) B s' \<and> stable (A - {d}) s s')"
  using d I owned_nonnull(1) [OF I] own_after [OF own_sq_delete [OF I r]] by (auto simp: dma_or_null_def)

lemma own_drop_cq:
  assumes I: "owned api A B s" and d: "dma_or_null A s d" and r: "u_refs s r \<noteq> None"
  shows "returns (if d \<noteq> NULL then do { (_, s) \<leftarrow> nvm_admin_cq_delete api r c s; nvm_dma_unmap d s } else Some s)
    (\<lambda>s'. owned api (A - {d}) B s' \<and> stable (A - {d}) s s')"
  using d I owned_nonnull(1) [OF I] own_after [OF own_cq_delete [OF I r]] by (auto simp: dma_or_null_def)

lemma own_cleanup_qp:
  assumes H: "qp_held api A B iq s" and r: "r \<in> A" "u_refs s r \<noteq> None"
  shows "leaves api A B s (cleanup_qp api r iq s)"
proof -
  let ?A = "A \<union> set (qp_ptrs iq)" and ?B = "B \<union> set (qp_bufs iq)"
  let ?A1 = "?A - {iq_sq_dma iq}" and ?A2 = "?A - {iq_sq_dma iq} - {iq_cq_dma iq}" and ?A3 = "?A - {iq_sq_dma iq} - {iq_cq_dma iq} - {iq_prp_dma iq}"
  have I: "owned api ?A ?B s" and dj: "set (qp_ptrs iq) \<inter> A = {}" "set (qp_bufs iq) \<inter> B = {}" and di: "distinct (qp_ptrs iq)" "distinct (qp_bufs iq)"
    and dm: "\<And>d. d \<in> set (qp_ptrs iq) \<Longrightarrow> u_dmas s d \<noteq> None" using H by (simp_all add: qp_held_def)
  have nn: "NULL \<notin> ?A" "0 \<notin> ?B" using owned_nonnull [OF I] by blast+
  have A3: "?A3 = A" using dj(1) nn(1) by (auto simp: qp_ptrs_def)
  have B3: "?B - {iq_sq_buf iq} - {iq_cq_buf iq} - {iq_prp_buf iq} = B" using dj(2) nn(2) by (auto simp: qp_bufs_def)
  have rs: "r \<in> ?A1" "r \<in> ?A2" using r(1) A3 by blast+
  have d0: "dma_or_null ?A s (iq_sq_dma iq)" and d1: "dma_or_null ?A1 s (iq_cq_dma iq)" and d2: "dma_or_null ?A2 s (iq_prp_dma iq)"
    using di dm by (auto simp: dma_or_null_def qp_ptrs_def split: if_splits)
  have b: "iq_sq_buf iq = 0 \<or> iq_sq_buf iq \<in> ?B" "iq_cq_buf iq = 0 \<or> iq_cq_buf iq \<in> ?B - {iq_sq_buf iq}"
    "iq_prp_buf iq = 0 \<or> iq_prp_buf iq \<in> ?B - {iq_sq_buf iq} - {iq_cq_buf iq}"
    using di(2) by (auto simp: qp_bufs_def split: if_splits)
  show ?thesis unfolding cleanup_qp_def
  proof (rule leaves_seq [OF own_drop_sq [OF I d0 r(2)]])
    fix s1 assume s1: "owned api ?A1 ?B s1" "stable ?A1 s s1"
    have r1: "u_refs s1 r \<noteq> None" using r(2) stableD(3) [OF s1(2) rs(1)] by blast
    have c1: "dma_or_null ?A1 s1 (iq_cq_dma iq)" using d1 s1(2) by (auto simp: dma_or_null_def dest: stableD)
    show "leaves api A B s1 (do {
        s \<leftarrow> (if iq_cq_dma iq \<noteq> NULL then do { (_, s) \<leftarrow> nvm_admin_cq_delete api r (cq (iq_qp iq)) s1; nvm_dma_unmap (iq_cq_dma iq) s } else Some s1);
        s \<leftarrow> (if iq_prp_dma iq \<noteq> NULL then nvm_dma_unmap (iq_prp_dma iq) s else Some s);
        s \<leftarrow> free_buf (iq_sq_buf iq) s; s \<leftarrow> free_buf (iq_cq_buf iq) s; free_buf (iq_prp_buf iq) s })"
    proof (rule leaves_seq [OF own_drop_cq [OF s1(1) c1 r1]])
      fix s2 assume s2: "owned api ?A2 ?B s2" "stable ?A2 s1 s2"
      have c2: "dma_or_null ?A2 s2 (iq_prp_dma iq)" using d2 s1(2) s2(2) by (auto simp: dma_or_null_def dest!: stableD(2))
      show "leaves api A B s2 (do {
          s \<leftarrow> (if iq_prp_dma iq \<noteq> NULL then nvm_dma_unmap (iq_prp_dma iq) s2 else Some s2);
          s \<leftarrow> free_buf (iq_sq_buf iq) s; s \<leftarrow> free_buf (iq_cq_buf iq) s; free_buf (iq_prp_buf iq) s })"
      proof (rule leaves_seq [OF own_drop [OF s2(1) c2, unfolded A3]])
        fix s3 assume s3: "owned api A ?B s3"
        show "leaves api A B s3 (do { s \<leftarrow> free_buf (iq_sq_buf iq) s3; s \<leftarrow> free_buf (iq_cq_buf iq) s; free_buf (iq_prp_buf iq) s })"
        proof (rule leaves_seq [OF own_free_buf [OF s3 b(1)]])
          fix s4 assume s4: "owned api A (?B - {iq_sq_buf iq}) s4"
          show "leaves api A B s4 (do { s \<leftarrow> free_buf (iq_cq_buf iq) s4; free_buf (iq_prp_buf iq) s })"
          proof (rule leaves_seq [OF own_free_buf [OF s4 b(2)]])
            fix s5 assume "owned api A (?B - {iq_sq_buf iq} - {iq_cq_buf iq}) s5"
            from own_free_buf [OF this b(3), unfolded B3] show "leaves api A B s5 (free_buf (iq_prp_buf iq) s5)" .
          qed simp
        qed simp
      qed simp
    qed (use A3 in blast)
  qed (use A3 in blast)
qed

section \<open>Creation\<close>

text \<open>One more buffer, one more mapping, and a step that changes neither.\<close>

lemma held_buf:
  assumes "qp_held api A B iq s" "alloc_buf api al n s = (Some b, t)" "t = s\<lparr>u_bufs := b # u_bufs s\<rparr>" "b \<noteq> 0" "b \<notin> B \<union> set (qp_bufs iq)"
    "owned api (A \<union> set (qp_ptrs iq)) (insert b (B \<union> set (qp_bufs iq))) t"
    "qp_ptrs iq' = qp_ptrs iq" "mset (qp_bufs iq') = add_mset b (mset (qp_bufs iq))"
  shows "qp_held api A B iq' t"
proof -
  have m: "set (qp_bufs iq') = insert b (set (qp_bufs iq))" using arg_cong [OF assms(8), of set_mset] by simp
  have "distinct (qp_bufs iq') = distinct (b # qp_bufs iq)" by (rule mset_eq_imp_distinct_iff) (simp add: assms(8))
  then show ?thesis using assms m by (auto simp: qp_held_def)
qed

lemma held_dma:
  assumes "qp_held api A B iq s" "owned api (insert d (A \<union> set (qp_ptrs iq))) (B \<union> set (qp_bufs iq)) t" "stable (A \<union> set (qp_ptrs iq)) s t"
    "d \<notin> A \<union> set (qp_ptrs iq)" "u_dmas t d \<noteq> None" "qp_bufs iq' = qp_bufs iq" "mset (qp_ptrs iq') = add_mset d (mset (qp_ptrs iq))"
  shows "qp_held api A B iq' t"
proof -
  have m: "set (qp_ptrs iq') = insert d (set (qp_ptrs iq))" using arg_cong [OF assms(7), of set_mset] by simp
  have "distinct (qp_ptrs iq') = distinct (d # qp_ptrs iq)" by (rule mset_eq_imp_distinct_iff) (simp add: assms(7))
  moreover have "u_dmas t p \<noteq> None" if "p \<in> set (qp_ptrs iq)" for p
    using that assms(1) stableD(2) [OF assms(3), of p] by (fastforce simp: qp_held_def)
  ultimately show ?thesis using assms m by (auto simp: qp_held_def)
qed

lemma held_same:
  assumes "qp_held api A B iq s" "owned api (A \<union> set (qp_ptrs iq)) (B \<union> set (qp_bufs iq)) t" "stable (A \<union> set (qp_ptrs iq)) s t"
  shows "qp_held api A B iq t"
proof -
  have "u_dmas t p \<noteq> None" if "p \<in> set (qp_ptrs iq)" for p
    using that assms(1) stableD(2) [OF assms(3), of p] by (fastforce simp: qp_held_def)
  then show ?thesis using assms by (auto simp: qp_held_def)
qed

text \<open>
  A page: a buffer, and its mapping for the controller. The three setup functions begin with it, and
  differ in where they keep both and in what they do with the mapping \<open>d\<close>.
\<close>

definition set_up :: "ustate uapi \<Rightarrow> ptr set \<Rightarrow> u64 set \<Rightarrow> (IOQueuePair \<Rightarrow> bool) \<Rightarrow> ustate \<Rightarrow> ((bool \<times> IOQueuePair) \<times> ustate) option \<Rightarrow> bool" where
  "set_up api A B R s m \<longleftrightarrow> returns m (\<lambda>((ok, iq), t). qp_held api A B iq t \<and> stable A s t \<and> (ok \<longrightarrow> R iq))"

lemma set_upI:
  assumes "qp_held api A B iq t" "stable A s t" "ok \<Longrightarrow> R iq"
  shows "set_up api A B R s (Some ((ok, iq), t))"
  using assms by (simp add: set_up_def)

lemma own_page:
  assumes env: "env_ok api" and H: "qp_held api A B iq s" and c: "ctrl \<in> A" "u_ctrls s ctrl \<noteq> None"
    and f: "\<And>b. b \<noteq> 0 \<Longrightarrow> qp_ptrs (f b) = qp_ptrs iq \<and> mset (qp_bufs (f b)) = add_mset b (mset (qp_bufs iq))"
    and K: "\<And>b d t0 t y. qp_held api A B (f b) t0 \<Longrightarrow> owned api (insert d (A \<union> set (qp_ptrs (f b)))) (B \<union> set (qp_bufs (f b))) t \<Longrightarrow>
      stable (A \<union> set (qp_ptrs (f b))) t0 t \<Longrightarrow> stable A s t \<Longrightarrow> d \<notin> A \<union> set (qp_ptrs (f b)) \<Longrightarrow> d \<noteq> NULL \<Longrightarrow> u_dmas t d = Some y \<Longrightarrow>
      dma_n_ioaddrs (dc_handle y) \<noteq> 0 \<Longrightarrow> set_up api A B R s (K b d t)"
  shows "set_up api A B R s (case alloc_buf api al ps s of (None, s) \<Rightarrow> Some ((False, iq), s)
    | (Some b, s) \<Rightarrow> do { (x, s) \<leftarrow> nvm_dma_map_host api ctrl b ps s; case x of Inl _ \<Rightarrow> Some ((False, f b), s) | Inr d \<Rightarrow> K b d s })"
proof -
  have I: "owned api (A \<union> set (qp_ptrs iq)) (B \<union> set (qp_bufs iq)) s" using H by (simp add: qp_held_def)
  show ?thesis
  proof (rule own_alloc_buf [OF env I, of al ps])
    assume "alloc_buf api al ps s = (None, s)"
    then show ?thesis using H by (simp add: set_upI)
  next
    fix b
    let ?t = "s\<lparr>u_bufs := b # u_bufs s\<rparr>"
    assume b: "alloc_buf api al ps s = (Some b, ?t)" "b \<noteq> 0" "b \<notin> B \<union> set (qp_bufs iq)" "owned api (A \<union> set (qp_ptrs iq)) (insert b (B \<union> set (qp_bufs iq))) ?t"
    have H1: "qp_held api A B (f b) ?t" by (rule held_buf [OF H b(1) refl b(2-4)]) (use f [OF b(2)] in simp_all)
    have st: "stable A s ?t" by (simp add: stable_def)
    have I1: "owned api (A \<union> set (qp_ptrs (f b))) (B \<union> set (qp_bufs (f b))) ?t" using H1 by (simp add: qp_held_def)
    have c1: "u_ctrls ?t ctrl \<noteq> None" using c(2) by simp
    show ?thesis unfolding b(1) set_up_def option.case prod.case
    proof (rule returns_bind [OF own_map_host [OF env I1 c1]], clarify)
      fix x t
      assume x: "case x of Inl e \<Rightarrow> t = ?t | Inr d \<Rightarrow> owned api (insert d (A \<union> set (qp_ptrs (f b)))) (B \<union> set (qp_bufs (f b))) t \<and>
        stable (A \<union> set (qp_ptrs (f b))) ?t t \<and> d \<notin> A \<union> set (qp_ptrs (f b)) \<and> d \<noteq> NULL \<and> (\<exists>y. u_dmas t d = Some y \<and> dma_vaddr (dc_handle y) = b \<and>
        dma_n_ioaddrs (dc_handle y) = NVM_PAGE_ALIGN (NVM_PAGE_ALIGN ps (sc_pagesize api)) (sc_pagesize api) div sc_pagesize api \<and> dma_n_ioaddrs (dc_handle y) \<noteq> 0)"
      show "returns (case x of Inl _ \<Rightarrow> Some ((False, f b), t) | Inr d \<Rightarrow> K b d t) (\<lambda>((ok, iq), t). qp_held api A B iq t \<and> stable A s t \<and> (ok \<longrightarrow> R iq))"
      proof (cases x)
        case (Inl e)
        then show ?thesis using x H1 st by simp
      next
        case (Inr d)
        then obtain y where y: "owned api (insert d (A \<union> set (qp_ptrs (f b)))) (B \<union> set (qp_bufs (f b))) t"
          "stable (A \<union> set (qp_ptrs (f b))) ?t t" "d \<notin> A \<union> set (qp_ptrs (f b))" "d \<noteq> NULL" "u_dmas t d = Some y" "dma_n_ioaddrs (dc_handle y) \<noteq> 0" using x by auto
        have "stable A s t" using stable_trans [OF st stable_mono [OF y(2)]] by blast
        from K [OF H1 y(1,2) this y(3-6)] show ?thesis using Inr by (simp add: set_up_def)
      qed
    qed
  qed
qed

text \<open>The queue in the page is created with an admin command; when that fails the mapping is given back.\<close>

lemma own_create_step:
  assumes H: "qp_held api A B iq t0" and I: "owned api (insert d (A \<union> set (qp_ptrs iq))) (B \<union> set (qp_bufs iq)) t"
    and st: "stable (A \<union> set (qp_ptrs iq)) t0 t" "stable A s t" and d: "d \<notin> A \<union> set (qp_ptrs iq)" "u_dmas t d \<noteq> None"
    and m: "returns m (\<lambda>(x, u). owned api (insert d (A \<union> set (qp_ptrs iq))) (B \<union> set (qp_bufs iq)) u \<and> only_admins t u \<and> (case x of Inl e \<Rightarrow> True | Inr q \<Rightarrow> Q q))"
    and g: "\<And>q. qp_bufs (g q) = qp_bufs iq \<and> mset (qp_ptrs (g q)) = add_mset d (mset (qp_ptrs iq))" "\<And>q. Q q \<Longrightarrow> R (g q)"
  shows "set_up api A B R s (do { (y, u) \<leftarrow> m; case y of Inl _ \<Rightarrow> do { u \<leftarrow> nvm_dma_unmap d u; Some ((False, iq), u) } | Inr q \<Rightarrow> Some ((True, g q), u) })"
  unfolding set_up_def
proof (rule returns_bind [OF m], clarify)
  fix x u
  let ?A = "A \<union> set (qp_ptrs iq)" and ?B = "B \<union> set (qp_bufs iq)"
  assume u: "owned api (insert d ?A) ?B u" "only_admins t u" "case x of Inl e \<Rightarrow> True | Inr q \<Rightarrow> Q q"
  have su: "stable ?A t0 u" "stable A s u" using stable_trans [OF st(1) only_adminsD(4) [OF u(2)]] stable_trans [OF st(2) only_adminsD(4) [OF u(2)]] .
  have du: "u_dmas u d \<noteq> None" using d(2) only_adminsD(2) [OF u(2)] by simp
  show "returns (case x of Inl _ \<Rightarrow> do { u \<leftarrow> nvm_dma_unmap d u; Some ((False, iq), u) } | Inr q \<Rightarrow> Some ((True, g q), u))
    (\<lambda>((ok, iq), t). qp_held api A B iq t \<and> stable A s t \<and> (ok \<longrightarrow> R iq))"
  proof (cases x)
    case (Inl e)
    have eq: "insert d ?A - {d} = ?A" using d(1) by blast
    have "leaves api ?A ?B u (nvm_dma_unmap d u)" using own_dma_unmap [OF u(1) _ du] unfolding eq by blast
    then show ?thesis unfolding Inl sum.case
    proof (rule returns_bind, clarify)
      fix v assume v: "owned api ?A ?B v" "stable ?A u v"
      have "qp_held api A B iq v" by (rule held_same [OF H v(1) stable_trans [OF su(1) v(2)]])
      moreover have "stable A s v" using stable_trans [OF su(2) stable_mono [OF v(2)]] by blast
      ultimately show "returns (Some ((False, iq), v)) (\<lambda>((ok, iq), t). qp_held api A B iq t \<and> stable A s t \<and> (ok \<longrightarrow> R iq))" by simp
    qed
  next
    case (Inr q)
    have "qp_held api A B (g q) u" by (rule held_dma [OF H u(1) su(1) d(1) du]) (use g(1) in simp_all)
    then show ?thesis using Inr su(2) u(3) g(2) by simp
  qed
qed

lemma own_setup_cq:
  assumes env: "env_ok api" and H: "qp_held api A B iq s" and c: "ctrl \<in> A" "u_ctrls s ctrl \<noteq> None" and r: "r \<in> A" "u_refs s r \<noteq> None"
    and iq: "iq_cq_dma iq = NULL" "iq_cq_buf iq = 0"
  shows "set_up api A B (\<lambda>iq'. \<exists>b d q ct. iq' = iq\<lparr>iq_cq_buf := b, iq_cq_dma := d, iq_qp := (iq_qp iq)\<lparr>cq := q\<rparr>\<rparr> \<and> d \<noteq> NULL \<and> handle_ok api ct \<and> new_queue True (i + 1) UGDS_DEFAULT_QUEUE_DEPTH ct q)
    s (setup_cq api ctrl r ps i iq s)" (is "set_up api A B ?R s _")
  unfolding setup_cq_def Let_def
proof (rule own_page [OF env H c])
  fix b d t0 t y
  let ?iq = "iq\<lparr>iq_cq_buf := b\<rparr>"
  assume A: "qp_held api A B ?iq t0" "owned api (insert d (A \<union> set (qp_ptrs ?iq))) (B \<union> set (qp_bufs ?iq)) t"
    "stable (A \<union> set (qp_ptrs ?iq)) t0 t" "stable A s t" "d \<notin> A \<union> set (qp_ptrs ?iq)" "d \<noteq> NULL" "u_dmas t d = Some y"
  have rt: "u_refs t r \<noteq> None" using r stableD(3) [OF A(4) r(1)] by blast
  have dt: "u_dmas t d \<noteq> None" using A(7) by simp
  note M = own_cq_create [OF A(2) rt dt, of "i + 1" UGDS_DEFAULT_QUEUE_DEPTH False]
  show "set_up api A B ?R s
    (do { (y, s) \<leftarrow> nvm_admin_cq_create api r (i + 1) d 0 UGDS_DEFAULT_QUEUE_DEPTH False t;
       case y of Inl _ \<Rightarrow> do { s \<leftarrow> nvm_dma_unmap d s; Some ((False, ?iq), s) }
       | Inr q \<Rightarrow> Some ((True, ?iq\<lparr>iq_cq_dma := d, iq_qp := (iq_qp ?iq)\<lparr>cq := q\<rparr>\<rparr>), s) })"
    by (rule own_create_step [OF A(1-5) dt M]) (use iq A(6) in \<open>simp add: qp_ptrs_def qp_bufs_def\<close>, use A(6) ctrls_okD(3) [OF lib_invD(2) [OF A(2)]] in \<open>simp, blast\<close>)
qed (use iq in \<open>auto simp: qp_ptrs_def qp_bufs_def\<close>)

lemma own_setup_sq:
  assumes env: "env_ok api" and H: "qp_held api A B iq s" and c: "ctrl \<in> A" "u_ctrls s ctrl \<noteq> None" and r: "r \<in> A" "u_refs s r \<noteq> None"
    and iq: "iq_sq_dma iq = NULL" "iq_sq_buf iq = 0"
  shows "set_up api A B (\<lambda>iq'. \<exists>b d q ct. iq' = iq\<lparr>iq_sq_buf := b, iq_sq_dma := d, iq_qp := (iq_qp iq)\<lparr>sq := q, sq_mem := replicate (unat ps div 64) zero_cmd\<rparr>\<rparr> \<and> d \<noteq> NULL \<and> handle_ok api ct \<and> new_queue False (i + 1) UGDS_DEFAULT_QUEUE_DEPTH ct q)
    s (setup_sq api ctrl r ps i iq s)" (is "set_up api A B ?R s _")
  unfolding setup_sq_def Let_def
proof (rule own_page [OF env H c])
  fix b d t0 t y
  let ?iq = "iq\<lparr>iq_sq_buf := b\<rparr>"
  assume A: "qp_held api A B ?iq t0" "owned api (insert d (A \<union> set (qp_ptrs ?iq))) (B \<union> set (qp_bufs ?iq)) t"
    "stable (A \<union> set (qp_ptrs ?iq)) t0 t" "stable A s t" "d \<notin> A \<union> set (qp_ptrs ?iq)" "d \<noteq> NULL" "u_dmas t d = Some y"
  have rt: "u_refs t r \<noteq> None" using r stableD(3) [OF A(4) r(1)] by blast
  have dt: "u_dmas t d \<noteq> None" using A(7) by simp
  note M = own_sq_create [OF A(2) rt dt, of "cq (iq_qp ?iq)" "i + 1" UGDS_DEFAULT_QUEUE_DEPTH False]
  show "set_up api A B ?R s
    (do { (y, s) \<leftarrow> nvm_admin_sq_create api r (cq (iq_qp ?iq)) (i + 1) d 0 UGDS_DEFAULT_QUEUE_DEPTH False t;
       case y of Inl _ \<Rightarrow> do { s \<leftarrow> nvm_dma_unmap d s; Some ((False, ?iq), s) }
       | Inr q \<Rightarrow> Some ((True, ?iq\<lparr>iq_sq_dma := d, iq_qp := (iq_qp ?iq)\<lparr>sq := q, sq_mem := replicate (unat ps div 64) zero_cmd\<rparr>\<rparr>), s) })"
    by (rule own_create_step [OF A(1-5) dt M]) (use iq A(6) in \<open>simp add: qp_ptrs_def qp_bufs_def\<close>, use A(6) ctrls_okD(3) [OF lib_invD(2) [OF A(2)]] in \<open>simp, blast\<close>)
qed (use iq in \<open>auto simp: qp_ptrs_def qp_bufs_def\<close>)

lemma own_setup_prp:
  assumes env: "env_ok api" and H: "qp_held api A B iq s" and c: "ctrl \<in> A" "u_ctrls s ctrl \<noteq> None" and iq: "iq_prp_dma iq = NULL" "iq_prp_buf iq = 0"
  shows "set_up api A B (\<lambda>iq'. \<exists>b d a. iq' = iq\<lparr>iq_prp_buf := b, iq_prp_dma := d, iq_qp := (iq_qp iq)\<lparr>prp_mem := replicate (unat ps div 8) 0, prp_ioaddr := a\<rparr>\<rparr> \<and> d \<noteq> NULL)
    s (setup_prp api ctrl ps iq s)" (is "set_up api A B ?R s _")
  unfolding setup_prp_def Let_def
proof (rule own_page [OF env H c])
  fix b d t0 t y
  let ?iq = "iq\<lparr>iq_prp_buf := b\<rparr>"
  assume A: "qp_held api A B ?iq t0" "owned api (insert d (A \<union> set (qp_ptrs ?iq))) (B \<union> set (qp_bufs ?iq)) t"
    "stable (A \<union> set (qp_ptrs ?iq)) t0 t" "stable A s t" "d \<notin> A \<union> set (qp_ptrs ?iq)" "d \<noteq> NULL" "u_dmas t d = Some y" "dma_n_ioaddrs (dc_handle y) \<noteq> 0"
  from first_page [OF A(2,7,8)] obtain a where a: "arr_get (dma_ioaddrs (dc_handle y)) 0 = Some a" by auto
  let ?iq' = "?iq\<lparr>iq_prp_dma := d, iq_qp := (iq_qp ?iq)\<lparr>prp_mem := replicate (unat ps div 8) 0, prp_ioaddr := a\<rparr>\<rparr>"
  have "qp_held api A B ?iq' t" by (rule held_dma [OF A(1-3,5)]) (use iq A(6,7) in \<open>auto simp: qp_ptrs_def qp_bufs_def\<close>)
  moreover have "?R ?iq'" using A(6) by auto
  ultimately show "set_up api A B ?R s
    (do { x \<leftarrow> u_dmas t d; a \<leftarrow> arr_get (dma_ioaddrs (dc_handle x)) 0;
       Some ((True, ?iq\<lparr>iq_prp_dma := d, iq_qp := (iq_qp ?iq)\<lparr>prp_mem := replicate (unat ps div 8) 0, prp_ioaddr := a\<rparr>\<rparr>), t) })"
    using A(4,7) a by (simp add: set_up_def)
qed (use iq in \<open>auto simp: qp_ptrs_def qp_bufs_def\<close>)

text \<open>A complete queue pair: three mappings, at most 64 completion entries, and a page for a PRP list.\<close>

definition qp_ready :: "ustate uapi \<Rightarrow> IOQueuePair \<Rightarrow> bool" where
  "qp_ready api iq \<longleftrightarrow> iq_sq_dma iq \<noteq> NULL \<and> iq_cq_dma iq \<noteq> NULL \<and> iq_prp_dma iq \<noteq> NULL \<and>
     io_wf (unat (sc_pagesize api) div 8) (iq_qp iq) \<and> cq_wf (cq (iq_qp iq)) \<and> qs (cq (iq_qp iq)) \<le> 64"

lemma new_queue_wf:
  assumes "handle_ok api ct" "unat no \<le> 100"
  shows "new_queue False no UGDS_DEFAULT_QUEUE_DEPTH ct q \<Longrightarrow> sq_wf q \<and> q_last q = tail q \<and> unat (qs q) = 64"
    "new_queue True no UGDS_DEFAULT_QUEUE_DEPTH ct q \<Longrightarrow> cq_wf q \<and> qs q = 64"
proof -
  have db: "SQ_DBL (mm_ptr ct) no (dstrd ct) \<noteq> 0" using doorbell_nonzero(1) [OF _ _ assms(2)] assms(1) by (simp add: handle_ok_def)
  show "new_queue False no UGDS_DEFAULT_QUEUE_DEPTH ct q \<Longrightarrow> sq_wf q \<and> q_last q = tail q \<and> unat (qs q) = 64"
    using db by (auto simp: new_queue_def sq_wf_def UGDS_DEFAULT_QUEUE_DEPTH_def intro!: exI [of _ 6])
  show "new_queue True no UGDS_DEFAULT_QUEUE_DEPTH ct q \<Longrightarrow> cq_wf q \<and> qs q = 64"
    by (simp add: new_queue_def cq_wf_def UGDS_DEFAULT_QUEUE_DEPTH_def)
qed

lemma set_up_seq:
  assumes "set_up api A B R s m" "\<And>iq t. qp_held api A B iq t \<Longrightarrow> stable A s t \<Longrightarrow> R iq \<Longrightarrow> set_up api A B R' t (f iq t)"
  shows "set_up api A B R' s (do { ((ok, iq), t) \<leftarrow> m; if \<not> ok then Some ((False, iq), t) else f iq t })"
  unfolding set_up_def
proof (rule returns_bind [OF assms(1) [unfolded set_up_def]], clarify)
  fix ok iq t assume t: "qp_held api A B iq t" "stable A s t" "ok \<longrightarrow> R iq"
  show "returns (if \<not> ok then Some ((False, iq), t) else f iq t) (\<lambda>((ok, iq), t). qp_held api A B iq t \<and> stable A s t \<and> (ok \<longrightarrow> R' iq))"
  proof (cases ok)
    case True
    then show ?thesis using assms(2) [OF t(1,2)] t(2,3) stable_trans unfolding set_up_def by (auto elim!: returns_mono)
  qed (use t in simp)
qed

lemma set_up_mono: "set_up api A B R s m \<Longrightarrow> (\<And>iq. R iq \<Longrightarrow> R' iq) \<Longrightarrow> set_up api A B R' s m"
  unfolding set_up_def by (auto elim!: returns_mono)

lemma held_zero: "owned api A B s \<Longrightarrow> qp_held api A B zero_iq s"
  by (simp add: qp_held_def qp_ptrs_def qp_bufs_def zero_iq_def)

lemma own_create_qp:
  assumes env: "env_ok api" and I: "owned api A B s" and c: "ctrl \<in> A" "u_ctrls s ctrl \<noteq> None" and r: "r \<in> A" "u_refs s r \<noteq> None" and i: "unat i < 16"
  shows "set_up api A B (qp_ready api) s (create_qp api ctrl r (sc_pagesize api) i s)"
  unfolding create_qp_def
proof (rule set_up_seq [OF own_setup_cq [OF env held_zero [OF I] c r]])
  let ?ps = "sc_pagesize api"
  have no: "unat (i + 1) \<le> 100" using i by (simp add: unat_word_ariths)
  fix iq t assume t: "qp_held api A B iq t" "stable A s t" "\<exists>b d q ct. iq = zero_iq\<lparr>iq_cq_buf := b, iq_cq_dma := d, iq_qp := (iq_qp zero_iq)\<lparr>cq := q\<rparr>\<rparr> \<and>
    d \<noteq> NULL \<and> handle_ok api ct \<and> new_queue True (i + 1) UGDS_DEFAULT_QUEUE_DEPTH ct q"
  then have iq: "iq_sq_dma iq = NULL" "iq_sq_buf iq = 0" "iq_prp_dma iq = NULL" "iq_prp_buf iq = 0" "iq_cq_dma iq \<noteq> NULL" "cq_wf (cq (iq_qp iq)) \<and> qs (cq (iq_qp iq)) = 64"
    using new_queue_wf(2) [OF _ no] by (auto simp: zero_iq_def)
  have ct: "u_ctrls t ctrl \<noteq> None" "u_refs t r \<noteq> None" using c r stableD(1) [OF t(2) c(1)] stableD(3) [OF t(2) r(1)] by blast+
  show "set_up api A B (qp_ready api) t (do {
      ((ok, iq), s) \<leftarrow> setup_sq api ctrl r ?ps i iq t; if \<not> ok then Some ((False, iq), s) else setup_prp api ctrl ?ps iq s })"
  proof (rule set_up_seq [OF own_setup_sq [OF env t(1) c(1) ct(1) r(1) ct(2) iq(1,2)]])
    fix iq' u assume u: "qp_held api A B iq' u" "stable A t u" "\<exists>b d q ct. iq' = iq\<lparr>iq_sq_buf := b, iq_sq_dma := d, iq_qp := (iq_qp iq)\<lparr>sq := q, sq_mem := replicate (unat ?ps div 64) zero_cmd\<rparr>\<rparr> \<and>
      d \<noteq> NULL \<and> handle_ok api ct \<and> new_queue False (i + 1) UGDS_DEFAULT_QUEUE_DEPTH ct q"
    then have iq': "iq_prp_dma iq' = NULL" "iq_prp_buf iq' = 0" "iq_cq_dma iq' \<noteq> NULL" "iq_sq_dma iq' \<noteq> NULL" "cq_wf (cq (iq_qp iq')) \<and> qs (cq (iq_qp iq')) = 64"
      "sq_wf (sq (iq_qp iq')) \<and> q_last (sq (iq_qp iq')) = tail (sq (iq_qp iq')) \<and> unat (qs (sq (iq_qp iq'))) = 64" "length (sq_mem (iq_qp iq')) = unat ?ps div 64"
      using iq new_queue_wf(1) [OF _ no] by auto
    have cu: "u_ctrls u ctrl \<noteq> None" using ct(1) stableD(1) [OF u(2) c(1)] by blast
    have "64 \<le> unat ?ps div 64" using env_okD(2) [OF env] by auto
    then show "set_up api A B (qp_ready api) u (setup_prp api ctrl ?ps iq' u)"
      by (intro set_up_mono [OF own_setup_prp [OF env u(1) c(1) cu iq'(1,2)]]) (use iq' in \<open>auto simp: qp_ready_def io_wf_def\<close>)
  qed
qed (simp_all add: zero_iq_def)

end
