(* ===== verification/Ugds_Handle.thy ===== *)
theory Ugds_Handle
  imports Ugds_Qp
begin

text \<open>
  Handles: all queue pairs of a handle, registration, which succeeds or undoes everything, and release.
\<close>

section \<open>Releasing a list of resources\<close>

text \<open>
  The interface of a loop that releases what a list names: each release returns and leaves the rest of
  the list to be released. Its instances are the queue pairs of a handle and the registered buffers.
\<close>

locale release_loop =
  fixes held :: "'r list \<Rightarrow> 's \<Rightarrow> bool"
    and put :: "'r \<Rightarrow> 's \<Rightarrow> 's option"
    and loop :: "'r list \<Rightarrow> 's \<Rightarrow> 's option"
  assumes loop_Nil: "loop [] s = Some s"
    and loop_Cons: "loop (x # xs) s = put x s \<bind> loop xs"
    and put_held: "held (x # xs) s \<Longrightarrow> returns (put x s) (held xs)"
begin

lemma loop_returns: "held xs s \<Longrightarrow> returns (loop xs s) (held [])"
proof (induction xs arbitrary: s)
  case Nil
  then show ?case by (simp add: loop_Nil)
next
  case (Cons x xs)
  show ?case unfolding loop_Cons by (rule returns_bind [OF put_held [OF Cons.prems]]) (rule Cons.IH)
qed

end

section \<open>Queue pairs of a handle\<close>

definition qps_ptrs :: "IOQueuePair list \<Rightarrow> ptr list" where
  "qps_ptrs qps = concat (map qp_ptrs qps)"

definition qps_bufs :: "IOQueuePair list \<Rightarrow> u64 list" where
  "qps_bufs qps = concat (map qp_bufs qps)"

lemma qps_simps [simp]: "qps_ptrs [] = []" "qps_bufs [] = []" "qps_ptrs (iq # qps) = qp_ptrs iq @ qps_ptrs qps" "qps_bufs (iq # qps) = qp_bufs iq @ qps_bufs qps"
  "qps_ptrs (xs @ ys) = qps_ptrs xs @ qps_ptrs ys" "qps_bufs (xs @ ys) = qps_bufs xs @ qps_bufs ys"
  by (simp_all add: qps_ptrs_def qps_bufs_def)

definition qps_held :: "ustate uapi \<Rightarrow> ptr set \<Rightarrow> u64 set \<Rightarrow> IOQueuePair list \<Rightarrow> ustate \<Rightarrow> bool" where
  "qps_held api A B qps s \<longleftrightarrow> owned api (A \<union> set (qps_ptrs qps)) (B \<union> set (qps_bufs qps)) s \<and> distinct (qps_ptrs qps) \<and> distinct (qps_bufs qps) \<and>
     set (qps_ptrs qps) \<inter> A = {} \<and> set (qps_bufs qps) \<inter> B = {} \<and> (\<forall>d\<in>set (qps_ptrs qps). u_dmas s d \<noteq> None)"

lemma stable_dma: "stable A s t \<Longrightarrow> d \<in> A \<Longrightarrow> u_dmas s d \<noteq> None \<Longrightarrow> u_dmas t d \<noteq> None"
  by (auto dest: stableD(2))

lemma qps_held_Cons:
  assumes "qps_held api A B (iq # qps) s"
  shows "qp_held api (A \<union> set (qps_ptrs qps)) (B \<union> set (qps_bufs qps)) iq s"
proof -
  have "A \<union> set (qps_ptrs (iq # qps)) = (A \<union> set (qps_ptrs qps)) \<union> set (qp_ptrs iq)" "B \<union> set (qps_bufs (iq # qps)) = (B \<union> set (qps_bufs qps)) \<union> set (qp_bufs iq)" by auto
  then have "owned api ((A \<union> set (qps_ptrs qps)) \<union> set (qp_ptrs iq)) ((B \<union> set (qps_bufs qps)) \<union> set (qp_bufs iq)) s" using assms unfolding qps_held_def by argo
  then show ?thesis using assms unfolding qps_held_def qp_held_def by auto
qed

lemma qps_held_after:
  assumes "qps_held api A B (iq # qps) s" "owned api (A \<union> set (qps_ptrs qps)) (B \<union> set (qps_bufs qps)) t" "stable (A \<union> set (qps_ptrs qps)) s t"
  shows "qps_held api A B qps t"
proof -
  have "u_dmas t d \<noteq> None" if "d \<in> set (qps_ptrs qps)" for d
    by (rule stable_dma [OF assms(3)]) (use that assms(1) in \<open>simp_all add: qps_held_def\<close>)
  moreover have "distinct (qps_ptrs qps)" "distinct (qps_bufs qps)" "set (qps_ptrs qps) \<inter> A = {}" "set (qps_bufs qps) \<inter> B = {}"
    using assms(1) unfolding qps_held_def by auto
  ultimately show ?thesis using assms(2) unfolding qps_held_def by blast
qed

interpretation qps: release_loop "\<lambda>qps s. qps_held api A B qps s \<and> r \<in> A \<and> u_refs s r \<noteq> None \<and> stable A s0 s" "cleanup_qp api r" "cleanup_qps api r"
  for api A B r s0
proof unfold_locales
  fix iq qps s
  assume H: "qps_held api A B (iq # qps) s \<and> r \<in> A \<and> u_refs s r \<noteq> None \<and> stable A s0 s"
  let ?A = "A \<union> set (qps_ptrs qps)"
  have r: "r \<in> ?A" "u_refs s r \<noteq> None" using H by auto
  show "returns (cleanup_qp api r iq s) (\<lambda>s. qps_held api A B qps s \<and> r \<in> A \<and> u_refs s r \<noteq> None \<and> stable A s0 s)"
  proof (rule returns_mono [OF own_cleanup_qp [OF qps_held_Cons r]])
    fix t assume t: "owned api ?A (B \<union> set (qps_bufs qps)) t \<and> stable ?A s t"
    have "qps_held api A B qps t" using qps_held_after H t by blast
    moreover have "u_refs t r \<noteq> None" using r t stableD(3) [of ?A s t r] by blast
    moreover have "stable A s0 t" using H t stable_trans stable_mono [of ?A s t A] by blast
    ultimately show "qps_held api A B qps t \<and> r \<in> A \<and> u_refs t r \<noteq> None \<and> stable A s0 t" using H by blast
  qed (use H in blast)
qed simp_all

lemma own_cleanup_qps:
  assumes "qps_held api A B qps s" "r \<in> A" "u_refs s r \<noteq> None"
  shows "leaves api A B s (cleanup_qps api r qps s)"
proof (rule returns_mono [OF qps.loop_returns [of api A B qps s r s]])
  show "qps_held api A B qps s \<and> r \<in> A \<and> u_refs s r \<noteq> None \<and> stable A s s" using assms by simp
qed (simp add: qps_held_def)

lemma qps_held_keep:
  assumes "qps_held api A B qps s" "owned api (A \<union> set (qps_ptrs qps)) (B \<union> set (qps_bufs qps)) t" "stable (A \<union> set (qps_ptrs qps)) s t"
  shows "qps_held api A B qps t"
proof -
  have "u_dmas t d \<noteq> None" if "d \<in> set (qps_ptrs qps)" for d
    by (rule stable_dma [OF assms(3)]) (use that assms(1) in \<open>simp_all add: qps_held_def\<close>)
  then show ?thesis using assms(1,2) unfolding qps_held_def by blast
qed

lemma qps_held_snoc:
  assumes "qps_held api A B qps s" "qp_held api (A \<union> set (qps_ptrs qps)) (B \<union> set (qps_bufs qps)) iq t" "stable (A \<union> set (qps_ptrs qps)) s t"
  shows "qps_held api A B (qps @ [iq]) t"
proof -
  have d: "u_dmas t d \<noteq> None" if "d \<in> set (qps_ptrs qps)" for d
    by (rule stable_dma [OF assms(3)]) (use that assms(1) in \<open>simp_all add: qps_held_def\<close>)
  have q: "distinct (qp_ptrs iq)" "distinct (qp_bufs iq)" "set (qp_ptrs iq) \<inter> (A \<union> set (qps_ptrs qps)) = {}" "set (qp_bufs iq) \<inter> (B \<union> set (qps_bufs qps)) = {}"
    "\<forall>d\<in>set (qp_ptrs iq). u_dmas t d \<noteq> None" using assms(2) unfolding qp_held_def by blast+
  have p: "distinct (qps_ptrs qps)" "distinct (qps_bufs qps)" "set (qps_ptrs qps) \<inter> A = {}" "set (qps_bufs qps) \<inter> B = {}" using assms(1) unfolding qps_held_def by blast+
  have "owned api (A \<union> set (qps_ptrs (qps @ [iq]))) (B \<union> set (qps_bufs (qps @ [iq]))) t" using assms(2) by (simp add: qp_held_def Un_assoc)
  moreover have "distinct (qps_ptrs (qps @ [iq]))" "distinct (qps_bufs (qps @ [iq]))" using p(1,2) q(1-4) by auto
  moreover have "set (qps_ptrs (qps @ [iq])) \<inter> A = {}" "set (qps_bufs (qps @ [iq])) \<inter> B = {}" using p(3,4) q(3,4) by auto
  moreover have "\<forall>d\<in>set (qps_ptrs (qps @ [iq])). u_dmas t d \<noteq> None" using d q(5) by auto
  ultimately show ?thesis unfolding qps_held_def by blast
qed

lemma own_create_qps:
  assumes env: "env_ok api" and c: "ctrl \<in> A" and r: "r \<in> A" and n: "unat n \<le> 16"
  shows "qps_held api A B qps s \<Longrightarrow> u_ctrls s ctrl \<noteq> None \<Longrightarrow> u_refs s r \<noteq> None \<Longrightarrow> \<forall>iq\<in>set qps. qp_ready api iq \<Longrightarrow> length qps = unat i \<Longrightarrow> i \<le> n \<Longrightarrow>
    returns (create_qps api ctrl r (sc_pagesize api) i n qps s) (\<lambda>(x, t). stable A s t \<and> (case x of None \<Rightarrow> owned api A B t
      | Some qps' \<Rightarrow> qps_held api A B qps' t \<and> (\<forall>iq\<in>set qps'. qp_ready api iq) \<and> length qps' = unat n))"
proof (induction "unat n - unat i" arbitrary: i qps s rule: less_induct)
  case less
  note H = less.prems(1)
  show ?case
  proof (cases "i < n")
    case False
    then have "i = n" using less.prems(6) by simp
    then show ?thesis using less.prems by (subst create_qps.simps) simp
  next
    case True
    let ?A = "A \<union> set (qps_ptrs qps)" and ?B = "B \<union> set (qps_bufs qps)"
    have ui: "unat i < unat n" using True by (simp add: word_less_nat_alt)
    then have i16: "unat i < 16" and inc: "unat (i + 1) = unat i + 1" using n True unat_inc [OF True] by simp_all
    have I: "owned api ?A ?B s" using H by (simp add: qps_held_def)
    have cr: "ctrl \<in> ?A" "r \<in> ?A" using c r by simp_all
    note Q = own_create_qp [OF env I cr(1) less.prems(2) cr(2) less.prems(3) i16]
    show ?thesis
    proof (subst create_qps.simps, simp only: True if_True, rule returns_bind [OF Q [unfolded set_up_def]], clarify)
      fix ok iq t assume t: "qp_held api ?A ?B iq t" "stable ?A s t" "ok \<longrightarrow> qp_ready api iq"
      have tc: "u_ctrls t ctrl \<noteq> None" "u_refs t r \<noteq> None" using less.prems(2,3) stableD(1) [OF t(2) cr(1)] stableD(3) [OF t(2) cr(2)] by blast+
      have stA: "stable A s t" using stable_mono [OF t(2)] by blast
      let ?Q = "\<lambda>(x, t). stable A s t \<and> (case x of None \<Rightarrow> owned api A B t | Some qps' \<Rightarrow> qps_held api A B qps' t \<and> (\<forall>iq\<in>set qps'. qp_ready api iq) \<and> length qps' = unat n)"
      show "returns (if ok then create_qps api ctrl r (sc_pagesize api) (i + 1) n (qps @ [iq]) t
        else do { s \<leftarrow> cleanup_qp api r iq t; s \<leftarrow> cleanup_qps api r qps s; Some (None, s) }) ?Q"
      proof (cases ok)
        case ok: True
        have "returns (create_qps api ctrl r (sc_pagesize api) (i + 1) n (qps @ [iq]) t) (\<lambda>(x, u). stable A t u \<and> (case x of None \<Rightarrow> owned api A B u
            | Some qps' \<Rightarrow> qps_held api A B qps' u \<and> (\<forall>iq\<in>set qps'. qp_ready api iq) \<and> length qps' = unat n))"
          by (rule less.hyps) (use ui inc qps_held_snoc [OF H t(1,2)] tc t(3) ok less.prems(4,5) in \<open>auto simp: word_le_nat_alt\<close>)
        then show ?thesis using ok stable_trans [OF stA] by (auto elim!: returns_mono)
      next
        case False
        have "leaves api A B t (do { s \<leftarrow> cleanup_qp api r iq t; cleanup_qps api r qps s })"
        proof (rule leaves_seq [OF own_cleanup_qp [OF t(1) cr(2) tc(2)]])
          fix u assume u: "owned api ?A ?B u" "stable ?A t u"
          have "u_refs u r \<noteq> None" using tc(2) stableD(3) [OF u(2) cr(2)] by blast
          then show "leaves api A B u (cleanup_qps api r qps u)" by (intro own_cleanup_qps [OF qps_held_keep [OF H u(1) stable_trans [OF t(2) u(2)]] r])
        qed simp
        then have "returns (do { s \<leftarrow> do { s \<leftarrow> cleanup_qp api r iq t; cleanup_qps api r qps s }; Some (None, s) }) ?Q"
          by (rule returns_bind) (use stable_trans [OF stA] in auto)
        then show ?thesis using False by simp
      qed
    qed
  qed
qed

section \<open>Registration\<close>

text \<open>A handle whose admin queue exists, on top of what else the client owns.\<close>

definition admin_held :: "ustate uapi \<Rightarrow> ptr set \<Rightarrow> u64 set \<Rightarrow> HandleState \<Rightarrow> ustate \<Rightarrow> bool" where
  "admin_held api A B hs s \<longleftrightarrow> owned api (A \<union> {h_ctrl hs, h_aq_dma hs, h_aq_ref hs}) (insert (h_aq_buf hs) B) s \<and>
     distinct [h_ctrl hs, h_aq_dma hs, h_aq_ref hs] \<and> {h_ctrl hs, h_aq_dma hs, h_aq_ref hs} \<inter> A = {} \<and> h_aq_buf hs \<notin> B \<and>
     u_ctrls s (h_ctrl hs) \<noteq> None \<and> (\<exists>x. u_dmas s (h_aq_dma hs) = Some x \<and> 3 \<le> dma_n_ioaddrs (dc_handle x)) \<and>
     (\<exists>a. u_refs s (h_aq_ref hs) = Some a \<and> ar_ctrl a = h_ctrl hs)"

lemma admin_held_keep:
  assumes "admin_held api A B hs s" "owned api (A \<union> {h_ctrl hs, h_aq_dma hs, h_aq_ref hs}) (insert (h_aq_buf hs) B) t"
    "stable (A \<union> {h_ctrl hs, h_aq_dma hs, h_aq_ref hs}) s t"
  shows "admin_held api A B hs t"
proof -
  obtain c x a where o: "u_ctrls s (h_ctrl hs) = Some c" "u_dmas s (h_aq_dma hs) = Some x" "3 \<le> dma_n_ioaddrs (dc_handle x)" "u_refs s (h_aq_ref hs) = Some a" "ar_ctrl a = h_ctrl hs"
    using assms(1) unfolding admin_held_def by blast
  have "u_ctrls t (h_ctrl hs) \<noteq> None" "u_dmas t (h_aq_dma hs) = Some x" "u_refs t (h_aq_ref hs) = Some a"
    using stableD(1) [OF assms(3) _ o(1)] stableD(2) [OF assms(3) _ o(2)] stableD(3) [OF assms(3) _ o(4)] by auto
  then show ?thesis using assms(1,2) o(3,5) unfolding admin_held_def by blast
qed

lemma own_release_setup:
  assumes H: "admin_held api A B hs s"
  shows "leaves api A B s (release_setup hs s)"
proof -
  let ?c = "h_ctrl hs" and ?d = "h_aq_dma hs" and ?r = "h_aq_ref hs" and ?b = "h_aq_buf hs"
  have I: "owned api (A \<union> {?c, ?d, ?r}) (insert ?b B) s" and di: "distinct [?c, ?d, ?r]" "{?c, ?d, ?r} \<inter> A = {}" "?b \<notin> B"
    and o: "u_ctrls s ?c \<noteq> None" "u_dmas s ?d \<noteq> None" "u_refs s ?r \<noteq> None" using H unfolding admin_held_def by auto
  have e: "A \<union> {?c, ?d, ?r} - {?r} = A \<union> {?c, ?d}" "A \<union> {?c, ?d} - {?d} = A \<union> {?c}" "A \<union> {?c} - {?c} = A" "insert ?b B - {?b} = B" using di by auto
  show ?thesis unfolding release_setup_def
  proof (rule leaves_seq [OF own_aq_destroy [OF I _ o(3), unfolded e]])
    fix s1 assume s1: "owned api (A \<union> {?c, ?d}) (insert ?b B) s1" "stable (A \<union> {?c, ?d}) s s1"
    have d1: "u_dmas s1 ?d \<noteq> None" using stable_dma [OF s1(2) _ o(2)] by simp
    have c1: "u_ctrls s1 ?c \<noteq> None" using o(1) stableD(1) [OF s1(2), of ?c] by auto
    show "leaves api A B s1 (do { s \<leftarrow> nvm_dma_unmap ?d s1; s \<leftarrow> free_buf ?b s; nvm_ctrl_free ?c s })"
    proof (rule leaves_seq [OF own_dma_unmap [OF s1(1) _ d1, unfolded e]])
      fix s2 assume s2: "owned api (A \<union> {?c}) (insert ?b B) s2" "stable (A \<union> {?c}) s1 s2"
      have c2: "u_ctrls s2 ?c \<noteq> None" using c1 stableD(1) [OF s2(2), of ?c] by auto
      show "leaves api A B s2 (do { s \<leftarrow> free_buf ?b s2; nvm_ctrl_free ?c s })"
      proof (rule leaves_seq [OF own_free_buf [OF s2(1), of ?b, unfolded e]])
        fix s3 assume s3: "owned api (A \<union> {?c}) B s3" "stable (A \<union> {?c}) s2 s3"
        have c3: "u_ctrls s3 ?c \<noteq> None" using c2 stableD(1) [OF s3(2), of ?c] by auto
        show "leaves api A B s3 (nvm_ctrl_free ?c s3)" using own_ctrl_free [OF s3(1) _ c3, unfolded e] by simp
      qed auto
    qed auto
  qed auto
qed

text \<open>Undoing the first steps of a registration.\<close>

lemma undo_ctrl: "owned api (insert p A) B s \<Longrightarrow> p \<notin> A \<Longrightarrow> u_ctrls s p \<noteq> None \<Longrightarrow> leaves api A B s (nvm_ctrl_free p s)"
  using own_ctrl_free [of api "insert p A" B s p] by simp

lemma undo_buf:
  assumes "owned api (insert p A) (insert b B) s" "p \<notin> A" "b \<notin> B" "u_ctrls s p \<noteq> None"
  shows "leaves api A B s (do { s \<leftarrow> free_buf b s; nvm_ctrl_free p s })"
proof -
  have e: "insert b B - {b} = B" using assms(3) by simp
  show ?thesis
  proof (rule leaves_seq [OF own_free_buf [OF assms(1), of b, unfolded e]])
    fix t assume t: "owned api (insert p A) B t" "stable (insert p A) s t"
    have "u_ctrls t p \<noteq> None" using assms(4) stableD(1) [OF t(2), of p] by auto
    then show "leaves api A B t (nvm_ctrl_free p t)" by (rule undo_ctrl [OF t(1) assms(2)])
  qed auto
qed

lemma undo_map:
  assumes "owned api (insert d (insert p A)) (insert b B) s" "p \<notin> A" "d \<notin> insert p A" "b \<notin> B" "u_ctrls s p \<noteq> None" "u_dmas s d \<noteq> None"
  shows "leaves api A B s (do { s \<leftarrow> nvm_dma_unmap d s; s \<leftarrow> free_buf b s; nvm_ctrl_free p s })"
proof -
  have e: "insert d (insert p A) - {d} = insert p A" using assms(3) by simp
  show ?thesis
  proof (rule leaves_seq [OF own_dma_unmap [OF assms(1) _ assms(6), unfolded e]])
    fix t assume t: "owned api (insert p A) (insert b B) t" "stable (insert p A) s t"
    have "u_ctrls t p \<noteq> None" using assms(5) stableD(1) [OF t(2), of p] by auto
    then show "leaves api A B t (do { s \<leftarrow> free_buf b t; nvm_ctrl_free p s })" by (rule undo_buf [OF t(1) assms(2,4)])
  qed auto
qed

lemma three_pages: "env_ok api \<Longrightarrow> NVM_PAGE_ALIGN (NVM_PAGE_ALIGN (sc_pagesize api * 3) (sc_pagesize api)) (sc_pagesize api) div sc_pagesize api = 3"
  using env_okD(2) [of api] by (auto simp: NVM_PAGE_ALIGN_def NVM_PAGE_MASK_def)

text \<open>A result that is a handle, or nothing, and then nothing is held.\<close>

definition opens :: "ustate uapi \<Rightarrow> ptr set \<Rightarrow> u64 set \<Rightarrow> (HandleState \<Rightarrow> ustate \<Rightarrow> bool) \<Rightarrow> ustate \<Rightarrow> (HandleState option \<times> ustate) option \<Rightarrow> bool" where
  "opens api A B P s m \<longleftrightarrow> returns m (\<lambda>(x, t). stable A s t \<and> (case x of None \<Rightarrow> owned api A B t | Some hs \<Rightarrow> P hs t))"

lemma opens_undo:
  assumes "leaves api A B t m" "stable A s t"
  shows "opens api A B P s (do { u \<leftarrow> m; Some (None, u) })"
  unfolding opens_def by (rule returns_bind [OF assms(1)]) (use stable_trans [OF assms(2)] in auto)

abbreviation fresh_handle :: "int \<Rightarrow> ptr \<Rightarrow> ptr \<Rightarrow> u64 \<Rightarrow> ptr \<Rightarrow> HandleState" where
  "fresh_handle fd ctrl dma buf r \<equiv> \<lparr>h_fd = fd, h_ctrl = ctrl, h_aq_ref = r, h_aq_dma = dma, h_aq_buf = buf, h_ctrl_info = zero_ctrl_info, h_ns_info = zero_ns_info,
     h_ns_id = 1, h_block_size = 0, h_max_transfer_size = 0, h_max_transfer_pages = 0, h_num_qps = 0, h_qps = [], h_rr_counter = 0\<rparr>"

abbreviation opened :: "ustate uapi \<Rightarrow> ptr set \<Rightarrow> u64 set \<Rightarrow> HandleState \<Rightarrow> ustate \<Rightarrow> bool" where
  "opened api A B hs t \<equiv> admin_held api A B hs t \<and> h_qps hs = []"

lemma own_open_aq:
  assumes env: "env_ok api" and I: "owned api (insert d (insert p A)) (insert b B) t" and st: "stable A s t"
    and o: "p \<notin> A" "d \<notin> insert p A" "b \<notin> B" "u_ctrls t p \<noteq> None" "u_dmas t d = Some y" "3 \<le> dma_n_ioaddrs (dc_handle y)"
  shows "opens api A B (opened api A B) s (do {
      (x, s) \<leftarrow> nvm_aq_create api p d t;
      case x of
        Inl _ \<Rightarrow> do { s \<leftarrow> nvm_dma_unmap d s; s \<leftarrow> free_buf b s; s \<leftarrow> nvm_ctrl_free p s; Some (None, s) }
      | Inr r \<Rightarrow> Some (Some (fresh_handle fd p d b r), s) })"
  unfolding opens_def
proof -
  have dt: "u_dmas t d \<noteq> None" using o(5) by simp
  let ?Q = "\<lambda>(x, t). stable A s t \<and> (case x of None \<Rightarrow> owned api A B t | Some hs \<Rightarrow> opened api A B hs t)"
  show "returns (do {
      (x, s) \<leftarrow> nvm_aq_create api p d t;
      case x of
        Inl _ \<Rightarrow> do { s \<leftarrow> nvm_dma_unmap d s; s \<leftarrow> free_buf b s; s \<leftarrow> nvm_ctrl_free p s; Some (None, s) }
      | Inr r \<Rightarrow> Some (Some (fresh_handle fd p d b r), s) }) ?Q"
  proof (rule returns_bind [OF own_aq_create [OF env I o(4) dt]], clarify)
    fix x u
    assume x: "case x of Inl e \<Rightarrow> u = t | Inr r \<Rightarrow> owned api (insert r (insert d (insert p A))) (insert b B) u \<and> stable (insert d (insert p A)) t u \<and>
      r \<notin> insert d (insert p A) \<and> r \<noteq> NULL \<and> (\<exists>a. u_refs u r = Some a \<and> ar_ctrl a = p)"
    show "returns (case x of Inl _ \<Rightarrow> do { s \<leftarrow> nvm_dma_unmap d u; s \<leftarrow> free_buf b s; s \<leftarrow> nvm_ctrl_free p s; Some (None, s) }
      | Inr r \<Rightarrow> Some (Some (fresh_handle fd p d b r), u)) ?Q"
    proof (cases x)
      case (Inl e)
      have "opens api A B (opened api A B) s (do { s \<leftarrow> do { s \<leftarrow> nvm_dma_unmap d t; s \<leftarrow> free_buf b s; nvm_ctrl_free p s }; Some (None, s) })"
        by (rule opens_undo [OF undo_map [OF I o(1-4) dt] st])
      then show ?thesis using Inl x by (simp add: opens_def)
    next
      case (Inr r)
      then have u: "owned api (insert r (insert d (insert p A))) (insert b B) u" "stable (insert d (insert p A)) t u" "r \<notin> insert d (insert p A)"
        "\<exists>a. u_refs u r = Some a \<and> ar_ctrl a = p" using x by simp_all
      have e: "insert r (insert d (insert p A)) = A \<union> {p, d, r}" by auto
      have "u_ctrls u p \<noteq> None" "u_dmas u d = Some y" using o(4) stableD(1) [OF u(2), of p] stableD(2) [OF u(2) _ o(5)] by auto
      then have "admin_held api A B (fresh_handle fd p d b r) u" using u o unfolding admin_held_def e by auto
      moreover have "stable A s u" using stable_trans [OF st stable_mono [OF u(2)]] by blast
      ultimately show ?thesis using Inr by simp
    qed
  qed
qed

lemma own_open_map:
  assumes env: "env_ok api" and I: "owned api (insert p A) (insert b B) t" and st: "stable A s t"
    and o: "p \<notin> A" "b \<notin> B" "u_ctrls t p \<noteq> None"
  shows "opens api A B (opened api A B) s (do {
      (x, s) \<leftarrow> nvm_dma_map_host api p b (sc_pagesize api * 3) t;
      case x of
        Inl _ \<Rightarrow> do { s \<leftarrow> free_buf b s; s \<leftarrow> nvm_ctrl_free p s; Some (None, s) }
      | Inr dma \<Rightarrow> do {
          (x, s) \<leftarrow> nvm_aq_create api p dma s;
          case x of
            Inl _ \<Rightarrow> do { s \<leftarrow> nvm_dma_unmap dma s; s \<leftarrow> free_buf b s; s \<leftarrow> nvm_ctrl_free p s; Some (None, s) }
          | Inr r \<Rightarrow> Some (Some (fresh_handle fd p dma b r), s) } })"
    (is "opens api A B ?P s (do { (x, s) \<leftarrow> ?m; ?f x s })")
  unfolding opens_def
proof (rule returns_bind [OF own_map_host [OF env I o(3)]], clarify)
  fix x :: "int + ptr" and u
  assume x: "case x of Inl e \<Rightarrow> u = t | Inr d \<Rightarrow> owned api (insert d (insert p A)) (insert b B) u \<and> stable (insert p A) t u \<and> d \<notin> insert p A \<and> d \<noteq> NULL \<and>
    (\<exists>y. u_dmas u d = Some y \<and> dma_vaddr (dc_handle y) = b \<and>
      dma_n_ioaddrs (dc_handle y) = NVM_PAGE_ALIGN (NVM_PAGE_ALIGN (sc_pagesize api * 3) (sc_pagesize api)) (sc_pagesize api) div sc_pagesize api \<and> dma_n_ioaddrs (dc_handle y) \<noteq> 0)"
  have "opens api A B ?P s (?f x u)"
  proof (cases x)
    case (Inl e)
    have "opens api A B ?P s (do { s \<leftarrow> do { s \<leftarrow> free_buf b t; nvm_ctrl_free p s }; Some (None, s) })"
      by (rule opens_undo [OF undo_buf [OF I o] st])
    then show ?thesis using Inl x by simp
  next
    case (Inr d)
    then obtain y where u: "owned api (insert d (insert p A)) (insert b B) u" "stable (insert p A) t u" "d \<notin> insert p A" "u_dmas u d = Some y" "dma_n_ioaddrs (dc_handle y) = 3"
      using x three_pages [OF env] by auto
    have "u_ctrls u p \<noteq> None" using o(3) stableD(1) [OF u(2), of p] by auto
    moreover have "stable A s u" using stable_trans [OF st stable_mono [OF u(2)]] by blast
    moreover have "3 \<le> dma_n_ioaddrs (dc_handle y)" using u(5) by simp
    ultimately show ?thesis unfolding Inr sum.case using own_open_aq [OF env u(1) _ o(1) u(3) o(2) _ u(4)] by blast
  qed
  then show "returns (?f x u) (\<lambda>(x, t). stable A s t \<and> (case x of None \<Rightarrow> owned api A B t | Some hs \<Rightarrow> ?P hs t))" by (simp add: opens_def)
qed

lemma own_open_admin:
  assumes env: "env_ok api" and I: "owned api A B s"
  shows "opens api A B (opened api A B) s (open_admin api fd s)"
  unfolding open_admin_def opens_def
proof (rule returns_bind [OF own_ctrl_init [OF env I, of fd]], clarify)
  fix x s1
  let ?Q = "\<lambda>(x, t). stable A s t \<and> (case x of None \<Rightarrow> owned api A B t | Some hs \<Rightarrow> opened api A B hs t)"
  assume s1: "stable A s s1" and x: "case x of Inl e \<Rightarrow> owned api A B s1 | Inr p \<Rightarrow> owned api (insert p A) B s1 \<and> p \<notin> A \<and> p \<noteq> NULL \<and> u_ctrls s1 p \<noteq> None"
  show "returns (case x of Inl _ \<Rightarrow> Some (None, s1) | Inr ctrl \<Rightarrow> do {
         c \<leftarrow> u_ctrls s1 ctrl;
         let ps = page_size (c_handle c);
         case alloc_buf api 4096 (ps * 3) s1 of
           (None, s) \<Rightarrow> do { s \<leftarrow> nvm_ctrl_free ctrl s; Some (None, s) }
         | (Some buf, s) \<Rightarrow> do {
             (x, s) \<leftarrow> nvm_dma_map_host api ctrl buf (ps * 3) s;
             case x of
               Inl _ \<Rightarrow> do { s \<leftarrow> free_buf buf s; s \<leftarrow> nvm_ctrl_free ctrl s; Some (None, s) }
             | Inr dma \<Rightarrow> do {
                 (x, s) \<leftarrow> nvm_aq_create api ctrl dma s;
                 case x of
                   Inl _ \<Rightarrow> do { s \<leftarrow> nvm_dma_unmap dma s; s \<leftarrow> free_buf buf s; s \<leftarrow> nvm_ctrl_free ctrl s; Some (None, s) }
                 | Inr r \<Rightarrow> Some (Some (fresh_handle fd ctrl dma buf r), s) } } }) ?Q"
  proof (cases x)
    case (Inl e)
    then show ?thesis using x s1 by simp
  next
    case (Inr p)
    then have p: "owned api (insert p A) B s1" "p \<notin> A" "u_ctrls s1 p \<noteq> None" using x by simp_all
    then obtain c where c: "u_ctrls s1 p = Some c" by blast
    have ps: "page_size (c_handle c) = sc_pagesize api" using ctrls_okD(3) [OF lib_invD(2) [OF p(1)] c] by (simp add: handle_ok_def)
    show ?thesis
    proof (rule own_alloc_buf [OF env p(1), of 4096 "sc_pagesize api * 3"])
      assume "alloc_buf api 4096 (sc_pagesize api * 3) s1 = (None, s1)"
      then show ?thesis using opens_undo [OF undo_ctrl [OF p] s1] Inr c ps by (simp add: opens_def)
    next
      fix b
      let ?t = "s1\<lparr>u_bufs := b # u_bufs s1\<rparr>"
      assume b: "alloc_buf api 4096 (sc_pagesize api * 3) s1 = (Some b, ?t)" "b \<noteq> 0" "b \<notin> B" "owned api (insert p A) (insert b B) ?t"
      have "stable A s ?t" using s1 by (simp add: stable_def)
      from own_open_map [OF env b(4) this p(2) b(3), of fd] p(3) show ?thesis using Inr c ps b(1) by (simp add: opens_def)
    qed
  qed
qed

text \<open>What identification found out, for the transfers.\<close>

definition identified :: "HandleState \<Rightarrow> bool" where
  "identified hs \<longleftrightarrow> h_block_size hs \<in> {0x200, 0x400, 0x800, 0x1000} \<and> xfer_size (h_max_transfer_size hs) \<and> unat (h_num_qps hs) \<le> 16"

definition same_base :: "HandleState \<Rightarrow> HandleState \<Rightarrow> bool" where
  "same_base hs hs' \<longleftrightarrow> h_ctrl hs' = h_ctrl hs \<and> h_aq_dma hs' = h_aq_dma hs \<and> h_aq_ref hs' = h_aq_ref hs \<and> h_aq_buf hs' = h_aq_buf hs \<and> h_qps hs' = h_qps hs"

lemma same_base_held: "same_base hs hs' \<Longrightarrow> admin_held api A B hs' s = admin_held api A B hs s"
  by (simp add: same_base_def admin_held_def)

lemma own_identify:
  assumes ident: "ident_ok api" and H: "admin_held api A B hs s"
  shows "returns (identify api hs s) (\<lambda>(x, t). admin_held api A B hs t \<and> stable A s t \<and> (case x of None \<Rightarrow> True | Some hs' \<Rightarrow> same_base hs hs' \<and> identified hs'))"
proof -
  let ?A = "A \<union> {h_ctrl hs, h_aq_dma hs, h_aq_ref hs}" and ?B = "insert (h_aq_buf hs) B" and ?r = "h_aq_ref hs"
  have I: "owned api ?A ?B s" using H by (simp add: admin_held_def)
  obtain x a where x: "u_dmas s (h_aq_dma hs) = Some x" "3 \<le> dma_n_ioaddrs (dc_handle x)" and a: "u_refs s ?r = Some a" using H unfolding admin_held_def by blast
  have "3 \<le> length (dma_ioaddrs (dc_handle x))" using dmas_okD(3) [OF lib_invD(6) [OF I] x(1)] x(2) by (simp add: word_le_nat_alt)
  then obtain io where io: "arr_get (dma_ioaddrs (dc_handle x)) 2 = Some io" using arr_get_SomeI [of 2 "dma_ioaddrs (dc_handle x)"] by auto
  have fin: "admin_held api A B hs t \<and> stable A s t" if "owned api ?A ?B t" "only_admins s t" for t
    using admin_held_keep [OF H that(1) only_adminsD(4) [OF that(2)]] only_adminsD(4) [OF that(2)] by blast
  let ?Q = "\<lambda>(x, t). admin_held api A B hs t \<and> stable A s t \<and> (case x of None \<Rightarrow> True | Some hs' \<Rightarrow> same_base hs hs' \<and> identified hs')"
  let ?last = "\<lambda>i n (x, t). case x of Inl _ \<Rightarrow> Some (None, t) | Inr (n_cqs, n_sqs) \<Rightarrow>
    Some (Some (hs\<lparr>h_ctrl_info := i, h_ns_info := n, h_block_size := n_lba_data_size n, h_max_transfer_size := i_max_data_size i,
      h_max_transfer_pages := i_max_data_pages i\<rparr>\<lparr>h_num_qps := min (min n_cqs n_sqs) UGDS_DEFAULT_NUM_QPS\<rparr>), t)"
  have last: "returns (?last i n (x, t)) ?Q" if "owned api ?A ?B t" "only_admins s t" "xfer_size (i_max_data_size i)" "n_lba_data_size n \<in> {0x200, 0x400, 0x800, 0x1000}" for i n x t
  proof -
    have "unat (min (min k m) UGDS_DEFAULT_NUM_QPS) \<le> 16" for k m :: u16
      by (auto simp: UGDS_DEFAULT_NUM_QPS_def min_def word_le_nat_alt)
    then show ?thesis using fin [OF that(1,2)] that(3,4) by (cases x) (auto simp: same_base_def identified_def)
  qed
  show ?thesis unfolding identify_def x(1) bind.bind_lunit io Let_def
    apply (rule returns_bind [OF own_ctrl_info [OF I ident a]], clarify)
    subgoal premises t for e i t
    proof (cases "nvm_ok e")
      case True
      then obtain i' where i: "i = Some i'" "xfer_size (i_max_data_size i')" using t(3) by blast
      have rt: "u_refs t ?r \<noteq> None" using a only_adminsD(3) [OF t(2)] by simp
      show ?thesis unfolding i(1)
        apply (simp only: True not_True_eq_False if_False bind.bind_lunit)
        apply (rule returns_bind [OF own_ns_info [OF t(1) ident rt]], clarify)
        subgoal premises u for e n u
        proof (cases "nvm_ok e")
          case True
          then obtain n' where n: "n = Some n'" "n_lba_data_size n' \<in> {0x200, 0x400, 0x800, 0x1000}" using u(3) by blast
          have ru: "u_refs u ?r \<noteq> None" using rt only_adminsD(3) [OF u(2)] by simp
          show ?thesis unfolding n(1)
            by (simp only: True not_True_eq_False if_False bind.bind_lunit)
              (rule returns_bind [OF own_request_num_queues [OF u(1)]], use ru in simp, use last [OF _ _ i(2) n(2)] only_admins_trans [OF only_admins_trans [OF t(2) u(2)]] in auto)
        qed (use fin [OF u(1) only_admins_trans [OF t(2) u(2)]] in simp)
        done
    qed (use fin [OF t(1,2)] in simp)
    done
qed

text \<open>A registered handle: its admin queue and its queue pairs, ready for transfers.\<close>

definition h_ptrs :: "HandleState \<Rightarrow> ptr list" where
  "h_ptrs hs = [h_ctrl hs, h_aq_dma hs, h_aq_ref hs] @ qps_ptrs (h_qps hs)"

definition h_bufs :: "HandleState \<Rightarrow> u64 list" where
  "h_bufs hs = h_aq_buf hs # qps_bufs (h_qps hs)"

definition handle_objs :: "HandleState \<Rightarrow> ustate \<Rightarrow> bool" where
  "handle_objs hs s \<longleftrightarrow> u_ctrls s (h_ctrl hs) \<noteq> None \<and> (\<exists>x. u_dmas s (h_aq_dma hs) = Some x \<and> 3 \<le> dma_n_ioaddrs (dc_handle x)) \<and>
     (\<exists>a. u_refs s (h_aq_ref hs) = Some a \<and> ar_ctrl a = h_ctrl hs) \<and> (\<forall>d\<in>set (qps_ptrs (h_qps hs)). u_dmas s d \<noteq> None)"

definition handle_ready :: "ustate uapi \<Rightarrow> HandleState \<Rightarrow> bool" where
  "handle_ready api hs \<longleftrightarrow> identified hs \<and> (\<forall>iq\<in>set (h_qps hs). qp_ready api iq) \<and> length (h_qps hs) = unat (h_num_qps hs)"

definition handle_held :: "ustate uapi \<Rightarrow> ptr set \<Rightarrow> u64 set \<Rightarrow> HandleState \<Rightarrow> ustate \<Rightarrow> bool" where
  "handle_held api A B hs s \<longleftrightarrow> owned api (A \<union> set (h_ptrs hs)) (B \<union> set (h_bufs hs)) s \<and> distinct (h_ptrs hs) \<and> distinct (h_bufs hs) \<and>
     set (h_ptrs hs) \<inter> A = {} \<and> set (h_bufs hs) \<inter> B = {} \<and> handle_objs hs s"

lemma handle_heldI:
  assumes a: "admin_held api A B hs s" and q: "qps_held api (A \<union> {h_ctrl hs, h_aq_dma hs, h_aq_ref hs}) (insert (h_aq_buf hs) B) (h_qps hs) t"
    and st: "stable (A \<union> {h_ctrl hs, h_aq_dma hs, h_aq_ref hs}) s t"
  shows "handle_held api A B hs t"
proof -
  let ?C = "{h_ctrl hs, h_aq_dma hs, h_aq_ref hs}"
  have e: "A \<union> set (h_ptrs hs) = A \<union> ?C \<union> set (qps_ptrs (h_qps hs))" "B \<union> set (h_bufs hs) = insert (h_aq_buf hs) B \<union> set (qps_bufs (h_qps hs))"
    by (auto simp: h_ptrs_def h_bufs_def)
  have Q: "owned api (A \<union> ?C \<union> set (qps_ptrs (h_qps hs))) (insert (h_aq_buf hs) B \<union> set (qps_bufs (h_qps hs))) t" "distinct (qps_ptrs (h_qps hs))" "distinct (qps_bufs (h_qps hs))"
    "set (qps_ptrs (h_qps hs)) \<inter> (A \<union> ?C) = {}" "set (qps_bufs (h_qps hs)) \<inter> insert (h_aq_buf hs) B = {}" "\<forall>d\<in>set (qps_ptrs (h_qps hs)). u_dmas t d \<noteq> None"
    using q unfolding qps_held_def by blast+
  have D: "distinct [h_ctrl hs, h_aq_dma hs, h_aq_ref hs]" "?C \<inter> A = {}" "h_aq_buf hs \<notin> B" using a unfolding admin_held_def by blast+
  obtain c x r where o: "u_ctrls s (h_ctrl hs) = Some c" "u_dmas s (h_aq_dma hs) = Some x" "3 \<le> dma_n_ioaddrs (dc_handle x)" "u_refs s (h_aq_ref hs) = Some r" "ar_ctrl r = h_ctrl hs"
    using a unfolding admin_held_def by blast
  have "u_ctrls t (h_ctrl hs) \<noteq> None" "u_dmas t (h_aq_dma hs) = Some x" "u_refs t (h_aq_ref hs) = Some r"
    using stableD(1) [OF st _ o(1)] stableD(2) [OF st _ o(2)] stableD(3) [OF st _ o(4)] by auto
  then have "handle_objs hs t" using o(3,5) Q(6) unfolding handle_objs_def by blast
  moreover have "distinct (h_ptrs hs)" "distinct (h_bufs hs)" using D(1) Q(2-5) unfolding h_ptrs_def h_bufs_def by auto
  moreover have "set (h_ptrs hs) \<inter> A = {}" "set (h_bufs hs) \<inter> B = {}" using D(2,3) Q(4,5) unfolding h_ptrs_def h_bufs_def by auto
  ultimately show ?thesis unfolding handle_held_def e using Q(1) by blast
qed

lemma handle_heldD:
  assumes "handle_held api A B hs s"
  shows "qps_held api (A \<union> {h_ctrl hs, h_aq_dma hs, h_aq_ref hs}) (insert (h_aq_buf hs) B) (h_qps hs) s"
    "owned api (A \<union> {h_ctrl hs, h_aq_dma hs, h_aq_ref hs}) (insert (h_aq_buf hs) B) t \<Longrightarrow> stable (A \<union> {h_ctrl hs, h_aq_dma hs, h_aq_ref hs}) s t \<Longrightarrow> admin_held api A B hs t"
proof -
  let ?C = "{h_ctrl hs, h_aq_dma hs, h_aq_ref hs}"
  have e: "A \<union> set (h_ptrs hs) = A \<union> ?C \<union> set (qps_ptrs (h_qps hs))" "B \<union> set (h_bufs hs) = insert (h_aq_buf hs) B \<union> set (qps_bufs (h_qps hs))"
    by (auto simp: h_ptrs_def h_bufs_def)
  have H: "owned api (A \<union> ?C \<union> set (qps_ptrs (h_qps hs))) (insert (h_aq_buf hs) B \<union> set (qps_bufs (h_qps hs))) s" "distinct (h_ptrs hs)" "distinct (h_bufs hs)"
    "set (h_ptrs hs) \<inter> A = {}" "set (h_bufs hs) \<inter> B = {}" "handle_objs hs s" using assms unfolding handle_held_def e by blast+
  have q: "distinct (qps_ptrs (h_qps hs))" "distinct (qps_bufs (h_qps hs))" "set (qps_ptrs (h_qps hs)) \<inter> (A \<union> ?C) = {}" "set (qps_bufs (h_qps hs)) \<inter> insert (h_aq_buf hs) B = {}"
    using H(2-5) unfolding h_ptrs_def h_bufs_def by auto
  show "qps_held api (A \<union> ?C) (insert (h_aq_buf hs) B) (h_qps hs) s" using H(1,6) q unfolding qps_held_def handle_objs_def by blast
  assume t: "owned api (A \<union> ?C) (insert (h_aq_buf hs) B) t" "stable (A \<union> ?C) s t"
  obtain c x r where o: "u_ctrls s (h_ctrl hs) = Some c" "u_dmas s (h_aq_dma hs) = Some x" "3 \<le> dma_n_ioaddrs (dc_handle x)" "u_refs s (h_aq_ref hs) = Some r" "ar_ctrl r = h_ctrl hs"
    using H(6) unfolding handle_objs_def by blast
  have "u_ctrls t (h_ctrl hs) \<noteq> None" "u_dmas t (h_aq_dma hs) = Some x" "u_refs t (h_aq_ref hs) = Some r"
    using stableD(1) [OF t(2) _ o(1)] stableD(2) [OF t(2) _ o(2)] stableD(3) [OF t(2) _ o(4)] by auto
  moreover have "distinct [h_ctrl hs, h_aq_dma hs, h_aq_ref hs]" "?C \<inter> A = {}" "h_aq_buf hs \<notin> B" using H(2-5) unfolding h_ptrs_def h_bufs_def by auto
  ultimately show "admin_held api A B hs t" using t(1) o(3,5) unfolding admin_held_def by blast
qed

text \<open>Registration succeeds, or leaves the client what it had.\<close>

lemma own_register_handle:
  assumes env: "env_ok api" "ident_ok api" and I: "owned api A B s"
  shows "opens api A B (\<lambda>hs t. handle_held api A B hs t \<and> handle_ready api hs) s (register_handle api fd s)"
  unfolding register_handle_def opens_def
  apply (rule returns_bind [OF own_open_admin [OF env(1) I, unfolded opens_def]], clarify)
  subgoal premises t for x t
  proof (cases x)
    case None
    then show ?thesis using t by simp
  next
    case (Some hs)
    then have H: "admin_held api A B hs t" and nil: "h_qps hs = []" using t(2) by simp_all
    have fail: "returns (do { s \<leftarrow> release_setup hs u; Some (None, s) }) (\<lambda>(x, t). stable A s t \<and> (case x of None \<Rightarrow> owned api A B t | Some hs \<Rightarrow> P hs t))"
      if "admin_held api A B hs u" "stable A s u" for u hs and P :: "HandleState \<Rightarrow> ustate \<Rightarrow> bool"
      by (rule opens_undo [OF own_release_setup [OF that(1)] that(2), unfolded opens_def])
    show ?thesis unfolding Some option.case
      apply (rule returns_bind [OF own_identify [OF env(2) H]], clarify)
      subgoal premises u for y u
      proof (cases y)
        case None
        then show ?thesis using fail [OF u(1) stable_trans [OF t(1) u(2)]] by simp
      next
        case (Some hs')
        let ?C = "{h_ctrl hs', h_aq_dma hs', h_aq_ref hs'}"
        have b: "same_base hs hs'" and idf: "identified hs'" using Some u(3) by simp_all
        have H': "admin_held api A B hs' u" using u(1) by (simp add: same_base_held [OF b])
        have nil': "h_qps hs' = []" using b nil by (simp add: same_base_def)
        have o: "owned api (A \<union> ?C) (insert (h_aq_buf hs') B) u" "u_ctrls u (h_ctrl hs') \<noteq> None" "u_refs u (h_aq_ref hs') \<noteq> None" using H' unfolding admin_held_def by auto
        obtain c where c: "u_ctrls u (h_ctrl hs') = Some c" using o(2) by blast
        have ps: "page_size (c_handle c) = sc_pagesize api" using ctrls_okD(3) [OF lib_invD(2) [OF o(1)] c] by (simp add: handle_ok_def)
        have q0: "qps_held api (A \<union> ?C) (insert (h_aq_buf hs') B) [] u" using o(1) by (simp add: qps_held_def)
        have n16: "unat (h_num_qps hs') \<le> 16" using idf by (simp add: identified_def)
        note C = own_create_qps [OF env(1) _ _ n16 q0 o(2,3), of 0]
        have su: "stable A s u" using stable_trans [OF t(1) u(2)] .
        show ?thesis unfolding Some option.case c bind.bind_lunit ps
          apply (rule returns_bind [OF C], simp, simp, simp, simp, simp, clarify)
          subgoal premises v for qps v
          proof (cases qps)
            case None
            have "admin_held api A B hs' v" by (rule admin_held_keep [OF H' _ v(1)]) (use v(2) None in simp)
            moreover have "stable A s v" using stable_trans [OF su stable_mono [OF v(1)]] by blast
            ultimately show ?thesis using fail None by simp
          next
            case (Some q)
            have Hq: "admin_held api A B (hs'\<lparr>h_qps := q\<rparr>) u" using H' by (simp add: admin_held_def)
            have "handle_held api A B (hs'\<lparr>h_qps := q\<rparr>) v" by (rule handle_heldI [OF Hq]) (use v Some in simp_all)
            moreover have "stable A s v" using stable_trans [OF su stable_mono [OF v(1)]] by blast
            moreover have "handle_ready api (hs'\<lparr>h_qps := q\<rparr>)" using v(2) Some idf by (simp add: handle_ready_def identified_def)
            ultimately show ?thesis using Some by simp
          qed
          done
      qed
      done
  qed
  done

end
