(* ===== verification/Ugds_Inv.thy ===== *)
theory Ugds_Inv
  imports Ugds_Handle
begin

text \<open>
  The public interface keeps one invariant: the driver's registry and the registered handles own exactly
  the library's references and buffers, each once. Opening, closing, registering and deregistering never
  fault, and keep it.
\<close>

section \<open>Association lists\<close>

lemma alist_split:
  assumes "distinct (map fst al)" "map_of al k = Some v"
  obtains xs ys where "al = xs @ (k, v) # ys" "AList.delete k al = xs @ ys"
proof -
  from split_list [OF map_of_SomeD [OF assms(2)]] obtain xs ys where al: "al = xs @ (k, v) # ys" by blast
  then have k: "k \<notin> fst ` set xs" "k \<notin> fst ` set ys" using assms(1) by auto
  have "filter (\<lambda>(k', _). k \<noteq> k') zs = zs" if "k \<notin> fst ` set zs" for zs :: "('a \<times> 'b) list" using that by (induction zs) auto
  then have "AList.delete k al = xs @ ys" using k unfolding al AList.delete_eq by simp
  then show thesis by (rule that [OF al])
qed

lemma alist_update_split:
  assumes "al = xs @ (k, v) # ys" "k \<notin> fst ` set xs"
  shows "AList.update k w al = xs @ (k, w) # ys"
  using assms(2) unfolding assms(1) by (induction xs) auto

section \<open>Releasing a handle\<close>

lemma qps_held_rev: "qps_held api A B qps s \<Longrightarrow> qps_held api A B (rev qps) s"
proof -
  assume H: "qps_held api A B qps s"
  have m: "mset (qps_ptrs (rev qps)) = mset (qps_ptrs qps)" "mset (qps_bufs (rev qps)) = mset (qps_bufs qps)"
    by (induction qps) simp_all
  have "set (qps_ptrs (rev qps)) = set (qps_ptrs qps)" "set (qps_bufs (rev qps)) = set (qps_bufs qps)" using m mset_eq_setD by blast+
  moreover have "distinct (qps_ptrs (rev qps)) = distinct (qps_ptrs qps)" "distinct (qps_bufs (rev qps)) = distinct (qps_bufs qps)" using m mset_eq_imp_distinct_iff by blast+
  ultimately show ?thesis using H unfolding qps_held_def by simp
qed

definition release_handle :: "ustate uapi \<Rightarrow> HandleState \<Rightarrow> ustate \<Rightarrow> ustate option" where
  "release_handle api hs s = do { s \<leftarrow> cleanup_qps api (h_aq_ref hs) (rev (h_qps hs)) s; release_setup hs s }"

lemma own_release_handle:
  assumes H: "handle_held api A B hs s"
  shows "leaves api A B s (release_handle api hs s)"
proof -
  let ?C = "{h_ctrl hs, h_aq_dma hs, h_aq_ref hs}"
  have r: "h_aq_ref hs \<in> A \<union> ?C" "u_refs s (h_aq_ref hs) \<noteq> None" using H by (auto simp: handle_held_def handle_objs_def)
  show ?thesis unfolding release_handle_def
  proof (rule leaves_seq [OF own_cleanup_qps [OF qps_held_rev [OF handle_heldD(1) [OF H]] r]])
    fix t assume "owned api (A \<union> ?C) (insert (h_aq_buf hs) B) t" "stable (A \<union> ?C) s t"
    then show "leaves api A B t (release_setup hs t)" by (intro own_release_setup handle_heldD(2) [OF H])
  qed blast
qed

section \<open>The invariant\<close>

definition g_ptrs :: "gstate \<Rightarrow> ptr list" where
  "g_ptrs g = map snd (g_registry g) @ concat (map (h_ptrs \<circ> snd) (g_handles g))"

definition g_bufs :: "gstate \<Rightarrow> u64 list" where
  "g_bufs g = concat (map (h_bufs \<circ> snd) (g_handles g))"

definition registry_ok :: "gstate \<Rightarrow> bool" where
  "registry_ok g \<longleftrightarrow> distinct (map fst (g_registry g)) \<and> (\<forall>(b, d)\<in>set (g_registry g). u_dmas (g_lib g) d \<noteq> None)"

definition handles_ok :: "ustate uapi \<Rightarrow> gstate \<Rightarrow> bool" where
  "handles_ok api g \<longleftrightarrow> distinct (map fst (g_handles g)) \<and> NULL \<notin> fst ` set (g_handles g) \<and>
     (\<forall>(fh, hs)\<in>set (g_handles g). handle_objs hs (g_lib g) \<and> handle_ready api hs) \<and>
     (g_default_ctrl g = NULL \<or> (\<exists>(fh, hs)\<in>set (g_handles g). h_ctrl hs = g_default_ctrl g))"

definition api_inv :: "gapi \<Rightarrow> gstate \<Rightarrow> bool" where
  "api_inv api g \<longleftrightarrow> owned (lib_api api) (set (g_ptrs g)) (set (g_bufs g)) (g_lib g) \<and> distinct (g_ptrs g) \<and> distinct (g_bufs g) \<and>
     registry_ok g \<and> handles_ok (lib_api api) g"

text \<open>What was unchanged for the owner is unchanged for the registry and the handles.\<close>

lemma handle_objs_stable:
  assumes "handle_objs hs s" "stable A s t" "set (h_ptrs hs) \<subseteq> A"
  shows "handle_objs hs t"
proof -
  obtain c x a where o: "u_ctrls s (h_ctrl hs) = Some c" "u_dmas s (h_aq_dma hs) = Some x" "3 \<le> dma_n_ioaddrs (dc_handle x)" "u_refs s (h_aq_ref hs) = Some a" "ar_ctrl a = h_ctrl hs"
    "\<forall>d\<in>set (qps_ptrs (h_qps hs)). u_dmas s d \<noteq> None" using assms(1) unfolding handle_objs_def by blast
  have A: "h_ctrl hs \<in> A" "h_aq_dma hs \<in> A" "h_aq_ref hs \<in> A" "set (qps_ptrs (h_qps hs)) \<subseteq> A" using assms(3) by (auto simp: h_ptrs_def)
  have "u_ctrls t (h_ctrl hs) \<noteq> None" "u_dmas t (h_aq_dma hs) = Some x" "u_refs t (h_aq_ref hs) = Some a"
    using stableD(1) [OF assms(2) A(1) o(1)] stableD(2) [OF assms(2) A(2) o(2)] stableD(3) [OF assms(2) A(3) o(4)] by auto
  moreover have "\<forall>d\<in>set (qps_ptrs (h_qps hs)). u_dmas t d \<noteq> None" using o(6) A(4) stable_dma [OF assms(2)] by blast
  ultimately show ?thesis using o(3,5) unfolding handle_objs_def by blast
qed

lemma registry_stable:
  assumes "\<forall>(b, d)\<in>set reg. u_dmas s d \<noteq> None" "stable A s t" "set (map snd reg) \<subseteq> A"
  shows "\<forall>(b, d)\<in>set reg. u_dmas t d \<noteq> None"
proof (intro ballI, unfold split_beta)
  fix p assume p: "p \<in> set reg"
  have "snd p \<in> A" using p assms(3) by auto
  moreover have "u_dmas s (snd p) \<noteq> None" using assms(1) p by (auto simp: split_beta)
  ultimately show "u_dmas t (snd p) \<noteq> None" by (rule stable_dma [OF assms(2)])
qed

lemma api_invD:
  assumes "api_inv api g"
  shows "owned (lib_api api) (set (g_ptrs g)) (set (g_bufs g)) (g_lib g)" "distinct (g_ptrs g)" "distinct (g_bufs g)" "registry_ok g" "handles_ok (lib_api api) g"
  using assms by (simp_all add: api_inv_def)

lemma handles_stable:
  assumes "\<forall>(fh, hs)\<in>set hl. handle_objs hs s \<and> handle_ready api hs" "stable A s t" "set (concat (map (h_ptrs \<circ> snd) hl)) \<subseteq> A"
  shows "\<forall>(fh, hs)\<in>set hl. handle_objs hs t \<and> handle_ready api hs"
proof (intro ballI, unfold split_beta)
  fix p assume p: "p \<in> set hl"
  have "set (h_ptrs (snd p)) \<subseteq> A" using p assms(3) by auto
  moreover have "handle_objs (snd p) s" "handle_ready api (snd p)" using assms(1) p by (auto simp: split_beta)
  ultimately show "handle_objs (snd p) t \<and> handle_ready api (snd p)" using handle_objs_stable [OF _ assms(2)] by blast
qed

lemma api_inv_lib:
  assumes I: "api_inv api g" and t: "owned (lib_api api) (set (g_ptrs g)) (set (g_bufs g)) t" "stable (set (g_ptrs g)) (g_lib g) t"
  shows "api_inv api (g\<lparr>g_lib := t\<rparr>)"
proof -
  note D = api_invD [OF I]
  have "registry_ok (g\<lparr>g_lib := t\<rparr>)"
    using D(4) registry_stable [OF _ t(2), of "g_registry g"] by (simp add: registry_ok_def g_ptrs_def)
  moreover have "handles_ok (lib_api api) (g\<lparr>g_lib := t\<rparr>)"
    using D(5) handles_stable [OF _ t(2), of "g_handles g" "lib_api api"] by (simp add: handles_ok_def g_ptrs_def)
  ultimately show ?thesis using D(2,3) t(1) by (simp add: api_inv_def g_ptrs_def g_bufs_def)
qed

section \<open>Opening and closing\<close>

lemma inv_open: "api_inv api g \<Longrightarrow> api_inv api (snd (uGDSDriverOpen g))"
  by (simp add: uGDSDriverOpen_def api_inv_def g_ptrs_def g_bufs_def registry_ok_def handles_ok_def)

definition reg_held :: "ustate uapi \<Rightarrow> ptr set \<Rightarrow> u64 set \<Rightarrow> (u64 \<times> ptr) list \<Rightarrow> ustate \<Rightarrow> bool" where
  "reg_held api A B reg s \<longleftrightarrow> owned api (A \<union> set (map snd reg)) B s \<and> distinct (map snd reg) \<and> set (map snd reg) \<inter> A = {} \<and> (\<forall>(b, d)\<in>set reg. u_dmas s d \<noteq> None)"

interpretation reg: release_loop "\<lambda>reg s. reg_held api A B reg s \<and> stable A s0 s" "\<lambda>(b, d). nvm_dma_unmap d" unmap_all
  for api A B s0
proof unfold_locales
  fix x reg s
  assume H: "reg_held api A B (x # reg) s \<and> stable A s0 s"
  obtain b d where x: "x = (b, d)" by fastforce
  let ?A = "A \<union> set (map snd reg)"
  have o: "owned api (A \<union> set (map snd (x # reg))) B s" "d \<in> A \<union> set (map snd (x # reg))" "u_dmas s d \<noteq> None" "\<forall>(b, d)\<in>set reg. u_dmas s d \<noteq> None"
    using H by (auto simp: reg_held_def x)
  have e: "A \<union> set (map snd (x # reg)) - {d} = ?A" and dj: "distinct (map snd reg)" "set (map snd reg) \<inter> A = {}" using H by (auto simp: reg_held_def x)
  show "returns ((case x of (b, d) \<Rightarrow> nvm_dma_unmap d) s) (\<lambda>s. reg_held api A B reg s \<and> stable A s0 s)"
    unfolding x prod.case
  proof (rule returns_mono [OF own_dma_unmap [OF o(1-3), unfolded e]])
    fix t assume t: "owned api ?A B t \<and> stable ?A s t"
    have "\<forall>(b, d)\<in>set reg. u_dmas t d \<noteq> None" by (rule registry_stable [OF o(4), of ?A]) (use t in auto)
    moreover have "stable A s0 t" using H t stable_trans stable_mono [of ?A s t A] by blast
    ultimately show "reg_held api A B reg t \<and> stable A s0 t" using t dj by (simp add: reg_held_def)
  qed
qed (auto simp: split_beta)

lemma inv_close:
  assumes I: "api_inv api g"
  shows "returns (uGDSDriverClose g) (\<lambda>(e, g'). api_inv api g' \<and> g_handles g' = g_handles g \<and> (g_initialized g \<longrightarrow> g_registry g' = [] \<and> \<not> g_initialized g'))"
proof (cases "g_initialized g")
  case False
  then show ?thesis using I by (simp add: uGDSDriverClose_def)
next
  case True
  note D = api_invD [OF I]
  let ?A = "set (concat (map (h_ptrs \<circ> snd) (g_handles g)))"
  have e: "set (g_ptrs g) = ?A \<union> set (map snd (g_registry g))" by (simp add: g_ptrs_def Un_commute)
  have "reg_held (lib_api api) ?A (set (g_bufs g)) (g_registry g) (g_lib g) \<and> stable ?A (g_lib g) (g_lib g)"
    using D(1,2,4) unfolding reg_held_def e registry_ok_def by (auto simp: g_ptrs_def)
  note R = reg.loop_returns [OF this]
  have close: "api_inv api (g\<lparr>g_lib := t, g_registry := [], g_default_ctrl := NULL, g_initialized := False\<rparr>)"
    if "reg_held (lib_api api) ?A (set (g_bufs g)) [] t" "stable ?A (g_lib g) t" for t
  proof -
    have "\<forall>(fh, hs)\<in>set (g_handles g). handle_objs hs t \<and> handle_ready (lib_api api) hs"
      by (rule handles_stable [OF _ that(2)]) (use D(5) in \<open>simp_all add: handles_ok_def\<close>)
    then show ?thesis using that(1) D(2,3,5) by (simp add: api_inv_def reg_held_def g_ptrs_def g_bufs_def registry_ok_def handles_ok_def)
  qed
  show ?thesis using True unfolding uGDSDriverClose_def by simp (rule returns_bind [OF R], simp add: close)
qed

section \<open>Registering and deregistering buffers\<close>

lemma default_ctrl_live:
  assumes "handles_ok api g" "g_default_ctrl g \<noteq> NULL"
  shows "u_ctrls (g_lib g) (g_default_ctrl g) \<noteq> None"
  using assms unfolding handles_ok_def handle_objs_def by (auto simp: split_beta)

lemma inv_add_buffer:
  assumes I: "api_inv api g" and b: "map_of (g_registry g) b = None"
    and t: "owned (lib_api api) (insert d (set (g_ptrs g))) (set (g_bufs g)) t" "d \<notin> set (g_ptrs g)" "u_dmas t d \<noteq> None" "stable (set (g_ptrs g)) (g_lib g) t"
  shows "api_inv api (g\<lparr>g_lib := t, g_registry := (b, d) # g_registry g\<rparr>)"
proof -
  note D = api_invD [OF I]
  let ?g = "g\<lparr>g_lib := t, g_registry := (b, d) # g_registry g\<rparr>"
  have e: "g_ptrs ?g = d # g_ptrs g" "g_bufs ?g = g_bufs g" by (simp_all add: g_ptrs_def g_bufs_def)
  have "registry_ok ?g"
    using D(4) b t(3) registry_stable [OF _ t(4), of "g_registry g"] by (simp add: registry_ok_def g_ptrs_def map_of_eq_None_iff)
  moreover have "handles_ok (lib_api api) ?g"
    using D(5) handles_stable [OF _ t(4), of "g_handles g" "lib_api api"] by (simp add: handles_ok_def g_ptrs_def)
  ultimately show ?thesis using D(2,3) t(1,2) by (simp add: api_inv_def e)
qed

lemma inv_buf_register:
  assumes env: "env_ok (lib_api api)" and I: "api_inv api g"
  shows "returns (uGDSBufRegister api base len g) (\<lambda>(e, g'). api_inv api g' \<and> g_handles g' = g_handles g \<and>
     (if e = make_error UGDS_SUCCESS then \<exists>d. g_registry g' = (base, d) # g_registry g else g_registry g' = g_registry g))"
proof -
  note D = api_invD [OF I]
  have ne: "make_error x = make_error UGDS_SUCCESS \<longleftrightarrow> x = UGDS_SUCCESS" for x by (simp add: make_error_def)
  show ?thesis
  proof (cases "g_initialized g \<and> \<not> (base = 0 \<or> len = 0) \<and> map_of (g_registry g) base = None \<and> g_default_ctrl g \<noteq> NULL")
    case False
    then show ?thesis using I by (auto simp: uGDSBufRegister_def ne)
  next
    case True
    then have c: "u_ctrls (g_lib g) (g_default_ctrl g) \<noteq> None" using default_ctrl_live [OF D(5)] by blast
    have red: "uGDSBufRegister api base len g = do {
        (r, s) \<leftarrow> nvm_dma_map_device (lib_api api) (g_default_ctrl g) base len (g_lib g);
        case r of
          Inl _ \<Rightarrow> Some (make_error UGDS_GPU_MEMORY_PINNING_FAILED, g\<lparr>g_lib := s\<rparr>)
        | Inr dma \<Rightarrow>
            if dma = NULL then Some (make_error UGDS_GPU_MEMORY_PINNING_FAILED, g\<lparr>g_lib := s\<rparr>)
            else Some (make_error UGDS_SUCCESS, g\<lparr>g_lib := s, g_registry := (base, dma) # g_registry g\<rparr>) }"
      using True by (simp add: uGDSBufRegister_def)
    show ?thesis unfolding red
      apply (rule returns_bind [OF own_map_device [OF env D(1) c]], clarify)
      subgoal for x t
        by (cases x) (use inv_add_buffer [OF I] api_inv_lib [OF I] True in \<open>auto simp: ne\<close>)
      done
  qed
qed

lemma inv_drop_buffer:
  assumes I: "api_inv api g" and b: "map_of (g_registry g) b = Some d"
    and t: "owned (lib_api api) (set (g_ptrs g) - {d}) (set (g_bufs g)) t" "stable (set (g_ptrs g) - {d}) (g_lib g) t"
  shows "api_inv api (g\<lparr>g_lib := t, g_registry := AList.delete b (g_registry g)\<rparr>)"
proof -
  note D = api_invD [OF I]
  let ?g = "g\<lparr>g_lib := t, g_registry := AList.delete b (g_registry g)\<rparr>"
  obtain xs ys where r: "g_registry g = xs @ (b, d) # ys" "AList.delete b (g_registry g) = xs @ ys"
    by (rule alist_split [OF _ b]) (use D(4) in \<open>simp add: registry_ok_def\<close>)
  have p: "g_ptrs g = map snd xs @ d # map snd ys @ concat (map (h_ptrs \<circ> snd) (g_handles g))" "g_ptrs ?g = map snd xs @ map snd ys @ concat (map (h_ptrs \<circ> snd) (g_handles g))"
    by (simp add: g_ptrs_def r(1), simp add: g_ptrs_def r(2))
  have dp: "distinct (g_ptrs ?g)" and s: "set (g_ptrs g) - {d} = set (g_ptrs ?g)" using D(2) unfolding p by auto
  have A: "set (map snd (xs @ ys)) \<subseteq> set (g_ptrs ?g)" "set (concat (map (h_ptrs \<circ> snd) (g_handles g))) \<subseteq> set (g_ptrs ?g)" unfolding p by auto
  have "\<forall>(b, d)\<in>set (xs @ ys). u_dmas t d \<noteq> None"
    by (rule registry_stable [OF _ t(2) [unfolded s] A(1)]) (use D(4) in \<open>simp add: registry_ok_def r(1) ball_Un\<close>)
  then have "registry_ok ?g" using D(4) by (simp add: registry_ok_def r(2)) (simp add: r(1))
  moreover have "handles_ok (lib_api api) ?g"
    using D(5) handles_stable [OF _ t(2) [unfolded s] A(2), of "lib_api api"] by (simp add: handles_ok_def)
  moreover have "g_bufs ?g = g_bufs g" by (simp add: g_bufs_def)
  ultimately show ?thesis using D(3) t(1) s dp by (simp add: api_inv_def)
qed

lemma inv_buf_deregister:
  assumes I: "api_inv api g"
  shows "returns (uGDSBufDeregister base g) (\<lambda>(e, g'). api_inv api g' \<and> g_handles g' = g_handles g)"
proof (cases "g_initialized g \<and> map_of (g_registry g) base \<noteq> None")
  case False
  then show ?thesis using I by (auto simp: uGDSBufDeregister_def)
next
  case True
  then obtain d where d: "map_of (g_registry g) base = Some d" by blast
  note D = api_invD [OF I]
  have m: "(base, d) \<in> set (g_registry g)" by (rule map_of_SomeD [OF d])
  have dd: "d \<in> set (g_ptrs g)" "u_dmas (g_lib g) d \<noteq> None" using m D(4) by (auto simp: g_ptrs_def registry_ok_def image_iff intro!: bexI [of _ "(base, d)"])
  have red: "uGDSBufDeregister base g = do { s \<leftarrow> nvm_dma_unmap d (g_lib g); Some (make_error UGDS_SUCCESS, g\<lparr>g_lib := s, g_registry := AList.delete base (g_registry g)\<rparr>) }"
    using True d by (simp add: uGDSBufDeregister_def)
  show ?thesis unfolding red
    by (rule returns_bind [OF own_dma_unmap [OF D(1) dd]]) (simp add: inv_drop_buffer [OF I d])
qed

section \<open>Registering and deregistering handles\<close>

text \<open>What \<open>new\<close> promises: an object that is not null and not one of the handles in use.\<close>

definition new_ok :: "gapi \<Rightarrow> bool" where
  "new_ok api \<longleftrightarrow> (\<forall>g. operator_new api g \<noteq> NULL \<and> operator_new api g \<notin> fst ` set (g_handles g))"

lemma inv_add_handle:
  assumes I: "api_inv api g" and n: "fh \<noteq> NULL" "fh \<notin> fst ` set (g_handles g)"
    and h: "handle_held (lib_api api) (set (g_ptrs g)) (set (g_bufs g)) hs t" "handle_ready (lib_api api) hs" and st: "stable (set (g_ptrs g)) (g_lib g) t"
    and c: "c = NULL \<or> c = g_default_ctrl g \<or> c = h_ctrl hs"
  shows "api_inv api (g\<lparr>g_lib := t, g_handles := (fh, hs) # g_handles g, g_default_ctrl := c\<rparr>)"
proof -
  note D = api_invD [OF I]
  let ?g = "g\<lparr>g_lib := t, g_handles := (fh, hs) # g_handles g, g_default_ctrl := c\<rparr>"
  have H: "owned (lib_api api) (set (g_ptrs g) \<union> set (h_ptrs hs)) (set (g_bufs g) \<union> set (h_bufs hs)) t" "distinct (h_ptrs hs)" "distinct (h_bufs hs)"
    "set (h_ptrs hs) \<inter> set (g_ptrs g) = {}" "set (h_bufs hs) \<inter> set (g_bufs g) = {}" "handle_objs hs t" using h(1) unfolding handle_held_def by blast+
  have e: "set (g_ptrs ?g) = set (g_ptrs g) \<union> set (h_ptrs hs)" "set (g_bufs ?g) = set (g_bufs g) \<union> set (h_bufs hs)" by (auto simp: g_ptrs_def g_bufs_def)
  have d: "distinct (g_ptrs ?g)" "distinct (g_bufs ?g)" using D(2,3) H(2-5) by (auto simp: g_ptrs_def g_bufs_def)
  have "registry_ok ?g"
    using D(4) registry_stable [OF _ st, of "g_registry g"] by (simp add: registry_ok_def g_ptrs_def)
  moreover have "handles_ok (lib_api api) ?g"
    using D(5) handles_stable [OF _ st, of "g_handles g" "lib_api api"] H(6) h(2) n c by (auto simp: handles_ok_def g_ptrs_def)
  ultimately show ?thesis using d H(1) unfolding api_inv_def e by simp
qed

lemma inv_handle_register:
  assumes env: "env_ok (lib_api api)" "ident_ok (lib_api api)" "new_ok api" and I: "api_inv api g"
  shows "returns (uGDSHandleRegister api fh_null descr g) (\<lambda>(x, g'). api_inv api g' \<and> g_registry g' = g_registry g \<and>
     (case x of Inl e \<Rightarrow> g_handles g' = g_handles g | Inr fh \<Rightarrow> fh \<noteq> NULL \<and> (\<exists>hs. g_handles g' = (fh, hs) # g_handles g)))"
proof (cases "\<exists>fd. descr = Some (UGDS_HANDLE_TYPE_OPAQUE_FD, fd) \<and> \<not> fh_null \<and> g_initialized g")
  case False
  then show ?thesis using I by (auto simp: uGDSHandleRegister_def split: option.split)
next
  case True
  then obtain fd where fd: "descr = Some (UGDS_HANDLE_TYPE_OPAQUE_FD, fd)" "\<not> fh_null" "g_initialized g" by blast
  note D = api_invD [OF I]
  let ?fh = "operator_new api g"
  have n: "?fh \<noteq> NULL" "?fh \<notin> fst ` set (g_handles g)" using env(3) by (simp_all add: new_ok_def)
  have red: "uGDSHandleRegister api fh_null descr g = do {
         (x, s) \<leftarrow> register_handle (lib_api api) fd (g_lib g);
         case x of
           None \<Rightarrow> Some (Inl (make_error UGDS_INTERNAL_ERROR), g\<lparr>g_lib := s\<rparr>)
         | Some hs \<Rightarrow> Some (Inr ?fh, g\<lparr>g_lib := s, g_handles := (?fh, hs) # g_handles g,
             g_default_ctrl := (if g_default_ctrl g = NULL then h_ctrl hs else g_default_ctrl g)\<rparr>) }"
    by (simp add: uGDSHandleRegister_def fd Let_def)
  show ?thesis unfolding red
    apply (rule returns_bind [OF own_register_handle [OF env(1,2) D(1), unfolded opens_def]], clarify)
    subgoal for x t
      by (cases x) (use inv_add_handle [OF I n] api_inv_lib [OF I] n in auto)
    done
qed

lemma release_handle_eq:
  assumes "handle_held api A B hs s"
  shows "do {
        s \<leftarrow> cleanup_qps api (h_aq_ref hs) (rev (h_qps hs)) s;
        s \<leftarrow> (if h_aq_ref hs \<noteq> NULL then nvm_aq_destroy (h_aq_ref hs) s else Some s);
        s \<leftarrow> (if h_aq_dma hs \<noteq> NULL then nvm_dma_unmap (h_aq_dma hs) s else Some s);
        s \<leftarrow> free_buf (h_aq_buf hs) s;
        s \<leftarrow> (if h_ctrl hs \<noteq> NULL then nvm_ctrl_free (h_ctrl hs) s else Some s);
        k s } = release_handle api hs s \<bind> k"
proof -
  have "h_ctrl hs \<noteq> NULL" "h_aq_dma hs \<noteq> NULL" "h_aq_ref hs \<noteq> NULL"
    using assms owned_nonnull(1) [of api "A \<union> set (h_ptrs hs)" "B \<union> set (h_bufs hs)" s] unfolding handle_held_def by (auto simp: h_ptrs_def)
  then show ?thesis by (simp add: release_handle_def release_setup_def)
qed

lemma inv_handle_split:
  assumes I: "api_inv api g" and h: "map_of (g_handles g) fh = Some hs"
  obtains hs1 hs2 where "g_handles g = hs1 @ (fh, hs) # hs2" "AList.delete fh (g_handles g) = hs1 @ hs2" "fh \<notin> fst ` set (hs1 @ hs2)"
    "handle_held (lib_api api) (set (map snd (g_registry g) @ concat (map (h_ptrs \<circ> snd) (hs1 @ hs2)))) (set (concat (map (h_bufs \<circ> snd) (hs1 @ hs2)))) hs (g_lib g)"
    "handle_ready (lib_api api) hs"
proof -
  note D = api_invD [OF I]
  obtain hs1 hs2 where r: "g_handles g = hs1 @ (fh, hs) # hs2" "AList.delete fh (g_handles g) = hs1 @ hs2"
    by (rule alist_split [OF _ h]) (use D(5) in \<open>simp add: handles_ok_def\<close>)
  let ?A = "map snd (g_registry g) @ concat (map (h_ptrs \<circ> snd) (hs1 @ hs2))" and ?B = "concat (map (h_bufs \<circ> snd) (hs1 @ hs2))"
  have n: "fh \<notin> fst ` set (hs1 @ hs2)" "handle_objs hs (g_lib g)" "handle_ready (lib_api api) hs" using D(5) by (auto simp: handles_ok_def r(1))
  have e: "set (g_ptrs g) = set ?A \<union> set (h_ptrs hs)" "set (g_bufs g) = set ?B \<union> set (h_bufs hs)" by (auto simp: g_ptrs_def g_bufs_def r(1))
  have d: "distinct (h_ptrs hs)" "distinct (h_bufs hs)" "set (h_ptrs hs) \<inter> set ?A = {}" "set (h_bufs hs) \<inter> set ?B = {}"
    using D(2,3) by (auto simp: g_ptrs_def g_bufs_def r(1))
  have "handle_held (lib_api api) (set ?A) (set ?B) hs (g_lib g)" using D(1) d n(2) unfolding handle_held_def e by blast
  then show thesis by (rule that [OF r n(1) _ n(3)])
qed

lemma inv_handle_deregister:
  assumes I: "api_inv api g" and fh: "fh = NULL \<or> fh \<in> fst ` set (g_handles g)"
  shows "returns (uGDSHandleDeregister api fh g) (\<lambda>g'. api_inv api g' \<and> g_handles g' = AList.delete fh (g_handles g) \<and> g_registry g' = g_registry g)"
proof (cases "fh = NULL")
  case True
  then have "fh \<notin> fst ` set (g_handles g)" using api_invD(5) [OF I] by (simp add: handles_ok_def)
  then show ?thesis using I True by (simp add: uGDSHandleDeregister_def AList.delete_id)
next
  case False
  then obtain hs where h: "map_of (g_handles g) fh = Some hs" using fh by (metis map_of_eq_None_iff option.exhaust)
  note D = api_invD [OF I]
  obtain hs1 hs2 where r: "g_handles g = hs1 @ (fh, hs) # hs2" "AList.delete fh (g_handles g) = hs1 @ hs2" "fh \<notin> fst ` set (hs1 @ hs2)"
    "handle_held (lib_api api) (set (map snd (g_registry g) @ concat (map (h_ptrs \<circ> snd) (hs1 @ hs2)))) (set (concat (map (h_bufs \<circ> snd) (hs1 @ hs2)))) hs (g_lib g)"
    "handle_ready (lib_api api) hs" by (rule inv_handle_split [OF I h])
  let ?c = "if g_default_ctrl g = h_ctrl hs then NULL else g_default_ctrl g"
  let ?A = "map snd (g_registry g) @ concat (map (h_ptrs \<circ> snd) (hs1 @ hs2))" and ?B = "concat (map (h_bufs \<circ> snd) (hs1 @ hs2))"
  let ?g = "\<lambda>t. g\<lparr>g_lib := t, g_handles := AList.delete fh (g_handles g), g_default_ctrl := ?c\<rparr>"
  have red: "uGDSHandleDeregister api fh g = release_handle (lib_api api) hs (g_lib g) \<bind> (\<lambda>s. Some (?g s))"
    unfolding release_handle_eq [OF r(4), symmetric] uGDSHandleDeregister_def using False h by simp
  have keep: "api_inv api (?g t)" if t: "owned (lib_api api) (set ?A) (set ?B) t" "stable (set ?A) (g_lib g) t" for t
  proof -
    have e: "g_ptrs (?g t) = ?A" "g_bufs (?g t) = ?B" by (simp_all add: g_ptrs_def g_bufs_def r(2))
    have d: "distinct ?A" "distinct ?B" using D(2,3) by (auto simp: g_ptrs_def g_bufs_def r(1))
    have R: "registry_ok (?g t)" using D(4) registry_stable [OF _ t(2), of "g_registry g"] by (simp add: registry_ok_def)
    have "\<forall>(fh, hs)\<in>set (hs1 @ hs2). handle_objs hs t \<and> handle_ready (lib_api api) hs"
      by (rule handles_stable [OF _ t(2)]) (use D(5) in \<open>auto simp: handles_ok_def r(1)\<close>)
    moreover have "distinct (map fst (hs1 @ hs2))" "NULL \<notin> fst ` set (hs1 @ hs2)" using D(5) unfolding handles_ok_def r(1) by auto
    moreover have "?c = NULL \<or> (\<exists>(fh, hs)\<in>set (hs1 @ hs2). h_ctrl hs = ?c)" using D(5) unfolding handles_ok_def r(1) by auto
    ultimately have "handles_ok (lib_api api) (?g t)" unfolding handles_ok_def by (simp add: r(2))
    then show ?thesis using R t(1) d unfolding api_inv_def e by simp
  qed
  show ?thesis unfolding red
    by (rule returns_bind [OF own_release_handle [OF r(4)]]) (use keep in simp)
qed

end
