(* ===== verification/Ugds_Safe.thy ===== *)
theory Ugds_Safe
  imports Ugds_Inv
begin

text \<open>
  Reading and writing through a handle (\<open>do_io\<close> of \<open>src/ugds_io.cpp\<close>) keep the invariant of the public
  interface. The arithmetic on the sizes of a request establishes what the transfer loop needs, for a
  registered buffer and for one that is mapped for the request.
\<close>

section \<open>The largest transfer\<close>

lemma max_xfer_cases:
  assumes "xfer_size m"
  obtains "max_xfer m ps = ps" | "max_xfer m ps = (ps div 8 + 1) * ps" | k where "12 \<le> k" "k < 64" "max_xfer m ps = 2 ^ k" "ps \<le> 2 ^ k" "2 ^ k \<le> (ps div 8 + 1) * ps"
proof -
  define x where "x = (if m = 0 then 128 * 1024 else m)"
  obtain k where k: "12 \<le> k" "k < 64" "x = 2 ^ k"
  proof (cases "m = 0")
    case True
    then have "x = 2 ^ 17" by (simp add: x_def)
    then show thesis by (intro that [of 17]) simp_all
  next
    case False
    then show thesis using assms that unfolding xfer_size_def x_def by auto
  qed
  have e: "max_xfer m ps = (let x' = if x < ps then ps else x in if x' > (ps div 8 + 1) * ps then (ps div 8 + 1) * ps else x')"
    by (simp add: max_xfer_def x_def Let_def)
  show thesis
  proof (cases "max_xfer m ps = ps \<or> max_xfer m ps = (ps div 8 + 1) * ps")
    case False
    then have "max_xfer m ps = x" "ps \<le> x" "x \<le> (ps div 8 + 1) * ps" unfolding e Let_def by (auto split: if_splits)
    then show ?thesis using that(3) [OF k(1,2), folded k(3)] by blast
  qed (use that in blast)
qed

lemma unat_power2: "k < 64 \<Longrightarrow> unat (2 ^ k :: u64) = 2 ^ k"
proof -
  assume "k < 64"
  then have "(2 :: nat) ^ k < 2 ^ 64" by (simp only: power_strict_increasing_iff)
  then have "unat (of_nat (2 ^ k) :: u64) = 2 ^ k" unfolding unat_of_nat by (intro mod_less) simp
  then show ?thesis by simp
qed

lemma page_power:
  assumes "ps \<in> {0x1000, 0x2000, 0x4000, 0x8000, 0x10000 :: u64}"
  obtains j where "12 \<le> j" "j \<le> 16" "unat ps = 2 ^ j" "unat ((ps div 8 + 1) * ps) = (unat ps div 8 + 1) * unat ps"
proof -
  have *: "\<exists>j. 12 \<le> j \<and> j \<le> 16 \<and> unat ps = 2 ^ j"
    using assms by (auto intro: exI [of _ 12] exI [of _ 13] exI [of _ 14] exI [of _ 15] exI [of _ 16])
  have "unat ((ps div 8 + 1) * ps) = (unat ps div 8 + 1) * unat ps" using assms by auto
  then show thesis using * that by blast
qed

lemma max_xfer_bounds:
  assumes "xfer_size m" "ps \<in> {0x1000, 0x2000, 0x4000, 0x8000, 0x10000 :: u64}"
  shows "unat ps \<le> unat (max_xfer m ps)" "unat ps dvd unat (max_xfer m ps)" "unat (max_xfer m ps) \<le> (unat ps div 8 + 1) * unat ps"
proof -
  obtain j where j: "12 \<le> j" "j \<le> 16" "unat ps = 2 ^ j" "unat ((ps div 8 + 1) * ps) = (unat ps div 8 + 1) * unat ps" by (rule page_power [OF assms(2)])
  have "unat ps \<le> unat (max_xfer m ps) \<and> unat ps dvd unat (max_xfer m ps) \<and> unat (max_xfer m ps) \<le> (unat ps div 8 + 1) * unat ps"
    using assms(1)
  proof (cases rule: max_xfer_cases [where ps = ps])
    case (3 k)
    have u: "unat (2 ^ k :: u64) = 2 ^ k" by (rule unat_power2 [OF 3(2)])
    have "(2 :: nat) ^ j \<le> 2 ^ k" using 3(4) unfolding word_le_nat_alt u j(3) .
    then have "j \<le> k" by (rule power_le_imp_le_exp [rotated]) simp
    then have "(2 :: nat) ^ j dvd 2 ^ k" by (rule le_imp_power_dvd)
    moreover have "2 ^ k \<le> (unat ps div 8 + 1) * unat ps" using 3(5) unfolding word_le_nat_alt u j(4) .
    ultimately show ?thesis unfolding 3(3) u using \<open>(2 :: nat) ^ j \<le> 2 ^ k\<close> j(3) by simp
  qed (use j(4) in simp_all)
  then show "unat ps \<le> unat (max_xfer m ps)" "unat ps dvd unat (max_xfer m ps)" "unat (max_xfer m ps) \<le> (unat ps div 8 + 1) * unat ps" by blast+
qed

section \<open>The buffer of a request\<close>

definition small_pages :: "u64 \<Rightarrow> bool" where
  "small_pages ps \<longleftrightarrow> ps = 0x1000 \<or> ps = 0x2000"

lemma request_made:
  assumes h: "identified hs" and ps: "small_pages ps" and sz: "unat sz < 2 ^ 63" "sz mod h_block_size hs = 0" and l: "length as < 2 ^ 64" and opc: "opcode < 0x80"
  shows "request_ok \<lparr>r_opcode = opcode, r_ns_id = ns, r_block = h_block_size hs, r_page = ps, r_max_xfer = max_xfer (h_max_transfer_size hs) ps, r_size = sz, r_timeout = t, r_ioaddrs = as\<rparr>"
proof -
  let ?b = "unat (h_block_size hs)" and ?p = "unat ps" and ?x = "unat (max_xfer (h_max_transfer_size hs) ps)"
  have p: "?p = 4096 \<or> ?p = 8192" "ps \<in> {0x1000, 0x2000, 0x4000, 0x8000, 0x10000}" using ps by (auto simp: small_pages_def)
  have b: "?b \<in> {512, 1024, 2048, 4096}" using h by (auto simp: identified_def)
  note x = max_xfer_bounds [OF _ p(2), of "h_max_transfer_size hs"]
  have x: "?p \<le> ?x" "?p dvd ?x" "?x \<le> (?p div 8 + 1) * ?p" using x h by (simp_all add: identified_def)
  have "?b dvd ?p" using b p(1) by auto
  then have bx: "?b dvd ?x" using x(2) by (rule dvd_trans)
  have le: "?x \<le> 8396800" using x(3) p(1) by auto
  then have "?x div 512 \<le> 8396800 div 512" by (rule div_le_mono)
  moreover have "?x div ?b \<le> ?x div 512" using b by (intro div_le_mono2) auto
  ultimately have lt: "?x div ?b < 65536" by simp
  have "unat (sz mod h_block_size hs) = 0" using sz(2) by simp
  then have bs: "?b dvd unat sz" by (simp add: unat_mod_distrib mod_eq_0_iff_dvd)
  have "?x div ?b * ?b = ?x" "16 \<le> ?p" "?x + ?p < 2 ^ 64" "0 < ?b" "?b \<le> ?x" using bx p(1) le b x(1) by auto
  then show ?thesis unfolding request_ok_def Let_def using x lt bs sz(1) l opc by simp
qed

lemma sint_nonneg:
  assumes "0 \<le> sint (w :: u64)"
  shows "unat w < 2 ^ 63"
proof -
  have nb: "\<not> bit (uint w) 63" using assms by (simp add: sint_uint signed_take_bit_nonnegative_iff)
  have "uint w = take_bit (Suc 63) (uint w)" by (rule take_bit_int_eq_self [symmetric]) (use unsigned_less [of w] in simp_all)
  then have "uint w = take_bit 63 (uint w)" unfolding take_bit_Suc_from_most using nb by simp
  then have "uint w < 2 ^ 63" by (metis take_bit_int_less_exp)
  then have "nat (uint w) < 2 ^ 63" by (subst nat_less_iff) simp_all
  then show ?thesis by (simp only: unat_eq_nat_uint)
qed

definition addr_count :: "dma_container \<Rightarrow> bool" where
  "addr_count d \<longleftrightarrow> length (dma_ioaddrs (dc_handle d)) = unat (dma_n_ioaddrs (dc_handle d))"

lemma owned_dma:
  assumes "owned api A B s" "u_dmas s d = Some x"
  shows "addr_count x"
  using assms by (auto simp: lib_inv_def dmas_ok_def addr_count_def)

lemma owned_ctrl:
  assumes "owned api A B s" "u_ctrls s p = Some c"
  shows "page_size (c_handle c) = sc_pagesize api"
  using assms by (auto simp: lib_inv_def ctrls_ok_def handle_ok_def)

lemma page_count:
  assumes "unat (sz :: u64) < 2 ^ 63" "small_pages ps"
  shows "unat ((sz + ps - 1) div ps) = ceil_div (unat sz) (unat ps)"
proof -
  have p: "unat ps \<le> 8192" "1 \<le> unat ps" using assms(2) by (auto simp: small_pages_def)
  have a: "unat (sz + ps) = unat sz + unat ps" by (rule unat_add_le) (use assms(1) p in simp)
  then have "unat (sz + ps - 1) = unat sz + unat ps - 1" using p by (subst unat_minus_one) (auto simp: unat_eq_zero [symmetric])
  then show ?thesis by (simp add: unat_div_distrib ceil_div_def)
qed

definition request_buffer :: "gapi \<Rightarrow> u64 \<Rightarrow> u64 \<Rightarrow> u64 \<Rightarrow> gstate \<Rightarrow> ptr \<times> bool \<times> u64 \<Rightarrow> ustate \<Rightarrow> bool" where
  "request_buffer api base sz buf_offset g = (\<lambda>(dma, fly, page) t. (\<exists>y. u_dmas t dma = Some y \<and>
       unat page + ceil_div (unat sz) (unat (sc_pagesize (lib_api api))) \<le> length (dma_ioaddrs (dc_handle y))) \<and>
     (if fly then map_of (g_registry g) base = None \<and> page = 0 \<and> dma \<notin> set (g_ptrs g) \<and> dma \<noteq> NULL \<and> owned (lib_api api) (insert dma (set (g_ptrs g))) (set (g_bufs g)) t
      else map_of (g_registry g) base = Some dma \<and> page = buf_offset div sc_pagesize (lib_api api) \<and> t = g_lib g))"

lemma registered_buffer:
  assumes ps: "small_pages (sc_pagesize (lib_api api))" and sz: "unat sz < 2 ^ 63" and off: "0 \<le> sint buf_offset"
    and d: "map_of (g_registry g) base = Some dma" and y: "u_dmas (g_lib g) dma = Some y" "addr_count y"
  shows "\<exists>x. find_buffer api hs (sc_pagesize (lib_api api)) base sz buf_offset g = Some (x, g_lib g) \<and>
    (x = Inl (- EINVAL) \<or> (\<exists>b. x = Inr b \<and> request_buffer api base sz buf_offset g b (g_lib g)))"
proof -
  let ?ps = "sc_pagesize (lib_api api)"
  have le: "unat (buf_offset div ?ps) + ceil_div (unat sz) (unat ?ps) \<le> length (dma_ioaddrs (dc_handle y))"
    if "\<not> buf_offset div ?ps + (sz + ?ps - 1) div ?ps > dma_n_ioaddrs (dc_handle y)"
  proof -
    have b: "unat (buf_offset div ?ps) \<le> unat buf_offset" "unat buf_offset < 2 ^ 63" by (simp add: unat_div_distrib, rule sint_nonneg [OF off])
    have "ceil_div (unat sz) (unat ?ps) \<le> unat sz" using ps by (intro ceil_div_le) (auto simp: small_pages_def)
    then have "unat (buf_offset div ?ps + (sz + ?ps - 1) div ?ps) = unat (buf_offset div ?ps) + ceil_div (unat sz) (unat ?ps)"
      using b sz by (subst unat_add_le) (simp_all add: page_count [OF sz ps])
    then show ?thesis using that y(2) by (simp add: word_le_nat_alt not_less addr_count_def)
  qed
  show ?thesis
  proof (cases "buf_offset mod ?ps \<noteq> 0 \<or> buf_offset div ?ps + (sz + ?ps - 1) div ?ps > dma_n_ioaddrs (dc_handle y)")
    case True
    then show ?thesis using d y(1) by (intro exI [of _ "Inl (- EINVAL)"]) (simp add: find_buffer_def Let_def)
  next
    case False
    then have "request_buffer api base sz buf_offset g (dma, False, buf_offset div ?ps) (g_lib g)" using le d y(1) by (simp add: request_buffer_def)
    then show ?thesis using d y False by (intro exI [of _ "Inr (dma, False, buf_offset div ?ps)"]) (simp add: find_buffer_def Let_def)
  qed
qed

lemma inv_find_buffer:
  assumes env: "env_ok (lib_api api)" and I: "api_inv api g" and ps: "small_pages (sc_pagesize (lib_api api))" and sz: "unat sz < 2 ^ 63" and off: "0 \<le> sint buf_offset"
    and c: "u_ctrls (g_lib g) (h_ctrl hs) \<noteq> None"
  shows "returns (find_buffer api hs (sc_pagesize (lib_api api)) base sz buf_offset g) (\<lambda>(x, t). stable (set (g_ptrs g)) (g_lib g) t \<and>
    (case x of Inl e \<Rightarrow> e \<in> {- EINVAL, - EIO} \<and> owned (lib_api api) (set (g_ptrs g)) (set (g_bufs g)) t | Inr b \<Rightarrow> request_buffer api base sz buf_offset g b t))"
proof (cases "map_of (g_registry g) base")
  case None
  note D = api_invD [OF I]
  have red: "find_buffer api hs (sc_pagesize (lib_api api)) base sz buf_offset g = do {
       (x, s) \<leftarrow> nvm_dma_map_device (lib_api api) (h_ctrl hs) (base + buf_offset) sz (g_lib g);
       case x of
         Inl _ \<Rightarrow> Some (Inl (- EIO), s)
       | Inr dma \<Rightarrow> if dma = NULL then Some (Inl (- EIO), s) else Some (Inr (dma, True, 0), s) }"
    using None by (simp add: find_buffer_def)
  show ?thesis unfolding red
    apply (rule returns_bind [OF own_map_device [OF env D(1) c]], clarify)
    subgoal premises t for x t
    proof (cases x)
      case (Inl e)
      then show ?thesis using t by simp
    next
      case (Inr d)
      then obtain y where y: "owned (lib_api api) (insert d (set (g_ptrs g))) (set (g_bufs g)) t" "d \<notin> set (g_ptrs g)" "d \<noteq> NULL" "u_dmas t d = Some y"
        "ceil_div (unat sz) (unat (sc_pagesize (lib_api api))) \<le> unat (dma_n_ioaddrs (dc_handle y))" using t(2) sz by auto
      then have "request_buffer api base sz buf_offset g (d, True, 0) t" using None owned_dma [OF y(1,4)] unfolding request_buffer_def addr_count_def by simp
      then show ?thesis using Inr t(1) y(3) by simp
    qed
    done
next
  case (Some dma)
  note D = api_invD [OF I]
  obtain y where y: "u_dmas (g_lib g) dma = Some y" using D(4) map_of_SomeD [OF Some] unfolding registry_ok_def by fastforce
  from registered_buffer [OF ps sz off Some y owned_dma [OF D(1) y], of hs] obtain x where
    "find_buffer api hs (sc_pagesize (lib_api api)) base sz buf_offset g = Some (x, g_lib g)"
    "x = Inl (- EINVAL) \<or> (\<exists>b. x = Inr b \<and> request_buffer api base sz buf_offset g b (g_lib g))" by blast
  then show ?thesis using api_invD(1) [OF I] by auto
qed

section \<open>The transfer\<close>

text \<open>The memory of a completion queue, as the controller writes it, has the entries of the queue.\<close>

definition io_dev_ok :: "gapi \<Rightarrow> bool" where
  "io_dev_ok api \<longleftrightarrow> (\<forall>g fh i es. length (io_device api g fh i es) = 64)"

definition io_request_of :: "HandleState \<Rightarrow> nvm_ctrl \<Rightarrow> u64 list \<Rightarrow> u64 \<Rightarrow> u8 \<Rightarrow> io_request" where
  "io_request_of hs c as sz opcode = \<lparr>r_opcode = opcode, r_ns_id = h_ns_id hs, r_block = h_block_size hs, r_page = page_size c,
     r_max_xfer = max_xfer (h_max_transfer_size hs) (page_size c), r_size = sz, r_timeout = timeout c, r_ioaddrs = as\<rparr>"

definition turn :: "HandleState \<Rightarrow> u16" where
  "turn hs = ucast (h_rr_counter hs mod ucast (h_num_qps hs))"

lemma turn_less:
  assumes "h_num_qps hs \<noteq> 0"
  shows "unat (turn hs) < unat (h_num_qps hs)"
proof -
  let ?n = "h_num_qps hs"
  have w: "unat ?n < 2 ^ 16" using unsigned_less [of ?n] by simp
  have "unat ?n < 2 ^ 32" by (rule less_trans [OF w]) simp
  then have n: "unat (ucast ?n :: u32) = unat ?n" by (simp add: unsigned_ucast_eq take_bit_nat_eq_self)
  have "(ucast ?n :: u32) \<noteq> 0" using assms n unat_eq_zero by metis
  then have "unat (h_rr_counter hs mod ucast ?n) < unat ?n" using n by (metis unat_mod_distrib mod_less_divisor unat_gt_0)
  then show ?thesis using less_trans [OF _ w] by (simp add: turn_def unsigned_ucast_eq take_bit_nat_eq_self)
qed

definition io_checks :: "ptr \<Rightarrow> u64 \<Rightarrow> u64 \<Rightarrow> u64 \<Rightarrow> u64 \<Rightarrow> HandleState \<Rightarrow> bool" where
  "io_checks fh base sz file_offset buf_offset hs \<longleftrightarrow> fh \<noteq> NULL \<and> base \<noteq> 0 \<and> sz \<noteq> 0 \<and> 0 \<le> sint file_offset \<and> 0 \<le> sint buf_offset \<and>
     h_block_size hs \<noteq> 0 \<and> file_offset mod h_block_size hs = 0 \<and> sz mod h_block_size hs = 0"

definition after_io :: "HandleState \<Rightarrow> qpair \<Rightarrow> HandleState" where
  "after_io hs qp = hs\<lparr>h_rr_counter := h_rr_counter hs + 1, h_qps := (h_qps hs)[unat (turn hs) := (h_qps hs ! unat (turn hs))\<lparr>iq_qp := qp\<rparr>]\<rparr>"

text \<open>A handle that can carry a request, and the controller behind it.\<close>

definition io_ready :: "gapi \<Rightarrow> gstate \<Rightarrow> ptr \<Rightarrow> HandleState \<Rightarrow> controller \<Rightarrow> bool" where
  "io_ready api g fh hs c \<longleftrightarrow> map_of (g_handles g) fh = Some hs \<and> h_num_qps hs \<noteq> 0 \<and> handle_ready (lib_api api) hs \<and>
     u_ctrls (g_lib g) (h_ctrl hs) = Some c \<and> page_size (c_handle c) = sc_pagesize (lib_api api)"

lemma io_ready_inv:
  assumes I: "api_inv api g" and h: "map_of (g_handles g) fh = Some hs" "h_num_qps hs \<noteq> 0"
  obtains c where "io_ready api g fh hs c"
proof -
  note D = api_invD [OF I]
  obtain c where c: "u_ctrls (g_lib g) (h_ctrl hs) = Some c" using D(5) map_of_SomeD [OF h(1)] by (auto simp: handles_ok_def handle_objs_def)
  have "handle_ready (lib_api api) hs" using D(5) map_of_SomeD [OF h(1)] unfolding handles_ok_def by auto
  then show thesis using that [of c] h c owned_ctrl [OF D(1) c] unfolding io_ready_def by blast
qed

text \<open>What the commands submitted since \<open>qp\<close> move, byte by byte.\<close>

abbreviation moved :: "io_request \<Rightarrow> qpair \<Rightarrow> hw_event list \<Rightarrow> (u8 \<times> u32 \<times> nat \<times> u64) list" where
  "moved r qp es \<equiv> concat (map (byte_moves (unat (r_block r)) (unat (r_page r))) (submitted r qp es))"

lemma do_io_run:
  fixes hs :: HandleState
  defines "qp \<equiv> iq_qp (h_qps hs ! unat (turn hs))"
  assumes env: "io_dev_ok api" "small_pages (sc_pagesize (lib_api api))" and h: "io_ready api g fh hs c"
    and args: "io_checks fh base sz file_offset buf_offset hs" "unat sz < 2 ^ 63" "opcode < 0x80"
    and f: "find_buffer api hs (sc_pagesize (lib_api api)) base sz buf_offset g = Some (Inr (dma, fly, page), t)" "u_dmas t dma = Some y"
    and pg: "unat page + ceil_div (unat sz) (unat (sc_pagesize (lib_api api))) \<le> length (dma_ioaddrs (dc_handle y))" "addr_count y"
  defines "r \<equiv> io_request_of hs (c_handle c) (dma_ioaddrs (dc_handle y)) sz opcode"
  shows "\<exists>res qp' es m. do_io api fh base sz file_offset buf_offset opcode g =
      (if fly \<and> dma \<noteq> NULL then nvm_dma_unmap dma t else Some t) \<bind> (\<lambda>s. Some (res, g\<lparr>g_lib := s, g_handles := AList.update fh (after_io hs qp') (g_handles g)\<rparr>)) \<and>
    qp_ready (lib_api api) ((h_qps hs ! unat (turn hs))\<lparr>iq_qp := qp'\<rparr>) \<and> events qp' = events qp @ es \<and>
    moved r qp es = take m (request_moves r (unat (file_offset div h_block_size hs)) (unat page) (unat sz)) \<and> (res = int (unat sz) \<and> unat sz \<le> m \<or> res = - EIO)"
proof -
  let ?ps = "sc_pagesize (lib_api api)" and ?iq = "h_qps hs ! unat (turn hs)" and ?dev = "io_device api g fh (turn hs)"
  have h: "map_of (g_handles g) fh = Some hs" "h_num_qps hs \<noteq> 0" "handle_ready (lib_api api) hs" "u_ctrls (g_lib g) (h_ctrl hs) = Some c"
    and ps: "page_size (c_handle c) = ?ps" using h unfolding io_ready_def by blast+
  have ready: "identified hs" "\<forall>iq\<in>set (h_qps hs). qp_ready (lib_api api) iq" "length (h_qps hs) = unat (h_num_qps hs)"
    using h(3) unfolding handle_ready_def by auto
  have i: "unat (turn hs) < length (h_qps hs)" using turn_less [OF h(2)] ready(3) by simp
  then have q: "qp_ready (lib_api api) ?iq" using ready(2) nth_mem by blast
  have len: "length (dma_ioaddrs (dc_handle y)) < 2 ^ 64" using unsigned_less [of "dma_n_ioaddrs (dc_handle y)"] pg(2) by (simp add: addr_count_def)
  have ck: "fh \<noteq> NULL" "base \<noteq> 0" "sz \<noteq> 0" "0 \<le> sint file_offset" "0 \<le> sint buf_offset" "h_block_size hs \<noteq> 0" "file_offset mod h_block_size hs = 0" "sz mod h_block_size hs = 0"
    using args(1) unfolding io_checks_def by blast+
  have r: "r_page r = ?ps" "r_size r = sz" "r_block r = h_block_size hs" "r_ioaddrs r = dma_ioaddrs (dc_handle y)" by (simp_all add: r_def io_request_of_def ps)
  have ok: "request_ok r" unfolding r_def io_request_of_def ps by (rule request_made [OF ready(1) env(2) args(2) ck(8) len args(3)])
  have wf: "io_wf (unat (r_page r) div 8) qp" "dev_ok ?dev qp"
    using q env(1) unfolding qp_ready_def dev_ok_def io_dev_ok_def qp_def r(1) by (simp_all add: word_le_nat_alt)
  have "unat (file_offset div h_block_size hs) \<le> unat file_offset" "unat sz div unat (h_block_size hs) \<le> unat sz" by (simp_all add: unat_div_distrib)
  then have lba: "unat (file_offset div h_block_size hs) + unat (r_size r) div unat (r_block r) < 2 ^ 64"
    using sint_nonneg [OF ck(4)] args(2) unfolding r by (simp del: div_le_dividend)
  from io_loop_runs [OF ok wf pg(1) [folded r] lba] obtain res qp' es m where
    L: "io_loop ?dev r 0 (file_offset div h_block_size hs) page qp = Some (res, qp')" "dev_ok ?dev qp'" "io_wf (unat ?ps div 8) qp'" "events qp' = events qp @ es"
    "moved r qp es = take m (request_moves r (unat (file_offset div h_block_size hs)) (unat page) (unat sz))" "res = int (unat sz) \<and> unat sz \<le> m \<or> res = - EIO"
    unfolding r by blast
  have "qp_ready (lib_api api) (?iq\<lparr>iq_qp := qp'\<rparr>)"
    using q L(2,3) env(1) by (simp add: qp_ready_def dev_ok_def io_dev_ok_def word_le_nat_alt)
  moreover have "?ps \<noteq> 0" using env(2) by (auto simp: small_pages_def)
  then have "do_io api fh base sz file_offset buf_offset opcode g =
      (if fly \<and> dma \<noteq> NULL then nvm_dma_unmap dma t else Some t) \<bind> (\<lambda>s. Some (res, g\<lparr>g_lib := s, g_handles := AList.update fh (after_io hs qp') (g_handles g)\<rparr>))"
    using ck h f(1,2) L(1) i by (simp add: do_io_def ps Let_def arr_get_def turn_def [symmetric] after_io_def r_def [unfolded io_request_of_def ps, symmetric] qp_def not_less)
  ultimately show ?thesis using L(4-6) by blast
qed

section \<open>The invariant after a request\<close>

lemma after_io_same:
  shows "h_ptrs (after_io hs qp) = h_ptrs hs" "h_bufs (after_io hs qp) = h_bufs hs" "handle_objs (after_io hs qp) s = handle_objs hs s"
    "h_ctrl (after_io hs qp) = h_ctrl hs" "h_num_qps (after_io hs qp) = h_num_qps hs"
proof -
  let ?i = "unat (turn hs)"
  have q: "qp_ptrs ((h_qps hs ! ?i)\<lparr>iq_qp := qp\<rparr>) = qp_ptrs (h_qps hs ! ?i)" "qp_bufs ((h_qps hs ! ?i)\<lparr>iq_qp := qp\<rparr>) = qp_bufs (h_qps hs ! ?i)"
    by (simp_all add: qp_ptrs_def qp_bufs_def)
  have "map qp_ptrs (h_qps (after_io hs qp)) = map qp_ptrs (h_qps hs)" "map qp_bufs (h_qps (after_io hs qp)) = map qp_bufs (h_qps hs)"
    by (cases "?i < length (h_qps hs)"; simp add: after_io_def map_update q list_update_same_conv list_update_beyond)+
  then have p: "qps_ptrs (h_qps (after_io hs qp)) = qps_ptrs (h_qps hs)" "qps_bufs (h_qps (after_io hs qp)) = qps_bufs (h_qps hs)"
    by (simp_all only: qps_ptrs_def qps_bufs_def)
  then show "h_ptrs (after_io hs qp) = h_ptrs hs" "h_bufs (after_io hs qp) = h_bufs hs" "handle_objs (after_io hs qp) s = handle_objs hs s"
    unfolding h_ptrs_def h_bufs_def handle_objs_def by (simp_all add: after_io_def)
qed (simp_all add: after_io_def)

lemma after_io_ready:
  assumes "handle_ready api hs" "qp_ready api ((h_qps hs ! unat (turn hs))\<lparr>iq_qp := qp\<rparr>)"
  shows "handle_ready api (after_io hs qp)"
proof -
  have "\<forall>iq\<in>set (h_qps (after_io hs qp)). qp_ready api iq"
    using assms set_update_subset_insert [of "h_qps hs" "unat (turn hs)"] by (auto simp: after_io_def handle_ready_def)
  then show ?thesis using assms(1) by (simp add: handle_ready_def after_io_def identified_def)
qed

lemma inv_after_io:
  assumes I: "api_inv api g" and h: "map_of (g_handles g) fh = Some hs" and q: "qp_ready (lib_api api) ((h_qps hs ! unat (turn hs))\<lparr>iq_qp := qp\<rparr>)"
    and t: "owned (lib_api api) (set (g_ptrs g)) (set (g_bufs g)) t" "stable (set (g_ptrs g)) (g_lib g) t"
  shows "api_inv api (g\<lparr>g_lib := t, g_handles := AList.update fh (after_io hs qp) (g_handles g)\<rparr>)"
proof -
  let ?g = "g\<lparr>g_lib := t, g_handles := AList.update fh (after_io hs qp) (g_handles g)\<rparr>"
  note D = api_invD [OF api_inv_lib [OF I t]]
  have H: "distinct (map fst (g_handles g))" "NULL \<notin> fst ` set (g_handles g)" "\<forall>(fh, hs)\<in>set (g_handles g). handle_objs hs t \<and> handle_ready (lib_api api) hs"
    "g_default_ctrl g = NULL \<or> (\<exists>(fh, hs)\<in>set (g_handles g). h_ctrl hs = g_default_ctrl g)" using D(5) by (simp_all add: handles_ok_def)
  obtain xs ys where r: "g_handles g = xs @ (fh, hs) # ys" by (rule alist_split [OF H(1) h])
  have "fh \<notin> fst ` set xs" using H(1) unfolding r by auto
  then have u: "g_handles ?g = xs @ (fh, after_io hs qp) # ys" using alist_update_split [OF r] by simp
  have e: "g_ptrs ?g = g_ptrs g" "g_bufs ?g = g_bufs g" unfolding g_ptrs_def g_bufs_def u by (simp_all add: r after_io_same)
  have "handle_ready (lib_api api) (after_io hs qp)" by (rule after_io_ready [OF _ q]) (use H(3) in \<open>simp add: r\<close>)
  then have "handles_ok (lib_api api) ?g" using H [unfolded r] unfolding handles_ok_def u by (auto simp: after_io_same)
  moreover have "registry_ok ?g" using D(4) by (simp add: registry_ok_def)
  ultimately show ?thesis using D(2,3) t(1) unfolding api_inv_def e by (simp add: g_ptrs_def g_bufs_def)
qed

definition io_handle :: "ptr \<Rightarrow> gstate \<Rightarrow> bool" where
  "io_handle fh g \<longleftrightarrow> fh = NULL \<or> (case map_of (g_handles g) fh of None \<Rightarrow> False | Some hs \<Rightarrow> h_num_qps hs \<noteq> 0)"

text \<open>What a request does to the driver: it keeps the registry and the handles, but for the queue pair it used.\<close>

definition io_done :: "gapi \<Rightarrow> gstate \<Rightarrow> u64 \<Rightarrow> int \<times> gstate \<Rightarrow> bool" where
  "io_done api g sz = (\<lambda>(res, g'). api_inv api g' \<and> g_registry g' = g_registry g \<and> g_initialized g' = g_initialized g \<and>
     (\<forall>fh. map_option h_num_qps (map_of (g_handles g') fh) = map_option h_num_qps (map_of (g_handles g) fh)) \<and> res \<in> {- EINVAL, - EIO, int (unat sz)})"

lemma io_done_refl: "api_inv api g \<Longrightarrow> io_done api g sz (- EINVAL, g)"
  by (simp add: io_done_def)

lemma io_done_transfer:
  assumes env: "env_ok (lib_api api)" "io_dev_ok api" "small_pages (sc_pagesize (lib_api api))" and I: "api_inv api g" and h: "io_ready api g fh hs c"
    and args: "io_checks fh base sz file_offset buf_offset hs" "unat sz < 2 ^ 63" "opcode < 0x80"
    and f: "find_buffer api hs (sc_pagesize (lib_api api)) base sz buf_offset g = Some (Inr b, t)"
      "request_buffer api base sz buf_offset g b t" and st: "stable (set (g_ptrs g)) (g_lib g) t"
  shows "returns (do_io api fh base sz file_offset buf_offset opcode g) (io_done api g sz)"
proof -
  obtain dma fly page where b: "b = (dma, fly, page)" by (metis surj_pair)
  let ?A = "set (g_ptrs g)" and ?B = "set (g_bufs g)"
  have hs: "map_of (g_handles g) fh = Some hs" using h by (simp add: io_ready_def)
  from f(2) obtain y where y: "u_dmas t dma = Some y" "fly \<Longrightarrow> dma \<notin> ?A \<and> owned (lib_api api) (insert dma ?A) ?B t" "\<not> fly \<Longrightarrow> t = g_lib g" "fly \<Longrightarrow> dma \<noteq> NULL"
    "unat page + ceil_div (unat sz) (unat (sc_pagesize (lib_api api))) \<le> length (dma_ioaddrs (dc_handle y))"
    unfolding request_buffer_def b by (auto split: if_splits)
  have "addr_count y" by (cases fly) (use y(2,3) owned_dma [OF _ y(1)] api_invD(1) [OF I] in blast)+
  from do_io_run [OF env(2,3) h args f(1) [unfolded b] y(1,5) this] obtain res qp' where R: "do_io api fh base sz file_offset buf_offset opcode g =
      (if fly \<and> dma \<noteq> NULL then nvm_dma_unmap dma t else Some t) \<bind> (\<lambda>s. Some (res, g\<lparr>g_lib := s, g_handles := AList.update fh (after_io hs qp') (g_handles g)\<rparr>))"
    "qp_ready (lib_api api) ((h_qps hs ! unat (turn hs))\<lparr>iq_qp := qp'\<rparr>)" "res = int (unat sz) \<or> res = - EIO" by blast
  have "returns (if fly \<and> dma \<noteq> NULL then nvm_dma_unmap dma t else Some t) (\<lambda>s. owned (lib_api api) ?A ?B s \<and> stable ?A t s)"
  proof (cases fly)
    case True
    have e: "insert dma ?A - {dma} = ?A" using y(2) True by blast
    show ?thesis using own_dma_unmap [of "lib_api api" "insert dma ?A" ?B t dma] y True unfolding e by simp
  next
    case False
    then show ?thesis using y(3) api_invD(1) [OF I] by simp
  qed
  then show ?thesis unfolding R(1)
  proof (rule returns_bind)
    fix s assume s: "owned (lib_api api) ?A ?B s \<and> stable ?A t s"
    then have "stable ?A (g_lib g) s" using st stable_trans by blast
    then have "api_inv api (g\<lparr>g_lib := s, g_handles := AList.update fh (after_io hs qp') (g_handles g)\<rparr>)" using inv_after_io [OF I hs R(2)] s by blast
    then show "returns (Some (res, g\<lparr>g_lib := s, g_handles := AList.update fh (after_io hs qp') (g_handles g)\<rparr>)) (io_done api g sz)"
      using R(3) hs by (auto simp: io_done_def update_conv' after_io_same)
  qed
qed

lemma inv_do_io:
  assumes env: "env_ok (lib_api api)" "io_dev_ok api" "small_pages (sc_pagesize (lib_api api))" and I: "api_inv api g"
    and fh: "io_handle fh g" and sz: "unat sz < 2 ^ 63" and opc: "opcode < 0x80"
  shows "returns (do_io api fh base sz file_offset buf_offset opcode g) (io_done api g sz)"
proof (cases "fh = NULL \<or> base = 0 \<or> sz = 0 \<or> sint file_offset < 0 \<or> sint buf_offset < 0")
  case True
  then show ?thesis using io_done_refl [OF I] by (auto simp: do_io_def)
next
  case False
  then obtain hs where h: "map_of (g_handles g) fh = Some hs" "h_num_qps hs \<noteq> 0" using fh by (auto simp: io_handle_def split: option.splits)
  note D = api_invD [OF I]
  show ?thesis
  proof (cases "io_checks fh base sz file_offset buf_offset hs")
    case False': False
    then have "h_block_size hs = 0 \<or> file_offset mod h_block_size hs \<noteq> 0 \<or> sz mod h_block_size hs \<noteq> 0" using False unfolding io_checks_def by linarith
    then have "do_io api fh base sz file_offset buf_offset opcode g = Some (- EINVAL, g)" using False h by (elim disjE) (simp_all add: do_io_def)
    then show ?thesis using io_done_refl [OF I] by simp
  next
    case True
    obtain c where r: "io_ready api g fh hs c" by (rule io_ready_inv [OF I h])
    then have c: "u_ctrls (g_lib g) (h_ctrl hs) = Some c" and ps: "page_size (c_handle c) = sc_pagesize (lib_api api)" unfolding io_ready_def by blast+
    have n0: "sc_pagesize (lib_api api) \<noteq> 0" using env(3) by (auto simp: small_pages_def)
    from inv_find_buffer [OF env(1) I env(3) sz, of buf_offset hs base] True c obtain x t where
      f: "find_buffer api hs (sc_pagesize (lib_api api)) base sz buf_offset g = Some (x, t)" "stable (set (g_ptrs g)) (g_lib g) t"
      "case x of Inl e \<Rightarrow> e \<in> {- EINVAL, - EIO} \<and> owned (lib_api api) (set (g_ptrs g)) (set (g_bufs g)) t | Inr b \<Rightarrow> request_buffer api base sz buf_offset g b t"
      by (auto simp: io_checks_def returns_def)
    show ?thesis
    proof (cases x)
      case (Inl e)
      then have "api_inv api (g\<lparr>g_lib := t\<rparr>)" using api_inv_lib [OF I] f(2,3) by simp
      then have "io_done api g sz (e, g\<lparr>g_lib := t\<rparr>)" using f(3) Inl by (auto simp: io_done_def)
      moreover have "do_io api fh base sz file_offset buf_offset opcode g = Some (e, g\<lparr>g_lib := t\<rparr>)"
        using True h(1) c f(1) n0 Inl by (simp add: do_io_def io_checks_def ps not_less)
      ultimately show ?thesis by simp
    next
      case (Inr b)
      then show ?thesis using io_done_transfer [OF env I r True sz opc _ _ f(2)] f(1,3) by simp
    qed
  qed
qed

end
