(* ===== verification/Ugds_Live.thy ===== *)
theory Ugds_Live
  imports Ugds_Io
begin

text \<open>
  Requests are answered: with a controller that completes every command successfully before it has been
  polled too often, the transfer loop of \<open>do_io\<close> returns the size of the request.
\<close>

section \<open>A controller that serves\<close>

text \<open>
  \<open>rings\<close> counts the commands announced so far and \<open>waited\<close> the polls since the last of them. A serving
  controller has posted \<open>m es\<close> completions after history \<open>es\<close>: it withdraws none, posts no more than were
  submitted, and has answered all of them once the host polled \<open>lat\<close> times. The queue memory holds the
  phase tags of the last ring of completions, and no error status.
\<close>

definition rings :: "hw_event list \<Rightarrow> nat" where
  "rings es = length (filter submits es)"

definition waited :: "hw_event list \<Rightarrow> nat" where
  "waited es = length (filter (\<lambda>e. e = Poll) (takeWhile (\<lambda>e. \<not> submits e) (rev es)))"

definition ring_holds :: "nat \<Rightarrow> nat \<Rightarrow> nvm_cpl list \<Rightarrow> bool" where
  "ring_holds n m cs \<longleftrightarrow> length cs = n \<and> (\<forall>c\<in>set cs. cpl_status c = 0) \<and>
     (\<forall>J. m \<le> J \<and> J < m + n \<longrightarrow> phase_of (cs ! (J mod n)) = odd (J div n))"

definition serves :: "device \<Rightarrow> nat \<Rightarrow> nat \<Rightarrow> (hw_event list \<Rightarrow> nat) \<Rightarrow> bool" where
  "serves dev n lat m \<longleftrightarrow> (\<forall>es. ring_holds n (m es) (dev es) \<and> (\<forall>e. m es \<le> m (es @ [e])) \<and> m es \<le> rings es \<and>
     (lat \<le> waited es \<longrightarrow> m es = rings es))"

lemma rings_simps [simp]: "rings (es @ [Poll]) = rings es" "rings (es @ [CQ_doorbell h]) = rings es"
    "rings (es @ [SQ_doorbell t q p]) = rings es + 1"
  by (simp_all add: rings_def)

lemma waited_Poll [simp]: "waited (es @ [Poll]) = waited es + 1"
  by (simp add: waited_def)

lemma serves_mono: "serves dev n lat m \<Longrightarrow> m es \<le> m (es @ [e])"
  by (auto simp: serves_def)

text \<open>The host has consumed \<open>c\<close> completions of a queue of \<open>n\<close> entries.\<close>

definition host_at :: "nat \<Rightarrow> nat \<Rightarrow> qpair \<Rightarrow> bool" where
  "host_at n c qp \<longleftrightarrow> 2 \<le> n \<and> n \<le> 65536 \<and> unat (qs (cq qp)) = n \<and> unat (head (cq qp)) = c mod n \<and> phase (cq qp) = even (c div n)"

lemma poll_serves:
  assumes h: "host_at n c qp" and dev: "ring_holds n m (dev (events qp))" and m: "c \<le> m" "m \<le> c + 1"
  shows "\<exists>r q. qp_dequeue dev qp = Some (r, qp\<lparr>cq := q, events := events qp @ [Poll]\<rparr>) \<and>
    (m = c \<and> r = None \<and> q = cq qp \<or> m = c + 1 \<and> (\<exists>cpl. r = Some cpl \<and> cpl_status cpl = 0) \<and> host_at n (c + 1) (qp\<lparr>cq := q, events := events qp @ [Poll]\<rparr>))"
proof -
  let ?mem = "dev (events qp)" and ?q = "cq qp"
  have D: "2 \<le> n" "n \<le> 65536" "unat (qs ?q) = n" "unat (head ?q) = c mod n" "phase ?q = even (c div n)" using h by (simp_all add: host_at_def)
  have lt: "c mod n < n" using D(1) by simp
  have get: "arr_get ?mem (unat (head ?q)) = Some (?mem ! (c mod n))" using dev D(4) lt by (simp add: arr_get_def ring_holds_def)
  have inc: "unat (head ?q + 1) = c mod n + 1" using D(2,4) lt by (simp add: unat_word_ariths)
  have wrap: "head ?q + 1 = qs ?q \<longleftrightarrow> Suc (c mod n) = n" using inc D(3) by (simp add: word_unat_eq_iff)
  consider "m = c" | "m = c + 1" using m by linarith
  then show ?thesis
  proof cases
    case 1
    then have "phase_of (?mem ! (c mod n)) = odd (c div n)" using dev D(1) by (simp add: ring_holds_def)
    with 1 get D(5) show ?thesis by (simp add: qp_dequeue_def nvm_cq_dequeue_def nvm_cq_poll_def poll_phase)
  next
    case 2
    then have "phase_of (?mem ! ((c + n) mod n)) = odd ((c + n) div n)" using dev D(1) unfolding ring_holds_def by (elim conjE allE [of _ "c + n"]) simp
    then have "phase_of (?mem ! (c mod n)) = even (c div n)" using D(1) odd_lap [of n c] by simp
    moreover have "cpl_status (?mem ! (c mod n)) = 0" using dev lt by (simp add: ring_holds_def)
    ultimately show ?thesis using 2 get D inc wrap lt
      by (auto simp: qp_dequeue_def nvm_cq_dequeue_def nvm_cq_poll_def poll_phase Let_def host_at_def mod_Suc div_Suc)
  qed
qed

lemma spin_serves:
  assumes dev: "serves dev n lat m" and lim: "lat \<le> unat limit" "limit \<noteq> - 1"
  shows "host_at n c qp \<Longrightarrow> rings (events qp) = c + 1 \<Longrightarrow> c \<le> m (events qp) \<Longrightarrow> spins \<le> limit \<Longrightarrow> unat spins \<le> waited (events qp) \<Longrightarrow>
    \<exists>cpl q k. cq_spin dev spins limit qp = Some (Some cpl, qp\<lparr>cq := q, events := events qp @ replicate k Poll\<rparr>) \<and> cpl_status cpl = 0 \<and>
      host_at n (c + 1) (qp\<lparr>cq := q\<rparr>) \<and> c + 1 \<le> m (events qp @ replicate k Poll)"
proof (induction "unat limit - unat spins" arbitrary: spins qp rule: less_induct)
  case less
  note S = dev [unfolded serves_def, rule_format, of "events qp"]
  have "m (events qp) \<le> c + 1" using S less.prems(2) by simp
  from poll_serves [of n c qp "m (events qp)" dev, OF less.prems(1) _ less.prems(3) this] S obtain r q where
    P: "qp_dequeue dev qp = Some (r, qp\<lparr>cq := q, events := events qp @ [Poll]\<rparr>)"
    "m (events qp) = c \<and> r = None \<and> q = cq qp \<or>
     m (events qp) = c + 1 \<and> (\<exists>cpl. r = Some cpl \<and> cpl_status cpl = 0) \<and> host_at n (c + 1) (qp\<lparr>cq := q, events := events qp @ [Poll]\<rparr>)" by blast
  have mono: "m (events qp) \<le> m (events qp @ [Poll])" using S by blast
  from P(2) show ?case
  proof (elim disjE conjE exE)
    fix cpl assume found: "m (events qp) = c + 1" "r = Some cpl" "cpl_status cpl = 0" "host_at n (c + 1) (qp\<lparr>cq := q, events := events qp @ [Poll]\<rparr>)"
    then have "cq_spin dev spins limit qp = Some (Some cpl, qp\<lparr>cq := q, events := events qp @ replicate 1 Poll\<rparr>)"
      using P(1) by (simp add: cq_spin.simps [of dev spins])
    with found mono show ?thesis by (intro exI [of _ cpl] exI [of _ q] exI [of _ 1]) (simp add: host_at_def)
  next
    assume none: "m (events qp) = c" "r = None" "q = cq qp"
    let ?qp = "qp\<lparr>events := events qp @ [Poll]\<rparr>"
    have "waited (events qp) < lat" using none(1) S less.prems(2) by (metis add_eq_self_zero not_less one_neq_zero)
    then have lt: "unat spins < unat limit" using less.prems(5) lim(1) by simp
    then have inc: "unat (spins + 1) = unat spins + 1" using unsigned_less [of limit, where 'a = nat] by (simp add: unat_word_ariths)
    with lt have le: "spins + 1 \<le> limit" "unat limit - unat (spins + 1) < unat limit - unat spins" by (simp_all add: word_le_nat_alt)
    have "host_at n c ?qp" "rings (events ?qp) = c + 1" "c \<le> m (events ?qp)" "unat (spins + 1) \<le> waited (events ?qp)"
      using less.prems none mono inc by (simp_all add: host_at_def)
    from less.hyps [OF le(2) this(1-3) le(1) this(4)] obtain cpl q' k where
      "cq_spin dev (spins + 1) limit ?qp = Some (Some cpl, ?qp\<lparr>cq := q', events := events ?qp @ replicate k Poll\<rparr>)" "cpl_status cpl = 0"
      "host_at n (c + 1) (?qp\<lparr>cq := q'\<rparr>)" "c + 1 \<le> m (events ?qp @ replicate k Poll)" by blast
    moreover have "cq_spin dev spins limit qp = cq_spin dev (spins + 1) limit ?qp"
      using P(1) none le(1) by (simp add: cq_spin.simps [of dev spins] linorder_not_less [symmetric])
    ultimately show ?thesis
      by (intro exI [of _ cpl] exI [of _ q'] exI [of _ "Suc k"]) (simp add: host_at_def replicate_append_same [symmetric])
  qed
qed

text \<open>A queue pair between two commands: what was submitted has been completed and consumed.\<close>

definition idle :: "(hw_event list \<Rightarrow> nat) \<Rightarrow> nat \<Rightarrow> nat \<Rightarrow> qpair \<Rightarrow> bool" where
  "idle m n c qp \<longleftrightarrow> host_at n c qp \<and> rings (events qp) = c \<and> c \<le> m (events qp) \<and> head (sq qp) = tail (sq qp)"

lemma retire_serves:
  assumes dev: "serves dev n lat m" and lim: "lat \<le> unat (r_timeout r * 1000000)"
    and h: "host_at n c qp" "rings (events qp) = c + 1" "c \<le> m (events qp)" and sq: "nvm_sq_update (sq qp) = q" "head q = tail q"
  shows "\<exists>qp'. retire dev r qp = Some (Inr (), qp') \<and> idle m n (c + 1) qp'"
proof -
  have "even (r_timeout r * 1000000)" by simp
  then have "r_timeout r * 1000000 \<noteq> - 1" by (metis odd_one dvd_minus_iff)
  from spin_serves [OF dev lim this h, of 0] obtain cpl q' k where W:
    "cq_wait dev (r_timeout r) qp = Some (Some cpl, qp\<lparr>cq := q', events := events qp @ replicate k Poll\<rparr>)" "cpl_status cpl = 0"
    "host_at n (c + 1) (qp\<lparr>cq := q'\<rparr>)" "c + 1 \<le> m (events qp @ replicate k Poll)" by (auto simp: cq_wait_def)
  let ?qp' = "qp_cq_update (qp_sq_update (qp\<lparr>cq := q', events := events qp @ replicate k Poll\<rparr>))"
  have ev: "rings (events qp @ replicate k Poll) = c + 1" using h(2) by (induction k) (simp_all add: rings_def)
  have "idle m n (c + 1) ?qp'"
    using W(3,4) ev sq order_trans [OF W(4) serves_mono [OF dev]] by (auto simp: idle_def qp_cq_update_def qp_sq_update_def nvm_cq_update_def host_at_def rings_def)
  then show ?thesis using W(1,2) by (auto simp: retire_def Let_def)
qed

lemma data_ptrs_frame: "data_ptrs r cp np qp = Some (p1, p2, qp1) \<Longrightarrow> \<exists>pm. qp1 = qp\<lparr>prp_mem := pm\<rparr>"
proof -
  have "\<exists>pm. qp = qp\<lparr>prp_mem := pm\<rparr>" by (rule exI [of _ "prp_mem qp"]) simp
  then show "data_ptrs r cp np qp = Some (p1, p2, qp1) \<Longrightarrow> ?thesis"
    by (auto simp: data_ptrs_def bind_eq_Some split: if_splits)
qed

lemma io_chunk_serves:
  assumes dev: "serves dev n lat m" and lim: "lat \<le> unat (r_timeout r * 1000000)"
    and wf: "io_wf e qp" and idle: "idle m n c qp" and run: "io_chunk dev r lba cp nb np qp = Some (x, qp')"
  shows "x = Inr () \<and> idle m n (c + 1) qp'"
proof -
  have sq: "sq_wf (sq qp)" "q_last (sq qp) = tail (sq qp)" "head (sq qp) = tail (sq qp)" using wf idle by (simp_all add: io_wf_def idle_def)
  have "pending (sq qp) < unat (qs (sq qp)) - 1" using sq(1,3) sq_wfD(1) [OF sq(1)] by (simp add: pending_def occ_def)
  from sq_enqueue_room [OF sq(1) this] obtain q where q: "nvm_sq_enqueue (sq qp) = (Some (tail (sq qp)), q)" "sq_wf q" "qs q = qs (sq qp)"
    "head q = head (sq qp)" "unat (tail q) = (unat (tail (sq qp)) + 1) mod unat (qs (sq qp))" by blast
  then have slot: "take_slot dev r qp = Some (Inr (tail (sq qp)), qp\<lparr>sq := q\<rparr>)" by (simp add: take_slot.simps)
  from run obtain pm sm where R: "retire dev r (qp_submit (qp\<lparr>sq := q, prp_mem := pm, sq_mem := sm\<rparr>)) = Some (x, qp')"
    unfolding io_chunk_def slot by (auto simp: arr_set_def bind_eq_Some Let_def split: if_splits dest!: data_ptrs_frame)
  let ?q = "q\<lparr>q_last := tail q\<rparr>" and ?qp = "qp\<lparr>sq := q\<lparr>q_last := tail q\<rparr>, prp_mem := pm, sq_mem := sm, events := events qp @ [SQ_doorbell (tail q) sm pm]\<rparr>"
  have S: "qp_submit (qp\<lparr>sq := q, prp_mem := pm, sq_mem := sm\<rparr>) = ?qp"
    using enqueue_io(4,6) [OF sq(1) q(1)] sq(2) q(2) by (subst submit_one) simp_all
  from serves_mono [OF dev, of "events qp" "SQ_doorbell (tail q) sm pm"] have "c \<le> m (events ?qp)" "rings (events ?qp) = c + 1" "host_at n c ?qp" using idle by (simp_all add: idle_def host_at_def)
  moreover have "head (nvm_sq_update ?q) = tail (nvm_sq_update ?q)"
  proof -
    have "sq_wf ?q" using q(2) by (simp add: sq_wf_def)
    from sq_update_first [OF this] show ?thesis using q(3-5) sq(3) by (simp add: word_unat_eq_iff)
  qed
  ultimately show ?thesis using retire_serves [OF dev lim, where qp = ?qp and c = c] R unfolding S by auto
qed

section \<open>The loop completes\<close>

lemma io_loop_serves:
  assumes ok: "request_ok r" and dev: "serves dev n lat m" and lim: "lat \<le> unat (r_timeout r * 1000000)"
  shows "io_wf (unat (r_page r) div 8) qp \<Longrightarrow> dev_ok dev qp \<Longrightarrow> idle m n c qp \<Longrightarrow> unat done + k = unat (r_size r) \<Longrightarrow>
    unat (r_block r) dvd k \<Longrightarrow> unat page + ceil_div k (unat (r_page r)) \<le> length (r_ioaddrs r) \<Longrightarrow>
    unat lba + k div unat (r_block r) < 2 ^ 64 \<Longrightarrow>
    \<exists>qp'. io_loop dev r done lba page qp = Some (int (unat (r_size r)), qp')"
proof (induction k arbitrary: "done" lba page qp c rule: less_induct)
  case (less k)
  let ?b = "unat (r_block r)" and ?p = "unat (r_page r)"
  show ?case
  proof (cases "k = 0")
    case True
    moreover from True less.prems(4) have "done = r_size r" by (simp add: word_unat_eq_iff)
    moreover have "sint (r_size r) = int (unat (r_size r))" using ok by (simp add: sint_small request_ok_def Let_def)
    ultimately show ?thesis by (simp add: io_loop.simps)
  next
    case False
    then have k: "0 < k" by simp
    let ?c = "chunk_len r k"
    obtain c' nb np where C: "unat c' = ?c" "unat nb = ?c div ?b" "unat np = ceil_div ?c ?p"
      "io_loop dev r done lba page qp = do {
         (x, qp) \<leftarrow> io_chunk dev r lba page nb np qp;
         case x of Inl e \<Rightarrow> Some (e, qp) | Inr _ \<Rightarrow> io_loop dev r (done + c') (lba + nb) (page + np) qp }"
      by (rule io_loop_step [OF ok less.prems(4) k less.prems(5)])
    have "chunk_ok r (unat page) (unat nb) (unat np)"
      unfolding C(2,3) by (rule chunk_ok_step [OF ok k less.prems(5,6)])
    from io_chunk_ends [OF less.prems(1,2) this, of lba] obtain x qp1 where R:
      "io_chunk dev r lba page nb np qp = Some (x, qp1)" "dev_ok dev qp1" "io_wf (?p div 8) qp1" by blast
    from io_chunk_serves [OF dev lim less.prems(1,3) R(1)] have x: "x = Inr ()" "idle m n (c + 1) qp1" by simp_all
    note A = loop_advance [OF ok less.prems(4) k less.prems(5-7) C(1-3)]
    have "?c > 0" by (rule chunk_cases(1) [OF ok k less.prems(5)])
    from less.IH [OF chunk_len_dec [OF this] R(3,2) x(2) A(1,2,4,6)] show ?thesis using C(4) R(1) x(1) by simp
  qed
qed

text \<open>
  C11. A request is answered in full: with a controller that completes every command successfully before
  it has been polled more often than the timeout allows, the loop returns the size of the request, and
  the commands it submitted move exactly the requested bytes.
\<close>

theorem io_loop_completes:
  assumes "request_ok r" "io_wf (unat (r_page r) div 8) qp" "dev_ok dev qp"
    and "unat page + ceil_div (unat (r_size r)) (unat (r_page r)) \<le> length (r_ioaddrs r)"
    and "unat lba + unat (r_size r) div unat (r_block r) < 2 ^ 64"
    and "serves dev n lat m" "lat \<le> unat (r_timeout r * 1000000)" "idle m n c qp"
  shows "\<exists>qp' es. io_loop dev r 0 lba page qp = Some (int (unat (r_size r)), qp') \<and> events qp' = events qp @ es \<and>
    concat (map (byte_moves (unat (r_block r)) (unat (r_page r))) (submitted r qp es)) =
      request_moves r (unat lba) (unat page) (unat (r_size r))"
proof -
  let ?k = "unat (r_size r)"
  have b: "unat (r_block r) dvd ?k" using assms(1) by (simp add: request_ok_def Let_def)
  from io_loop_serves [OF assms(1,6,7,2,3,8) _ b assms(4,5), of 0] obtain qp' where
    run: "io_loop dev r 0 lba page qp = Some (int ?k, qp')" by auto
  with io_loop_plan [OF assms(1-3) _ b assms(4,5), of 0] obtain es j where
    "events qp' = events qp @ es" "submitted r qp es = take j (plan r (unat lba) (unat page) ?k)"
    "int ?k = int ?k \<and> length (plan r (unat lba) (unat page) ?k) \<le> j \<or> int ?k = - EIO" by auto
  moreover have "int ?k \<noteq> - EIO" by linarith
  ultimately show ?thesis using run plan_moves [OF assms(1) b assms(4)] by (intro exI [of _ qp'] exI [of _ es]) simp
qed

text \<open>A controller that serves at once.\<close>

definition prompt :: "nat \<Rightarrow> device" where
  "prompt n es = map (\<lambda>i. with_phase (if i < rings es mod n then even (rings es div n) else odd (rings es div n)) zero_cpl) [0..<n]"

lemma prompt_serves: "0 < n \<Longrightarrow> serves (prompt n) n 0 rings"
proof -
  assume n: "0 < n"
  have "cpl_status (with_phase b zero_cpl) = 0" for b
    by (cases b) (simp_all add: cpl_status_def with_phase_def zero_cpl_def set_bit_eq)
  moreover have "(if J mod n < k mod n then even (k div n) else odd (k div n)) = odd (J div n)" if J: "k \<le> J" "J < k + n" for J k
  proof -
    have k: "k = k div n * n + k mod n" and J': "J = J div n * n + J mod n" by simp_all
    have "k div n \<le> J div n" "J div n \<le> (k + n) div n" using J by (simp_all add: div_le_mono)
    moreover have "(k + n) div n = k div n + 1" using n by (simp add: div_add_self2)
    ultimately consider "J div n = k div n" | "J div n = k div n + 1" by linarith
    then show ?thesis
    proof cases
      case 1
      then have "k mod n \<le> J mod n" using J(1) k J' by (metis add_le_cancel_left)
      with 1 show ?thesis by simp
    next
      case 2
      then have "J = k div n * n + n + J mod n" using J' by simp
      then have "J mod n < k mod n" using J(2) k by linarith
      with 2 show ?thesis by simp
    qed
  qed
  ultimately have "ring_holds n (rings es) (prompt n es)" for es
    using n by (simp add: ring_holds_def prompt_def split del: if_split)
  then show ?thesis by (simp add: serves_def rings_def)
qed

theorem io_loop_completes_witness:
  "\<exists>qp'. io_loop (prompt 4) example_request 0 7 0 example_pair = Some (20480, qp')"
proof -
  have "dev_ok (prompt 4) example_pair" "idle rings 4 0 example_pair"
    by (simp_all add: dev_ok_def cq_wf_def prompt_def idle_def host_at_def rings_def example_pair_def nvm_queue_reset_def example_queue_def)
  moreover have "unat (r_page example_request) = 4096" "unat (r_size example_request) = 20480" by (simp_all add: example_request_def)
  ultimately show ?thesis
    using io_loop_completes [of example_request example_pair "prompt 4" 0 7 4 0 rings 0] example_io prompt_serves [of 4]
    by (auto simp: ceil_div_def example_request_def)
qed

end
