(* ===== verification/Ugds_Run.thy ===== *)
theory Ugds_Run
  imports Ugds_Safe Ugds_Live
begin

text \<open>
  The public interface as a state machine: any sequence of allowed calls from the state in which the
  process starts. No call faults, the calls implement an abstract specification, every live address holds
  one object of its kind, and when buffers and handles are given back nothing is left.
\<close>

section \<open>Calls\<close>

datatype api_call =
    Driver_open | Driver_close
  | Buf_register u64 u64 | Buf_deregister u64
  | Handle_register bool "(uGDSHandleType \<times> int) option" | Handle_deregister ptr
  | Read_at ptr u64 u64 u64 u64 | Write_at ptr u64 u64 u64 u64

datatype api_result = Status uGDSError | Handle ptr | Done | Count int

fun api_exec :: "gapi \<Rightarrow> api_call \<Rightarrow> gstate \<Rightarrow> (api_result \<times> gstate) option" where
  "api_exec api Driver_open g = Some (apfst Status (uGDSDriverOpen g))"
| "api_exec api Driver_close g = map_option (apfst Status) (uGDSDriverClose g)"
| "api_exec api (Buf_register base len) g = map_option (apfst Status) (uGDSBufRegister api base len g)"
| "api_exec api (Buf_deregister base) g = map_option (apfst Status) (uGDSBufDeregister base g)"
| "api_exec api (Handle_register fh_null descr) g = map_option (apfst (case_sum Status Handle)) (uGDSHandleRegister api fh_null descr g)"
| "api_exec api (Handle_deregister fh) g = map_option (Pair Done) (uGDSHandleDeregister api fh g)"
| "api_exec api (Read_at fh base sz file_offset buf_offset) g = map_option (apfst Count) (uGDSRead api fh base sz file_offset buf_offset g)"
| "api_exec api (Write_at fh base sz file_offset buf_offset) g = map_option (apfst Count) (uGDSWrite api fh base sz file_offset buf_offset g)"

text \<open>
  What the caller has to respect: a handle is null or registered, it has queue pairs when it is read or
  written through, and a size is one that \<open>ssize_t\<close> can express.
\<close>

fun api_allowed :: "api_call \<Rightarrow> gstate \<Rightarrow> bool" where
  "api_allowed (Handle_deregister fh) g = (fh = NULL \<or> fh \<in> fst ` set (g_handles g))"
| "api_allowed (Read_at fh base sz file_offset buf_offset) g = (io_handle fh g \<and> unat sz < 2 ^ 63)"
| "api_allowed (Write_at fh base sz file_offset buf_offset) g = (io_handle fh g \<and> unat sz < 2 ^ 63)"
| "api_allowed _ g = True"

definition no_lib :: ustate where
  "no_lib = \<lparr>u_live = [], u_bufs = [], u_devs = Map.empty, u_ctrls = Map.empty, u_vas = Map.empty, u_maps = Map.empty,
     u_dmas = Map.empty, u_admins = Map.empty, u_refs = Map.empty, u_regs = [], u_calls = []\<rparr>"

definition g_start :: gstate where
  "g_start = \<lparr>g_lib = no_lib, g_initialized = False, g_default_ctrl = NULL, g_registry = [], g_handles = []\<rparr>"

inductive api_run :: "gapi \<Rightarrow> (api_call \<times> api_result) list \<Rightarrow> gstate \<Rightarrow> bool" for api where
  start: "api_run api [] g_start"
| call: "api_run api tr g \<Longrightarrow> api_allowed c g \<Longrightarrow> api_exec api c g = Some (r, g') \<Longrightarrow> api_run api (tr @ [(c, r)]) g'"

text \<open>The system under the interface: operating system, controller and allocator behave as documented.\<close>

definition system_ok :: "gapi \<Rightarrow> bool" where
  "system_ok api \<longleftrightarrow> env_ok (lib_api api) \<and> ident_ok (lib_api api) \<and> new_ok api \<and> io_dev_ok api \<and> small_pages (sc_pagesize (lib_api api))"

lemma opcodes: "NVM_IO_READ < 0x80" "NVM_IO_WRITE < 0x80"
  by code_simp+

section \<open>Specification\<close>

text \<open>What a client sees: whether the driver is open, which buffers and which handles are registered.\<close>

record spec_state =
  sp_open :: bool
  sp_bufs :: "u64 set"
  sp_handles :: "ptr set"

definition api_abs :: "gstate \<Rightarrow> spec_state" where
  "api_abs g = \<lparr>sp_open = g_initialized g, sp_bufs = fst ` set (g_registry g), sp_handles = fst ` set (g_handles g)\<rparr>"

abbreviation status :: "uGDSOpError \<Rightarrow> api_result" where
  "status e \<equiv> Status (make_error e)"

inductive spec_step :: "spec_state \<Rightarrow> api_call \<Rightarrow> api_result \<Rightarrow> spec_state \<Rightarrow> bool" where
  driver_open: "spec_step s Driver_open (status UGDS_SUCCESS) (s\<lparr>sp_open := True\<rparr>)"
| driver_close: "sp_open s \<Longrightarrow> spec_step s Driver_close (status UGDS_SUCCESS) (s\<lparr>sp_open := False, sp_bufs := {}\<rparr>)"
| close_closed: "\<not> sp_open s \<Longrightarrow> spec_step s Driver_close (status UGDS_DRIVER_NOT_INITIALIZED) s"
| register: "sp_open s \<Longrightarrow> base \<noteq> 0 \<Longrightarrow> len \<noteq> 0 \<Longrightarrow> base \<notin> sp_bufs s \<Longrightarrow> spec_step s (Buf_register base len) (status UGDS_SUCCESS) (s\<lparr>sp_bufs := insert base (sp_bufs s)\<rparr>)"
| register_refused: "sp_open s \<Longrightarrow> base \<noteq> 0 \<Longrightarrow> len \<noteq> 0 \<Longrightarrow> base \<notin> sp_bufs s \<Longrightarrow> e \<in> {UGDS_DRIVER_NOT_INITIALIZED, UGDS_GPU_MEMORY_PINNING_FAILED} \<Longrightarrow>
    spec_step s (Buf_register base len) (status e) s"
| register_closed: "\<not> sp_open s \<Longrightarrow> spec_step s (Buf_register base len) (status UGDS_DRIVER_NOT_INITIALIZED) s"
| register_invalid: "sp_open s \<Longrightarrow> base = 0 \<or> len = 0 \<Longrightarrow> spec_step s (Buf_register base len) (status UGDS_INVALID_VALUE) s"
| register_again: "sp_open s \<Longrightarrow> base \<noteq> 0 \<Longrightarrow> len \<noteq> 0 \<Longrightarrow> base \<in> sp_bufs s \<Longrightarrow> spec_step s (Buf_register base len) (status UGDS_MEMORY_ALREADY_REGISTERED) s"
| deregister: "sp_open s \<Longrightarrow> base \<in> sp_bufs s \<Longrightarrow> spec_step s (Buf_deregister base) (status UGDS_SUCCESS) (s\<lparr>sp_bufs := sp_bufs s - {base}\<rparr>)"
| deregister_unknown: "sp_open s \<Longrightarrow> base \<notin> sp_bufs s \<Longrightarrow> spec_step s (Buf_deregister base) (status UGDS_MEMORY_NOT_REGISTERED) s"
| deregister_closed: "\<not> sp_open s \<Longrightarrow> spec_step s (Buf_deregister base) (status UGDS_DRIVER_NOT_INITIALIZED) s"
| handle: "sp_open s \<Longrightarrow> fh \<noteq> NULL \<Longrightarrow> fh \<notin> sp_handles s \<Longrightarrow>
    spec_step s (Handle_register False (Some (UGDS_HANDLE_TYPE_OPAQUE_FD, fd))) (Handle fh) (s\<lparr>sp_handles := insert fh (sp_handles s)\<rparr>)"
| handle_failed: "sp_open s \<Longrightarrow> spec_step s (Handle_register False (Some (UGDS_HANDLE_TYPE_OPAQUE_FD, fd))) (status UGDS_INTERNAL_ERROR) s"
| handle_invalid: "fh_null \<or> descr = None \<Longrightarrow> spec_step s (Handle_register fh_null descr) (status UGDS_INVALID_VALUE) s"
| handle_closed: "\<not> sp_open s \<Longrightarrow> spec_step s (Handle_register False (Some d)) (status UGDS_DRIVER_NOT_INITIALIZED) s"
| handle_type: "sp_open s \<Longrightarrow> ty \<noteq> UGDS_HANDLE_TYPE_OPAQUE_FD \<Longrightarrow> spec_step s (Handle_register False (Some (ty, fd))) (status UGDS_INVALID_FILE_TYPE) s"
| handle_null: "spec_step s (Handle_deregister NULL) Done s"
| handle_drop: "fh \<in> sp_handles s \<Longrightarrow> spec_step s (Handle_deregister fh) Done (s\<lparr>sp_handles := sp_handles s - {fh}\<rparr>)"
| read_all: "fh \<in> sp_handles s \<Longrightarrow> base \<noteq> 0 \<Longrightarrow> sz \<noteq> 0 \<Longrightarrow> spec_step s (Read_at fh base sz file_offset buf_offset) (Count (int (unat sz))) s"
| read_error: "n \<in> {- EINVAL, - EIO} \<Longrightarrow> spec_step s (Read_at fh base sz file_offset buf_offset) (Count n) s"
| write_all: "fh \<in> sp_handles s \<Longrightarrow> base \<noteq> 0 \<Longrightarrow> sz \<noteq> 0 \<Longrightarrow> spec_step s (Write_at fh base sz file_offset buf_offset) (Count (int (unat sz))) s"
| write_error: "n \<in> {- EINVAL, - EIO} \<Longrightarrow> spec_step s (Write_at fh base sz file_offset buf_offset) (Count n) s"

inductive spec_run :: "(api_call \<times> api_result) list \<Rightarrow> spec_state \<Rightarrow> bool" where
  spec_start: "spec_run [] \<lparr>sp_open = False, sp_bufs = {}, sp_handles = {}\<rparr>"
| spec_call: "spec_run tr s \<Longrightarrow> spec_step s c r s' \<Longrightarrow> spec_run (tr @ [(c, r)]) s'"

text \<open>A closed driver has no buffers.\<close>

lemma spec_closed: "spec_run tr s \<Longrightarrow> \<not> sp_open s \<Longrightarrow> sp_bufs s = {}"
proof (induction rule: spec_run.induct)
  case (spec_call tr s c r s')
  from spec_call.hyps(2) spec_call.IH spec_call.prems show ?case by cases auto
qed simp

section \<open>The calls implement the specification\<close>

lemma abs_simps [simp]: "sp_open (api_abs g) = g_initialized g" "sp_bufs (api_abs g) = fst ` set (g_registry g)" "sp_handles (api_abs g) = fst ` set (g_handles g)"
  by (simp_all add: api_abs_def)

lemma map_of_keys: "map_of al k = None \<longleftrightarrow> k \<notin> fst ` set al" "map_of al k = Some v \<Longrightarrow> k \<in> fst ` set al"
  by (simp add: map_of_eq_None_iff) (metis map_of_eq_None_iff option.distinct(1))

lemma delete_keys: "fst ` set (AList.delete k al) = fst ` set al - {k}"
  by (auto simp: AList.delete_eq)

lemma spec_open: "uGDSDriverOpen g = (e, g') \<Longrightarrow> spec_step (api_abs g) Driver_open (Status e) (api_abs g')"
  using spec_step.driver_open [of "api_abs g"] by (auto simp: uGDSDriverOpen_def api_abs_def split: if_splits)

lemma spec_close: "uGDSDriverClose g = Some (e, g') \<Longrightarrow> spec_step (api_abs g) Driver_close (Status e) (api_abs g')"
  using spec_step.driver_close [of "api_abs g"] spec_step.close_closed [of "api_abs g"]
  by (auto simp: uGDSDriverClose_def api_abs_def bind_eq_Some split: if_splits)

lemma spec_buf_register:
  assumes "uGDSBufRegister api base len g = Some (e, g')"
  shows "spec_step (api_abs g) (Buf_register base len) (Status e) (api_abs g')"
proof -
  let ?s = "api_abs g"
  note intros = spec_step.register_closed [of ?s base len] spec_step.register_invalid [of ?s base len] spec_step.register_again [of ?s base len]
    spec_step.register_refused [of ?s base len] spec_step.register [of ?s base len]
  have [simp]: "api_abs (g\<lparr>g_lib := s\<rparr>) = ?s" "api_abs (g\<lparr>g_lib := s, g_registry := (base, d) # g_registry g\<rparr>) = ?s\<lparr>sp_bufs := insert base (sp_bufs ?s)\<rparr>" for s d
    by (simp_all add: api_abs_def)
  consider "\<not> g_initialized g" | "g_initialized g" "base = 0 \<or> len = 0" | "g_initialized g" "base \<noteq> 0" "len \<noteq> 0" "map_of (g_registry g) base \<noteq> None"
    | "g_initialized g" "base \<noteq> 0" "len \<noteq> 0" "map_of (g_registry g) base = None" by blast
  then show ?thesis
  proof cases
    case 4
    then have b: "base \<notin> fst ` set (g_registry g)" by (simp add: map_of_keys)
    show ?thesis
    proof (cases "g_default_ctrl g = NULL")
      case True
      then show ?thesis using assms 4 intros(4) b by (auto simp: uGDSBufRegister_def)
    next
      case False
      then obtain x t where "nvm_dma_map_device (lib_api api) (g_default_ctrl g) base len (g_lib g) = Some (x, t)" using assms 4 by (auto simp: uGDSBufRegister_def bind_eq_Some)
      then show ?thesis using False assms 4 intros(4,5) b by (cases x) (auto simp: uGDSBufRegister_def split: if_splits)
    qed
  qed (use assms intros(1-3) in \<open>auto simp: uGDSBufRegister_def map_of_keys\<close>)
qed

lemma spec_buf_deregister:
  assumes "uGDSBufDeregister base g = Some (e, g')"
  shows "spec_step (api_abs g) (Buf_deregister base) (Status e) (api_abs g')"
proof -
  let ?s = "api_abs g"
  have [simp]: "api_abs (g\<lparr>g_lib := s, g_registry := AList.delete base (g_registry g)\<rparr>) = ?s\<lparr>sp_bufs := sp_bufs ?s - {base}\<rparr>" for s
    by (simp add: api_abs_def delete_keys)
  show ?thesis using assms spec_step.deregister_closed [of ?s base] spec_step.deregister_unknown [of ?s base] spec_step.deregister [of ?s base]
    by (auto simp: uGDSBufDeregister_def bind_eq_Some map_of_keys dest: map_of_keys(2) split: if_splits option.splits)
qed

lemma spec_handle_register:
  assumes "new_ok api" "uGDSHandleRegister api fh_null descr g = Some (x, g')"
  shows "spec_step (api_abs g) (Handle_register fh_null descr) (case_sum Status Handle x) (api_abs g')"
proof -
  let ?s = "api_abs g"
  have [simp]: "api_abs (g\<lparr>g_lib := s\<rparr>) = ?s" "api_abs (g\<lparr>g_lib := s, g_handles := (fh, hs) # g_handles g, g_default_ctrl := c\<rparr>) = ?s\<lparr>sp_handles := insert fh (sp_handles ?s)\<rparr>" for s fh hs c
    by (simp_all add: api_abs_def)
  consider "fh_null \<or> descr = None" | d where "\<not> fh_null" "descr = Some d" "\<not> g_initialized g" | ty fd where "\<not> fh_null" "descr = Some (ty, fd)" "g_initialized g" "ty \<noteq> UGDS_HANDLE_TYPE_OPAQUE_FD"
    | fd where "\<not> fh_null" "descr = Some (UGDS_HANDLE_TYPE_OPAQUE_FD, fd)" "g_initialized g"
    by (metis option.exhaust surj_pair)
  then show ?thesis
  proof cases
    case 1
    then show ?thesis using assms(2) spec_step.handle_invalid [OF 1, of ?s] by (cases descr) (auto simp: uGDSHandleRegister_def)
  next
    case (2 d)
    then show ?thesis using assms(2) spec_step.handle_closed [of ?s d] by (cases d) (auto simp: uGDSHandleRegister_def)
  next
    case (3 ty fd)
    then show ?thesis using assms(2) spec_step.handle_type [of ?s ty fd] by (auto simp: uGDSHandleRegister_def)
  next
    case (4 fd)
    have n: "operator_new api g \<noteq> NULL" "operator_new api g \<notin> fst ` set (g_handles g)" using assms(1) by (simp_all add: new_ok_def)
    obtain y t where "register_handle (lib_api api) fd (g_lib g) = Some (y, t)" using assms(2) 4 by (auto simp: uGDSHandleRegister_def bind_eq_Some Let_def)
    then show ?thesis using assms(2) 4 n spec_step.handle [of ?s "operator_new api g" fd] spec_step.handle_failed [of ?s fd]
      by (cases y) (auto simp: uGDSHandleRegister_def Let_def)
  qed
qed

lemma spec_handle_deregister:
  assumes "api_inv api g" "uGDSHandleDeregister api fh g = Some g'"
  shows "spec_step (api_abs g) (Handle_deregister fh) Done (api_abs g')"
proof (cases "fh = NULL")
  case True
  then show ?thesis using assms(2) spec_step.handle_null [of "api_abs g"] by (simp add: uGDSHandleDeregister_def)
next
  case False
  then have m: "fh \<in> fst ` set (g_handles g)" using assms(2) by (cases "map_of (g_handles g) fh") (auto simp: uGDSHandleDeregister_def dest: map_of_keys(2))
  have "g_handles g' = AList.delete fh (g_handles g)" "g_registry g' = g_registry g" "g_initialized g' = g_initialized g"
    using assms(2) False by (auto simp: uGDSHandleDeregister_def bind_eq_Some split del: if_split)
  then have "api_abs g' = (api_abs g)\<lparr>sp_handles := sp_handles (api_abs g) - {fh}\<rparr>" by (simp add: api_abs_def delete_keys)
  then show ?thesis using spec_step.handle_drop [of fh "api_abs g"] m by simp
qed

lemma io_counts:
  assumes "do_io api fh base sz file_offset buf_offset opcode g = Some (res, g')" "fh = NULL \<or> base = 0 \<or> sz = 0"
  shows "res = - EINVAL"
  using assms by (simp add: do_io_def)

lemma io_abs:
  assumes "io_done api g sz (res, g')"
  shows "api_abs g' = api_abs g"
proof -
  have e: "map_option h_num_qps (map_of (g_handles g') fh) = map_option h_num_qps (map_of (g_handles g) fh)" for fh using assms by (simp add: io_done_def)
  have "map_of (g_handles g') fh = None \<longleftrightarrow> map_of (g_handles g) fh = None" for fh using e [of fh] by (metis option.map_disc_iff)
  then show ?thesis using assms by (auto simp: io_done_def api_abs_def map_of_keys)
qed

text \<open>One step: the call returns, keeps the invariant, and does what the specification allows.\<close>

abbreviation simulates :: "gapi \<Rightarrow> api_call \<Rightarrow> gstate \<Rightarrow> bool" where
  "simulates api c g \<equiv> returns (api_exec api c g) (\<lambda>(r, g'). api_inv api g' \<and> spec_step (api_abs g) c r (api_abs g'))"

lemma system_okD:
  assumes "system_ok api"
  shows "env_ok (lib_api api)" "ident_ok (lib_api api)" "new_ok api" "io_dev_ok api" "small_pages (sc_pagesize (lib_api api))"
  using assms by (simp_all add: system_ok_def)

lemma spec_io:
  assumes "res \<in> {- EINVAL, - EIO} \<or> res = int (unat sz) \<and> fh \<in> H \<and> base \<noteq> 0 \<and> sz \<noteq> 0" "fst ` set (g_handles g) = H"
  shows "spec_step (api_abs g) (Read_at fh base sz file_offset buf_offset) (Count res) (api_abs g)" "spec_step (api_abs g) (Write_at fh base sz file_offset buf_offset) (Count res) (api_abs g)"
  using assms unfolding abs_simps(3) [symmetric] by (blast intro: spec_step.intros(19-22))+

lemma io_simulates:
  assumes sys: "system_ok api" and I: "api_inv api g" and c: "io_handle fh g \<and> unat sz < 2 ^ 63"
  shows "simulates api (Read_at fh base sz file_offset buf_offset) g" "simulates api (Write_at fh base sz file_offset buf_offset) g"
proof -
  note env = system_okD(1,4,5) [OF sys]
  have all: "\<exists>res g'. do_io api fh base sz file_offset buf_offset opcode g = Some (res, g') \<and> api_inv api g' \<and> api_abs g' = api_abs g \<and>
      (res \<in> {- EINVAL, - EIO} \<or> res = int (unat sz) \<and> fh \<in> fst ` set (g_handles g) \<and> base \<noteq> 0 \<and> sz \<noteq> 0)" if o: "opcode < 0x80" for opcode
  proof -
    obtain res g' where R: "do_io api fh base sz file_offset buf_offset opcode g = Some (res, g')" "io_done api g sz (res, g')"
      using inv_do_io [OF env I _ _ o, of fh sz base file_offset buf_offset] c unfolding returns_def by auto
    have "fh \<in> fst ` set (g_handles g) \<and> base \<noteq> 0 \<and> sz \<noteq> 0" if "res \<noteq> - EINVAL"
    proof -
      have n: "\<not> (fh = NULL \<or> base = 0 \<or> sz = 0)" using io_counts [OF R(1)] that by blast
      then obtain hs where "map_of (g_handles g) fh = Some hs" using c by (auto simp: io_handle_def split: option.splits)
      then show ?thesis using n map_of_keys(2) by fast
    qed
    moreover have "res \<in> {- EINVAL, - EIO, int (unat sz)}" "api_inv api g'" using R(2) by (simp_all add: io_done_def)
    ultimately show ?thesis using R(1) io_abs [OF R(2)] by blast
  qed
  obtain res g' where R: "do_io api fh base sz file_offset buf_offset NVM_IO_READ g = Some (res, g')" "api_inv api g'" "api_abs g' = api_abs g"
    "res \<in> {- EINVAL, - EIO} \<or> res = int (unat sz) \<and> fh \<in> fst ` set (g_handles g) \<and> base \<noteq> 0 \<and> sz \<noteq> 0" using all [OF opcodes(1)] by blast
  from R(4) have "spec_step (api_abs g) (Read_at fh base sz file_offset buf_offset) (Count res) (api_abs g')"
    unfolding R(3) by (rule spec_io [OF _ refl])
  then show "simulates api (Read_at fh base sz file_offset buf_offset) g" using R by (simp add: uGDSRead_def)
  obtain res g' where W: "do_io api fh base sz file_offset buf_offset NVM_IO_WRITE g = Some (res, g')" "api_inv api g'" "api_abs g' = api_abs g"
    "res \<in> {- EINVAL, - EIO} \<or> res = int (unat sz) \<and> fh \<in> fst ` set (g_handles g) \<and> base \<noteq> 0 \<and> sz \<noteq> 0" using all [OF opcodes(2)] by blast
  from W(4) have "spec_step (api_abs g) (Write_at fh base sz file_offset buf_offset) (Count res) (api_abs g')"
    unfolding W(3) by (rule spec_io [OF _ refl])
  then show "simulates api (Write_at fh base sz file_offset buf_offset) g" using W by (simp add: uGDSWrite_def)
qed

lemma simulatesI:
  assumes "returns m (\<lambda>(x, g'). api_inv api g' \<and> P x g')" "\<And>x g'. m = Some (x, g') \<Longrightarrow> spec_step (api_abs g) c (f x) (api_abs g')" "api_exec api c g = map_option (apfst f) m"
  shows "simulates api c g"
  using assms by (auto simp: returns_def)

lemma api_simulates:
  assumes sys: "system_ok api" and I: "api_inv api g" and c: "api_allowed c g"
  shows "simulates api c g"
proof (cases c)
  case Driver_open
  then show ?thesis using inv_open [OF I] spec_open [of g] by (cases "uGDSDriverOpen g") simp
next
  case Driver_close
  show ?thesis unfolding Driver_close by (rule simulatesI [OF inv_close [OF I] spec_close]) simp_all
next
  case (Buf_register base len)
  show ?thesis unfolding Buf_register by (rule simulatesI [OF inv_buf_register [OF system_okD(1) [OF sys] I] spec_buf_register]) simp_all
next
  case (Buf_deregister base)
  show ?thesis unfolding Buf_deregister by (rule simulatesI [OF inv_buf_deregister [OF I] spec_buf_deregister]) simp_all
next
  case (Handle_register fh_null descr)
  show ?thesis unfolding Handle_register
    by (rule simulatesI [OF inv_handle_register [OF system_okD(1-3) [OF sys] I] spec_handle_register [OF system_okD(3) [OF sys]]]) simp_all
next
  case (Handle_deregister fh)
  then have "returns (uGDSHandleDeregister api fh g) (\<lambda>g'. api_inv api g' \<and> g_handles g' = AList.delete fh (g_handles g) \<and> g_registry g' = g_registry g)"
    using inv_handle_deregister [OF I] c by simp
  then obtain g' where "uGDSHandleDeregister api fh g = Some g'" "api_inv api g'" unfolding returns_def by blast
  then show ?thesis using Handle_deregister spec_handle_deregister [OF I] by simp
next
  case (Read_at fh base sz file_offset buf_offset)
  show ?thesis unfolding Read_at by (rule io_simulates [OF sys I]) (use c Read_at in simp)
next
  case (Write_at fh base sz file_offset buf_offset)
  show ?thesis unfolding Write_at by (rule io_simulates [OF sys I]) (use c Write_at in simp)
qed

section \<open>Runs\<close>

lemma start_inv: "api_inv api g_start"
proof -
  have "\<not> holds no_lib p k" for p k by (cases k) (simp_all add: no_lib_def)
  then have "heap_ok no_lib" unfolding heap_ok_def by (simp add: no_lib_def)
  then have "lib_inv (lib_api api) (ind {}) {} no_lib"
    by (rule lib_invI) (simp_all add: no_lib_def ctrls_ok_def devs_ok_def maps_ok_def vas_ok_def dmas_ok_def admins_ok_def refs_ok_def bufs_ok_def log_ok_def owns_ok_def ind_def)
  then show ?thesis by (simp add: api_inv_def g_start_def g_ptrs_def g_bufs_def registry_ok_def handles_ok_def)
qed

lemma run_inv:
  assumes "system_ok api"
  shows "api_run api tr g \<Longrightarrow> api_inv api g \<and> spec_run tr (api_abs g)"
proof (induction rule: api_run.induct)
  case start
  show ?case using start_inv spec_run.spec_start by (simp add: g_start_def api_abs_def)
next
  case (call tr g c r g')
  then have I: "api_inv api g" "spec_run tr (api_abs g)" by blast+
  from api_simulates [OF assms I(1) call.hyps(2)] call.hyps(3) have "api_inv api g'" "spec_step (api_abs g) c r (api_abs g')" by simp_all
  then show ?case using spec_run.spec_call [OF I(2)] by blast
qed

section \<open>Nothing is left\<close>

definition calls_balanced :: "ucall list \<Rightarrow> bool" where
  "calls_balanced cs \<longleftrightarrow> (\<forall>fd. count_list cs (U_dup fd) = count_list cs (U_close fd)) \<and> (\<forall>mm n. count_list cs (U_mmap mm n) = count_list cs (U_munmap mm n)) \<and>
     (\<forall>b. count_list cs (U_map b) = count_list cs (U_unmap b)) \<and> (\<forall>fd. count_list cs (U_export_dmabuf fd) = count_list cs (U_close_dmabuf fd))"

definition nothing_left :: "ustate \<Rightarrow> bool" where
  "nothing_left s \<longleftrightarrow> u_live s = [] \<and> u_bufs s = [] \<and> calls_balanced (u_calls s)"

lemma map_emptyI: "(\<And>p x. m p = Some x \<Longrightarrow> False) \<Longrightarrow> m = Map.empty"
  by (rule ext) (metis not_None_eq)

lemma lib_empty:
  assumes "owned api {} {} s"
  shows "nothing_left s"
proof -
  have i: "ind {} = (\<lambda>p. 0)" by (rule ext) simp
  note D = assms [unfolded lib_inv_def i]
  have r: "u_refs s = Map.empty" by (rule map_emptyI) (use D in \<open>auto simp: refs_ok_def\<close>)
  then have a: "u_admins s = Map.empty" by (intro map_emptyI) (use D in \<open>auto simp: admins_ok_def\<close>)
  then have d: "u_dmas s = Map.empty" by (intro map_emptyI) (use D in \<open>auto simp: dmas_ok_def\<close>)
  then have m: "u_maps s = Map.empty" by (intro map_emptyI) (use D in \<open>auto simp: maps_ok_def unat_eq_zero\<close>)
  then have c: "u_ctrls s = Map.empty" by (intro map_emptyI) (use D r in \<open>auto simp: ctrls_ok_def unat_eq_zero\<close>)
  have v: "u_vas s = Map.empty" by (intro map_emptyI) (use D m in \<open>auto simp: vas_ok_def\<close>)
  have e: "u_devs s = Map.empty" by (intro map_emptyI) (use D c in \<open>auto simp: devs_ok_def\<close>)
  have "\<not> holds s p k" for p k using r a d m c v e by (cases k) simp_all
  then have "u_live s = []" using D unfolding heap_ok_def by (metis (no_types) last_in_set surj_pair)
  moreover have "u_bufs s = []" using D v by (cases "u_bufs s") (auto simp: bufs_ok_def split: if_splits)
  moreover have "calls_balanced (u_calls s)" using D e c v by (simp add: log_ok_def calls_balanced_def)
  ultimately show ?thesis by (simp add: nothing_left_def)
qed

lemma inv_empty: "api_inv api g \<Longrightarrow> g_handles g = [] \<Longrightarrow> g_registry g = [] \<Longrightarrow> nothing_left (g_lib g)"
  by (rule lib_empty [of "lib_api api"]) (simp add: api_inv_def g_ptrs_def g_bufs_def)

section \<open>Shutting down\<close>

text \<open>What a client does before it ends: close the driver, then give every handle back.\<close>

fun deregister_all :: "gapi \<Rightarrow> ptr list \<Rightarrow> gstate \<Rightarrow> gstate option" where
  "deregister_all api [] g = Some g"
| "deregister_all api (fh # fhs) g = do { g \<leftarrow> uGDSHandleDeregister api fh g; deregister_all api fhs g }"

definition api_shutdown :: "gapi \<Rightarrow> gstate \<Rightarrow> gstate option" where
  "api_shutdown api g = do { (_, g) \<leftarrow> uGDSDriverClose g; deregister_all api (map fst (g_handles g)) g }"

interpretation handles: release_loop "\<lambda>fhs g. api_inv api g \<and> fhs = map fst (g_handles g) \<and> g_registry g = []" "uGDSHandleDeregister api" "deregister_all api"
  for api
proof unfold_locales
  fix fh fhs g
  assume H: "api_inv api g \<and> fh # fhs = map fst (g_handles g) \<and> g_registry g = []"
  then have "fh \<notin> set fhs" using api_invD(5) [of api g] by (metis distinct.simps(2) handles_ok_def)
  then have d: "map fst (AList.delete fh (g_handles g)) = fhs"
    using H by (cases "g_handles g") (auto simp: AList.delete_id)
  have "fh \<in> fst ` set (g_handles g)" using H by (metis list.set_intros(1) list.set_map)
  then show "returns (uGDSHandleDeregister api fh g) (\<lambda>g. api_inv api g \<and> fhs = map fst (g_handles g) \<and> g_registry g = [])"
    using inv_handle_deregister [of api g fh] H d by (intro returns_mono [OF inv_handle_deregister]) auto
qed simp_all

lemma run_closed: "system_ok api \<Longrightarrow> api_run api tr g \<Longrightarrow> \<not> g_initialized g \<Longrightarrow> g_registry g = []"
  using spec_closed [of tr "api_abs g"] run_inv [of api tr g] by simp

lemma shutdown_returns:
  assumes sys: "system_ok api" and run: "api_run api tr g"
  shows "returns (api_shutdown api g) (\<lambda>g'. g_handles g' = [] \<and> g_registry g' = [] \<and> nothing_left (g_lib g'))"
proof -
  have I: "api_inv api g" using run_inv [OF sys run] by blast
  have close: "returns (uGDSDriverClose g) (\<lambda>(e, g'). api_inv api g' \<and> g_registry g' = [])"
  proof (cases "g_initialized g")
    case True
    then show ?thesis by (intro returns_mono [OF inv_close [OF I]]) auto
  next
    case False
    then show ?thesis using I run_closed [OF sys run] by (simp add: uGDSDriverClose_def)
  qed
  show ?thesis unfolding api_shutdown_def
  proof (rule returns_bind [OF close], clarify)
    fix e g' assume g': "api_inv api g'" "g_registry g' = []"
    show "returns (deregister_all api (map fst (g_handles g')) g') (\<lambda>g'. g_handles g' = [] \<and> g_registry g' = [] \<and> nothing_left (g_lib g'))"
      by (rule returns_mono [OF handles.loop_returns [of api]]) (use g' inv_empty in auto)
  qed
qed

section \<open>Well-typed references\<close>

definition well_typed :: "gstate \<Rightarrow> bool" where
  "well_typed g \<longleftrightarrow> (let live = set (u_live (g_lib g)) in distinct (map fst (u_live (g_lib g))) \<and> NULL \<notin> fst ` live \<and>
     (\<forall>(p, k)\<in>live. holds (g_lib g) p k) \<and> (\<forall>(b, d)\<in>set (g_registry g). (d, K_dma) \<in> live) \<and>
     (\<forall>(fh, hs)\<in>set (g_handles g). (h_ctrl hs, K_ctrl) \<in> live \<and> (h_aq_ref hs, K_ref) \<in> live \<and> (h_aq_dma hs, K_dma) \<in> live \<and>
        (\<forall>iq\<in>set (h_qps hs). (iq_sq_dma iq, K_dma) \<in> live \<and> (iq_cq_dma iq, K_dma) \<in> live \<and> (iq_prp_dma iq, K_dma) \<in> live)))"

lemma inv_well_typed:
  assumes I: "api_inv api g"
  shows "well_typed g"
proof -
  note D = api_invD [OF I]
  have h: "distinct (map fst (u_live (g_lib g)))" "NULL \<notin> fst ` set (u_live (g_lib g))" "(p, k) \<in> set (u_live (g_lib g)) \<longleftrightarrow> holds (g_lib g) p k" for p k
    using D(1) by (auto simp: lib_inv_def heap_ok_def)
  have q: "\<forall>iq\<in>set (h_qps hs). u_dmas (g_lib g) (iq_sq_dma iq) \<noteq> None \<and> u_dmas (g_lib g) (iq_cq_dma iq) \<noteq> None \<and> u_dmas (g_lib g) (iq_prp_dma iq) \<noteq> None"
    if o: "handle_objs hs (g_lib g)" "handle_ready (lib_api api) hs" for hs
  proof
    fix iq assume iq: "iq \<in> set (h_qps hs)"
    then have "qp_ready (lib_api api) iq" using o(2) by (simp add: handle_ready_def)
    then have "set (qp_ptrs iq) = {iq_sq_dma iq, iq_cq_dma iq, iq_prp_dma iq}" by (simp add: qp_ready_def qp_ptrs_def)
    moreover have "set (qp_ptrs iq) \<subseteq> set (qps_ptrs (h_qps hs))" using iq by (auto simp: qps_ptrs_def)
    ultimately show "u_dmas (g_lib g) (iq_sq_dma iq) \<noteq> None \<and> u_dmas (g_lib g) (iq_cq_dma iq) \<noteq> None \<and> u_dmas (g_lib g) (iq_prp_dma iq) \<noteq> None"
      using o(1) unfolding handle_objs_def by blast
  qed
  have H: "(h_ctrl hs, K_ctrl) \<in> set (u_live (g_lib g)) \<and> (h_aq_ref hs, K_ref) \<in> set (u_live (g_lib g)) \<and> (h_aq_dma hs, K_dma) \<in> set (u_live (g_lib g)) \<and>
      (\<forall>iq\<in>set (h_qps hs). (iq_sq_dma iq, K_dma) \<in> set (u_live (g_lib g)) \<and> (iq_cq_dma iq, K_dma) \<in> set (u_live (g_lib g)) \<and> (iq_prp_dma iq, K_dma) \<in> set (u_live (g_lib g)))"
    if "(fh, hs) \<in> set (g_handles g)" for fh hs
  proof -
    have o: "handle_objs hs (g_lib g)" "handle_ready (lib_api api) hs" using that D(5) by (auto simp: handles_ok_def)
    show ?thesis using q [OF o] o(1) unfolding h(3) holds.simps handle_objs_def by blast
  qed
  have "(d, K_dma) \<in> set (u_live (g_lib g))" if "(b, d) \<in> set (g_registry g)" for b d using that D(4) unfolding registry_ok_def h(3) by auto
  then show ?thesis unfolding well_typed_def Let_def using h H by (intro conjI ballI; clarify?; blast)
qed

end
