(* ===== verification/Ugds_Request.thy ===== *)
theory Ugds_Request
  imports Ugds_Run
begin

text \<open>
  Requests on registered buffers: what they ask for, byte by byte, which of them are refused, and that the
  others are carried out.
\<close>

section \<open>Requests on registered buffers\<close>

text \<open>
  What a request for \<open>n\<close> bytes asks for: byte \<open>x\<close> of it is byte \<open>file_offset + x\<close> of the namespace and byte
  \<open>buf_offset + x\<close> of the buffer, which lies on the page that the buffer's handle has for it.
\<close>

definition requested :: "u8 \<Rightarrow> u32 \<Rightarrow> u64 list \<Rightarrow> nat \<Rightarrow> nat \<Rightarrow> nat \<Rightarrow> nat \<Rightarrow> (u8 \<times> u32 \<times> nat \<times> u64) list" where
  "requested opcode ns pages p file_offset buf_offset n =
     map (\<lambda>x. (opcode, ns, file_offset + x, pages ! ((buf_offset + x) div p) + of_nat ((buf_offset + x) mod p))) [0..<n]"

lemma requested_moves:
  assumes "file_offset mod r_block r = 0" "buf_offset mod r_page r = 0" "r_page r \<noteq> 0"
  shows "request_moves r (unat (file_offset div r_block r)) (unat (buf_offset div r_page r)) n =
    requested (r_opcode r) (r_ns_id r) (r_ioaddrs r) (unat (r_page r)) (unat file_offset) (unat buf_offset) n"
proof -
  let ?p = "unat (r_page r)"
  have p: "0 < ?p" using assms(3) by (simp add: unat_gt_0)
  have "unat (file_offset mod r_block r) = 0" "unat (buf_offset mod r_page r) = 0" using assms(1,2) by simp_all
  then have m: "unat file_offset mod unat (r_block r) = 0" "unat buf_offset mod ?p = 0" by (simp_all only: unat_mod_distrib)
  then have f: "unat (file_offset div r_block r) * unat (r_block r) = unat file_offset" by (metis unat_div_distrib div_mult_mod_eq add.right_neutral)
  obtain k where k: "unat buf_offset = k * ?p" using m(2) by (metis mod_0_imp_dvd dvd_def mult.commute)
  then have "unat (buf_offset div r_page r) = k" using p by (simp add: unat_div_distrib)
  moreover have "(unat buf_offset + x) div ?p = k + x div ?p" "(unat buf_offset + x) mod ?p = x mod ?p" for x using p by (simp_all add: k)
  ultimately show ?thesis unfolding request_moves_def requested_def f by simp
qed

definition in_buffer :: "u64 \<Rightarrow> u64 \<Rightarrow> u64 \<Rightarrow> dma_container \<Rightarrow> bool" where
  "in_buffer ps sz buf_offset y \<longleftrightarrow> buf_offset mod ps = 0 \<and> unat buf_offset + unat sz \<le> length (dma_ioaddrs (dc_handle y)) * unat ps"

lemma in_buffer_pages:
  assumes ps: "small_pages ps" and b: "in_buffer ps sz buf_offset y"
  shows "unat (buf_offset div ps) + ceil_div (unat sz) (unat ps) \<le> length (dma_ioaddrs (dc_handle y))"
proof -
  let ?p = "unat ps" and ?n = "length (dma_ioaddrs (dc_handle y))"
  have p: "0 < ?p" using ps by (auto simp: small_pages_def)
  have "unat (buf_offset mod ps) = 0" using b by (simp add: in_buffer_def)
  then have "unat buf_offset mod ?p = 0" by (simp only: unat_mod_distrib)
  then obtain k where k: "unat buf_offset = k * ?p" by (metis mod_0_imp_dvd dvd_def mult.commute)
  then have "k * ?p + unat sz \<le> ?n * ?p" using b by (simp add: in_buffer_def)
  then have "unat sz \<le> (?n - k) * ?p" and "k * ?p \<le> ?n * ?p" by (simp add: diff_mult_distrib, linarith)
  then have "ceil_div (unat sz) ?p \<le> ?n - k" "k \<le> ?n" using p by (intro ceil_div_le, simp_all)
  then show ?thesis using k p by (simp add: unat_div_distrib)
qed

lemma find_registered:
  assumes ps: "small_pages (sc_pagesize (lib_api api))" and sz: "unat sz < 2 ^ 63" and off: "0 \<le> sint buf_offset"
    and d: "map_of (g_registry g) base = Some dma" and y: "u_dmas (g_lib g) dma = Some y" "addr_count y"
    and b: "in_buffer (sc_pagesize (lib_api api)) sz buf_offset y"
  shows "find_buffer api hs (sc_pagesize (lib_api api)) base sz buf_offset g = Some (Inr (dma, False, buf_offset div sc_pagesize (lib_api api)), g_lib g)"
proof -
  let ?ps = "sc_pagesize (lib_api api)"
  have le: "unat (buf_offset div ?ps) + ceil_div (unat sz) (unat ?ps) \<le> unat (dma_n_ioaddrs (dc_handle y))"
    using in_buffer_pages [OF ps b] y(2) by (simp add: addr_count_def)
  then have "unat (buf_offset div ?ps) + unat ((sz + ?ps - 1) div ?ps) \<le> unat (dma_n_ioaddrs (dc_handle y))" by (simp add: page_count [OF sz ps])
  moreover from this have "unat (buf_offset div ?ps + (sz + ?ps - 1) div ?ps) = unat (buf_offset div ?ps) + unat ((sz + ?ps - 1) div ?ps)"
    using unat_bound [of "dma_n_ioaddrs (dc_handle y)"] by (intro unat_add_le) linarith
  ultimately have "\<not> buf_offset div ?ps + (sz + ?ps - 1) div ?ps > dma_n_ioaddrs (dc_handle y)" by (simp add: not_less word_le_nat_alt)
  then show ?thesis using d y(1) b by (simp add: find_buffer_def Let_def in_buffer_def)
qed

lemma find_rejected:
  assumes ps: "small_pages (sc_pagesize (lib_api api))" and sz: "unat sz < 2 ^ 63" and off: "0 \<le> sint buf_offset"
    and d: "map_of (g_registry g) base = Some dma" and y: "u_dmas (g_lib g) dma = Some y" "addr_count y"
    and b: "\<not> in_buffer (sc_pagesize (lib_api api)) sz buf_offset y"
  shows "find_buffer api hs (sc_pagesize (lib_api api)) base sz buf_offset g = Some (Inl (- EINVAL), g_lib g)"
proof (cases "buf_offset mod sc_pagesize (lib_api api) = 0")
  case False
  then show ?thesis using d by (simp add: find_buffer_def)
next
  case True
  let ?ps = "sc_pagesize (lib_api api)"
  from registered_buffer [OF ps sz off d y, of hs] obtain x where
    x: "find_buffer api hs ?ps base sz buf_offset g = Some (x, g_lib g)" "x = Inl (- EINVAL) \<or> (\<exists>b. x = Inr b \<and> request_buffer api base sz buf_offset g b (g_lib g))" by blast
  have "x \<noteq> Inr b" for b
  proof
    assume "x = Inr b"
    then have r: "request_buffer api base sz buf_offset g b (g_lib g)" using x(2) by simp
    have p: "0 < unat ?ps" using ps by (auto simp: small_pages_def)
    have "unat (buf_offset div ?ps) + ceil_div (unat sz) (unat ?ps) \<le> length (dma_ioaddrs (dc_handle y))"
      using r d y(1) unfolding request_buffer_def by (auto split: if_splits)
    then have "(unat (buf_offset div ?ps) + ceil_div (unat sz) (unat ?ps)) * unat ?ps \<le> length (dma_ioaddrs (dc_handle y)) * unat ?ps" by (rule mult_le_mono1)
    moreover have "unat (buf_offset mod ?ps) = 0" using True by simp
    then have "unat (buf_offset div ?ps) * unat ?ps = unat buf_offset" by (metis unat_div_distrib unat_mod_distrib div_mult_mod_eq add.right_neutral)
    moreover have "unat sz \<le> ceil_div (unat sz) (unat ?ps) * unat ?ps"
      using p div_mult_mod_eq [of "unat sz + unat ?ps - 1" "unat ?ps"] mod_less_divisor [OF p, of "unat sz + unat ?ps - 1"] unfolding ceil_div_def by linarith
    ultimately have "unat buf_offset + unat sz \<le> length (dma_ioaddrs (dc_handle y)) * unat ?ps" by (simp add: add_mult_distrib)
    then show False using b True by (simp add: in_buffer_def)
  qed
  then show ?thesis using x by blast
qed

lemma turn_in:
  assumes "io_ready api g fh hs c"
  shows "unat (turn hs) < length (h_qps hs)"
  using assms turn_less [of hs] by (simp add: io_ready_def handle_ready_def)

lemma registered_request:
  assumes "io_dev_ok api" "small_pages (sc_pagesize (lib_api api))" "io_ready api g fh hs c" "io_checks fh base sz file_offset buf_offset hs" "unat sz < 2 ^ 63"
    and "map_of (g_registry g) base = Some dma" "u_dmas (g_lib g) dma = Some y" "addr_count y" "in_buffer (sc_pagesize (lib_api api)) sz buf_offset y"
    and "opcode = NVM_IO_READ \<or> opcode = NVM_IO_WRITE"
  shows "\<exists>res g' hs' es m. do_io api fh base sz file_offset buf_offset opcode g = Some (res, g') \<and> map_of (g_handles g') fh = Some hs' \<and>
    events (iq_qp (h_qps hs' ! unat (turn hs))) = events (iq_qp (h_qps hs ! unat (turn hs))) @ es \<and>
    moved (io_request_of hs (c_handle c) (dma_ioaddrs (dc_handle y)) sz opcode) (iq_qp (h_qps hs ! unat (turn hs))) es =
      take m (requested opcode (h_ns_id hs) (dma_ioaddrs (dc_handle y)) (unat (sc_pagesize (lib_api api))) (unat file_offset) (unat buf_offset) (unat sz)) \<and>
    (res = int (unat sz) \<and> unat sz \<le> m \<or> res = - EIO)"
proof -
  let ?ps = "sc_pagesize (lib_api api)" and ?r = "io_request_of hs (c_handle c) (dma_ioaddrs (dc_handle y)) sz opcode"
  have ck: "0 \<le> sint buf_offset" "file_offset mod h_block_size hs = 0" using assms(4) by (simp_all add: io_checks_def)
  have opc: "opcode < 0x80" using assms(10) opcodes by blast
  have f: "find_buffer api hs ?ps base sz buf_offset g = Some (Inr (dma, False, buf_offset div ?ps), g_lib g)"
    by (rule find_registered [OF assms(2,5) ck(1) assms(6-9)])
  from do_io_run [OF assms(1-5) opc f assms(7) in_buffer_pages [OF assms(2,9)] assms(8)] obtain res qp' es m where
    R: "do_io api fh base sz file_offset buf_offset opcode g = Some (res, g\<lparr>g_lib := g_lib g, g_handles := AList.update fh (after_io hs qp') (g_handles g)\<rparr>)"
    "events qp' = events (iq_qp (h_qps hs ! unat (turn hs))) @ es"
    "moved ?r (iq_qp (h_qps hs ! unat (turn hs))) es = take m (request_moves ?r (unat (file_offset div h_block_size hs)) (unat (buf_offset div ?ps)) (unat sz))"
    "res = int (unat sz) \<and> unat sz \<le> m \<or> res = - EIO" by auto
  have p: "page_size (c_handle c) = ?ps" "?ps \<noteq> 0" using assms(2,3) by (auto simp: io_ready_def small_pages_def)
  have "request_moves ?r (unat (file_offset div h_block_size hs)) (unat (buf_offset div ?ps)) (unat sz) =
      requested opcode (h_ns_id hs) (dma_ioaddrs (dc_handle y)) (unat ?ps) (unat file_offset) (unat buf_offset) (unat sz)"
    using requested_moves [of file_offset ?r buf_offset "unat sz"] ck(2) assms(9) p by (simp add: io_request_of_def in_buffer_def)
  moreover have "iq_qp (h_qps (after_io hs qp') ! unat (turn hs)) = qp'" using turn_in [OF assms(3)] by (simp add: after_io_def)
  ultimately show ?thesis using R by (intro exI [of _ res] exI [of _ "g\<lparr>g_lib := g_lib g, g_handles := AList.update fh (after_io hs qp') (g_handles g)\<rparr>"] exI [of _ "after_io hs qp'"] exI [of _ es] exI [of _ m]) (simp add: update_conv')
qed

lemma rejected_request:
  assumes "small_pages (sc_pagesize (lib_api api))" "io_ready api g fh hs c" "io_checks fh base sz file_offset buf_offset hs" "unat sz < 2 ^ 63"
    and "map_of (g_registry g) base = Some dma" "u_dmas (g_lib g) dma = Some y" "addr_count y" "\<not> in_buffer (sc_pagesize (lib_api api)) sz buf_offset y"
  shows "do_io api fh base sz file_offset buf_offset opcode g = Some (- EINVAL, g)"
proof -
  let ?ps = "sc_pagesize (lib_api api)"
  have ck: "0 \<le> sint buf_offset" using assms(3) by (simp add: io_checks_def)
  have "find_buffer api hs ?ps base sz buf_offset g = Some (Inl (- EINVAL), g_lib g)" by (rule find_rejected [OF assms(1,4) ck assms(5-8)])
  moreover have "?ps \<noteq> 0" using assms(1) by (auto simp: small_pages_def)
  ultimately show ?thesis using assms(2,3) by (simp add: do_io_def io_ready_def io_checks_def not_less)
qed

end
