(* ===== verification/Ugds_Example.thy ===== *)
theory Ugds_Example
  imports Ugds_Request
begin

text \<open>
  An environment that behaves as documented, and a run in it that opens the driver, registers a handle and a
  buffer. The operations are evaluated by the simplifier, one step at a time.
\<close>

section \<open>An environment\<close>

text \<open>
  A process whose allocations succeed while it has less than a thousand objects, on a kernel module that maps
  every request and a controller that serves every command at once.
\<close>

definition cc_now :: "reg_event list \<Rightarrow> u32" where
  "cc_now es = foldl (\<lambda>v e. case e of W_CC w \<Rightarrow> w | _ \<Rightarrow> v) 0 es"

definition ex_lib :: "ustate uapi" where
  "ex_lib = \<lparr>malloc = (\<lambda>s. if 1000 \<le> length (u_live s) then 0 else if length (u_live s) + 1 \<in> fst ` set (u_live s) then sum_list (map fst (u_live s)) + 1 else length (u_live s) + 1),
     posix_memalign = (\<lambda>s a n. let b = sum_list (u_bufs s) + 0x100000 in if b = 0 \<or> b \<in> set (u_bufs s) then (12, 0) else (0, b)),
     mutex_init = (\<lambda>s. 0), dup = (\<lambda>s fd. fd + 100), fcntl_setfd = (\<lambda>s fd. 0), mmap = (\<lambda>s fd n. 0x10000),
     ioctl_mem = (\<lambda>s fd req. (0, map (\<lambda>i. 0x200000 + 0x1000 * of_nat i) [0..<request_pages req])),
     errno = (\<lambda>s. 5), sc_pagesize = 0x1000, reg_cap = (\<lambda>mm. if mm = 0x10000 then Some 0x20010000FF else None), reg_ver = 0x10300,
     reg_cc = cc_now, reg_csts = (\<lambda>es. cc_now es AND 1), admin_device = prompt 256, dma_bytes = (\<lambda>es a. (replicate 4096 0)[130 := 9]),
     junk_queue = zero_queue, remote_stub = (\<lambda>s p c. (0, zero_cpl)), backend = CUDA_backend, hip_device_memory = (\<lambda>p. False),
     hip_address_range = (\<lambda>p. None), hsa_export_dmabuf = (\<lambda>s a n. (False, 0, 0))\<rparr>"

definition ex_api :: gapi where
  "ex_api = \<lparr>lib_api = ex_lib, operator_new = (\<lambda>g. Suc (sum_list (map fst (g_handles g)))), io_device = (\<lambda>g fh i. prompt 64)\<rparr>"

lemma sum_fresh: "Suc (sum_list (map fst xs)) \<notin> fst ` set xs"
proof
  assume "Suc (sum_list (map fst xs)) \<in> fst ` set xs"
  then have "Suc (sum_list (map fst xs)) \<in> set (map fst xs)" by simp
  from member_le_sum_list [OF this] show False by simp
qed

lemma ex_system: "system_ok ex_api"
proof -
  have page: "ctrl_page ((replicate 4096 0)[130 := 9])" "ns_page ((replicate 4096 0)[130 := 9])"
    by (simp_all add: ctrl_page_def ns_page_def lba_shift_def nth_list_update)
  have "os_ok ex_lib" using sum_fresh by (auto simp: os_ok_def fresh_alloc_def ex_lib_def Let_def split: if_splits)
  moreover have "CAP_MQES 0x20010000FF = 0xFF" by code_simp
  ultimately have "env_ok ex_lib" by (simp add: env_ok_def) (simp add: ex_lib_def prompt_def)
  moreover have "ident_ok ex_lib" using page by (simp add: ident_ok_def ex_lib_def)
  moreover have "new_ok ex_api" using sum_fresh by (auto simp: new_ok_def ex_api_def)
  ultimately show ?thesis by (simp add: system_ok_def ex_api_def io_dev_ok_def small_pages_def prompt_def) (simp add: ex_lib_def)
qed

section \<open>Evaluation\<close>

lemma bind_weak: "m = m' \<Longrightarrow> Option.bind m f = Option.bind m' f" by simp
lemmas weak = bind_weak option.case_cong_weak if_weak_cong sum.case_cong_weak prod.case_cong_weak let_weak_cong va_free.case_cong_weak mapping_type.case_cong_weak
lemma word_facts: "CAP_MPSMAX 0x20010000FF = 0" "CAP_MPSMIN 0x20010000FF = 0" "CAP_DSTRD 0x20010000FF = 0" "CAP_MQES 0x20010000FF = 0xFF" "CAP_TO 0x20010000FF = 1" "encode_page_size 0x1000 = 0"
  by code_simp+
lemma upts: "[0..<3] = [0,1,2::nat]" "[0..<1] = [0::nat]" by code_simp+
lemma ex_fields: "malloc ex_lib s = (if 1000 \<le> length (u_live s) then 0 else if length (u_live s) + 1 \<in> fst ` set (u_live s) then sum_list (map fst (u_live s)) + 1 else length (u_live s) + 1)"
  "posix_memalign ex_lib s a n = (let b = sum_list (u_bufs s) + 0x100000 in if b = 0 \<or> b \<in> set (u_bufs s) then (12, 0) else (0, b))"
  "mutex_init ex_lib s = 0" "dup ex_lib s fd = fd + 100" "fcntl_setfd ex_lib s fd = 0" "mmap ex_lib s fd k = 0x10000"
  "ioctl_mem ex_lib s fd req = (0, map (\<lambda>i. 0x200000 + 0x1000 * of_nat i) [0..<request_pages req])"
  "sc_pagesize ex_lib = 0x1000" "reg_cap ex_lib mm = (if mm = 0x10000 then Some 0x20010000FF else None)" "reg_cc ex_lib = cc_now" "reg_csts ex_lib = (\<lambda>es. cc_now es AND 1)"
  "admin_device ex_lib = prompt 256" "junk_queue ex_lib = zero_queue" "backend ex_lib = CUDA_backend"
  by (simp_all add: ex_lib_def)
lemma prompt_get: "i < n \<Longrightarrow> arr_get (prompt n es) i = Some (with_phase (if i < rings es mod n then even (rings es div n) else odd (rings es div n)) zero_cpl)"
  by (simp add: arr_get_def prompt_def)
lemma get0: "arr_get (x # xs) 0 = Some x" "arr_get (x # xs) 1 = arr_get xs 0" "arr_get (x # xs) (numeral n) = arr_get xs (pred_numeral n)"
  by (simp_all add: arr_get_def numeral_eq_Suc)
lemmas num = One_nat_def [symmetric] Suc_1
lemmas defs = nvm_ctrl_init_def nvm_ctrl_setup_def create_handle_def take_mem_def ulog_def free_mem_def NVM_CTRL_MEM_MINSIZE_def linux_ops_def
  open_admin_def alloc_buf_def nvm_dma_map_host_def create_mapping_descriptor_def init_mapping_def nvm_dma_init_def create_map_def nvm_ctrl_get_def create_container_def dma_map_def
  ioctl_request_def ioctl_map_def set_handle_def populate_handle_def n_ctrl_pages_def NVM_PAGE_ALIGN_def NVM_PAGE_MASK_def populate_loop.simps arr_store_def arr_set_def
  nvm_ref_get_def create_admin_def nvm_dma_remap_def get_map_def NVM_ADDR_OFFSET_def nvm_aq_create_def
lemmas ev = defs num ex_fields word_facts upts get0 Let_def

lemma reset_split: "(case nvm_raw_ctrl_reset a b c d e f of (x, es) \<Rightarrow> g x es) = g (fst (nvm_raw_ctrl_reset a b c d e f)) (snd (nvm_raw_ctrl_reset a b c d e f))"
  by (simp add: split_beta)

definition ex_ctrl :: nvm_ctrl where
  "ex_ctrl = \<lparr>page_size = 4096, dstrd = 0, timeout = 500, max_qs = 256, mm_size = 8192, mm_ptr = 65536\<rparr>"

definition ex_aq :: "ptr \<Rightarrow> nvm_dma" where
  "ex_aq d = \<lparr>dma_vaddr = 0x100000, dma_local = True, dma_contiguous = True, dma_page_size = 4096, dma_n_ioaddrs = 3, dma_ioaddrs = [2097152, 2101248, 2105344]\<rparr>"

definition ex_admin :: "qpair \<Rightarrow> local_admin" where
  "ex_admin qp = \<lparr>la_qmem = 7, la_timeout = 500, la_qp = qp\<rparr>"

definition ex_range :: "u64 \<Rightarrow> u64 \<Rightarrow> va_object" where
  "ex_range b n = Mapping \<lparr>im_type = MAP_TYPE_HOST, im_buffer = b, im_range = \<lparr>va_remote = False, va_vaddr = b, va_page_size = 4096, va_n_pages = n\<rparr>, im_dmabuf_fd = 0, im_dmabuf_offset = 0\<rparr>"

definition ex_s1 :: "qpair \<Rightarrow> ustate" where
  "ex_s1 qp = \<lparr>u_live = [(8, K_admin), (7, K_dma), (6, K_ref), (5, K_dma), (4, K_map), (3, K_va), (2, K_ctrl), (1, K_dev)], u_bufs = [0x100000], u_devs = [1 \<mapsto> 103],
     u_ctrls = [2 \<mapsto> \<lparr>c_count = 3, c_type = DEVICE_TYPE_IOCTL, c_device = 1, c_ops = linux_ops, c_handle = ex_ctrl\<rparr>],
     u_vas = [3 \<mapsto> ex_range 0x100000 3],
     u_maps = [4 \<mapsto> \<lparr>dm_count = 2, dm_ctrl = 2, dm_va = 3, dm_release = Release_mapping_descriptor, dm_unmap = Some Ioctl_unmap\<rparr>],
     u_dmas = [5 \<mapsto> \<lparr>dc_map = 4, dc_handle = ex_aq 0\<rparr>, 7 \<mapsto> \<lparr>dc_map = 4, dc_handle = ex_aq 0\<rparr>],
     u_admins = [8 \<mapsto> ex_admin qp], u_refs = [6 \<mapsto> \<lparr>ar_ctrl = 2, ar_handles = [], ar_data = 8, ar_release = Some Remove_admin, ar_stub = Some Execute_command\<rparr>],
     u_regs = snd (nvm_raw_ctrl_reset cc_now (\<lambda>es. cc_now es AND 1) ex_ctrl 2097152 2101248 []), u_calls = [U_dup 103, U_mmap 65536 8192, U_map 0x100000]\<rparr>"

lemma ex_open: "open_admin ex_lib 3 no_lib = Some (Some (fresh_handle 3 2 5 0x100000 6), ex_s1 (admin_queues ex_lib ex_ctrl (ex_aq 0) 2097152 2101248))"
  by (simp add: ev no_lib_def reset_split ex_s1_def ex_ctrl_def ex_aq_def ex_admin_def ex_range_def del: One_nat_def cong: weak)

definition aq_at :: "nat \<Rightarrow> qpair \<Rightarrow> bool" where
  "aq_at n qp \<longleftrightarrow> length (sq_mem qp) = 64 \<and> rings (events qp) = n \<and>
     head (sq qp) = of_nat n \<and> tail (sq qp) = of_nat n \<and> q_last (sq qp) = of_nat n \<and> qs (sq qp) = 64 \<and> db (sq qp) \<noteq> 0 \<and>
     head (cq qp) = of_nat n \<and> qs (cq qp) = 256 \<and> phase (cq qp)"

lemma aq_start: "aq_at 0 (admin_queues ex_lib ex_ctrl (ex_aq 0) 2097152 2101248)"
  by (simp add: aq_at_def admin_queues_def nvm_queue_clear_def ex_ctrl_def ex_aq_def ex_fields rings_def Let_def SQ_DBL_def)

abbreviation done_cpl :: nvm_cpl where
  "done_cpl \<equiv> with_phase True zero_cpl"

lemma done_cpl: "NVM_ERR_PACK (Some done_cpl) 0 = 0" "RB (ucast (NVM_CPL_STATUS done_cpl)) 0 0 \<noteq> (0 :: u64)" "cpl_dw0 done_cpl = 0"
  by code_simp+

lemma aq_step:
  assumes q: "aq_at n qp" and n: "n < 50"
  shows "\<exists>qp'. execute_command (prompt 256) (ex_admin qp) cmd cpl = Some (0, done_cpl, ex_admin qp') \<and> aq_at (n + 1) qp'"
proof -
  have u: "unat (of_nat n :: u32) = n" using n by (simp add: unat_of_nat)
  have ne: "(of_nat n :: u32) + 1 \<noteq> 64" "(of_nat n :: u32) + 1 \<noteq> 256" "(of_nat n :: u32) + 1 \<noteq> of_nat n"
  proof -
    have "unat ((of_nat n :: u32) + 1) = n + 1" using n by (simp add: unat_word_ariths u)
    then show "(of_nat n :: u32) + 1 \<noteq> 64" "(of_nat n :: u32) + 1 \<noteq> 256" "(of_nat n :: u32) + 1 \<noteq> of_nat n" using n u by auto
  qed
  have "arr_get (prompt 256 (events qp @ [SQ_doorbell (of_nat n + 1) m p])) n = Some done_cpl" for m p
    using q n by (subst prompt_get) (simp_all add: aq_at_def rings_def)
  then show ?thesis using q n u ne
    by (simp add: execute_command_def ex_admin_def nvm_sq_enqueue_def aq_at_def Let_def arr_set_def qp_submit_def nvm_sq_submit_def nvm_cq_dequeue_block_def qp_dequeue_def nvm_cq_dequeue_def nvm_cq_poll_def done_cpl dequeue_block_loop.simps
      qp_sq_update_def nvm_sq_update_def qp_cq_update_def nvm_cq_update_def rings_def)
qed

abbreviation ex_ref :: admin_ref where
  "ex_ref \<equiv> \<lparr>ar_ctrl = 2, ar_handles = [], ar_data = 8, ar_release = Some Remove_admin, ar_stub = Some Execute_command\<rparr>"

lemma ex_rpc:
  assumes "u_refs s 6 = Some ex_ref" "u_admins s = [8 \<mapsto> ex_admin qp]" "aq_at n qp" "n < 50" "m = n + 1"
  obtains f where "\<And>cmd cpl. nvm_raw_rpc ex_lib 6 cmd cpl s = Some ((0, done_cpl), s\<lparr>u_admins := [8 \<mapsto> ex_admin (f cmd cpl)]\<rparr>)" "\<And>cmd cpl. aq_at m (f cmd cpl)"
proof -
  have "\<forall>cmd cpl. \<exists>qp'. nvm_raw_rpc ex_lib 6 cmd cpl s = Some ((0, done_cpl), s\<lparr>u_admins := [8 \<mapsto> ex_admin qp']\<rparr>) \<and> aq_at (n + 1) qp'"
  proof (intro allI)
    fix cmd cpl
    obtain qp' where "execute_command (prompt 256) (ex_admin qp) cmd cpl = Some (0, done_cpl, ex_admin qp')" "aq_at (n + 1) qp'" using aq_step [OF assms(3,4)] by blast
    then show "\<exists>qp'. nvm_raw_rpc ex_lib 6 cmd cpl s = Some ((0, done_cpl), s\<lparr>u_admins := [8 \<mapsto> ex_admin qp']\<rparr>) \<and> aq_at (n + 1) qp'"
      using assms(1,2) by (intro exI [of _ qp']) (simp add: nvm_raw_rpc_def run_stub_def ex_fields done_cpl)
  qed
  then show thesis using that unfolding assms(5) by metis
qed

lemma ex_s1_fields [simp]: "u_refs (ex_s1 qp) 6 = Some ex_ref" "u_admins (ex_s1 qp) = [8 \<mapsto> ex_admin qp]" "(ex_s1 qp)\<lparr>u_admins := [8 \<mapsto> ex_admin qp']\<rparr> = ex_s1 qp'"
  "u_ctrls (ex_s1 qp) 2 = Some \<lparr>c_count = 3, c_type = DEVICE_TYPE_IOCTL, c_device = 1, c_ops = linux_ops, c_handle = ex_ctrl\<rparr>" "u_dmas (ex_s1 qp) 5 = Some \<lparr>dc_map = 4, dc_handle = ex_aq 0\<rparr>"
  by (simp_all add: ex_s1_def)

lemma ex_page: "ctrl_page (dma_bytes ex_lib es a)" "ns_page (dma_bytes ex_lib es a)"
  by (simp_all add: ctrl_page_def ns_page_def lba_shift_def nth_list_update ex_lib_def)

abbreviation ex_h1 :: HandleState where
  "ex_h1 \<equiv> fresh_handle 3 2 5 0x100000 6"

lemma ex_identify:
  assumes "aq_at 0 qp"
  obtains qp' hs where "identify ex_lib ex_h1 (ex_s1 qp) = Some (Some hs, ex_s1 qp')" "aq_at 3 qp'" "h_num_qps hs = 1" "same_base ex_h1 hs"
proof -
  obtain f where f: "\<And>cmd cpl. nvm_raw_rpc ex_lib 6 cmd cpl (ex_s1 qp) = Some ((0, done_cpl), ex_s1 (f cmd cpl))" "\<And>cmd cpl. aq_at 1 (f cmd cpl)"
    using ex_rpc [OF _ _ assms, of "ex_s1 qp" 1] by auto
  define q1 where "q1 = f (admin_identify_ctrl zero_cmd 2105344) zero_cpl"
  have "aq_at 1 q1" using f(2) by (simp add: q1_def)
  then obtain g where g: "\<And>cmd cpl. nvm_raw_rpc ex_lib 6 cmd cpl (ex_s1 q1) = Some ((0, done_cpl), ex_s1 (g cmd cpl))" "\<And>cmd cpl. aq_at 2 (g cmd cpl)"
    using ex_rpc [of "ex_s1 q1" q1 1 2] by auto
  define q2 where "q2 = g (admin_identify_ns zero_cmd 1 2105344) zero_cpl"
  have "aq_at 2 q2" using g(2) by (simp add: q2_def)
  then obtain k where k: "\<And>cmd cpl. nvm_raw_rpc ex_lib 6 cmd cpl (ex_s1 q2) = Some ((0, done_cpl), ex_s1 (k cmd cpl))" "\<And>cmd cpl. aq_at 3 (k cmd cpl)"
    using ex_rpc [of "ex_s1 q2" q2 2 3] by auto
  have c: "\<exists>i'. parse_ctrl cap (dma_bytes ex_lib es a) i = Some i'" if "i_page_size i \<noteq> 0" for cap es a i using parse_ctrl_total [OF ex_page(1) that] by blast
  have n: "\<exists>i'. parse_ns (dma_bytes ex_lib es a) i = Some i'" for es a i using lba_data_size [OF ex_page(2)] by blast
  have io: "arr_get (dma_ioaddrs (ex_aq 0)) 2 = Some 2105344" "NVM_DMA_OFFSET (ex_aq 0) 2 = 0x102000" by (simp_all add: ex_aq_def arr_get_def NVM_DMA_OFFSET_def NVM_ADDR_OFFSET_def)
  define I where "I = zero_ctrl_info\<lparr>i_nvme_version := reg_ver ex_lib, i_page_size := page_size ex_ctrl, i_db_stride := 2 ^ unat (dstrd ex_ctrl),
      i_timeout := CAP_TO 0x20010000FF * 500, i_contiguous := (CAP_CQR 0x20010000FF \<noteq> 0), i_max_entries := ucast (CAP_MQES 0x20010000FF) + 1\<rparr>"
  have "i_page_size I \<noteq> 0" by (simp add: I_def ex_ctrl_def)
  then obtain i1 where i1: "parse_ctrl 0x20010000FF (dma_bytes ex_lib (rpc_history 6 (ex_s1 q1)) 2105344) I = Some i1" using c by blast
  obtain i2 where i2: "parse_ns (dma_bytes ex_lib (rpc_history 6 (ex_s1 q2)) 2105344) (zero_ns_info\<lparr>n_ns_id := 1\<rparr>) = Some i2" using n by blast
  have mm: "mm_ptr ex_ctrl = 0x10000" by (simp add: ex_ctrl_def)
  let ?q3 = "k (admin_current_num_queues zero_cmd True 16 16) zero_cpl"
  let ?hs = "ex_h1\<lparr>h_ctrl_info := i1, h_ns_info := i2, h_block_size := n_lba_data_size i2, h_max_transfer_size := i_max_data_size i1, h_max_transfer_pages := i_max_data_pages i1, h_num_qps := 1\<rparr>"
  have a: "nvm_admin_ctrl_info ex_lib 6 (Some zero_ctrl_info) 0x102000 2105344 (ex_s1 qp) = Some ((0, Some i1), ex_s1 q1)"
    using f(1) i1 by (simp add: nvm_admin_ctrl_info_def I_def [symmetric] nvm_ctrl_from_aq_ref_def Let_def ex_fields mm nvm_ok_def NVM_ERR_PACK_def NVM_ERR_STATUS_def q1_def)
  have b: "nvm_admin_ns_info ex_lib 6 (Some zero_ns_info) 1 0x102000 2105344 (ex_s1 q1) = Some ((0, Some i2), ex_s1 q2)"
    using g(1) i2 by (simp add: nvm_admin_ns_info_def Let_def nvm_ok_def NVM_ERR_PACK_def NVM_ERR_STATUS_def q2_def)
  have d: "nvm_admin_request_num_queues ex_lib 6 16 16 (ex_s1 q2) = Some (Inr (1, 1), ex_s1 ?q3)"
    using k(1) by (simp add: nvm_admin_request_num_queues_def Let_def done_cpl)
  have "identify ex_lib ex_h1 (ex_s1 qp) = Some (Some ?hs, ex_s1 ?q3)"
    using a b d io by (simp add: identify_def Let_def nvm_ok_def UGDS_DEFAULT_NUM_QPS_def)
  then show thesis by (rule that) (use k(2) in \<open>simp_all add: same_base_def\<close>)
qed


definition ex_c :: "u32 \<Rightarrow> controller" where
  "ex_c n = \<lparr>c_count = n, c_type = DEVICE_TYPE_IOCTL, c_device = 1, c_ops = linux_ops, c_handle = ex_ctrl\<rparr>"

definition ex_dma :: "u64 \<Rightarrow> nvm_dma" where
  "ex_dma b = \<lparr>dma_vaddr = b, dma_local = True, dma_contiguous = True, dma_page_size = 4096, dma_n_ioaddrs = 1, dma_ioaddrs = [2097152]\<rparr>"

text \<open>The state with one more page of host memory, mapped.\<close>

definition with_page :: "u64 \<Rightarrow> ptr \<Rightarrow> u32 \<Rightarrow> ustate \<Rightarrow> ustate" where
  "with_page b v n s = s\<lparr>u_bufs := b # u_bufs s, u_vas := (u_vas s)(v \<mapsto> ex_range b 1), u_ctrls := [2 \<mapsto> ex_c n],
     u_live := (v + 1 + 1, K_dma) # (v + 1, K_map) # (v, K_va) # u_live s, u_calls := u_calls s @ [U_map b],
     u_maps := (u_maps s)(v + 1 \<mapsto> \<lparr>dm_count = 1, dm_ctrl = 2, dm_va = v, dm_release = Release_mapping_descriptor, dm_unmap = Some Ioctl_unmap\<rparr>),
     u_dmas := (u_dmas s)(v + 1 + 1 \<mapsto> \<lparr>dc_map = v + 1, dc_handle = ex_dma b\<rparr>)\<rparr>"

lemma map_page:
  assumes "u_ctrls s = [2 \<mapsto> ex_c n]" "u_devs s = [1 \<mapsto> 103]" "length (u_live s) + 1 = v" "fst ` set (u_live s) = {1..<v}" "v < 900" "b \<noteq> 0"
  shows "nvm_dma_map_host ex_lib 2 b 0x1000 (s\<lparr>u_bufs := b # u_bufs s\<rparr>) = Some (Inr (v + 1 + 1), with_page b v (n + 1) s)"
  using assms by (simp add: ev ex_c_def ex_ctrl_def with_page_def ex_range_def ex_dma_def del: One_nat_def cong: weak)


text \<open>The states while the queue pair is created: \<open>n\<close> pages so far, the admin queue at \<open>qp\<close>.\<close>

fun ex_st :: "nat \<Rightarrow> qpair \<Rightarrow> ustate" where
  "ex_st 0 qp = ex_s1 qp"
| "ex_st (Suc n) qp = with_page (0x200000 * 2 ^ n) (9 + 3 * n) (4 + of_nat n) (ex_st n qp)"

lemma with_page_admins: "(with_page b v n s)\<lparr>u_admins := a\<rparr> = with_page b v n (s\<lparr>u_admins := a\<rparr>)"
  by (rule ustate.equality) (simp_all add: with_page_def)

lemma with_page_fields: "u_ctrls (with_page b v n s) = [2 \<mapsto> ex_c n]" "u_devs (with_page b v n s) = u_devs s" "u_refs (with_page b v n s) = u_refs s" "u_admins (with_page b v n s) = u_admins s"
  by (simp_all add: with_page_def)

lemma ex_st_fields [simp]: "u_ctrls (ex_st n qp) = [2 \<mapsto> ex_c (3 + of_nat n)]" "u_devs (ex_st n qp) = [1 \<mapsto> 103]" "u_refs (ex_st n qp) = [6 \<mapsto> ex_ref]" "u_admins (ex_st n qp) = [8 \<mapsto> ex_admin qp]"
  "length (u_live (ex_st n qp)) = 8 + 3 * n" "(ex_st n qp)\<lparr>u_admins := [8 \<mapsto> ex_admin qp']\<rparr> = ex_st n qp'"
proof (induction n)
  case (Suc n)
  show "u_devs (ex_st (Suc n) qp) = [1 \<mapsto> 103]" "u_refs (ex_st (Suc n) qp) = [6 \<mapsto> ex_ref]" "u_admins (ex_st (Suc n) qp) = [8 \<mapsto> ex_admin qp]"
    by (simp_all only: ex_st.simps with_page_fields Suc.IH)
  show "length (u_live (ex_st (Suc n) qp)) = 8 + 3 * Suc n" using Suc.IH(5) by (simp add: with_page_def)
  show "(ex_st (Suc n) qp)\<lparr>u_admins := [8 \<mapsto> ex_admin qp']\<rparr> = ex_st (Suc n) qp'" by (simp only: ex_st.simps with_page_admins Suc.IH)
qed (simp_all add: ex_s1_def ex_c_def with_page_fields)

lemma ex_st_live: "fst ` set (u_live (ex_st n qp)) = {1..<9 + 3 * n}"
  by (induction n) (auto simp: with_page_def ex_s1_def)

lemma ex_map:
  assumes "n < 3" "b = 0x200000 * 2 ^ n"
  shows "nvm_dma_map_host ex_lib 2 b 0x1000 ((ex_st n qp)\<lparr>u_bufs := b # u_bufs (ex_st n qp)\<rparr>) = Some (Inr (11 + 3 * n), ex_st (Suc n) qp)"
proof -
  have b: "b \<noteq> 0" using assms by (auto simp: less_Suc_eq numeral_3_eq_3)
  have "nvm_dma_map_host ex_lib 2 b 0x1000 ((ex_st n qp)\<lparr>u_bufs := b # u_bufs (ex_st n qp)\<rparr>) = Some (Inr (9 + 3 * n + 1 + 1), with_page b (9 + 3 * n) (3 + of_nat n + 1) (ex_st n qp))"
    by (rule map_page) (use assms(1) b ex_st_live in simp_all)
  moreover have "3 + of_nat n + 1 = (4 + of_nat n :: u32)" by simp
  ultimately show ?thesis by (simp add: assms(2))
qed


lemma ex_alloc:
  assumes "n < 3" "b = 0x200000 * 2 ^ n"
  shows "alloc_buf ex_lib a k (ex_st n qp) = (Some b, (ex_st n qp)\<lparr>u_bufs := b # u_bufs (ex_st n qp)\<rparr>)"
proof -
  have "sum_list (u_bufs (ex_st n qp)) + 0x100000 = b" "b \<noteq> 0" "b \<notin> set (u_bufs (ex_st n qp))"
    using assms by (auto simp: less_Suc_eq numeral_3_eq_3 with_page_def ex_s1_def)
  then show ?thesis by (simp add: alloc_buf_def ex_fields Let_def)
qed

declare ex_st.simps [simp del]

lemma ex_ctrl_fields: "page_size ex_ctrl = 4096" "max_qs ex_ctrl = 256"
  by (simp_all add: ex_ctrl_def)

lemma ex_dma_fields: "dma_vaddr (ex_dma b) = b" "dma_page_size (ex_dma b) = 4096" "dma_n_ioaddrs (ex_dma b) = 1" "dma_ioaddrs (ex_dma b) = [2097152]" "dma_local (ex_dma b)"
  by (simp_all add: ex_dma_def)

lemma ex_st_dma: "u_dmas (ex_st (Suc n) qp) (11 + 3 * n) = Some \<lparr>dc_map = 10 + 3 * n, dc_handle = ex_dma (0x200000 * 2 ^ n)\<rparr>"
  by (simp add: with_page_def ex_st.simps)

lemma ex_st_rpc:
  assumes "aq_at m qp" "m < 50"
  obtains f where "\<And>cmd cpl. nvm_raw_rpc ex_lib 6 cmd cpl (ex_st n qp) = Some ((0, done_cpl), ex_st n (f cmd cpl))" "\<And>cmd cpl. aq_at (m + 1) (f cmd cpl)"
  using ex_rpc [OF _ _ assms refl, of "ex_st n qp"] by auto

lemma ex_queue:
  obtains q where "nvm_queue_clear junk ex_ctrl is_cq no 64 l v a = (0, q)"
  by (simp add: nvm_queue_clear_def ex_ctrl_def)

lemma ex_setup_cq:
  assumes "aq_at 3 qp"
  obtains q qp' where "setup_cq ex_lib 2 6 0x1000 0 zero_iq (ex_st 0 qp) = Some ((True, zero_iq\<lparr>iq_cq_buf := 0x200000, iq_cq_dma := 11, iq_qp := (iq_qp zero_iq)\<lparr>cq := q\<rparr>\<rparr>), ex_st 1 qp')" "aq_at 4 qp'"
proof -
  obtain f where f: "\<And>cmd cpl. nvm_raw_rpc ex_lib 6 cmd cpl (ex_st 1 qp) = Some ((0, done_cpl), ex_st 1 (f cmd cpl))" "\<And>cmd cpl. aq_at (3 + 1) (f cmd cpl)"
    using ex_st_rpc [OF assms, of 1] by auto
  obtain q where q: "nvm_queue_clear zero_queue ex_ctrl True 1 64 True (NVM_DMA_OFFSET (ex_dma 0x200000) 0) 2097152 = (0, q)" by (rule ex_queue)
  let ?qp = "f (admin_cq_create zero_cmd q 2097152 False) zero_cpl"
  have d: "u_dmas (ex_st 1 qp) 11 = Some \<lparr>dc_map = 10, dc_handle = ex_dma 0x200000\<rparr>" using ex_st_dma [of 0 qp] by simp
  have "nvm_admin_cq_create ex_lib 6 1 11 0 64 False (ex_st 1 qp) = Some (Inr q, ex_st 1 ?qp)"
    using f(1) d q
    by (simp add: nvm_admin_cq_create_def nvm_ctrl_from_aq_ref_def ex_c_def ex_ctrl_fields ex_dma_fields NVM_CQ_PAGES_def arr_get_def ex_fields nvm_ok_def Let_def cong: weak)
  then have "setup_cq ex_lib 2 6 0x1000 0 zero_iq (ex_st 0 qp) = Some ((True, zero_iq\<lparr>iq_cq_buf := 0x200000, iq_cq_dma := 11, iq_qp := (iq_qp zero_iq)\<lparr>cq := q\<rparr>\<rparr>), ex_st 1 ?qp)"
    using ex_alloc [of 0 "0x200000" 4096 "0x1000" qp] ex_map [of 0 "0x200000" qp] by (simp add: setup_cq_def UGDS_DEFAULT_QUEUE_DEPTH_def Let_def)
  then show thesis by (rule that) (use f(2) in simp)
qed

lemma ex_setup_sq:
  assumes "aq_at 4 qp"
  obtains iq' qp' where "setup_sq ex_lib 2 6 0x1000 0 iq (ex_st 1 qp) = Some ((True, iq'), ex_st 2 qp')" "aq_at 5 qp'"
proof -
  obtain f where f: "\<And>cmd cpl. nvm_raw_rpc ex_lib 6 cmd cpl (ex_st 2 qp) = Some ((0, done_cpl), ex_st 2 (f cmd cpl))" "\<And>cmd cpl. aq_at (4 + 1) (f cmd cpl)"
    using ex_st_rpc [OF assms, of 2] by auto
  obtain q where q: "nvm_queue_clear zero_queue ex_ctrl False 1 64 True (NVM_DMA_OFFSET (ex_dma 0x400000) 0) 2097152 = (0, q)" by (rule ex_queue)
  let ?qp = "f (admin_sq_create zero_cmd q (cq (iq_qp iq)) 2097152 False) zero_cpl"
  have d: "u_dmas (ex_st 2 qp) 14 = Some \<lparr>dc_map = 13, dc_handle = ex_dma 0x400000\<rparr>" using ex_st_dma [of 1 qp] by (simp add: numeral_2_eq_2)
  have c: "nvm_admin_sq_create ex_lib 6 (cq (iq_qp iq)) 1 14 0 64 False (ex_st 2 qp) = Some (Inr q, ex_st 2 ?qp)"
    using f(1) d q
    by (simp add: nvm_admin_sq_create_def nvm_ctrl_from_aq_ref_def ex_c_def ex_ctrl_fields ex_dma_fields NVM_SQ_PAGES_def arr_get_def ex_fields nvm_ok_def Let_def cong: weak)
  have m: "nvm_dma_map_host ex_lib 2 0x400000 0x1000 ((ex_st 1 qp)\<lparr>u_bufs := 0x400000 # u_bufs (ex_st 1 qp)\<rparr>) = Some (Inr 14, ex_st 2 qp)"
    using ex_map [of 1 "0x400000" qp] by (simp add: numeral_2_eq_2)
  have "\<exists>iq'. setup_sq ex_lib 2 6 0x1000 0 iq (ex_st 1 qp) = Some ((True, iq'), ex_st 2 ?qp)"
    using ex_alloc [of 1 "0x400000" 4096 "0x1000" qp] m c by (simp add: setup_sq_def UGDS_DEFAULT_QUEUE_DEPTH_def Let_def)
  then show thesis using that f(2) by auto
qed

lemma ex_setup_prp:
  obtains iq' where "setup_prp ex_lib 2 0x1000 iq (ex_st 2 qp) = Some ((True, iq'), ex_st 3 qp)"
proof -
  have d: "u_dmas (ex_st 3 qp) 17 = Some \<lparr>dc_map = 16, dc_handle = ex_dma 0x800000\<rparr>" using ex_st_dma [of 2 qp] by (simp add: numeral_3_eq_3)
  have m: "nvm_dma_map_host ex_lib 2 0x800000 0x1000 ((ex_st 2 qp)\<lparr>u_bufs := 0x800000 # u_bufs (ex_st 2 qp)\<rparr>) = Some (Inr 17, ex_st 3 qp)"
    using ex_map [of 2 "0x800000" qp] by (simp add: numeral_3_eq_3)
  show thesis using that ex_alloc [of 2 "0x800000" 4096 "0x1000" qp] m d by (simp add: setup_prp_def Let_def ex_dma_fields arr_get_def)
qed

lemma ex_register:
  obtains hs qp where "register_handle ex_lib 3 no_lib = Some (Some hs, ex_st 3 qp)" "h_num_qps hs = 1" "h_ctrl hs = 2"
proof -
  obtain q1 h1 where I: "identify ex_lib ex_h1 (ex_s1 (admin_queues ex_lib ex_ctrl (ex_aq 0) 2097152 2101248)) = Some (Some h1, ex_s1 q1)" "aq_at 3 q1" "h_num_qps h1 = 1" "same_base ex_h1 h1"
    by (rule ex_identify [OF aq_start])
  obtain q q2 where C: "setup_cq ex_lib 2 6 0x1000 0 zero_iq (ex_st 0 q1) = Some ((True, zero_iq\<lparr>iq_cq_buf := 0x200000, iq_cq_dma := 11, iq_qp := (iq_qp zero_iq)\<lparr>cq := q\<rparr>\<rparr>), ex_st 1 q2)" "aq_at 4 q2"
    by (rule ex_setup_cq [OF I(2)])
  obtain iq2 q3 where S: "setup_sq ex_lib 2 6 0x1000 0 (zero_iq\<lparr>iq_cq_buf := 0x200000, iq_cq_dma := 11, iq_qp := (iq_qp zero_iq)\<lparr>cq := q\<rparr>\<rparr>) (ex_st 1 q2) = Some ((True, iq2), ex_st 2 q3)"
    by (rule ex_setup_sq [OF C(2)])
  obtain iq3 where P: "setup_prp ex_lib 2 0x1000 iq2 (ex_st 2 q3) = Some ((True, iq3), ex_st 3 q3)" by (rule ex_setup_prp)
  have "create_qp ex_lib 2 6 0x1000 0 (ex_s1 q1) = Some ((True, iq3), ex_st 3 q3)" using C(1) S P by (simp add: create_qp_def ex_st.simps(1))
  then have Q: "create_qps ex_lib 2 6 0x1000 0 1 [] (ex_s1 q1) = Some (Some [iq3], ex_st 3 q3)" by (simp add: create_qps.simps)
  have "register_handle ex_lib 3 no_lib = Some (Some (h1\<lparr>h_qps := [iq3]\<rparr>), ex_st 3 q3)"
    using ex_open I Q by (simp add: register_handle_def same_base_def ex_ctrl_fields)
  then show thesis by (rule that) (use I(3,4) in \<open>simp_all add: same_base_def\<close>)
qed

section \<open>A run\<close>

lemma map_buffer:
  assumes "u_ctrls s = [2 \<mapsto> ex_c n]" "u_devs s = [1 \<mapsto> 103]" "length (u_live s) + 1 = v" "fst ` set (u_live s) = {1..<v}" "v < 900"
  shows "\<exists>t y. nvm_dma_map_device ex_lib 2 b 0x10000 s = Some (Inr (v + 1 + 1), t) \<and> u_dmas t (v + 1 + 1) = Some y \<and> length (dma_ioaddrs (dc_handle y)) = 16"
  using assms by (simp add: ev nvm_dma_map_device_def ex_c_def ex_ctrl_def del: One_nat_def cong: weak gpu_backend.case_cong_weak)

lemma ex_opened: "api_run ex_api [(Driver_open, status UGDS_SUCCESS)] (g_start\<lparr>g_initialized := True\<rparr>)"
  using api_run.call [OF api_run.start, of Driver_open ex_api] by (simp add: uGDSDriverOpen_def g_start_def)

text \<open>The driver open, one handle with one queue pair, and a buffer of sixteen pages.\<close>

lemma ex_run:
  obtains tr g hs dma y where "api_run ex_api tr g" "map_of (g_handles g) 1 = Some hs" "h_num_qps hs = 1"
    "map_of (g_registry g) 0x7000000 = Some dma" "u_dmas (g_lib g) dma = Some y" "length (dma_ioaddrs (dc_handle y)) = 16"
proof -
  let ?go = "g_start\<lparr>g_initialized := True\<rparr>"
  obtain hs qp where R: "register_handle ex_lib 3 no_lib = Some (Some hs, ex_st 3 qp)" "h_num_qps hs = 1" "h_ctrl hs = 2" by (rule ex_register)
  define g1 where "g1 = ?go\<lparr>g_lib := ex_st 3 qp, g_handles := [(1, hs)], g_default_ctrl := 2\<rparr>"
  have "uGDSHandleRegister ex_api False (Some (UGDS_HANDLE_TYPE_OPAQUE_FD, 3)) ?go = Some (Inr 1, g1)"
    using R by (simp add: uGDSHandleRegister_def g1_def g_start_def ex_api_def Let_def)
  then have r1: "api_run ex_api ([(Driver_open, status UGDS_SUCCESS)] @ [(Handle_register False (Some (UGDS_HANDLE_TYPE_OPAQUE_FD, 3)), Handle 1)]) g1"
    by (intro api_run.call [OF ex_opened]) simp_all
  obtain t y where M: "nvm_dma_map_device ex_lib 2 0x7000000 0x10000 (ex_st 3 qp) = Some (Inr 20, t)" "u_dmas t 20 = Some y" "length (dma_ioaddrs (dc_handle y)) = 16"
    using map_buffer [of "ex_st 3 qp" 6 18 "0x7000000"] ex_st_live [of 3 qp] by auto
  define g2 where "g2 = g1\<lparr>g_lib := t, g_registry := [(0x7000000, 20)]\<rparr>"
  have "uGDSBufRegister ex_api 0x7000000 0x10000 g1 = Some (make_error UGDS_SUCCESS, g2)"
    using M(1) by (simp add: uGDSBufRegister_def g1_def g2_def g_start_def ex_api_def)
  then have "api_run ex_api (([(Driver_open, status UGDS_SUCCESS)] @ [(Handle_register False (Some (UGDS_HANDLE_TYPE_OPAQUE_FD, 3)), Handle 1)]) @
      [(Buf_register 0x7000000 0x10000, status UGDS_SUCCESS)]) g2" by (intro api_run.call [OF r1]) simp_all
  then show thesis by (rule that [of _ g2 hs 20 y]) (use R(2) M in \<open>simp_all add: g2_def g1_def\<close>)
qed

end
