(* ===== verification/Ugds_Thms.thy ===== *)
theory Ugds_Thms
  imports Ugds_Example
begin

text \<open>
  The theorems about the public interface: what holds in every state that calls can reach, and what a request
  on a registered buffer does there. Each is applied to the run of \<open>Ugds_Example\<close>.
\<close>

section \<open>Requests in reachable states\<close>

text \<open>What the controller moves for the commands it fetches from a queue pair, byte by byte.\<close>

definition wire_moves :: "nat \<Rightarrow> nat \<Rightarrow> qpair \<Rightarrow> hw_event list \<Rightarrow> (u8 \<times> u32 \<times> nat \<times> u64) list" where
  "wire_moves b p qp es = concat (map (byte_moves b p \<circ> transfer_of b p (prp_ioaddr qp)) (fetched (unat (qs (sq qp))) (unat (tail (sq qp))) es))"

lemma run_request:
  assumes sys: "system_ok api" and run: "api_run api tr g" and h: "map_of (g_handles g) fh = Some hs" "h_num_qps hs \<noteq> 0"
    and y: "u_dmas (g_lib g) dma = Some y"
  obtains c where "io_ready api g fh hs c" "addr_count y" "page_size (c_handle c) = sc_pagesize (lib_api api)"
proof -
  have I: "api_inv api g" using run_inv [OF sys run] by blast
  obtain c where c: "io_ready api g fh hs c" by (rule io_ready_inv [OF I h])
  then show thesis using that owned_dma [OF api_invD(1) [OF I] y] by (simp add: io_ready_def)
qed

lemma run_block:
  assumes sys: "system_ok api" and run: "api_run api tr g" and h: "map_of (g_handles g) fh = Some hs"
  shows "fh \<noteq> NULL" "h_block_size hs \<in> {0x200, 0x400, 0x800, 0x1000}"
proof -
  have "api_inv api g" using run_inv [OF sys run] by blast
  from api_invD(5) [OF this] show "fh \<noteq> NULL" "h_block_size hs \<in> {0x200, 0x400, 0x800, 0x1000}"
    using map_of_SomeD [OF h] unfolding handles_ok_def handle_ready_def identified_def by force+
qed

lemma map_of_nonempty: "map_of xs k = Some v \<Longrightarrow> xs \<noteq> []"
  by auto

lemma ex_checks:
  assumes "api_run ex_api tr g" "map_of (g_handles g) 1 = Some hs"
  shows "io_checks 1 0x7000000 0x5000 0x8000 0 hs" "io_checks 1 0x7000000 0x5000 0x8000 0x200 hs"
  using run_block(2) [OF ex_system assms] by (auto simp: io_checks_def)

section \<open>What the library holds\<close>

text \<open>
  Reference counts: a controller is counted once for every mapping and every admin queue made from it and once
  for the handle that opened it, a mapping once for every DMA handle.
\<close>

definition counts_exact :: "gstate \<Rightarrow> bool" where
  "counts_exact g \<longleftrightarrow> (let s = g_lib g; held = (\<lambda>p. if p \<in> set (g_ptrs g) then 1 else 0) in
     (\<forall>p c. u_ctrls s p = Some c \<longrightarrow> 0 < unat (c_count c) \<and> unat (c_count c) = refs (u_maps s) dm_ctrl p + refs (u_refs s) ar_ctrl p + held p) \<and>
     (\<forall>p m. u_maps s p = Some m \<longrightarrow> 0 < unat (dm_count m) \<and> unat (dm_count m) = refs (u_dmas s) dc_map p + held p))"

lemma inv_counts: "api_inv api g \<Longrightarrow> counts_exact g \<and> log_ok (g_lib g) \<and> distinct (g_ptrs g) \<and> distinct (g_bufs g)"
  by (auto simp: api_inv_def lib_inv_def ctrls_ok_def maps_ok_def counts_exact_def ind_def unat_gt_0 Let_def)

text \<open>The environment in which the device cannot be duplicated.\<close>

definition no_dup_api :: gapi where
  "no_dup_api = ex_api\<lparr>lib_api := ex_lib\<lparr>dup := (\<lambda>s fd. - 1)\<rparr>\<rparr>"

lemma no_dup_system: "system_ok no_dup_api"
  using ex_system by (simp add: system_ok_def no_dup_api_def ex_api_def env_ok_def os_ok_def fresh_alloc_def ident_ok_def new_ok_def io_dev_ok_def)

section \<open>Theorems\<close>



text \<open>
  C7. The calls implement their specification: every run, with the results the client saw, is a run of the
  abstract machine that knows only whether the driver is open, which buffers and which handles are registered.
\<close>

theorem api_refines_spec:
  assumes "system_ok api" "api_run api tr g"
  shows "spec_run tr (api_abs g)"
  using run_inv [OF assms] by blast

theorem api_refines_spec_witness: "\<exists>tr s. spec_run tr s \<and> 1 \<in> sp_handles s \<and> 0x7000000 \<in> sp_bufs s"
proof -
  obtain tr g hs dma y where g: "api_run ex_api tr g" "map_of (g_handles g) 1 = Some hs" "h_num_qps hs = 1" "map_of (g_registry g) 0x7000000 = Some dma"
    by (rule ex_run)
  from api_refines_spec [OF ex_system g(1)] show ?thesis using map_of_SomeD [OF g(2)] map_of_SomeD [OF g(4)] by (force simp: api_abs_def)
qed

text \<open>
  C6. Nothing leaks: from every state that calls can reach, closing the driver and deregistering the handles
  returns, and leaves no object, no buffer, no open descriptor, no mapped register range and no mapping in the
  kernel module.
\<close>

theorem shutdown_leaves_nothing:
  assumes "system_ok api" "api_run api tr g"
  shows "\<exists>g'. api_shutdown api g = Some g' \<and> g_handles g' = [] \<and> g_registry g' = [] \<and> nothing_left (g_lib g')"
  using shutdown_returns [OF assms] unfolding returns_def by blast

theorem shutdown_leaves_nothing_witness:
  "\<exists>g g'. g_handles g \<noteq> [] \<and> g_registry g \<noteq> [] \<and> api_shutdown ex_api g = Some g' \<and> nothing_left (g_lib g')"
proof -
  obtain tr g hs dma y where g: "api_run ex_api tr g" "map_of (g_handles g) 1 = Some hs" "h_num_qps hs = 1" "map_of (g_registry g) 0x7000000 = Some dma"
    by (rule ex_run)
  from shutdown_leaves_nothing [OF ex_system g(1)] show ?thesis using map_of_nonempty [OF g(2)] map_of_nonempty [OF g(4)] by blast
qed

text \<open>
  C14. References are well typed: in every reachable state each live address holds one object, of the kind it was
  allocated for, and every address in the registry and in the handles is live and holds an object of the
  kind its type says.
\<close>

theorem references_well_typed:
  assumes "system_ok api" "api_run api tr g"
  shows "well_typed g"
  using run_inv [OF assms] inv_well_typed by blast

theorem references_well_typed_witness: "\<exists>g. g_handles g \<noteq> [] \<and> g_registry g \<noteq> [] \<and> well_typed g"
proof -
  obtain tr g hs dma y where g: "api_run ex_api tr g" "map_of (g_handles g) 1 = Some hs" "h_num_qps hs = 1" "map_of (g_registry g) 0x7000000 = Some dma"
    by (rule ex_run)
  from references_well_typed [OF ex_system g(1)] show ?thesis using map_of_nonempty [OF g(2)] map_of_nonempty [OF g(4)] by blast
qed

text \<open>
  C3. A request on a registered buffer is carried out: in every reachable state a request that passes the checks
  and lies inside its buffer returns its size or \<open>-EIO\<close>; the commands that the controller fetches from the queue
  pair whose turn it is move a prefix of the requested bytes, each between its place on the namespace and its
  place in the buffer, and all of them when the size is returned.
\<close>

theorem request_carried_out:
  assumes "system_ok api" "api_run api tr g" "map_of (g_handles g) fh = Some hs" "h_num_qps hs \<noteq> 0"
    and "map_of (g_registry g) base = Some dma" "u_dmas (g_lib g) dma = Some y"
    and "io_checks fh base sz file_offset buf_offset hs" "unat sz < 2 ^ 63" "in_buffer (sc_pagesize (lib_api api)) sz buf_offset y"
    and "opcode = NVM_IO_READ \<or> opcode = NVM_IO_WRITE"
  shows "\<exists>res g' hs' es m. do_io api fh base sz file_offset buf_offset opcode g = Some (res, g') \<and> map_of (g_handles g') fh = Some hs' \<and>
    events (iq_qp (h_qps hs' ! unat (turn hs))) = events (iq_qp (h_qps hs ! unat (turn hs))) @ es \<and>
    wire_moves (unat (h_block_size hs)) (unat (sc_pagesize (lib_api api))) (iq_qp (h_qps hs ! unat (turn hs))) es =
      take m (requested opcode (h_ns_id hs) (dma_ioaddrs (dc_handle y)) (unat (sc_pagesize (lib_api api))) (unat file_offset) (unat buf_offset) (unat sz)) \<and>
    (res = int (unat sz) \<and> unat sz \<le> m \<or> res = - EIO)"
proof -
  obtain c where c: "io_ready api g fh hs c" "addr_count y" "page_size (c_handle c) = sc_pagesize (lib_api api)"
    by (rule run_request [OF assms(1-4,6)])
  have e: "io_dev_ok api" "small_pages (sc_pagesize (lib_api api))" using assms(1) by (simp_all add: system_ok_def)
  from registered_request [OF e c(1) assms(7,8,5,6) c(2) assms(9,10)] show ?thesis
    unfolding wire_moves_def by (simp only: io_request_of_def c(3) map_map io_request.simps)
qed

theorem request_carried_out_witness:
  "\<exists>tr g res g'. api_run ex_api tr g \<and> do_io ex_api 1 0x7000000 0x5000 0x8000 0 NVM_IO_READ g = Some (res, g') \<and> (res = 0x5000 \<or> res = - EIO)"
proof -
  obtain tr g hs dma y where g: "api_run ex_api tr g" "map_of (g_handles g) 1 = Some hs" "h_num_qps hs = 1"
    "map_of (g_registry g) 0x7000000 = Some dma" "u_dmas (g_lib g) dma = Some y" "length (dma_ioaddrs (dc_handle y)) = 16" by (rule ex_run)
  have "in_buffer (sc_pagesize (lib_api ex_api)) 0x5000 0 y" using g(6) by (simp add: in_buffer_def ex_api_def ex_lib_def)
  from request_carried_out [OF ex_system g(1,2) _ g(4,5) ex_checks(1) [OF g(1,2)] _ this, of NVM_IO_READ] show ?thesis using g(1,3) by auto
qed



text \<open>
  C13. The library accounts for what it holds: in every reachable state the reference counts are exactly the number
  of references, no address and no buffer has two owners, and the descriptors, register ranges and kernel
  mappings that have been acquired and not released are exactly those of the live devices, controllers and
  ranges.
\<close>

theorem library_accounts:
  assumes "system_ok api" "api_run api tr g"
  shows "counts_exact g \<and> log_ok (g_lib g) \<and> distinct (g_ptrs g) \<and> distinct (g_bufs g)"
  using run_inv [OF assms] inv_counts by blast

theorem library_accounts_witness: "\<exists>g. g_handles g \<noteq> [] \<and> g_registry g \<noteq> [] \<and> counts_exact g \<and> log_ok (g_lib g)"
proof -
  obtain tr g hs dma y where g: "api_run ex_api tr g" "map_of (g_handles g) 1 = Some hs" "h_num_qps hs = 1" "map_of (g_registry g) 0x7000000 = Some dma"
    by (rule ex_run)
  from library_accounts [OF ex_system g(1)] show ?thesis using map_of_nonempty [OF g(2)] map_of_nonempty [OF g(4)] by blast
qed



text \<open>
  C37. The size of a command's transfer: for every transfer limit that identifying a controller can give and every
  page size of the host, the limit that a request uses is a whole number of pages, at least one, and no more
  than the two page pointers of a command and one page of a PRP list can describe.
\<close>

theorem max_xfer_fits:
  assumes "xfer_size m" "ps \<in> {0x1000, 0x2000, 0x4000, 0x8000, 0x10000}"
  shows "unat ps \<le> unat (max_xfer m ps) \<and> unat ps dvd unat (max_xfer m ps) \<and> unat (max_xfer m ps) \<le> (unat ps div 8 + 1) * unat ps"
  using max_xfer_bounds [OF assms] by blast

theorem max_xfer_fits_witness: "unat (max_xfer 0 0x1000) \<le> 513 * 4096"
  using max_xfer_fits [of 0 "0x1000"] by (simp add: xfer_size_def)



end
