(* ===== verification/Spec2Isabelle.thy ===== *)
theory Spec2Isabelle
  imports Drv_Addr Nvm_Pages Ugds_Thms
begin

text \<open>
  Verification of uGDS, which moves data between an NVMe controller and GPU memory from user space.

  \<^bold>\<open>The program.\<close> A kernel module (\<open>drv/\<close>) binds NVMe controllers, maps their registers into a process, and pins
  host memory, NVIDIA memory or DMA-buf memory, handing the bus addresses to the process. A library
  (\<open>src/libnvm/\<close>, \<open>include/libnvm/\<close>) drives a controller through the mapped registers: it resets it, creates the
  admin queue, builds commands and page lists, and runs submission and completion rings. The public interface
  (\<open>include/ugds.h\<close>, \<open>src/ugds_*.cpp\<close>) registers controllers as handles with queue pairs, registers buffers, and
  reads and writes. The interface calls the library, the library calls the module through \<open>ioctl\<close>.

  \<^bold>\<open>Conventions.\<close> A function that may fault, or not end, has an option as its result, and \<open>None\<close> is an access to
  memory that is not live, a free of such memory, an index out of range, a division by zero, a lock taken twice,
  or an endless loop. Errors that the code returns are values. Pointers are natural numbers, machine integers
  are words of their width and wrap around. State is passed explicitly: \<open>kstate\<close> in the module, \<open>ustate\<close> in the
  library, \<open>gstate\<close> in the interface, with one typed heap for every structure and a log of the calls made to
  the system below. What the sources only call is a parameter: \<open>kapi\<close> is the Linux kernel and the GPU drivers,
  \<open>uapi\<close> and \<open>gapi\<close> the C library, the system calls and the controller.

  \<^bold>\<open>The kernel module.\<close>
  \<^item> \<open>Drv_List\<close> (\<open>list.h\<close>, \<open>list.c\<close>): intrusive circular lists over a heap of nodes; insertion appends, removal
    deletes. The locale \<open>intrusive_list\<close> is what the other components use of them.
  \<^item> \<open>Drv_State\<close>, \<open>Drv_Ctrl\<close> (\<open>ctrl.h\<close>, \<open>ctrl.c\<close>): the state, the log, and controller references.
  \<^item> \<open>Sg_Flatten\<close> (\<open>sg_flatten_to_addrs\<close> of \<open>map.c\<close>): flattening a scatter/gather table equals a reference
    definition, page by page and byte by byte.
  \<^item> \<open>Drv_Map\<close>, \<open>Drv_Map_Inv\<close> (\<open>map.h\<close>, \<open>map.c\<close>): mappings of the three kinds, their invariant, and the locale
    \<open>mapping_setup\<close> that the three set-up routines satisfy.
  \<^item> \<open>Drv_Pci\<close>, \<open>Drv_Module\<close> (\<open>pci.c\<close>, \<open>ioctl.h\<close>): probe, removal, \<open>ioctl\<close>, \<open>mmap\<close>, load and unload; the module as
    a state machine (\<open>reach\<close>). No event faults, what is held is what the live mappings hold, unloading releases
    all of it, and a process unmaps only its own memory.
  \<^item> \<open>Drv_Addr\<close>: which bus addresses the mapping requests deliver.

  \<^bold>\<open>The library.\<close>
  \<^item> \<open>Nvm_Util\<close>, \<open>Nvm_Pages\<close> (\<open>nvm_util.h\<close>, \<open>lib_util.h\<close>, \<open>regs.h\<close>): bit fields, pages, registers, doorbells.
  \<^item> \<open>Nvm_Error\<close> (\<open>nvm_error.h\<close>, \<open>error.cpp\<close>): status codes, which packing preserves, and their messages.
  \<^item> \<open>Nvm_Queue\<close>, \<open>Nvm_Ring\<close> (\<open>nvm_queue.h\<close>, \<open>queue.cpp\<close>): rings; a submission ring implements the locale
    \<open>bounded_fifo\<close>, and a completion ring delivers every completion once under every interleaving with the
    controller.
  \<^item> \<open>Nvm_Cmd\<close> (\<open>nvm_cmd.h\<close>): commands, and the page lists that describe a buffer.
  \<^item> \<open>Lib_State\<close>, \<open>Lib_Ctrl\<close>, \<open>Lib_Reset\<close>, \<open>Lib_Dma\<close>, \<open>Lib_Rpc\<close>, \<open>Lib_Admin\<close> (\<open>ctrl.cpp\<close>, \<open>linux_device.cpp\<close>, \<open>dma.cpp\<close>,
    \<open>linux_dma.cpp\<close>, \<open>rpc.cpp\<close>, \<open>admin.cpp\<close>): reference-counted controllers, DMA handles and admin queues, and
    the admin commands.
  \<^item> \<open>Lib_Inv\<close>: the invariant. \<open>Lib_Exact\<close>, \<open>Lib_Frame\<close>, \<open>Lib_Own\<close>, \<open>Lib_Steps\<close>, \<open>Lib_Aq\<close>, \<open>Lib_Bind\<close>, \<open>Lib_Identify\<close>
    show that every operation returns and keeps it, and that a failed one leaves nothing behind; \<open>Lib_Client\<close>
    states this as a client uses it (\<open>owned\<close>, \<open>stable\<close>, \<open>returns\<close>).

  \<^bold>\<open>The public interface.\<close>
  \<^item> \<open>Ugds_Api\<close> (\<open>ugds_driver.cpp\<close>, \<open>ugds_buf.cpp\<close>, \<open>ugds_handle.cpp\<close>, \<open>ugds_io.cpp\<close>): all calls of the interface.
  \<^item> \<open>Ugds_Io\<close>, \<open>Ugds_Live\<close>: the transfer loop moves the requested bytes, and ends with all of them moved when the
    controller serves what is submitted.
  \<^item> \<open>Ugds_Qp\<close>, \<open>Ugds_Handle\<close>, \<open>Ugds_Inv\<close>, \<open>Ugds_Safe\<close>: queue pairs, handles, and the invariant \<open>api_inv\<close> of the
    interface. The locale \<open>release_loop\<close> covers the loops that release queue pairs, buffers and handles.
  \<^item> \<open>Ugds_Run\<close>, \<open>Ugds_Request\<close>, \<open>Ugds_Thms\<close>: any sequence of calls (\<open>api_run\<close>), its abstract specification
    (\<open>spec_step\<close>), and what holds in every reachable state. \<open>Ugds_Example\<close> is an environment that meets all
    hypotheses and a run in it that registers a handle and a buffer.

  This theory joins the two sides: the kernel module delivers what the library relies on.

  \<^bold>\<open>Hypotheses.\<close> \<open>allowed\<close> (module) asks for fresh allocations and the documented results of \<open>get_user_pages\<close>, of the
  NVIDIA interface and, where resources are counted, of DMA mapping; and for page counts for which the size
  of a descriptor does not wrap around. \<open>system_ok\<close> (interface) asks of the allocator that live addresses are not
  handed out again and that fewer than \<open>2 ^ 32\<close> objects are live; of a successful \<open>ioctl\<close> that it stored the
  addresses asked for; of the controller that its registers can be read, that its queues hold a page of
  entries and that its identification follows the specification (blocks of 512 to 4096 bytes); and pages of 4
  or 8 KiB, because with larger ones the block count of a command can exceed 16 bits. \<open>api_allowed\<close> asks of the
  caller that handles are registered and have queue pairs, and that sizes fit \<open>ssize_t\<close>.

  \<^bold>\<open>Bounds.\<close> No definition has fuel. Loops with a decreasing measure are functions with a termination proof; the
  transfer loop, list walks and waits that depend on memory or on the controller are partial functions, and
  that they return is part of the theorems (a wait ends because its time limit decreases).

  \<^bold>\<open>Not modelled.\<close> Handlers and library functions that hold a lock for their whole body are atomic, and calls run
  one at a time; the cache flushes and fences then have no effect. Mutexes and debug output have no state of
  their own. The cluster backend (\<open>__DIS_CLUSTER__\<close>) calls a library that is not part of the sources; a remote stub
  is a parameter. Headers that only declare, the examples, tests, scripts and build files define no behaviour
  of the system.
\<close>

section \<open>The library and the kernel module\<close>

text \<open>
  The request that the library makes (\<open>ioctl_map\<close> of \<open>linux_device.cpp\<close>) as the kernel module receives it, with the
  address of the array for the result.
\<close>

fun to_ioctl :: "u64 \<Rightarrow> mem_ioctl \<Rightarrow> ioctl" where
  "to_ioctl dst (Map_host b n) = NVM_MAP_HOST_MEMORY \<lparr>vaddr_start = b, n_pages = n, ioaddrs = dst\<rparr>"
| "to_ioctl dst (Map_device b n) = NVM_MAP_DEVICE_MEMORY \<lparr>vaddr_start = b, n_pages = n, ioaddrs = dst\<rparr>"
| "to_ioctl dst (Map_dmabuf b fd off sz n) = NVM_MAP_DMABUF_MEMORY
     \<lparr>gpu_ptr = b, dmabuf_fd = fd, dmabuf_offset = off, buf_size = sz, ioaddrs_capacity = n, ioaddrs_out = dst\<rparr>"
| "to_ioctl dst (Unmap b) = NVM_UNMAP_MEMORY b"

text \<open>A kernel that pins all pages of a range or none.\<close>

definition pins_all :: "kapi \<Rightarrow> bool" where
  "pins_all api \<longleftrightarrow> (\<forall>v n. n \<noteq> 0 \<longrightarrow> fst (get_user_pages api v n) < 0 \<or> fst (get_user_pages api v n) = int (unat n))"

text \<open>Mapping requests for the backend of the module, with sizes in pages that do not wrap around in bytes.\<close>

fun fits :: "Drv_Pci.backend \<Rightarrow> mem_ioctl \<Rightarrow> bool" where
  "fits b (Map_host v n) \<longleftrightarrow> True"
| "fits b (Map_device v n) \<longleftrightarrow> b = CUDA \<and> unat n < 2 ^ 32"
| "fits b (Map_dmabuf v fd off sz n) \<longleftrightarrow> b = HIP \<and> sz = 0x1000 * n \<and> unat n < 2 ^ 52"
| "fits b (Unmap v) \<longleftrightarrow> False"

lemma pages_of_bytes: "unat n < 2 ^ 52 \<Longrightarrow> 0x1000 * n div PAGE_SIZE = (n :: u64)"
  by (simp add: PAGE_SIZE_def word_unat_eq_iff unat_div_distrib unat_word_ariths)

lemma contract:
  assumes api: "pages_api api" "pins_all api" "p2p_api api" "attach_errs api" and inv: "drv_inv s cs hs ds" "kmalloc api A_map \<notin> dom (nodes (lm s))"
    and req: "fits b req" and run: "map_ioctl b api i_cdev (to_ioctl dst req) s = Some (0, s')"
  shows "\<exists>addrs ks. kstate.calls s' = ks @ [K_copy_to_user dst addrs] \<and> length addrs = request_pages req"
proof (cases req)
  case (Map_host v n)
  obtain ctrl where c: "ctrl_find_by_inode ctrl_list i_cdev s = Some ctrl" using run by (auto simp: map_ioctl_def bind_eq_Some)
  have some: "pins_some api"
    unfolding pins_some_def
  proof (intro allI impI)
    fix v and n :: u64 assume "n \<noteq> 0"
    then have "0 < unat n" by (simp add: unat_gt_0)
    then have "0 < int (unat n)" by (simp only: of_nat_0_less_iff)
    then show "fst (get_user_pages api v n) \<noteq> 0" using api(2) \<open>n \<noteq> 0\<close> unfolding pins_all_def by (metis less_irrefl)
  qed
  let ?q = "\<lparr>vaddr_start = v, n_pages = n, ioaddrs = dst\<rparr>"
  obtain c' got where g: "ctrls s ctrl = Some c'" "get_user_pages api (vaddr_start ?q AND PAGE_MASK) (n_pages ?q) = (int (length got), got)" "got \<noteq> []" "length got \<le> unat (n_pages ?q)"
    "kstate.calls s' = kstate.calls s @ map K_get_page got @ map (\<lambda>q. K_dma_map (c_pdev c') (dma_map_page api (c_pdev c') q)) got @
      [K_copy_to_user (ioaddrs ?q) (map (dma_map_page api (c_pdev c')) got)]"
    by (rule host_map_result [OF api(1) some run [unfolded Map_host to_ioctl.simps] c])
  then have "n \<noteq> 0" by auto
  then have "length got = unat n" using api(2) g(2) unfolding pins_all_def nvm_ioctl_map.simps by (metis fst_conv nat_int of_nat_less_0_iff)
  then show ?thesis using g(5) Map_host
    by (intro exI [of _ "map (dma_map_page api (c_pdev c')) got"]) (simp only: append_assoc [symmetric] length_map request_pages.simps nvm_ioctl_map.simps, blast)
next
  case (Map_device v n)
  then have "b = CUDA" "unat n < 2 ^ 32" using req by simp_all
  with device_map_result [OF inv(1) run [unfolded Map_device \<open>b = CUDA\<close> to_ioctl.simps] _ api(3) inv(2)] show ?thesis
    unfolding Map_device by fastforce
next
  case (Map_dmabuf v fd off sz n)
  then have "b = HIP" "sz = 0x1000 * n" "unat n < 2 ^ 52" using req by simp_all
  with dmabuf_map_result [OF run [unfolded Map_dmabuf \<open>b = HIP\<close> to_ioctl.simps] api(4)] pages_of_bytes [of n] show ?thesis
    unfolding Map_dmabuf by fastforce
qed (use req in simp)


definition full_api :: kapi where
  "full_api = short_api\<lparr>get_user_pages := (\<lambda>v n. (int (unat n), map Suc [0..<unat n]))\<rparr>"


end
